(* ===== verification/Prelude.thy ===== *)
theory Prelude
  imports Main "HOL-Library.Word"
begin

text \<open>
  Shared vocabulary of the development: names for the C integer types, the ways a C
  routine can leave other than by returning a value, the sequencing of fallible steps,
  and the arithmetic of little-endian limb arrays.

  \<^item> \<open>u8\<close> \dots \<open>u128\<close> are the unsigned C types, with wrap-around arithmetic.  A C
    \<open>int32_t\<close> or \<open>int64_t\<close> is an \<open>int\<close>; the places where the source converts one
    to an unsigned type are written out with \<open>word_of_int\<close>.
  \<^item> \<open>cl_error\<close> lists the exits of a routine: the condition signalled by
    \<open>cl_error\<close> / \<open>cl_storage_error\<close> (both leave by a non-local exit and do not
    return), the hand-over to the C floating-point code, a read of memory that is not
    the object the code takes it for, and a loop that never ends.
  \<^item> \<open>lval\<close> reads a limb array as a natural number; the lemmas about it carry every
    proof about the multi-precision routines.
\<close>

section \<open>Types and exits\<close>

type_synonym u8 = "8 word"
type_synonym u16 = "16 word"
type_synonym u32 = "32 word"
type_synonym u64 = "64 word"
type_synonym u128 = "128 word"

datatype cl_error =
    Type_Error string
  | Args_Error string
  | Div_Zero
  | Storage_Error
  | Float_Path string
  | Undefined
  | No_Return

type_synonym 'a res = "cl_error + 'a"

definition bindr :: "'a res \<Rightarrow> ('a \<Rightarrow> 'b res) \<Rightarrow> 'b res" where
  "bindr m f = (case m of Inl e \<Rightarrow> Inl e | Inr x \<Rightarrow> f x)"

lemma bindr_simps [simp]:
  "bindr (Inl e) f = Inl e"
  "bindr (Inr x) f = f x"
  by (simp_all add: bindr_def)

lemma bindr_eq_Inr: "bindr m f = Inr y \<longleftrightarrow> (\<exists>x. m = Inr x \<and> f x = Inr y)"
  by (cases m) auto

lemma bindr_cong [fundef_cong]:
  "m = m' \<Longrightarrow> (\<And>x. m' = Inr x \<Longrightarrow> f x = f' x) \<Longrightarrow> bindr m f = bindr m' f'"
  by (cases m') auto

section \<open>Collections of facts\<close>

named_theorems lval_simps \<open>values of limb arrays\<close>
named_theorems word_parts \<open>low and high halves of double-width intermediates\<close>

unbundle bit_operations_syntax

section \<open>Low and high parts of a word\<close>

lemma unat_lo_part:
  fixes s :: "'b::len word"
  assumes "LENGTH('a::len) \<le> LENGTH('b)"
  shows "unat (ucast (s AND mask LENGTH('a)) :: 'a word) = unat s mod 2 ^ LENGTH('a)"
proof -
  have "unat (ucast (s AND mask LENGTH('a)) :: 'a word)
      = take_bit LENGTH('a) (take_bit LENGTH('a) (unat s))"
    using assms by (simp only: unsigned_ucast_eq flip: take_bit_eq_mask)
      (simp add: unsigned_take_bit_eq)
  then show ?thesis by (simp add: take_bit_eq_mod)
qed

lemma unat_ucast_wide:
  assumes "LENGTH('a::len) \<le> LENGTH('b::len)"
  shows "unat (ucast (x :: 'a word) :: 'b word) = unat x"
proof -
  have "unat x < 2 ^ LENGTH('b)"
  proof (rule less_le_trans)
    show "unat x < 2 ^ LENGTH('a)" by (rule unsigned_less)
    show "2 ^ LENGTH('a) \<le> (2 :: nat) ^ LENGTH('b)" using assms by simp
  qed
  then show ?thesis by (simp add: unsigned_ucast_eq take_bit_nat_eq_self)
qed

lemma unat_hi_part: "unat (drop_bit n (s :: 'b::len word)) = unat s div 2 ^ n"
  by (subst unat_drop_bit_eq) (simp add: drop_bit_eq_div)

lemma mask16: "(0xFFFF :: u32) = mask LENGTH(16)"
  by (simp add: mask_eq_exp_minus_1)

lemma mask32: "(0xFFFFFFFF :: u64) = mask LENGTH(32)"
  by (simp add: mask_eq_exp_minus_1)

lemma unat_lo16 [word_parts]: "unat (ucast ((s :: u32) AND 0xFFFF) :: u16) = unat s mod 65536"
  unfolding mask16 by (subst unat_lo_part) simp_all

lemma unat_lo32 [word_parts]:
  "unat (ucast ((s :: u64) AND 0xFFFFFFFF) :: u32) = unat s mod 4294967296"
  unfolding mask32 by (subst unat_lo_part) simp_all

lemma unat_hi16 [word_parts]: "unat (drop_bit 16 (s :: u32)) = unat s div 65536"
  by (simp add: unat_hi_part)

lemma unat_hi32 [word_parts]: "unat (drop_bit 32 (s :: u64)) = unat s div 4294967296"
  by (simp add: unat_hi_part)

lemma unat_lt16: "unat (x :: u16) < 65536"
  using unsigned_less [of x] by simp

lemma unat_lt32: "unat (x :: u32) < 4294967296"
  using unsigned_less [of x] by simp

lemma unat_le16: "unat (x :: u16) \<le> 65535"
  using unat_lt16 [of x] by linarith

lemma unat_ucast16_32 [simp, word_parts]: "unat (ucast (x :: u16) :: u32) = unat x"
  by (simp add: unat_ucast_wide)

lemma unat_ucast32_64 [simp, word_parts]: "unat (ucast (x :: u32) :: u64) = unat x"
  by (simp add: unat_ucast_wide)

lemma unat_ucast16_64 [simp, word_parts]: "unat (ucast (x :: u16) :: u64) = unat x"
  by (simp add: unat_ucast_wide)

lemma unat_add_small:
  "unat a + unat b < 2 ^ LENGTH('a) \<Longrightarrow> unat (a + b :: 'a::len word) = unat a + unat b"
  by (simp add: unat_word_ariths)

lemma unat_mult_small:
  "unat a * unat b < 2 ^ LENGTH('a) \<Longrightarrow> unat (a * b :: 'a::len word) = unat a * unat b"
  by (simp add: unat_word_ariths)

section \<open>Limb arrays\<close>

primrec lval :: "'a::len word list \<Rightarrow> nat" where
  "lval [] = 0"
| "lval (x # xs) = unat x + 2 ^ LENGTH('a) * lval xs"

lemma lval_append [lval_simps]:
  "lval (xs @ ys :: 'a::len word list) = lval xs + 2 ^ (LENGTH('a) * length xs) * lval ys"
  by (induction xs) (simp_all add: algebra_simps power_add)

lemma lval_replicate_0 [simp]: "lval (replicate n (0 :: 'a::len word)) = 0"
  by (induction n) simp_all

lemma lval_bound: "lval (xs :: 'a::len word list) < 2 ^ (LENGTH('a) * length xs)"
proof (induction xs)
  case (Cons x xs)
  have "unat x + 2 ^ LENGTH('a) * lval xs < 2 ^ LENGTH('a) + 2 ^ LENGTH('a) * lval xs"
    using unsigned_less [of x] by simp
  also have "\<dots> \<le> 2 ^ LENGTH('a) * 2 ^ (LENGTH('a) * length xs)"
  proof -
    have "1 + lval xs \<le> 2 ^ (LENGTH('a) * length xs)" using Cons by simp
    then have "2 ^ LENGTH('a) * (1 + lval xs) \<le> 2 ^ LENGTH('a) * 2 ^ (LENGTH('a) * length xs)"
      by (rule mult_le_mono2)
    then show ?thesis by (simp add: algebra_simps)
  qed
  finally show ?case by (simp add: power_add)
qed simp

lemma lval_eq_0_iff: "lval (xs :: 'a::len word list) = 0 \<longleftrightarrow> (\<forall>x \<in> set xs. x = 0)"
  by (induction xs) (auto simp: unat_eq_zero)

lemma lval_inj:
  "length xs = length ys \<Longrightarrow> lval xs = lval (ys :: 'a::len word list) \<Longrightarrow> xs = ys"
proof (induction xs ys rule: list_induct2)
  case (Cons x xs y ys)
  let ?B = "2 ^ LENGTH('a) :: nat"
  have "(unat x + ?B * lval xs) mod ?B = (unat y + ?B * lval ys) mod ?B"
    using Cons.prems by simp
  then have "unat x = unat y"
    using unsigned_less [of x] unsigned_less [of y] by simp
  with Cons show ?case by (simp add: word_unat_eq_iff)
qed simp

lemma lval_last_lower:
  assumes "xs \<noteq> []" and "last xs \<noteq> (0 :: 'a::len word)"
  shows "2 ^ (LENGTH('a) * (length xs - 1)) \<le> lval xs"
proof -
  from assms(1) have split: "xs = butlast xs @ [last xs]" by simp
  have "1 \<le> unat (last xs)" using assms(2) by (simp add: Suc_le_eq unat_gt_0)
  then have "2 ^ (LENGTH('a) * (length xs - 1))
      \<le> 2 ^ (LENGTH('a) * (length xs - 1)) * unat (last xs)" by simp
  also have "\<dots> \<le> lval (butlast xs @ [last xs])"
    by (simp add: lval_append)
  finally show ?thesis using split by simp
qed

text \<open>The loop \<open>while (len > 1 && limbs[len-1] == 0) len--;\<close> that ends most routines.\<close>

function strip_zeros :: "'a::zero list \<Rightarrow> 'a list" where
  "strip_zeros xs = (if 1 < length xs \<and> last xs = 0 then strip_zeros (butlast xs) else xs)"
  by pat_completeness auto
termination
  by (relation "measure length") auto

declare strip_zeros.simps [simp del]

lemma lval_strip_zeros [simp, lval_simps]: "lval (strip_zeros xs :: 'a::len word list) = lval xs"
proof (induction xs rule: strip_zeros.induct)
  case (1 xs)
  show ?case
  proof (cases "1 < length xs \<and> last xs = 0")
    case True
    then have "xs \<noteq> []" by auto
    then have "lval xs = lval (butlast xs @ [last xs])" by simp
    also have "\<dots> = lval (butlast xs)" using True by (simp only: lval_append) simp
    finally show ?thesis
      using 1 True by (simp add: strip_zeros.simps [of xs])
  next
    case False
    then show ?thesis by (auto simp: strip_zeros.simps [of xs])
  qed
qed

lemma strip_zeros_nonempty [simp]: "strip_zeros xs = [] \<longleftrightarrow> xs = []"
  by (induction xs rule: strip_zeros.induct)
     (subst strip_zeros.simps, auto simp: butlast_conv_take)

lemma strip_zeros_last: "1 < length (strip_zeros xs) \<Longrightarrow> last (strip_zeros xs) \<noteq> 0"
proof (induction xs rule: strip_zeros.induct)
  case (1 xs)
  show ?case
  proof (cases "1 < length xs \<and> last xs = 0")
    case True
    with 1 show ?thesis by (simp add: strip_zeros.simps [of xs])
  next
    case False
    with 1(2) show ?thesis by (auto simp: strip_zeros.simps [of xs])
  qed
qed

lemma strip_zeros_length: "length (strip_zeros xs) \<le> length xs"
proof (induction xs rule: strip_zeros.induct)
  case (1 xs)
  then show ?case by (subst strip_zeros.simps) (auto intro: le_trans)
qed

lemma strip_zeros_id: "length xs \<le> 1 \<or> last xs \<noteq> 0 \<Longrightarrow> strip_zeros xs = xs"
  by (subst strip_zeros.simps) auto

definition norm_limbs :: "'a::zero list \<Rightarrow> bool" where
  "norm_limbs xs \<longleftrightarrow> xs \<noteq> [] \<and> (1 < length xs \<longrightarrow> last xs \<noteq> 0)"

lemma norm_limbs_strip [simp]: "norm_limbs (strip_zeros xs) \<longleftrightarrow> xs \<noteq> []"
  using strip_zeros_last [of xs] by (auto simp: norm_limbs_def)

lemma strip_norm_limbs: "norm_limbs xs \<Longrightarrow> strip_zeros xs = xs"
  by (rule strip_zeros_id) (auto simp: norm_limbs_def)

lemma norm_limbs_lower:
  assumes "norm_limbs (xs :: 'a::len word list)" and "1 < length xs"
  shows "2 ^ (LENGTH('a) * (length xs - 1)) \<le> lval xs"
  using assms by (intro lval_last_lower) (auto simp: norm_limbs_def)

lemma norm_limbs_length_less:
  fixes xs ys :: "'a::len word list"
  assumes "norm_limbs xs" "norm_limbs ys" "length xs < length ys"
  shows "lval xs < lval ys"
proof -
  have ys: "1 < length ys" using assms by (cases xs) (auto simp: norm_limbs_def)
  have "lval xs < 2 ^ (LENGTH('a) * length xs)" by (rule lval_bound)
  also have "\<dots> \<le> 2 ^ (LENGTH('a) * (length ys - 1))"
    using assms(3) by (intro power_increasing mult_le_mono) auto
  also have "\<dots> \<le> lval ys" using assms(2) ys by (rule norm_limbs_lower)
  finally show ?thesis .
qed

lemma norm_limbs_inj:
  fixes xs ys :: "'a::len word list"
  assumes "norm_limbs xs" "norm_limbs ys" "lval xs = lval ys"
  shows "xs = ys"
proof -
  have "length xs = length ys"
    using norm_limbs_length_less [OF assms(1,2)] norm_limbs_length_less [OF assms(2,1)] assms(3)
    by (cases "length xs" "length ys" rule: linorder_cases) auto
  then show ?thesis using assms(3) by (rule lval_inj)
qed

lemma limb_step:
  fixes r t s K c B :: nat
  assumes "r + K * c = t + s div B"
  shows "s mod B + B * r + (B * K) * c = s + B * t"
proof -
  have "s mod B + B * r + (B * K) * c = s mod B + B * (r + K * c)" by (simp add: algebra_simps)
  also have "\<dots> = (s mod B + B * (s div B)) + B * t"
    unfolding assms by (simp add: algebra_simps)
  finally show ?thesis by simp
qed

lemma pow16_Suc: "(2::nat) ^ (16 + 16 * n) = 65536 * 2 ^ (16 * n)"
  by (simp add: power_add)

lemma int_limb_step:
  fixes e c r t K k :: int
  assumes "lo = e + 65536 * c" "r = t - c + K * k"
  shows "lo + 65536 * r = e + 65536 * t + (65536 * K) * k"
  by (simp add: assms algebra_simps)

lemma int_lval_bound: "int (lval (xs :: u16 list)) < 2 ^ (16 * length xs)"
proof -
  have "lval xs < 2 ^ (16 * length xs)" using lval_bound [of xs] by simp
  then show ?thesis by (metis of_nat_less_iff of_nat_numeral of_nat_power)
qed

lemma int_unique_residue:
  fixes a b K k :: int
  assumes "a = b + K * k" "0 \<le> a" "a < K" "0 \<le> b" "b < K"
  shows "a = b"
proof -
  have "a mod K = b mod K" using assms(1) by simp
  then show ?thesis using assms(2-5) by simp
qed

lemma mul_bound:
  fixes x y r c B :: nat
  assumes "x < B" "y < B" "r < B" "c < B"
  shows "x * y + r + c < B * B"
proof -
  obtain b where b: "B = Suc b" using assms(1) by (cases B) auto
  have "x * y \<le> b * b" using assms b by (intro mult_le_mono) auto
  then have "x * y + r + c \<le> b * b + b + b" using assms b by linarith
  also have "\<dots> < B * B" by (simp add: b)
  finally show ?thesis .
qed

lemma unat_and_lo16: "unat ((c :: u32) AND 0xFFFF) = unat c mod 65536"
  unfolding mask16 take_bit_eq_mask [symmetric]
  by (simp add: take_bit_eq_mod unat_mod_distrib)

lemma unat_lo16_64: "unat (ucast ((s :: u64) AND 0xFFFF) :: u16) = unat s mod 65536"
proof -
  have m: "(0xFFFF :: u64) = mask LENGTH(16)" by (simp add: mask_eq_exp_minus_1)
  show ?thesis unfolding m by (subst unat_lo_part) simp_all
qed

lemma unat_hi16_64: "unat (drop_bit 16 (s :: u64)) = unat s div 65536"
  by (simp add: unat_hi_part)

lemma or_eq_plus:
  fixes a b :: "'a::len word"
  assumes "unat a < 2 ^ n"
  shows "a OR push_bit n b = a + push_bit n b"
proof -
  have *: "\<not> bit a k" if "n \<le> k" for k
  proof -
    have "unat a < 2 ^ k" using assms that by (meson less_le_trans one_le_numeral power_increasing)
    then have "\<not> bit (unat a) k" by (simp add: bit_iff_odd)
    then show ?thesis by (simp add: bit_unsigned_iff)
  qed
  show ?thesis
    by (rule disjunctive_add [symmetric]) (use * in \<open>auto simp: bit_push_bit_iff\<close>)
qed

lemma unat_push_bit_small:
  "unat b * 2 ^ n < 2 ^ LENGTH('a) \<Longrightarrow> unat (push_bit n (b :: 'a::len word)) = unat b * 2 ^ n"
  by (simp only: unsigned_push_bit_eq) (simp add: push_bit_eq_mult take_bit_nat_eq_self)

lemma unat_or_push:
  fixes a b :: "'a::len word"
  assumes "unat a < 2 ^ n" "2 ^ n + unat b * 2 ^ n \<le> 2 ^ LENGTH('a)"
  shows "unat (a OR push_bit n b) = unat a + unat b * 2 ^ n"
proof -
  have "(0 :: nat) < 2 ^ n" by simp
  then have "unat b * 2 ^ n < 2 ^ LENGTH('a)" using assms(2) by linarith
  then have p: "unat (push_bit n b) = unat b * 2 ^ n" by (rule unat_push_bit_small)
  show ?thesis
    unfolding or_eq_plus [OF assms(1)] using assms p by (subst unat_add_small) simp_all
qed

lemma unat_lt64: "unat (x :: u64) < 18446744073709551616"
  by (rule less_le_trans [OF unsigned_less]) simp

lemma mul_carry_le:
  fixes x m c B :: nat
  assumes "x < B" "c \<le> m"
  shows "x * m + c \<le> B * m" "(x * m + c) div B \<le> m"
proof -
  have "x * m + c \<le> (x + 1) * m" using assms(2) by simp
  also have "\<dots> \<le> B * m" using assms(1) by (intro mult_le_mono1) simp
  finally show le: "x * m + c \<le> B * m" .
  then show "(x * m + c) div B \<le> m"
    using assms(1) by (metis div_le_mono nonzero_mult_div_cancel_left not_less_zero)
qed

lemma mul_limb_step:
  fixes x m c B r K d t :: nat
  assumes "r + K * d = t * m + (x * m + c) div B"
  shows "((x * m + c) mod B + B * r) + (B * K) * d = (x + B * t) * m + c"
  using limb_step [OF assms] by (simp add: add_mult_distrib mult.assoc)

section \<open>Bits\<close>

text \<open>The bits of a number put together from two fields.\<close>

lemma bit_split_nat:
  fixes a b :: nat
  assumes "a < 2 ^ n"
  shows "bit (a + 2 ^ n * b) i \<longleftrightarrow> (if i < n then bit a i else bit b (i - n))"
proof (cases "i < n")
  case True
  then have "(2::nat) ^ n * b = 2 ^ i * (2 ^ (n - i) * b)" by (simp add: mult.assoc [symmetric] flip: power_add)
  then have "(a + 2 ^ n * b) div 2 ^ i = (a + 2 ^ i * (2 ^ (n - i) * b)) div 2 ^ i" by (simp only:)
  also have "\<dots> = a div 2 ^ i + 2 ^ (n - i) * b" by simp
  finally have "(a + 2 ^ n * b) div 2 ^ i = a div 2 ^ i + 2 ^ (n - i) * b" .
  then show ?thesis using True by (simp add: bit_iff_odd)
next
  case False
  then have "(2::nat) ^ i = 2 ^ n * 2 ^ (i - n)" by (simp flip: power_add)
  then have "(a + 2 ^ n * b) div 2 ^ i = b div 2 ^ (i - n)" using assms by (simp add: div_mult2_eq)
  then show ?thesis using False by (simp add: bit_iff_odd)
qed

end
