(* ===== verification/Object.thy ===== *)
theory Object
  imports Prelude
begin

text \<open>
  The object representation of \<open>core/types.h\<close>: the 32-bit tagged word \<open>CL_Obj\<close>
  with its immediate encodings (fixnum, character, NIL), the header word of a heap
  object, and the numeric heap objects.

  A tagged word that designates a heap object is a byte offset into the arena.  Numeric
  objects are immutable once their constructor has returned, so the arithmetic is
  modelled on \<open>cl_val\<close>, a tagged word together with the object it designates: \<open>Imm w\<close>
  is an immediate word, the other constructors are the heap types the numeric code
  distinguishes, and \<open>Heap t\<close> is any other heap object, of type tag \<open>t\<close>.
\<close>

section \<open>Immediate encodings\<close>

type_synonym CL_Obj = u32

definition CL_NIL :: CL_Obj where
  "CL_NIL = 0"

definition CL_UNBOUND :: CL_Obj where
  "CL_UNBOUND = 0xFFFFFFF6"

definition CL_FIXNUM_P :: "CL_Obj \<Rightarrow> bool" where
  "CL_FIXNUM_P obj \<longleftrightarrow> obj AND 1 \<noteq> 0"

definition CL_MAKE_FIXNUM :: "int \<Rightarrow> CL_Obj" where
  "CL_MAKE_FIXNUM n = push_bit 1 (word_of_int n) OR 1"

definition CL_FIXNUM_VAL :: "CL_Obj \<Rightarrow> int" where
  "CL_FIXNUM_VAL obj = sint (signed_drop_bit 1 obj)"

definition CL_FIXNUM_MAX :: int where
  "CL_FIXNUM_MAX = 1073741823"

definition CL_FIXNUM_MIN :: int where
  "CL_FIXNUM_MIN = -1073741824"

definition CL_CHAR_P :: "CL_Obj \<Rightarrow> bool" where
  "CL_CHAR_P obj \<longleftrightarrow> obj AND 0xFF = 0x0A"

definition CL_MAKE_CHAR :: "u32 \<Rightarrow> CL_Obj" where
  "CL_MAKE_CHAR c = push_bit 8 c OR 0x0A"

definition CL_CHAR_VAL :: "CL_Obj \<Rightarrow> int" where
  "CL_CHAR_VAL obj = uint (drop_bit 8 obj)"

definition CL_HEAP_P :: "CL_Obj \<Rightarrow> bool" where
  "CL_HEAP_P obj \<longleftrightarrow> obj \<noteq> CL_NIL \<and> obj AND 3 = 0"

section \<open>Header words\<close>

text \<open>Layout \<open>[type:8][gc_mark:1][size:23]\<close>.\<close>

definition CL_HDR_MARK_BIT :: u32 where
  "CL_HDR_MARK_BIT = push_bit 23 1"

definition CL_HDR_SIZE_MASK :: u32 where
  "CL_HDR_SIZE_MASK = 0x007FFFFF"

definition CL_MAKE_HDR :: "u32 \<Rightarrow> u32 \<Rightarrow> u32" where
  "CL_MAKE_HDR typ sz = push_bit 24 typ OR (sz AND CL_HDR_SIZE_MASK)"

definition CL_HDR_TYPE :: "u32 \<Rightarrow> u32" where
  "CL_HDR_TYPE h = drop_bit 24 h AND 0xFF"

definition CL_HDR_SIZE :: "u32 \<Rightarrow> u32" where
  "CL_HDR_SIZE h = h AND CL_HDR_SIZE_MASK"

definition CL_HDR_MARKED :: "u32 \<Rightarrow> bool" where
  "CL_HDR_MARKED h \<longleftrightarrow> h AND CL_HDR_MARK_BIT \<noteq> 0"

definition CL_HDR_SET_MARK :: "u32 \<Rightarrow> u32" where
  "CL_HDR_SET_MARK h = h OR CL_HDR_MARK_BIT"

definition CL_HDR_CLR_MARK :: "u32 \<Rightarrow> u32" where
  "CL_HDR_CLR_MARK h = h AND NOT CL_HDR_MARK_BIT"

section \<open>Numeric objects\<close>

text \<open>
  \<open>CL_Bignum\<close>: the field \<open>length\<close> is the length of the limb list; \<open>sign\<close> is a 0/1
  flag, kept as a \<open>bool\<close> (\<open>True\<close> for negative).
\<close>

record cl_bignum =
  bn_sign :: bool
  bn_limbs :: "u16 list"

datatype cl_val =
    Imm CL_Obj
  | Bignum cl_bignum
  | Ratio cl_val cl_val
  | Complex_Obj cl_val cl_val
  | Single_Float u32
  | Double_Float u64
  | Cons_Obj cl_val cl_val
  | Heap u8

fun fixnum_p :: "cl_val \<Rightarrow> bool" where
  "fixnum_p (Imm w) = CL_FIXNUM_P w"
| "fixnum_p _ = False"

fun CL_BIGNUM_P :: "cl_val \<Rightarrow> bool" where
  "CL_BIGNUM_P (Bignum _) = True"
| "CL_BIGNUM_P _ = False"

definition CL_INTEGER_P :: "cl_val \<Rightarrow> bool" where
  "CL_INTEGER_P x \<longleftrightarrow> fixnum_p x \<or> CL_BIGNUM_P x"

fun CL_RATIO_P :: "cl_val \<Rightarrow> bool" where
  "CL_RATIO_P (Ratio _ _) = True"
| "CL_RATIO_P _ = False"

definition CL_RATIONAL_P :: "cl_val \<Rightarrow> bool" where
  "CL_RATIONAL_P x \<longleftrightarrow> CL_INTEGER_P x \<or> CL_RATIO_P x"

fun CL_COMPLEX_P :: "cl_val \<Rightarrow> bool" where
  "CL_COMPLEX_P (Complex_Obj _ _) = True"
| "CL_COMPLEX_P _ = False"

fun CL_FLOATP :: "cl_val \<Rightarrow> bool" where
  "CL_FLOATP (Single_Float _) = True"
| "CL_FLOATP (Double_Float _) = True"
| "CL_FLOATP _ = False"

definition CL_REALP :: "cl_val \<Rightarrow> bool" where
  "CL_REALP x \<longleftrightarrow> CL_INTEGER_P x \<or> CL_RATIO_P x \<or> CL_FLOATP x"

definition CL_NUMBER_P :: "cl_val \<Rightarrow> bool" where
  "CL_NUMBER_P x \<longleftrightarrow> CL_REALP x \<or> CL_COMPLEX_P x"

text \<open>The value of an object the code has tested with \<open>CL_FIXNUM_P\<close>.\<close>

fun fixnum_val :: "cl_val \<Rightarrow> int" where
  "fixnum_val (Imm w) = CL_FIXNUM_VAL w"
| "fixnum_val _ = 0"

abbreviation mkfix :: "int \<Rightarrow> cl_val" where
  "mkfix n \<equiv> Imm (CL_MAKE_FIXNUM n)"

section \<open>Laws of the encodings\<close>

lemma fixnum_p_odd: "CL_FIXNUM_P w \<longleftrightarrow> odd w"
  by (simp add: CL_FIXNUM_P_def and_one_eq odd_iff_mod_2_eq_one)

lemma fixnum_p_make [simp]: "CL_FIXNUM_P (CL_MAKE_FIXNUM n)"
  by (simp add: fixnum_p_odd CL_MAKE_FIXNUM_def even_or_iff)

lemma fixnum_val_eq_div: "CL_FIXNUM_VAL obj = sint obj div 2"
  by (simp add: CL_FIXNUM_VAL_def sint_signed_drop_bit_eq drop_bit_eq_div)

lemma fixnum_val_range: "CL_FIXNUM_MIN \<le> CL_FIXNUM_VAL obj \<and> CL_FIXNUM_VAL obj \<le> CL_FIXNUM_MAX"
proof -
  have "- (2 ^ 31) \<le> sint obj" "sint obj < 2 ^ 31"
    using sint_ge [of obj] sint_lt [of obj] by simp_all
  then show ?thesis
    by (simp add: fixnum_val_eq_div CL_FIXNUM_MIN_def CL_FIXNUM_MAX_def) linarith
qed

lemma make_fixnum_eq: "CL_MAKE_FIXNUM n = word_of_int (2 * n + 1)"
  by (simp add: CL_MAKE_FIXNUM_def push_bit_eq_mult or_one_eq mult.commute)

lemma fixnum_val_make_wraps:
  "CL_FIXNUM_VAL (CL_MAKE_FIXNUM n) = (n + 1073741824) mod 2147483648 - 1073741824"
proof -
  have "(1 + 2 * (n + 1073741824)) mod (2 * 2147483648) = 1 + 2 * ((n + 1073741824) mod 2147483648)"
    by (rule pos_zmod_mult_2) simp
  then have "(2 * n + 1 + 2147483648) mod 4294967296
      = 1 + 2 * ((n + 1073741824) mod 2147483648)"
    by (simp add: algebra_simps)
  moreover have "sint (word_of_int (2 * n + 1) :: u32)
      = (2 * n + 1 + 2147483648) mod 4294967296 - 2147483648"
    by (subst int_word_sint) simp
  ultimately have "sint (word_of_int (2 * n + 1) :: u32)
      = 1 + 2 * ((n + 1073741824) mod 2147483648 - 1073741824)"
    by simp
  then show ?thesis
    by (simp only: fixnum_val_eq_div make_fixnum_eq) simp
qed

lemma fixnum_val_make:
  "CL_FIXNUM_MIN \<le> n \<Longrightarrow> n \<le> CL_FIXNUM_MAX \<Longrightarrow> CL_FIXNUM_VAL (CL_MAKE_FIXNUM n) = n"
  by (simp add: fixnum_val_make_wraps CL_FIXNUM_MIN_def CL_FIXNUM_MAX_def)

lemma make_fixnum_val: "CL_FIXNUM_P w \<Longrightarrow> CL_MAKE_FIXNUM (CL_FIXNUM_VAL w) = w"
proof -
  assume "CL_FIXNUM_P w"
  then have "odd w" by (simp add: fixnum_p_odd)
  then have "odd (sint w)" by (metis bit_0 bit_sint_iff bit_imp_le_length)
  then have "2 * (sint w div 2) + 1 = sint w" by simp
  then show ?thesis by (simp only: fixnum_val_eq_div make_fixnum_eq) simp
qed

section \<open>Bit-level facts\<close>


lemma size_mask: "CL_HDR_SIZE_MASK = mask 23"
  by (simp add: CL_HDR_SIZE_MASK_def mask_eq_exp_minus_1)

lemma bit_mark_bit [simp]: "bit CL_HDR_MARK_BIT n \<longleftrightarrow> n = 23"
proof -
  have "bit CL_HDR_MARK_BIT n \<longleftrightarrow> bit (2 ^ 23 :: u32) n" by (simp add: CL_HDR_MARK_BIT_def)
  then show ?thesis by (simp only: bit_exp_iff possible_bit_word) auto
qed

lemma bit_tag_char [simp]: "bit (0x0A :: u32) n \<longleftrightarrow> n = 1 \<or> n = 3"
proof -
  have "(0x0A :: u32) = 2 ^ 1 OR 2 ^ 3" by simp
  then show ?thesis by (simp only: bit_or_iff bit_exp_iff) auto
qed

lemma mask8: "(0xFF::u32) = mask 8"
  by (simp add: mask_eq_exp_minus_1)


lemma hdr_type_make: "CL_HDR_TYPE (CL_MAKE_HDR t s) = t AND mask 8"
  unfolding CL_HDR_TYPE_def CL_MAKE_HDR_def mask8 size_mask
  by (rule bit_eqI) (auto simp: bit_simps)

lemma hdr_size_make: "CL_HDR_SIZE (CL_MAKE_HDR t s) = s AND mask 23"
  unfolding CL_HDR_SIZE_def CL_MAKE_HDR_def mask8 size_mask
  by (rule bit_eqI) (auto simp: bit_simps)

lemma hdr_marked_iff: "CL_HDR_MARKED h \<longleftrightarrow> bit h 23"
proof -
  have "h AND CL_HDR_MARK_BIT = 0 \<longleftrightarrow> (\<forall>n. \<not> bit (h AND CL_HDR_MARK_BIT) n)"
    by (auto intro: bit_eqI)
  then show ?thesis by (simp add: CL_HDR_MARKED_def bit_and_iff)
qed

lemma hdr_mark_frame:
  "CL_HDR_TYPE (CL_HDR_SET_MARK h) = CL_HDR_TYPE h"
  "CL_HDR_SIZE (CL_HDR_SET_MARK h) = CL_HDR_SIZE h"
  "CL_HDR_TYPE (CL_HDR_CLR_MARK h) = CL_HDR_TYPE h"
  "CL_HDR_SIZE (CL_HDR_CLR_MARK h) = CL_HDR_SIZE h"
  unfolding CL_HDR_TYPE_def CL_HDR_SIZE_def CL_HDR_SET_MARK_def CL_HDR_CLR_MARK_def mask8 size_mask
  by (rule bit_eqI; auto simp: bit_simps)+

lemma hdr_mark_set: "CL_HDR_MARKED (CL_HDR_SET_MARK h)" "\<not> CL_HDR_MARKED (CL_HDR_CLR_MARK h)"
  by (auto simp: hdr_marked_iff CL_HDR_SET_MARK_def CL_HDR_CLR_MARK_def bit_simps)

lemma hdr_clr_set: "\<not> CL_HDR_MARKED h \<Longrightarrow> CL_HDR_CLR_MARK (CL_HDR_SET_MARK h) = h"
  unfolding hdr_marked_iff CL_HDR_SET_MARK_def CL_HDR_CLR_MARK_def
  by (rule bit_eqI) (auto simp: bit_simps)

lemma hdr_make_unmarked: "\<not> CL_HDR_MARKED (CL_MAKE_HDR t s)"
  unfolding hdr_marked_iff CL_MAKE_HDR_def size_mask by (auto simp: bit_simps)

lemma fixnum_p_bit: "CL_FIXNUM_P w \<longleftrightarrow> bit w 0"
  by (simp add: fixnum_p_odd bit_0)

lemma char_p_bits: "CL_CHAR_P w \<Longrightarrow> \<not> bit w 0 \<and> bit w 1"
proof -
  assume "CL_CHAR_P w"
  then have "bit (w AND 0xFF) n = bit (0x0A::u32) n" for n by (simp add: CL_CHAR_P_def)
  from this [of 0] this [of 1] show ?thesis by (simp add: bit_simps bit_numeral_simps)
qed

lemma heap_p_bits: "CL_HEAP_P w \<Longrightarrow> \<not> bit w 0 \<and> \<not> bit w 1 \<and> w \<noteq> CL_NIL"
proof -
  assume a: "CL_HEAP_P w"
  then have "bit (w AND 3) n = bit (0::u32) n" for n by (simp add: CL_HEAP_P_def)
  from this [of 0] this [of 1] a show ?thesis by (simp add: CL_HEAP_P_def bit_simps)
qed

lemma char_roundtrip: "unat c < 2 ^ 24 \<Longrightarrow> CL_CHAR_VAL (CL_MAKE_CHAR c) = int (unat c)"
proof -
  assume a: "unat c < 2 ^ 24"
  have "drop_bit 8 (push_bit 8 c OR 0x0A) = take_bit 24 c"
    by (rule bit_eqI) (auto simp: bit_simps)
  moreover have "take_bit 24 c = c" using a by (simp add: word_unat_eq_iff unsigned_take_bit_eq take_bit_nat_eq_self)
  ultimately show ?thesis by (simp add: CL_CHAR_VAL_def CL_MAKE_CHAR_def)
qed

lemma char_p_make: "CL_CHAR_P (CL_MAKE_CHAR c)"
  unfolding CL_CHAR_P_def CL_MAKE_CHAR_def mask8
  by (rule bit_eqI) (simp only: bit_and_iff bit_or_iff bit_push_bit_iff bit_mask_iff bit_tag_char, auto)

lemma unbound_not_tagged:
  "\<not> CL_FIXNUM_P CL_UNBOUND \<and> \<not> CL_CHAR_P CL_UNBOUND \<and> \<not> CL_HEAP_P CL_UNBOUND
    \<and> CL_UNBOUND \<noteq> CL_NIL"
  by (simp add: CL_FIXNUM_P_def CL_CHAR_P_def CL_HEAP_P_def CL_UNBOUND_def CL_NIL_def)

lemmas hdr_laws = hdr_type_make hdr_size_make hdr_mark_frame hdr_mark_set hdr_clr_set
  hdr_make_unmarked

section \<open>Properties of the representation\<close>

text \<open>
  A 31-bit signed value survives tagging and untagging exactly when it lies in the
  fixnum range, tagging always yields a fixnum word, and the fixnum words are exactly the
  words that tagging the untagged value gives back.  Outside the range
  \<open>CL_MAKE_FIXNUM\<close> silently wraps modulo 2 to the 31.
\<close>

theorem fixnum_encoding:
  "CL_FIXNUM_P (CL_MAKE_FIXNUM n)
    \<and> (CL_FIXNUM_VAL (CL_MAKE_FIXNUM n) = n \<longleftrightarrow> CL_FIXNUM_MIN \<le> n \<and> n \<le> CL_FIXNUM_MAX)
    \<and> (CL_MAKE_FIXNUM (CL_FIXNUM_VAL w) = w \<longleftrightarrow> CL_FIXNUM_P w)
    \<and> CL_FIXNUM_VAL (CL_MAKE_FIXNUM n) = (n + 1073741824) mod 2147483648 - 1073741824"
proof (intro conjI)
  show "CL_FIXNUM_P (CL_MAKE_FIXNUM n)" by simp
  show "CL_FIXNUM_VAL (CL_MAKE_FIXNUM n) = n \<longleftrightarrow> CL_FIXNUM_MIN \<le> n \<and> n \<le> CL_FIXNUM_MAX"
    using fixnum_val_range [of "CL_MAKE_FIXNUM n"] fixnum_val_make [of n] by auto
  show "CL_MAKE_FIXNUM (CL_FIXNUM_VAL w) = w \<longleftrightarrow> CL_FIXNUM_P w"
    by (metis make_fixnum_val fixnum_p_make)
qed (rule fixnum_val_make_wraps)

text \<open>
  The tag classes are disjoint: no word is at once two of fixnum, character, heap
  reference and NIL, and the unbound marker belongs to none of them.  Characters of 24
  bits survive the encoding.
\<close>

theorem tags_exclusive:
  "\<not> (CL_FIXNUM_P w \<and> CL_CHAR_P w) \<and> \<not> (CL_FIXNUM_P w \<and> CL_HEAP_P w)
    \<and> \<not> (CL_CHAR_P w \<and> CL_HEAP_P w)
    \<and> \<not> CL_FIXNUM_P CL_NIL \<and> \<not> CL_CHAR_P CL_NIL \<and> \<not> CL_HEAP_P CL_NIL
    \<and> \<not> CL_FIXNUM_P CL_UNBOUND \<and> \<not> CL_CHAR_P CL_UNBOUND \<and> \<not> CL_HEAP_P CL_UNBOUND
    \<and> CL_CHAR_P (CL_MAKE_CHAR c)
    \<and> (unat c < 2 ^ 24 \<longrightarrow> CL_CHAR_VAL (CL_MAKE_CHAR c) = int (unat c))"
  using char_p_bits [of w] heap_p_bits [of w] fixnum_p_bit [of w] unbound_not_tagged
    char_p_make [of c] char_roundtrip [of c]
  by (simp add: CL_FIXNUM_P_def CL_CHAR_P_def CL_HEAP_P_def CL_NIL_def) blast

text \<open>
  A header word built by \<open>CL_MAKE_HDR\<close> gives back the low 8 bits of the type and
  the low 23 bits of the size and is unmarked; setting and clearing the mark bit changes
  neither field, sets and clears the mark, and clearing after setting restores the word.
\<close>

theorem header_fields:
  "CL_HDR_TYPE (CL_MAKE_HDR t s) = t AND mask 8
    \<and> CL_HDR_SIZE (CL_MAKE_HDR t s) = s AND mask 23
    \<and> \<not> CL_HDR_MARKED (CL_MAKE_HDR t s)
    \<and> CL_HDR_TYPE (CL_HDR_SET_MARK h) = CL_HDR_TYPE h
    \<and> CL_HDR_SIZE (CL_HDR_SET_MARK h) = CL_HDR_SIZE h
    \<and> CL_HDR_TYPE (CL_HDR_CLR_MARK h) = CL_HDR_TYPE h
    \<and> CL_HDR_SIZE (CL_HDR_CLR_MARK h) = CL_HDR_SIZE h
    \<and> CL_HDR_MARKED (CL_HDR_SET_MARK h) \<and> \<not> CL_HDR_MARKED (CL_HDR_CLR_MARK h)
    \<and> CL_HDR_CLR_MARK (CL_HDR_SET_MARK (CL_MAKE_HDR t s)) = CL_MAKE_HDR t s"
  by (simp add: hdr_laws)

end
