(* ===== verification/Limbs.thy ===== *)
theory Limbs
  imports Object
begin

text \<open>
  The unsigned multi-precision routines of \<open>core/bignum.c\<close>, on arrays of 16-bit limbs
  in little-endian order.  A C routine that fills \<open>result\<close> and returns the number of
  limbs in use is a function to the list of those limbs; a loop over indices is a
  recursion over the limb lists, with the carry or borrow as an argument kept in the
  width the source declares.  The two variants the source selects by platform
  (16-bit limbs with 32-bit intermediates on the 68020, 32- and 64-bit limbs on 64-bit
  hosts) are both modelled, and proved to compute the same product.
\<close>

section \<open>Comparison\<close>

text \<open>The loop \<open>for (i = a_len; i > 0; i--)\<close> of \<open>bignum_compare_mag\<close>, most significant limb first.\<close>

fun compare_loop :: "u16 list \<Rightarrow> u16 list \<Rightarrow> int" where
  "compare_loop (x # xs) (y # ys) = (if x \<noteq> y then (if x > y then 1 else -1) else compare_loop xs ys)"
| "compare_loop _ _ = 0"

definition bignum_compare_mag :: "u16 list \<Rightarrow> u16 list \<Rightarrow> int" where
  "bignum_compare_mag a b =
     (if length a \<noteq> length b then (if length a > length b then 1 else -1)
      else compare_loop (rev a) (rev b))"

section \<open>Addition and subtraction\<close>

fun add_loop2 :: "u16 list \<Rightarrow> u32 \<Rightarrow> u16 list \<times> u32" where
  "add_loop2 [] carry = ([], carry)"
| "add_loop2 (x # xs) carry =
     (let sum = ucast x + carry;
          (r, c) = add_loop2 xs (drop_bit 16 sum)
      in (ucast (sum AND 0xFFFF) # r, c))"

fun add_loop :: "u16 list \<Rightarrow> u16 list \<Rightarrow> u32 \<Rightarrow> u16 list \<times> u32" where
  "add_loop (x # xs) (y # ys) carry =
     (let sum = ucast x + ucast y + carry;
          (r, c) = add_loop xs ys (drop_bit 16 sum)
      in (ucast (sum AND 0xFFFF) # r, c))"
| "add_loop xs [] carry = add_loop2 xs carry"
| "add_loop [] (y # ys) carry = ([], carry)"

definition bignum_add_mag :: "u16 list \<Rightarrow> u16 list \<Rightarrow> u16 list" where
  "bignum_add_mag a b =
     (let (a', b') = (if length a < length b then (b, a) else (a, b));
          (result, carry) = add_loop a' b' 0
      in if carry \<noteq> 0 then result @ [ucast carry] else result)"

fun sub_loop2 :: "u16 list \<Rightarrow> u32 \<Rightarrow> u16 list" where
  "sub_loop2 [] borrow = []"
| "sub_loop2 (x # xs) borrow =
     (let diff = ucast x - borrow
      in ucast (diff AND 0xFFFF) # sub_loop2 xs (drop_bit 16 diff AND 1))"

fun sub_loop :: "u16 list \<Rightarrow> u16 list \<Rightarrow> u32 \<Rightarrow> u16 list" where
  "sub_loop (x # xs) (y # ys) borrow =
     (let diff = ucast x - ucast y - borrow
      in ucast (diff AND 0xFFFF) # sub_loop xs ys (drop_bit 16 diff AND 1))"
| "sub_loop xs [] borrow = sub_loop2 xs borrow"
| "sub_loop [] (y # ys) borrow = []"

definition bignum_sub_mag :: "u16 list \<Rightarrow> u16 list \<Rightarrow> u16 list" where
  "bignum_sub_mag a b = strip_zeros (sub_loop a b 0)"

section \<open>Schoolbook multiplication, 16-bit limbs\<close>

text \<open>
  \<open>mul_row x b rs carry\<close> is the inner loop over \<open>j\<close> on \<open>result + i\<close>, ended by
  \<open>result[i + b_len] += (uint16_t)carry\<close>; \<open>mul_rows\<close> is the outer loop over \<open>i\<close>, which
  moves the window on by one limb each time.
\<close>

fun mul_row :: "u16 \<Rightarrow> u16 list \<Rightarrow> u16 list \<Rightarrow> u32 \<Rightarrow> u16 list" where
  "mul_row x (y # ys) (r # rs) carry =
     (let prod = ucast x * ucast y + ucast r + carry
      in ucast (prod AND 0xFFFF) # mul_row x ys rs (drop_bit 16 prod))"
| "mul_row x [] (r # rs) carry = (r + ucast carry) # rs"
| "mul_row x ys [] carry = []"

fun mul_rows :: "u16 list \<Rightarrow> u16 list \<Rightarrow> u16 list \<Rightarrow> u16 list" where
  "mul_rows [] b rs = rs"
| "mul_rows (x # xs) b rs =
     (case mul_row x b rs 0 of [] \<Rightarrow> [] | r # rs' \<Rightarrow> r # mul_rows xs b rs')"

definition bignum_mul_mag :: "u16 list \<Rightarrow> u16 list \<Rightarrow> u16 list" where
  "bignum_mul_mag a b = strip_zeros (mul_rows a b (replicate (length a + length b) 0))"

section \<open>Multiplication by a fixnum magnitude\<close>

text \<open>The last loop, \<open>for (; i < r_len; i++) { result[i] = carry & 0xFFFF; carry >>= 16; }\<close>.\<close>

fun emit_carry32 :: "nat \<Rightarrow> u32 \<Rightarrow> u16 list" where
  "emit_carry32 0 carry = []"
| "emit_carry32 (Suc n) carry = ucast (carry AND 0xFFFF) # emit_carry32 n (drop_bit 16 carry)"

fun emit_carry64 :: "nat \<Rightarrow> u64 \<Rightarrow> u16 list" where
  "emit_carry64 0 carry = []"
| "emit_carry64 (Suc n) carry = ucast (carry AND 0xFFFF) # emit_carry64 n (drop_bit 16 carry)"

text \<open>The 68020 variant: 16 by 16 multiplies only, with the multiplier split into halves.\<close>

fun mul_small_lo :: "u16 list \<Rightarrow> u32 \<Rightarrow> u32 \<Rightarrow> u16 list \<times> u32" where
  "mul_small_lo [] ml carry = ([], carry)"
| "mul_small_lo (x # xs) ml carry =
     (let prod = ucast x * ml + carry;
          (r, c) = mul_small_lo xs ml (drop_bit 16 prod)
      in (ucast (prod AND 0xFFFF) # r, c))"

fun mul_small_hi :: "u16 list \<Rightarrow> u32 \<Rightarrow> u32 \<Rightarrow> u32 \<Rightarrow> u16 list \<times> u32" where
  "mul_small_hi [] ml mh carry = ([], carry)"
| "mul_small_hi (x # xs) ml mh carry =
     (let p0 = ucast x * ml + (carry AND 0xFFFF);
          (r, c) = mul_small_hi xs ml mh (ucast x * mh + drop_bit 16 carry + drop_bit 16 p0)
      in (ucast (p0 AND 0xFFFF) # r, c))"

definition bignum_mul_small_68k :: "u16 list \<Rightarrow> u32 \<Rightarrow> nat \<Rightarrow> u16 list" where
  "bignum_mul_small_68k a m r_len =
     (let ml = m AND 0xFFFF; mh = drop_bit 16 m;
          (r, carry) = (if mh = 0 then mul_small_lo a ml 0 else mul_small_hi a ml mh 0)
      in r @ emit_carry32 (r_len - length a) carry)"

text \<open>The host variant: four limbs a step with a 128-bit product, then two, then one.\<close>

fun mul_small_host_loop :: "u16 list \<Rightarrow> u32 \<Rightarrow> u64 \<Rightarrow> u16 list \<times> u64" where
  "mul_small_host_loop (a0 # a1 # a2 # a3 # as) m carry =
     (let x = ucast a0 OR push_bit 16 (ucast a1) OR push_bit 32 (ucast a2) OR push_bit 48 (ucast a3) :: u64;
          prod = (ucast x :: u128) * ucast m + ucast carry;
          lo = ucast prod :: u64;
          (r, c) = mul_small_host_loop as m (ucast (drop_bit 64 prod))
      in (ucast (lo AND 0xFFFF) # ucast (drop_bit 16 lo AND 0xFFFF)
            # ucast (drop_bit 32 lo AND 0xFFFF) # ucast (drop_bit 48 lo) # r, c))"
| "mul_small_host_loop (a0 # a1 # as) m carry =
     (let prod = (ucast (ucast a0 OR push_bit 16 (ucast a1) :: u32) :: u64) * ucast m + carry;
          (r, c) = mul_small_host_loop as m (drop_bit 32 prod)
      in (ucast (prod AND 0xFFFF) # ucast (drop_bit 16 prod AND 0xFFFF) # r, c))"
| "mul_small_host_loop [a0] m carry =
     (let prod = (ucast a0 :: u64) * ucast m + carry
      in ([ucast (prod AND 0xFFFF)], drop_bit 16 prod))"
| "mul_small_host_loop [] m carry = ([], carry)"

definition bignum_mul_small :: "u16 list \<Rightarrow> u32 \<Rightarrow> nat \<Rightarrow> u16 list" where
  "bignum_mul_small a m r_len =
     (let (r, carry) = mul_small_host_loop a m 0
      in r @ emit_carry64 (r_len - length a) carry)"

text \<open>\<open>bit_length32\<close>, in its portable loop form.\<close>

function bit_length32_loop :: "u32 \<Rightarrow> nat \<Rightarrow> nat" where
  "bit_length32_loop v n = (if v = 0 then n else bit_length32_loop (drop_bit 1 v) (Suc n))"
  by pat_completeness auto
termination
  by (relation "measure (\<lambda>(v, n). unat v)") (auto simp: unat_hi_part unat_gt_0)

declare bit_length32_loop.simps [simp del]

definition bit_length32 :: "u32 \<Rightarrow> nat" where
  "bit_length32 v = bit_length32_loop v 0"

section \<open>32-bit limbs on 64-bit hosts\<close>

fun pack_16_to_32 :: "u16 list \<Rightarrow> u32 list" where
  "pack_16_to_32 (x # y # xs) = (ucast x OR push_bit 16 (ucast y)) # pack_16_to_32 xs"
| "pack_16_to_32 [x] = [ucast x]"
| "pack_16_to_32 [] = []"

fun unpack_loop :: "u32 list \<Rightarrow> u16 list" where
  "unpack_loop [] = []"
| "unpack_loop (x # xs) = ucast (x AND 0xFFFF) # ucast (drop_bit 16 x) # unpack_loop xs"

definition unpack_32_to_16 :: "u32 list \<Rightarrow> u16 list" where
  "unpack_32_to_16 xs = strip_zeros (unpack_loop xs)"

fun mul_row32 :: "u32 \<Rightarrow> u32 list \<Rightarrow> u32 list \<Rightarrow> u64 \<Rightarrow> u32 list" where
  "mul_row32 x (y # ys) (r # rs) carry =
     (let prod = ucast x * ucast y + ucast r + carry
      in ucast (prod AND 0xFFFFFFFF) # mul_row32 x ys rs (drop_bit 32 prod))"
| "mul_row32 x [] (r # rs) carry = (r + ucast carry) # rs"
| "mul_row32 x ys [] carry = []"

fun mul_rows32 :: "u32 list \<Rightarrow> u32 list \<Rightarrow> u32 list \<Rightarrow> u32 list" where
  "mul_rows32 [] b rs = rs"
| "mul_rows32 (x # xs) b rs =
     (case mul_row32 x b rs 0 of [] \<Rightarrow> [] | r # rs' \<Rightarrow> r # mul_rows32 xs b rs')"

definition bignum_mul_mag32 :: "u32 list \<Rightarrow> u32 list \<Rightarrow> u32 list" where
  "bignum_mul_mag32 a b = strip_zeros (mul_rows32 a b (replicate (length a + length b) 0))"

section \<open>Division by one limb\<close>

text \<open>
  The loop runs from the most significant limb down; \<open>div_single_loop\<close> returns the
  quotient limbs above the current one and the running remainder.
\<close>

fun div_single_loop :: "u16 list \<Rightarrow> u16 \<Rightarrow> u16 list \<times> u32" where
  "div_single_loop [] d = ([], 0)"
| "div_single_loop (x # xs) d =
     (let (q, rem) = div_single_loop xs d;
          cur = push_bit 16 rem OR ucast x
      in (ucast (cur div ucast d) # q, cur mod ucast d))"

definition bignum_div_single :: "u16 list \<Rightarrow> u16 \<Rightarrow> u16 list \<times> u16" where
  "bignum_div_single a d = (let (q, rem) = div_single_loop a d in (q, ucast rem))"

lemma sgn_diff_limbs:
  fixes u v a b K :: int
  assumes "0 \<le> a" "a < K" "0 \<le> b" "b < K" "v < u"
  shows "sgn ((a + K * u) - (b + K * v)) = 1" "sgn ((b + K * v) - (a + K * u)) = -1"
proof -
  have "K * 1 \<le> K * (u - v)" using assms by (intro mult_left_mono) auto
  then have "(a + K * u) - (b + K * v) > 0" using assms by (simp add: algebra_simps)
  then show "sgn ((a + K * u) - (b + K * v)) = 1" "sgn ((b + K * v) - (a + K * u)) = -1" by simp_all
qed

lemma compare_loop_sgn:
  "length xs = length ys \<Longrightarrow>
    compare_loop xs ys = sgn (int (lval (rev xs)) - int (lval (rev ys)))"
proof (induction xs ys rule: list_induct2)
  case (Cons x xs y ys)
  let ?K = "(2::int) ^ (16 * length xs)"
  have b: "int (lval (rev xs)) < ?K" "int (lval (rev ys)) < ?K"
  proof -
    have "lval (rev xs) < 2 ^ (16 * length xs)" "lval (rev ys) < 2 ^ (16 * length xs)"
      using lval_bound [of "rev xs"] lval_bound [of "rev ys"] Cons.hyps by simp_all
    then show "int (lval (rev xs)) < ?K" "int (lval (rev ys)) < ?K"
      by (metis of_nat_less_iff of_nat_numeral of_nat_power)+
  qed
  note sg = sgn_diff_limbs [of "int (lval (rev xs))" ?K "int (lval (rev ys))"]
     sgn_diff_limbs [of "int (lval (rev ys))" ?K "int (lval (rev xs))"]
  show ?case
  proof (cases "x = y")
    case True
    then show ?thesis using Cons by (simp add: lval_append)
  next
    case False
    then consider "uint x < uint y" | "uint y < uint x"
      by (metis linorder_less_linear word_uint_eq_iff)
    then show ?thesis using b Cons.hyps False sg [of "uint y" "uint x"] sg [of "uint x" "uint y"]
      by cases (simp_all add: lval_append word_less_def)
  qed
qed simp

lemma compare_mag_sgn:
  assumes "norm_limbs a" "norm_limbs b"
  shows "bignum_compare_mag a b = sgn (int (lval a) - int (lval b))"
proof (cases "length a" "length b" rule: linorder_cases)
  case equal
  then show ?thesis using compare_loop_sgn [of "rev a" "rev b"] by (simp add: bignum_compare_mag_def)
qed (use assms norm_limbs_length_less [of a b] norm_limbs_length_less [of b a]
     in \<open>auto simp: bignum_compare_mag_def\<close>)

lemma add_step:
  assumes "unat c \<le> 1"
  shows "unat (ucast x + ucast y + c :: u32) = unat (x :: u16) + unat (y :: u16) + unat c"
proof -
  have 1: "unat (ucast x + ucast y :: u32) = unat x + unat y"
    using unat_lt16 [of x] unat_lt16 [of y] by (subst unat_add_small) simp_all
  then show ?thesis
    using assms unat_lt16 [of x] unat_lt16 [of y] by (subst unat_add_small) simp_all
qed

lemma add_step2:
  assumes "unat c \<le> 1"
  shows "unat (ucast x + c :: u32) = unat (x :: u16) + unat c"
  using assms unat_lt16 [of x] by (subst unat_add_small) simp_all

lemma add_loop2_correct:
  "add_loop2 xs c = (r, c') \<Longrightarrow> unat c \<le> 1 \<Longrightarrow>
    length r = length xs \<and> unat c' \<le> 1
    \<and> lval r + 2 ^ (16 * length xs) * unat c' = lval xs + unat c"
proof (induction xs arbitrary: c r c')
  case (Cons x xs)
  define s where "s = (ucast x + c :: u32)"
  obtain r1 c1 where step: "add_loop2 xs (drop_bit 16 s) = (r1, c1)" by fastforce
  have s: "unat s = unat x + unat c" using Cons.prems by (simp add: s_def add_step2)
  have "unat (drop_bit 16 s) \<le> 1" using unat_lt16 [of x] Cons.prems s by (simp add: unat_hi16)
  note IH = Cons.IH [OF step this]
  have "r = ucast (s AND 0xFFFF) # r1" "c' = c1"
    using step Cons.prems(1) by (simp_all add: s_def Let_def)
  moreover have "unat s mod 65536 + 65536 * lval r1 + (65536 * 2 ^ (16 * length xs)) * unat c1
      = unat s + 65536 * lval xs"
    using IH by (intro limb_step) (simp add: unat_hi16)
  ultimately show ?case using IH s by (simp add: unat_lo16 pow16_Suc)
qed simp

lemma add_loop_correct:
  "add_loop xs ys c = (r, c') \<Longrightarrow> length ys \<le> length xs \<Longrightarrow> unat c \<le> 1 \<Longrightarrow>
    length r = length xs \<and> unat c' \<le> 1
    \<and> lval r + 2 ^ (16 * length xs) * unat c' = lval xs + lval ys + unat c"
proof (induction xs ys c arbitrary: r c' rule: add_loop.induct)
  case (1 x xs y ys c)
  define s where "s = (ucast x + ucast y + c :: u32)"
  obtain r1 c1 where step: "add_loop xs ys (drop_bit 16 s) = (r1, c1)" by fastforce
  have s: "unat s = unat x + unat y + unat c" using 1 by (simp add: s_def add_step)
  have "unat (drop_bit 16 s) \<le> 1" using unat_lt16 [of x] unat_lt16 [of y] 1 s by (simp add: unat_hi16)
  note IH = 1(1) [OF s_def step _ this]
  have "r = ucast (s AND 0xFFFF) # r1" "c' = c1"
    using step 1(2) by (simp_all add: s_def Let_def)
  moreover have "unat s mod 65536 + 65536 * lval r1 + (65536 * 2 ^ (16 * length xs)) * unat c1
      = unat s + 65536 * (lval xs + lval ys)"
    using IH 1(3) by (intro limb_step) (simp add: unat_hi16)
  ultimately show ?case using IH s 1(3) by (simp add: unat_lo16 pow16_Suc)
next
  case (2 xs c)
  then show ?case using add_loop2_correct [of xs c r c'] by auto
qed simp

lemma lval_add_mag [lval_simps]: "lval (bignum_add_mag a b) = lval a + lval b"
proof -
  have *: "lval (let (r, c) = add_loop x y 0 in if c \<noteq> 0 then r @ [ucast c] else r) = lval x + lval y"
    if "length y \<le> length x" for x y
  proof -
    obtain r c where rc: "add_loop x y 0 = (r, c)" by fastforce
    from add_loop_correct [OF rc that] have
      "length r = length x" "unat c \<le> 1" "lval r + 2 ^ (16 * length x) * unat c = lval x + lval y"
      by auto
    moreover from this(2) have "unat (ucast c :: u16) = unat c"
      by (simp add: unsigned_ucast_eq take_bit_nat_eq_self)
    ultimately show ?thesis using rc by (auto simp: lval_append)
  qed
  show ?thesis using *[of a b] *[of b a] by (auto simp: bignum_add_mag_def)
qed

lemma sub_step:
  fixes x y :: u16 and b :: u32
  assumes b: "unat b \<le> 1"
  defines "d \<equiv> ucast x - ucast y - b :: u32"
  shows "unat (drop_bit 16 d AND 1) \<le> 1"
    and "int (unat (ucast (d AND 0xFFFF) :: u16))
      = int (unat x) - int (unat y) - int (unat b) + 65536 * int (unat (drop_bit 16 d AND 1))"
proof -
  have d: "d = ucast x - (ucast y + b)" by (simp add: d_def)
  have yb: "unat (ucast y + b :: u32) = unat y + unat b" using b by (rule add_step2)
  have bit: "unat (drop_bit 16 d AND 1) = (unat d div 65536) mod 2"
    by (simp add: and_one_eq unat_mod_distrib unat_hi16)
  show "unat (drop_bit 16 d AND 1) \<le> 1" unfolding bit by simp
  show "int (unat (ucast (d AND 0xFFFF) :: u16))
      = int (unat x) - int (unat y) - int (unat b) + 65536 * int (unat (drop_bit 16 d AND 1))"
  proof (cases "unat y + unat b \<le> unat x")
    case True
    then have "unat d = unat x - (unat y + unat b)"
      unfolding d using yb by (subst unat_sub) (simp_all add: word_le_nat_alt)
    then show ?thesis using True unat_lt16 [of x]
      by (simp add: bit unat_lo16)
  next
    case False
    then have "unat d = 4294967296 + unat x - (unat y + unat b)"
      unfolding d using yb unat_sub_if' [of "ucast x :: u32" "ucast y + b"] by simp
    then have *: "unat d = 4294901760 + (65536 + unat x - (unat y + unat b))"
      using b unat_lt16 [of y] by simp
    have lt: "65536 + unat x - (unat y + unat b) < 65536" using False by simp
    have "unat d mod 65536 = 65536 + unat x - (unat y + unat b)"
      "unat d div 65536 = 65535"
      using lt unfolding * by (simp_all add: div_nat_eqI mod_nat_eqI)
    then show ?thesis using False b unat_lt16 [of y]
      by (simp add: bit unat_lo16 of_nat_diff)
  qed
qed

lemma sub_loop2_correct:
  "unat b \<le> 1 \<Longrightarrow> length (sub_loop2 xs b) = length xs
    \<and> (\<exists>k. int (lval (sub_loop2 xs b)) = int (lval xs) - int (unat b) + 2 ^ (16 * length xs) * k)"
proof (induction xs arbitrary: b)
  case Nil
  show ?case by (auto intro!: exI [of _ "int (unat b)"])
next
  case (Cons x xs)
  define d where "d = (ucast x - b :: u32)"
  have st: "unat (drop_bit 16 d AND 1) \<le> 1"
    "int (unat (ucast (d AND 0xFFFF) :: u16))
      = int (unat x) - int (unat b) + 65536 * int (unat (drop_bit 16 d AND 1))"
    using sub_step [of b x 0] Cons.prems by (simp_all add: d_def)
  from Cons.IH [OF st(1)] obtain k where
    len: "length (sub_loop2 xs (drop_bit 16 d AND 1)) = length xs" and
    k: "int (lval (sub_loop2 xs (drop_bit 16 d AND 1)))
      = int (lval xs) - int (unat (drop_bit 16 d AND 1)) + 2 ^ (16 * length xs) * k" by auto
  from int_limb_step [OF st(2) k] have
    "int (lval (sub_loop2 (x # xs) b)) = int (lval (x # xs)) - int (unat b) + 2 ^ (16 * length (x # xs)) * k"
    by (simp add: d_def [symmetric] Let_def power_add)
  then show ?case using len by (auto simp: Let_def d_def)
qed

lemma sub_loop_correct:
  "length ys \<le> length xs \<Longrightarrow> unat b \<le> 1 \<Longrightarrow> length (sub_loop xs ys b) = length xs
    \<and> (\<exists>k. int (lval (sub_loop xs ys b))
        = int (lval xs) - int (lval ys) - int (unat b) + 2 ^ (16 * length xs) * k)"
proof (induction xs ys b rule: sub_loop.induct)
  case (1 x xs y ys b)
  define d where "d = (ucast x - ucast y - b :: u32)"
  note st = sub_step [of b x y, OF 1(3), folded d_def]
  from 1(1) [OF d_def _ st(1)] 1(2) obtain k where
    len: "length (sub_loop xs ys (drop_bit 16 d AND 1)) = length xs" and
    k: "int (lval (sub_loop xs ys (drop_bit 16 d AND 1))) = int (lval xs) - int (lval ys)
        - int (unat (drop_bit 16 d AND 1)) + 2 ^ (16 * length xs) * k" by auto
  from k have k': "int (lval (sub_loop xs ys (drop_bit 16 d AND 1)))
      = (int (lval xs) - int (lval ys)) - int (unat (drop_bit 16 d AND 1)) + 2 ^ (16 * length xs) * k"
    by simp
  from int_limb_step [OF st(2) k'] have
    "int (lval (sub_loop (x # xs) (y # ys) b)) = int (lval (x # xs)) - int (lval (y # ys))
       - int (unat b) + 2 ^ (16 * length (x # xs)) * k"
    by (simp add: d_def [symmetric] Let_def power_add)
  then show ?case using len by (auto simp: Let_def d_def)
next
  case (2 xs b)
  then show ?case using sub_loop2_correct [of b xs] by simp
qed simp

lemma lval_sub_mag [lval_simps]:
  assumes "lval b \<le> lval a" "length b \<le> length a"
  shows "lval (bignum_sub_mag a b) = lval a - lval b"
proof -
  let ?r = "sub_loop a b 0"
  from sub_loop_correct [of b a 0] assms(2) obtain k where
    len: "length ?r = length a" and
    k: "int (lval ?r) = (int (lval a) - int (lval b)) + 2 ^ (16 * length a) * k" by auto
  have bd: "int (lval ?r) < 2 ^ (16 * length a)" "int (lval a) < 2 ^ (16 * length a)"
    using int_lval_bound [of ?r] int_lval_bound [of a] len by simp_all
  have "int (lval ?r) = int (lval a) - int (lval b)"
    by (rule int_unique_residue [OF k]) (use assms(1) bd in linarith)+
  then show ?thesis by (simp add: bignum_sub_mag_def)
qed

locale limb_mul =
  fixes lo :: "'b::len word \<Rightarrow> 'a::len word"
    and hi :: "'b word \<Rightarrow> 'b word"
    and row :: "'a word \<Rightarrow> 'a word list \<Rightarrow> 'a word list \<Rightarrow> 'b word \<Rightarrow> 'a word list"
    and rows :: "'a word list \<Rightarrow> 'a word list \<Rightarrow> 'a word list \<Rightarrow> 'a word list"
  assumes width: "LENGTH('b) = 2 * LENGTH('a)"
    and unat_lo: "unat (lo s) = unat s mod 2 ^ LENGTH('a)"
    and unat_hi: "unat (hi s) = unat s div 2 ^ LENGTH('a)"
    and row_Cons: "row x (y # ys) (r # rs) c
      = lo (ucast x * ucast y + ucast r + c) # row x ys rs (hi (ucast x * ucast y + ucast r + c))"
    and row_Nil: "row x [] (r # rs) c = (r + ucast c) # rs"
    and rows_Nil: "rows [] b rs = rs"
    and rows_Cons: "rows (x # xs) b rs
      = (case row x b rs 0 of [] \<Rightarrow> [] | r # rs' \<Rightarrow> r # rows xs b rs')"

begin

lemma unat_prod:
  assumes "unat (c :: 'b word) < 2 ^ LENGTH('a)"
  shows "unat (ucast (x :: 'a word) * ucast y + ucast r + c :: 'b word)
    = unat x * unat (y :: 'a word) + unat (r :: 'a word) + unat c"
proof -
  let ?B = "2 ^ LENGTH('a) :: nat"
  have BB: "(2 :: nat) ^ LENGTH('b) = ?B * ?B" by (simp add: width power_add mult_2)
  have u: "unat (ucast z :: 'b word) = unat z" for z :: "'a word"
    by (rule unat_ucast_wide) (simp add: width)
  have bd: "unat x * unat y + unat r + unat c < ?B * ?B"
    by (intro mul_bound unsigned_less assms)
  have 1: "unat (ucast x * ucast y :: 'b word) = unat x * unat y"
    by (subst unat_mult_small) (use bd in \<open>simp_all add: u BB\<close>)
  have 2: "unat (ucast x * ucast y + ucast r :: 'b word) = unat x * unat y + unat r"
    by (subst unat_add_small) (use bd in \<open>simp_all add: 1 u BB\<close>)
  show ?thesis
    by (subst unat_add_small) (use bd in \<open>simp_all add: 2 BB\<close>)
qed

lemma row_correct:
  "length ys < length rs \<Longrightarrow> rs ! length ys = 0 \<Longrightarrow> unat c < 2 ^ LENGTH('a) \<Longrightarrow>
    length (row x ys rs c) = length rs
    \<and> drop (Suc (length ys)) (row x ys rs c) = drop (Suc (length ys)) rs
    \<and> lval (row x ys rs c) = lval rs + unat x * lval ys + unat c"
proof (induction ys arbitrary: rs c)
  case Nil
  then obtain r rs' where rs: "rs = 0 # rs'" by (cases rs) auto
  have "unat (ucast c :: 'a word) = unat c"
    using Nil by (simp add: unsigned_ucast_eq take_bit_nat_eq_self)
  then show ?case by (simp add: rs row_Nil)
next
  case (Cons y ys)
  let ?B = "2 ^ LENGTH('a) :: nat"
  obtain r rs' where rs: "rs = r # rs'" using Cons.prems by (cases rs) auto
  define p where "p = (ucast x * ucast y + ucast r + c :: 'b word)"
  have p: "unat p = unat x * unat y + unat r + unat c"
    using Cons.prems by (simp add: p_def unat_prod)
  have "unat p < ?B * ?B"
    unfolding p by (intro mul_bound unsigned_less Cons.prems)
  then have "unat (hi p) < ?B" unfolding unat_hi by (simp add: less_mult_imp_div_less)
  from Cons.IH [OF _ _ this, of rs'] Cons.prems rs have IH:
    "length (row x ys rs' (hi p)) = length rs'"
    "drop (Suc (length ys)) (row x ys rs' (hi p)) = drop (Suc (length ys)) rs'"
    "lval (row x ys rs' (hi p)) = lval rs' + unat x * lval ys + unat p div ?B"
    by (simp_all add: unat_hi)
  have "lval (row x (y # ys) rs c) = unat p mod ?B + ?B * lval (row x ys rs' (hi p))"
    by (simp add: rs row_Cons p_def unat_lo)
  also have "\<dots> = unat p + ?B * (lval rs' + unat x * lval ys)"
    using limb_step [of "lval (row x ys rs' (hi p))" 0 0 "lval rs' + unat x * lval ys" "unat p" ?B] IH(3)
    by simp
  also have "\<dots> = lval rs + unat x * lval (y # ys) + unat c"
    by (simp add: p rs algebra_simps)
  finally show ?case using IH(1,2) by (simp add: rs row_Cons p_def)
qed

lemma rows_correct:
  "length b + length xs \<le> length rs \<Longrightarrow> \<forall>r \<in> set (drop (length b) rs). r = 0 \<Longrightarrow>
    length (rows xs b rs) = length rs \<and> lval (rows xs b rs) = lval rs + lval xs * lval b"
proof (induction xs arbitrary: rs)
  case (Cons x xs)
  let ?rs = "row x b rs 0"
  have "drop (length b) rs ! 0 \<in> set (drop (length b) rs)"
    using Cons.prems(1) by (intro nth_mem) simp
  then have "rs ! length b = 0" using Cons.prems by simp
  then have rc: "length ?rs = length rs" "drop (Suc (length b)) ?rs = drop (Suc (length b)) rs"
    "lval ?rs = lval rs + unat x * lval b"
    using row_correct [of b rs 0 x] Cons.prems by simp_all
  then obtain r rs' where r: "?rs = r # rs'" using Cons.prems by (cases ?rs) auto
  have "drop (length b) rs' = drop (Suc (length b)) rs" using rc(2) r by simp
  then have "\<forall>r \<in> set (drop (length b) rs'). r = 0"
    using Cons.prems(2) set_drop_subset_set_drop [of "length b" "Suc (length b)" rs] by auto
  moreover have "length b + length xs \<le> length rs'" using rc(1) r Cons.prems by simp
  ultimately have "length (rows xs b rs') = length rs'" "lval (rows xs b rs') = lval rs' + lval xs * lval b"
    using Cons.IH by auto
  then show ?case using r rc by (simp add: rows_Cons algebra_simps)
qed (simp add: rows_Nil)

lemma mul_correct: "lval (rows a b (replicate (length a + length b) 0)) = lval a * lval b"
  using rows_correct [of b a "replicate (length a + length b) 0"] by (auto dest: in_set_dropD)

end

interpretation mul16: limb_mul "\<lambda>s :: u32. ucast (s AND 0xFFFF) :: u16" "drop_bit 16" mul_row mul_rows
  by unfold_locales (simp_all add: Let_def word_parts)

interpretation mul32: limb_mul "\<lambda>s :: u64. ucast (s AND 0xFFFFFFFF) :: u32" "drop_bit 32" mul_row32 mul_rows32
  by unfold_locales (simp_all add: Let_def word_parts)

lemma lval_mul_mag [lval_simps]: "lval (bignum_mul_mag a b) = lval a * lval b"
  by (simp add: bignum_mul_mag_def mul16.mul_correct)

lemma lval_mul_mag32 [lval_simps]: "lval (bignum_mul_mag32 a b) = lval a * lval b"
  by (simp add: bignum_mul_mag32_def mul32.mul_correct)

lemma emit_carry32_correct:
  "length (emit_carry32 n c) = n \<and> lval (emit_carry32 n c) = unat c mod 2 ^ (16 * n)"
proof (induction n arbitrary: c)
  case (Suc n)
  have "lval (emit_carry32 (Suc n) c) = unat c mod 65536 + 65536 * ((unat c div 65536) mod 2 ^ (16 * n))"
    by (simp add: Suc word_parts)
  also have "\<dots> = unat c mod (65536 * 2 ^ (16 * n))" by (simp add: mod_mult2_eq)
  finally show ?case using Suc by (simp add: pow16_Suc)
qed simp

lemma emit_carry64_correct:
  "length (emit_carry64 n c) = n \<and> lval (emit_carry64 n c) = unat c mod 2 ^ (16 * n)"
proof (induction n arbitrary: c)
  case (Suc n)
  have "lval (emit_carry64 (Suc n) c) = unat c mod 65536 + 65536 * ((unat c div 65536) mod 2 ^ (16 * n))"
    by (simp add: Suc unat_lo16_64 unat_hi16_64)
  also have "\<dots> = unat c mod (65536 * 2 ^ (16 * n))" by (simp add: mod_mult2_eq)
  finally show ?case using Suc by (simp add: pow16_Suc)
qed simp

lemma mul_small_lo_correct:
  "mul_small_lo a ml c = (r, c') \<Longrightarrow> unat ml < 65536 \<Longrightarrow> unat c < 65536 \<Longrightarrow>
    length r = length a \<and> unat c' < 65536
    \<and> lval r + 2 ^ (16 * length a) * unat c' = lval a * unat ml + unat c"
proof (induction a arbitrary: c r c')
  case (Cons x xs)
  define s where "s = (ucast x * ml + c :: u32)"
  obtain r1 c1 where step: "mul_small_lo xs ml (drop_bit 16 s) = (r1, c1)" by fastforce
  have bd: "unat x * unat ml + 0 + unat c < 65536 * 65536"
    by (rule mul_bound) (use Cons.prems unat_lt16 [of x] in auto)
  have "unat (ucast x * ml :: u32) = unat x * unat ml"
    by (subst unat_mult_small) (use bd in simp_all)
  then have s: "unat s = unat x * unat ml + unat c"
    unfolding s_def by (subst unat_add_small) (use bd in simp_all)
  have "unat (drop_bit 16 s) < 65536" using bd s by (simp add: unat_hi16 less_mult_imp_div_less)
  note IH = Cons.IH [OF step Cons.prems(2) this]
  have rr: "r = ucast (s AND 0xFFFF) # r1" "c' = c1"
    using step Cons.prems(1) by (simp_all add: s_def Let_def)
  have "lval r + 2 ^ (16 * length (x # xs)) * unat c'
      = unat s mod 65536 + 65536 * lval r1 + (65536 * 2 ^ (16 * length xs)) * unat c1"
    by (simp add: rr unat_lo16 pow16_Suc)
  also have "\<dots> = unat s + 65536 * (lval xs * unat ml)"
    using IH by (intro limb_step) (simp add: unat_hi16)
  also have "\<dots> = lval (x # xs) * unat ml + unat c" by (simp add: s add_mult_distrib)
  finally show ?case using IH rr by (metis length_Cons)
qed simp

lemma mul_small_hi_correct:
  "mul_small_hi a ml mh c = (r, c') \<Longrightarrow> unat ml < 65536 \<Longrightarrow> unat mh \<le> 16384 \<Longrightarrow>
    unat c < 2147483648 \<Longrightarrow>
    length r = length a \<and> unat c' < 2147483648
    \<and> lval r + 2 ^ (16 * length a) * unat c' = lval a * (unat ml + 65536 * unat mh) + unat c"
proof (induction a arbitrary: c r c')
  case (Cons x xs)
  define p where "p = (ucast x * ml + (c AND 0xFFFF) :: u32)"
  define cc where "cc = (ucast x * mh + drop_bit 16 c + drop_bit 16 p :: u32)"
  obtain r1 c1 where step: "mul_small_hi xs ml mh cc = (r1, c1)" by fastforce
  have clo: "unat (c AND 0xFFFF) = unat c mod 65536" by (rule unat_and_lo16)
  have bd: "unat x * unat ml + 0 + unat c mod 65536 < 65536 * 65536"
    by (rule mul_bound) (use Cons.prems unat_lt16 [of x] in auto)
  have "unat (ucast x * ml :: u32) = unat x * unat ml"
    by (subst unat_mult_small) (use bd in simp_all)
  then have p: "unat p = unat x * unat ml + unat c mod 65536"
    unfolding p_def by (subst unat_add_small) (use bd in \<open>simp_all add: clo\<close>)
  have "unat x * unat mh \<le> 65535 * 16384"
    by (rule mult_le_mono) (use Cons.prems unat_lt16 [of x] in auto)
  moreover have "unat c div 65536 \<le> 32767" "unat p div 65536 \<le> 65535"
    using Cons.prems bd p by auto
  ultimately have bd2: "unat x * unat mh + unat c div 65536 + unat p div 65536 < 2147483648"
    by simp
  have "unat (ucast x * mh :: u32) = unat x * unat mh"
    by (subst unat_mult_small) (use bd2 in simp_all)
  then have "unat (ucast x * mh + drop_bit 16 c :: u32) = unat x * unat mh + unat c div 65536"
    by (subst unat_add_small) (use bd2 in \<open>simp_all add: unat_hi16\<close>)
  then have cc: "unat cc = unat x * unat mh + unat c div 65536 + unat p div 65536"
    unfolding cc_def by (subst unat_add_small) (use bd2 in \<open>simp_all add: unat_hi16\<close>)
  have "unat cc < 2147483648" using bd2 cc by simp
  note IH = Cons.IH [OF step Cons.prems(2,3) this]
  have rr: "r = ucast (p AND 0xFFFF) # r1" "c' = c1"
    using step Cons.prems(1) by (simp_all add: p_def cc_def Let_def)
  define t where "t = lval xs * (unat ml + 65536 * unat mh) + unat x * unat mh + unat c div 65536"
  have "lval r + 2 ^ (16 * length (x # xs)) * unat c'
      = unat p mod 65536 + 65536 * lval r1 + (65536 * 2 ^ (16 * length xs)) * unat c1"
    by (simp add: rr unat_lo16 pow16_Suc)
  also have "\<dots> = unat p + 65536 * t"
    using IH by (intro limb_step) (simp add: cc t_def)
  also have "\<dots> = lval (x # xs) * (unat ml + 65536 * unat mh)
      + (unat c mod 65536 + 65536 * (unat c div 65536))"
    by (simp add: p t_def add_mult_distrib add_mult_distrib2)
  also have "\<dots> = lval (x # xs) * (unat ml + 65536 * unat mh) + unat c" by simp
  finally show ?case using IH rr by (metis length_Cons)
qed simp

lemma lval_mul_small_68k:
  assumes "unat m \<le> 1073741824" "length a \<le> r_len" "lval a * unat m < 2 ^ (16 * r_len)"
  shows "length (bignum_mul_small_68k a m r_len) = r_len"
    and "lval (bignum_mul_small_68k a m r_len) = lval a * unat m"
proof -
  let ?ml = "m AND 0xFFFF" and ?mh = "drop_bit 16 m"
  have ml: "unat ?ml = unat m mod 65536" by (rule unat_and_lo16)
  have mh: "unat ?mh = unat m div 65536" by (rule unat_hi16)
  obtain r c where rc: "(if ?mh = 0 then mul_small_lo a ?ml 0 else mul_small_hi a ?ml ?mh 0) = (r, c)"
    by fastforce
  have main: "length r = length a" "lval r + 2 ^ (16 * length a) * unat c = lval a * unat m"
  proof (atomize (full), cases "?mh = 0")
    case True
    then have "unat m div 65536 = 0" using mh by simp
    then have "unat m mod 65536 = unat m" by (simp add: div_eq_0_iff)
    then show "length r = length a \<and> lval r + 2 ^ (16 * length a) * unat c = lval a * unat m"
      using mul_small_lo_correct [of a ?ml 0 r c] rc True ml by simp
  next
    case False
    have "unat m div 65536 \<le> 16384" using assms(1) by simp
    then have "length r = length a \<and> lval r + 2 ^ (16 * length a) * unat c
        = lval a * (unat m mod 65536 + 65536 * (unat m div 65536))"
      using mul_small_hi_correct [of a ?ml ?mh 0 r c] rc False ml mh by simp
    then show "length r = length a \<and> lval r + 2 ^ (16 * length a) * unat c = lval a * unat m"
      by simp
  qed
  have "2 ^ (16 * length a) * unat c < 2 ^ (16 * length a) * 2 ^ (16 * (r_len - length a))"
    using main(2) assms(2,3) by (simp flip: power_add add_mult_distrib2)
  then have "unat c < 2 ^ (16 * (r_len - length a))" by simp
  then show "length (bignum_mul_small_68k a m r_len) = r_len"
    and "lval (bignum_mul_small_68k a m r_len) = lval a * unat m"
    using rc main assms(2) emit_carry32_correct [of "r_len - length a" c]
    by (simp_all add: bignum_mul_small_68k_def Let_def lval_append)
qed

lemma unat_pair32: "unat (ucast (x :: u16) OR push_bit 16 (ucast (y :: u16)) :: u32) = unat x + 65536 * unat y"
  using unat_lt16 [of x] unat_lt16 [of y] by (subst unat_or_push) simp_all

lemma lval_pack [lval_simps]: "lval (pack_16_to_32 xs) = lval xs"
  by (induction xs rule: pack_16_to_32.induct) (simp_all add: unat_pair32)

lemma lval_unpack_loop: "lval (unpack_loop xs) = lval xs"
proof (induction xs)
  case (Cons x xs)
  have hi: "unat (ucast (drop_bit 16 x) :: u16) = unat x div 65536"
  proof -
    have "unat x div 65536 < 65536" using unat_lt32 [of x] by (simp add: less_mult_imp_div_less)
    then show ?thesis by (simp add: unsigned_ucast_eq unat_hi16 take_bit_nat_eq_self)
  qed
  have "lval (unpack_loop (x # xs)) = (unat x mod 65536 + 65536 * (unat x div 65536)) + 4294967296 * lval xs"
    by (simp add: Cons hi unat_lo16)
  also have "\<dots> = lval (x # xs)" by simp
  finally show ?case .
qed simp

lemma lval_unpack [lval_simps]: "lval (unpack_32_to_16 xs) = lval xs"
  by (simp add: unpack_32_to_16_def lval_unpack_loop)

lemma mul_host_equiv: "lval (unpack_32_to_16 (bignum_mul_mag32 (pack_16_to_32 a) (pack_16_to_32 b))) = lval (bignum_mul_mag a b)"
  by (simp add: lval_simps)

lemma div_single_loop_correct:
  "div_single_loop xs d = (q, rem) \<Longrightarrow> d \<noteq> 0 \<Longrightarrow>
    length q = length xs \<and> unat rem < unat d \<and> lval xs = lval q * unat d + unat rem"
proof (induction xs arbitrary: q rem)
  case Nil
  then show ?case by (simp add: unat_gt_0)
next
  case (Cons x xs)
  obtain q1 r1 where step: "div_single_loop xs d = (q1, r1)" by fastforce
  note IH = Cons.IH [OF step Cons.prems(2)]
  define cur where "cur = (push_bit 16 r1 OR ucast x :: u32)"
  have r1: "unat r1 < 65536" using IH unat_lt16 [of d] by simp
  have cur: "unat cur = unat x + unat r1 * 65536"
    unfolding cur_def or.commute [of "push_bit 16 r1"]
    using r1 unat_lt16 [of x] by (subst unat_or_push) simp_all
  have "unat cur < 65536 * unat d"
  proof -
    have "unat cur < 65536 * (unat r1 + 1)" using cur unat_lt16 [of x] by simp
    also have "\<dots> \<le> 65536 * unat d" using IH by (intro mult_le_mono2) simp
    finally show ?thesis .
  qed
  then have ql: "unat cur div unat d < 65536" by (simp add: less_mult_imp_div_less)
  have qq: "unat (ucast (cur div ucast d) :: u16) = unat cur div unat d"
    using ql by (simp add: unsigned_ucast_eq unat_div take_bit_nat_eq_self)
  have out: "q = ucast (cur div ucast d) # q1" "rem = cur mod ucast d"
    using Cons.prems(1) step by (simp_all add: cur_def Let_def)
  have rem: "unat rem = unat cur mod unat d" by (simp add: out unat_mod)
  have "lval (x # xs) = unat x + 65536 * (lval q1 * unat d + unat r1)" using IH by simp
  also have "\<dots> = unat cur + 65536 * lval q1 * unat d" by (simp add: cur add_mult_distrib2)
  also have "unat cur = unat cur div unat d * unat d + unat cur mod unat d"
    by (rule div_mult_mod_eq [symmetric])
  also have "unat cur div unat d * unat d + unat cur mod unat d + 65536 * lval q1 * unat d
      = lval q * unat d + unat rem"
    by (simp only: out(1) lval.simps rem qq) (simp add: add_mult_distrib)
  finally show ?case using IH rem out Cons.prems(2) by (simp add: unat_gt_0)
qed

lemma div_single_correct:
  assumes "bignum_div_single a d = (q, r)" "d \<noteq> 0"
  shows "length q = length a" "lval q = lval a div unat d" "unat r = lval a mod unat d"
proof -
  obtain rem where s: "div_single_loop a d = (q, rem)" "r = ucast rem"
    using assms(1) by (auto simp: bignum_div_single_def split: prod.splits)
  note c = div_single_loop_correct [OF s(1) assms(2)]
  have "unat rem < 65536" using c unat_lt16 [of d] by simp
  then have "unat r = unat rem" by (simp add: s unsigned_ucast_eq take_bit_nat_eq_self)
  then show "length q = length a" "lval q = lval a div unat d" "unat r = lval a mod unat d"
    using c assms(2) by (simp_all add: unat_gt_0 div_mult_self3)
qed

lemma bit_length32_loop_shift: "bit_length32_loop v (Suc n) = Suc (bit_length32_loop v n)"
proof (induction v n rule: bit_length32_loop.induct)
  case (1 v n)
  then show ?case by (subst (1 2) bit_length32_loop.simps) simp
qed

lemma bit_length32_rec: "bit_length32 v = (if v = 0 then 0 else Suc (bit_length32 (drop_bit 1 v)))"
  unfolding bit_length32_def by (subst bit_length32_loop.simps) (simp add: bit_length32_loop_shift)

lemma bit_length32_bounds:
  "unat v < 2 ^ bit_length32 v \<and> (v \<noteq> 0 \<longrightarrow> 2 ^ bit_length32 v \<le> 2 * unat v)"
proof (induction "unat v" arbitrary: v rule: less_induct)
  case less
  show ?case
  proof (cases "v = 0")
    case True
    then show ?thesis by (simp add: bit_length32_rec)
  next
    case False
    have h: "unat (drop_bit 1 v) = unat v div 2" by (simp add: unat_hi_part)
    have v0: "0 < unat v" using False by (simp add: unat_gt_0)
    then have "unat (drop_bit 1 v) < unat v" unfolding h by simp
    note IH = less [OF this]
    have "bit_length32 v = Suc (bit_length32 (drop_bit 1 v))" using False by (subst bit_length32_rec) simp
    moreover have "drop_bit 1 v = 0 \<longleftrightarrow> unat v = 1"
      using h v0 by (simp flip: unat_eq_zero) arith
    moreover have "bit_length32 0 = 0" by (subst bit_length32_rec) simp
    ultimately show ?thesis using IH h v0 False
      by (cases "drop_bit 1 v = 0") auto
  qed
qed

lemma unat_quad64:
  "unat (ucast (a :: u16) OR push_bit 16 (ucast (b :: u16)) OR push_bit 32 (ucast (c :: u16))
      OR push_bit 48 (ucast (d :: u16)) :: u64)
    = unat a + 65536 * (unat b + 65536 * (unat c + 65536 * unat d))"
proof -
  note lt = unat_lt16 [of a] unat_lt16 [of b] unat_lt16 [of c] unat_lt16 [of d]
  have 1: "unat (ucast a OR push_bit 16 (ucast b) :: u64) = unat a + unat b * 2 ^ 16"
    using lt by (subst unat_or_push) simp_all
  have 2: "unat ((ucast a OR push_bit 16 (ucast b)) OR push_bit 32 (ucast c) :: u64)
      = unat a + unat b * 2 ^ 16 + unat c * 2 ^ 32"
    using lt by (subst unat_or_push) (simp_all add: 1)
  have "unat (((ucast a OR push_bit 16 (ucast b)) OR push_bit 32 (ucast c)) OR push_bit 48 (ucast d) :: u64)
      = unat a + unat b * 2 ^ 16 + unat c * 2 ^ 32 + unat d * 2 ^ 48"
    using lt by (subst unat_or_push) (simp_all only: 2, simp_all)
  then show ?thesis by (simp add: or.assoc)
qed

lemma lval_split64:
  "lval [ucast (lo AND 0xFFFF), ucast (drop_bit 16 lo AND 0xFFFF),
      ucast (drop_bit 32 lo AND 0xFFFF), ucast (drop_bit 48 lo) :: u16] = unat (lo :: u64)"
proof -
  have "unat lo div 2 ^ 48 < 65536" using unat_lt64 [of lo] by (simp add: less_mult_imp_div_less)
  then have "unat (ucast (drop_bit 48 lo) :: u16) = unat lo div 2 ^ 48"
    by (simp add: unsigned_ucast_eq unat_hi_part take_bit_nat_eq_self)
  then have "lval [ucast (lo AND 0xFFFF), ucast (drop_bit 16 lo AND 0xFFFF),
      ucast (drop_bit 32 lo AND 0xFFFF), ucast (drop_bit 48 lo) :: u16]
    = unat lo mod 65536 + 65536 * (unat lo div 65536 mod 65536
        + 65536 * (unat lo div 65536 div 65536 mod 65536 + 65536 * (unat lo div 65536 div 65536 div 65536)))"
    by (simp add: unat_lo16_64 unat_hi_part flip: div_mult2_eq)
  also have "\<dots> = unat lo" by (simp only: mod_mult_div_eq)
  finally show ?thesis .
qed

lemma lval_split32:
  "lval [ucast (p AND 0xFFFF), ucast (drop_bit 16 p AND 0xFFFF) :: u16] = unat (p :: u64) mod 4294967296"
proof -
  have "lval [ucast (p AND 0xFFFF), ucast (drop_bit 16 p AND 0xFFFF) :: u16]
      = unat p mod 65536 + 65536 * (unat p div 65536 mod 65536)"
    by (simp add: unat_lo16_64 unat_hi16_64)
  also have "\<dots> = unat p mod (65536 * 65536)" by (simp only: mod_mult2_eq add.commute)
  finally show ?thesis by simp
qed

lemma mul_small_host_two:
  fixes a0 a1 :: u16 and m :: u32 and c :: u64
  defines "x \<equiv> unat a0 + 65536 * unat a1"
    and "p \<equiv> (ucast (ucast a0 OR push_bit 16 (ucast a1) :: u32) :: u64) * ucast m + c"
  assumes "unat c \<le> unat m"
  shows "lval [ucast (p AND 0xFFFF), ucast (drop_bit 16 p AND 0xFFFF) :: u16]
      = (x * unat m + unat c) mod 4294967296"
    and "unat (drop_bit 32 p) = (x * unat m + unat c) div 4294967296"
    and "unat (drop_bit 32 p) \<le> unat m"
proof -
  have xb: "x < 4294967296" using unat_lt16 [of a0] unat_lt16 [of a1] by (simp add: x_def)
  note b = mul_carry_le [OF xb assms(3)]
  have "4294967296 * unat m < 2 ^ 64" using unat_lt32 [of m] by simp
  then have b64: "x * unat m + unat c < 2 ^ 64" using b by simp
  have "unat ((ucast (ucast a0 OR push_bit 16 (ucast a1) :: u32) :: u64) * ucast m) = x * unat m"
    by (subst unat_mult_small) (use b64 in \<open>simp_all add: unat_pair32 x_def\<close>)
  then have p: "unat p = x * unat m + unat c"
    unfolding p_def by (subst unat_add_small) (use b64 in \<open>simp_all\<close>)
  show "lval [ucast (p AND 0xFFFF), ucast (drop_bit 16 p AND 0xFFFF) :: u16]
      = (x * unat m + unat c) mod 4294967296"
    unfolding lval_split32 p ..
  show "unat (drop_bit 32 p) = (x * unat m + unat c) div 4294967296"
    by (simp add: unat_hi32 p)
  then show "unat (drop_bit 32 p) \<le> unat m" using b by simp
qed

lemma mul_small_host_one:
  fixes a0 :: u16 and m :: u32 and c :: u64
  defines "p \<equiv> (ucast a0 :: u64) * ucast m + c"
  assumes "unat c \<le> unat m"
  shows "unat (ucast (p AND 0xFFFF) :: u16) = (unat a0 * unat m + unat c) mod 65536"
    and "unat (drop_bit 16 p) = (unat a0 * unat m + unat c) div 65536"
    and "unat (drop_bit 16 p) \<le> unat m"
proof -
  note b = mul_carry_le [OF unat_lt16 [of a0] assms(2)]
  have "65536 * unat m < 2 ^ 64" using unat_lt32 [of m] by simp
  then have b64: "unat a0 * unat m + unat c < 2 ^ 64" using b by simp
  have "unat ((ucast a0 :: u64) * ucast m) = unat a0 * unat m"
    by (subst unat_mult_small) (use b64 in simp_all)
  then have p: "unat p = unat a0 * unat m + unat c"
    unfolding p_def by (subst unat_add_small) (use b64 in \<open>simp_all\<close>)
  show "unat (ucast (p AND 0xFFFF) :: u16) = (unat a0 * unat m + unat c) mod 65536"
    by (simp add: unat_lo16_64 p)
  show "unat (drop_bit 16 p) = (unat a0 * unat m + unat c) div 65536"
    by (simp add: unat_hi16_64 p)
  then show "unat (drop_bit 16 p) \<le> unat m" using b by simp
qed

lemma mul_small_host_loop_correct:
  "mul_small_host_loop a m c = (r, c') \<Longrightarrow> unat c \<le> unat m \<Longrightarrow>
    length r = length a \<and> unat c' \<le> unat m
    \<and> lval r + 2 ^ (16 * length a) * unat c' = lval a * unat m + unat c"
proof (induction a m c arbitrary: r c' rule: mul_small_host_loop.induct [case_names four two three one nil])
  case (four a0 a1 a2 a3 as m c)
  define x where "x = (ucast a0 OR push_bit 16 (ucast a1) OR push_bit 32 (ucast a2) OR push_bit 48 (ucast a3) :: u64)"
  define prod where "prod = (ucast x :: u128) * ucast m + ucast c"
  define lo where "lo = (ucast prod :: u64)"
  define c2 where "c2 = (ucast (drop_bit 64 prod) :: u64)"
  obtain r1 c1 where step: "mul_small_host_loop as m c2 = (r1, c1)" by fastforce
  have ux: "unat (ucast x :: u128) = unat x" "unat (ucast m :: u128) = unat m" "unat (ucast c :: u128) = unat c"
    by (simp_all add: unat_ucast_wide)
  have xb: "unat x < 2 ^ 64" using unat_lt64 [of x] by simp
  note b = mul_carry_le [OF xb four(3)]
  have "2 ^ 64 * unat m < 2 ^ 128" using unat_lt32 [of m] by simp
  then have b128: "unat x * unat m + unat c < 2 ^ 128" using b by simp
  have "unat ((ucast x :: u128) * ucast m) = unat x * unat m"
    by (subst unat_mult_small) (use b128 in \<open>simp_all add: ux\<close>)
  then have prod: "unat prod = unat x * unat m + unat c"
    unfolding prod_def by (subst unat_add_small) (use b128 in \<open>simp_all add: ux\<close>)
  have lo: "unat lo = unat prod mod 2 ^ 64" by (simp add: lo_def unsigned_ucast_eq take_bit_eq_mod)
  have "unat prod div 2 ^ 64 < 2 ^ 64" using b(2) prod unat_lt32 [of m] by simp
  then have c2: "unat c2 = unat prod div 2 ^ 64"
    by (simp add: c2_def unsigned_ucast_eq unat_hi_part take_bit_nat_eq_self)
  have "unat c2 \<le> unat m" using b(2) prod c2 by simp
  note IH = four(1) [OF x_def prod_def lo_def step [unfolded c2_def] this [unfolded c2_def]]
  have "mul_small_host_loop (a0 # a1 # a2 # a3 # as) m c = ([ucast (lo AND 0xFFFF),
      ucast (drop_bit 16 lo AND 0xFFFF), ucast (drop_bit 32 lo AND 0xFFFF), ucast (drop_bit 48 lo)] @ r1, c1)"
    unfolding mul_small_host_loop.simps Let_def
      x_def [symmetric] prod_def [symmetric] lo_def [symmetric] c2_def [symmetric] step by simp
  then have r: "r = [ucast (lo AND 0xFFFF), ucast (drop_bit 16 lo AND 0xFFFF),
      ucast (drop_bit 32 lo AND 0xFFFF), ucast (drop_bit 48 lo)] @ r1" and c': "c' = c1"
    using four(2) by simp_all
  have lr: "lval r = unat lo + 2 ^ 64 * lval r1"
    by (simp only: r lval_append lval_split64) simp
  have la: "lval (a0 # a1 # a2 # a3 # as) = unat x + 2 ^ 64 * lval as"
    by (simp add: x_def unat_quad64)
  have pw: "(2 :: nat) ^ (16 * length (a0 # a1 # a2 # a3 # as)) = 2 ^ 64 * 2 ^ (16 * length as)"
    by (simp add: power_add)
  have "lval r + 2 ^ (16 * length (a0 # a1 # a2 # a3 # as)) * unat c'
      = lval (a0 # a1 # a2 # a3 # as) * unat m + unat c"
    unfolding lr la pw c' lo prod
    by (rule mul_limb_step) (use IH in \<open>simp add: c2_def [symmetric] c2 prod\<close>)
  then show ?case using IH r c' by simp
next
  case (two a0 a1 m c)
  note host = mul_small_host_two [OF two(3), of a0 a1]
  have "lval r + 4294967296 * unat c' = (unat a0 + 65536 * unat a1) * unat m + unat c"
    using two(2) host by (auto simp: Let_def)
  then show ?case using two(2) host(3) by (auto simp: Let_def)
next
  case (three a0 a1 a2 m c)
  define prod where "prod = (ucast (ucast a0 OR push_bit 16 (ucast a1) :: u32) :: u64) * ucast m + c"
  note host = mul_small_host_two [OF three(3), of a0 a1, folded prod_def]
  obtain r1 c1 where step: "mul_small_host_loop [a2] m (drop_bit 32 prod) = (r1, c1)" by fastforce
  note IH = three(1) [OF prod_def step host(3)]
  have r: "r = [ucast (prod AND 0xFFFF), ucast (drop_bit 16 prod AND 0xFFFF)] @ r1" "c' = c1"
    using three(2) step by (simp_all add: prod_def Let_def)
  have "lval r = (unat (ucast (prod AND 0xFFFF) :: u16) + 65536 * unat (ucast (drop_bit 16 prod AND 0xFFFF) :: u16)) + 4294967296 * lval r1"
    by (simp only: r lval_append) simp
  also have "\<dots> = ((unat a0 + 65536 * unat a1) * unat m + unat c) mod 4294967296 + 4294967296 * lval r1"
    using host(1) by simp
  finally have lr: "lval r = ((unat a0 + 65536 * unat a1) * unat m + unat c) mod 4294967296 + 4294967296 * lval r1" .
  have "lval r + (4294967296 * 65536) * unat c1 = (unat a0 + 65536 * unat a1 + 4294967296 * unat a2) * unat m + unat c"
    unfolding lr by (rule mul_limb_step) (use IH host(2) in simp)
  then show ?case using IH r by simp
next
  case (one a0 m c)
  then show ?case using mul_small_host_one [OF one(2), of a0] by (auto simp: Let_def)
qed simp

lemma lval_mul_small:
  assumes "length a \<le> r_len" "lval a * unat m < 2 ^ (16 * r_len)"
  shows "length (bignum_mul_small a m r_len) = r_len"
    and "lval (bignum_mul_small a m r_len) = lval a * unat m"
proof -
  obtain r c where rc: "mul_small_host_loop a m 0 = (r, c)" by fastforce
  have main: "length r = length a" "lval r + 2 ^ (16 * length a) * unat c = lval a * unat m"
    using mul_small_host_loop_correct [OF rc] by simp_all
  have "2 ^ (16 * length a) * unat c < 2 ^ (16 * length a) * 2 ^ (16 * (r_len - length a))"
    using main(2) assms by (simp flip: power_add add_mult_distrib2)
  then have "unat c < 2 ^ (16 * (r_len - length a))" by simp
  then show "length (bignum_mul_small a m r_len) = r_len"
    and "lval (bignum_mul_small a m r_len) = lval a * unat m"
    using rc main assms emit_carry64_correct [of "r_len - length a" c]
    by (simp_all add: bignum_mul_small_def Let_def lval_append)
qed


section \<open>Properties\<close>

text \<open>
  Addition and both multiplications of magnitudes are exact, whatever the lengths of
  the operands: the 16-bit schoolbook product, and the 32-bit product the 64-bit hosts use
  between packing and unpacking, both have the value of the product.
\<close>

theorem magnitude_ring_exact:
  "lval (bignum_add_mag a b) = lval a + lval b
    \<and> lval (bignum_mul_mag a b) = lval a * lval b
    \<and> lval (unpack_32_to_16 (bignum_mul_mag32 (pack_16_to_32 a) (pack_16_to_32 b))) = lval a * lval b"
  by (simp add: lval_simps)

text \<open>
  Comparison of magnitudes without leading zero limbs returns the sign of the
  difference, and when the first is not the smaller the subtraction is exact and leaves no
  leading zero limb.
\<close>

theorem compare_sub_exact:
  assumes "norm_limbs a" "norm_limbs b"
  shows "bignum_compare_mag a b = sgn (int (lval a) - int (lval b))
    \<and> (0 \<le> bignum_compare_mag a b \<longrightarrow>
        lval (bignum_sub_mag a b) = lval a - lval b \<and> norm_limbs (bignum_sub_mag a b))"
proof (intro conjI impI)
  show c: "bignum_compare_mag a b = sgn (int (lval a) - int (lval b))"
    using assms by (rule compare_mag_sgn)
  assume "0 \<le> bignum_compare_mag a b"
  then have le: "lval b \<le> lval a" unfolding c by (simp add: sgn_if split: if_splits)
  then have len: "length b \<le> length a"
    using norm_limbs_length_less [of a b] assms by fastforce
  then have "sub_loop a b 0 \<noteq> []" using sub_loop_correct [of b a 0] assms by (auto simp: norm_limbs_def)
  then show "lval (bignum_sub_mag a b) = lval a - lval b" "norm_limbs (bignum_sub_mag a b)"
    using lval_sub_mag [OF le len] by (simp_all add: bignum_sub_mag_def)
qed

text \<open>
  The two platform variants of multiplication by a fixnum magnitude fill the result
  with the same limbs, and those are the product, whenever the result array has room for it.
\<close>

theorem mul_small_platforms_agree:
  assumes "unat m \<le> 1073741824" "length a \<le> r_len" "lval a * unat m < 2 ^ (16 * r_len)"
  shows "bignum_mul_small a m r_len = bignum_mul_small_68k a m r_len
    \<and> lval (bignum_mul_small a m r_len) = lval a * unat m \<and> length (bignum_mul_small a m r_len) = r_len"
  using lval_mul_small [OF assms(2,3)] lval_mul_small_68k [OF assms]
  by (simp add: lval_inj)

end
