(* ===== verification/Knuth.thy ===== *)
theory Knuth
  imports Limbs
begin

text \<open>
  Multi-limb division, \<open>bignum_divmod\<close> of \<open>core/bignum.c\<close>: Knuth's Algorithm D on
  16-bit limbs.  The working array \<open>u\<close> is a limb list; one pass of the main loop
  rewrites the window of \<open>n + 1\<close> limbs that starts at the index of the quotient digit
  being computed (\<open>div_step\<close>).  The routine is proved to return the exact quotient and
  remainder; the arguments that make the C code index below its arrays, divide by zero or
  loop are values of the error type.
\<close>

section \<open>The algorithm\<close>

text \<open>
  \<open>while (bh < 0x8000) { bh <<= 1; shift++; }\<close>.  The loop ends within 15 rounds unless
  \<open>bh\<close> is zero, in which case it never does: the fuel of 16 in \<open>bignum_divmod\<close> covers
  every terminating run (\<open>norm_shift_correct\<close>) and \<open>None\<close> stands for the endless one
  (\<open>norm_shift_zero\<close>).
\<close>

fun norm_shift :: "nat \<Rightarrow> u16 \<Rightarrow> nat \<Rightarrow> nat option" where
  "norm_shift 0 bh shift = None"
| "norm_shift (Suc fuel) bh shift =
     (if bh < 0x8000 then norm_shift fuel (push_bit 1 bh) (Suc shift) else Some shift)"

fun shift_left_loop :: "nat \<Rightarrow> u16 list \<Rightarrow> u32 \<Rightarrow> u16 list \<times> u32" where
  "shift_left_loop shift [] carry = ([], carry)"
| "shift_left_loop shift (x # xs) carry =
     (let val = push_bit shift (ucast x) OR carry;
          (r, c) = shift_left_loop shift xs (drop_bit 16 val)
      in (ucast (val AND 0xFFFF) # r, c))"

text \<open>The \<open>Refine qhat\<close> loop; its guard \<open>n >= 2\<close> always holds on this path.\<close>

function refine_qhat :: "u32 \<Rightarrow> u32 \<Rightarrow> u16 \<Rightarrow> u16 \<Rightarrow> u16 \<Rightarrow> u32" where
  "refine_qhat qhat rhat v1 v2 u2 =
     (if qhat \<ge> 0x10000 \<or> qhat * ucast v2 > (push_bit 16 rhat OR ucast u2)
      then (if rhat + ucast v1 \<ge> 0x10000 then qhat - 1
            else refine_qhat (qhat - 1) (rhat + ucast v1) v1 v2 u2)
      else qhat)"
  by pat_completeness auto
termination
proof (relation "measure (\<lambda>(qhat, _). unat qhat)")
  fix qhat rhat :: u32 and v1 v2 u2 :: u16
  assume "qhat \<ge> 0x10000 \<or> qhat * ucast v2 > (push_bit 16 rhat OR ucast u2)"
  then have "qhat \<noteq> 0" by auto
  then have "unat (qhat - 1) < unat qhat"
    by (metis unat_gt_0 unat_minus_one diff_less zero_less_one)
  then show "((qhat - 1, rhat + ucast v1, v1, v2, u2), qhat, rhat, v1, v2, u2)
      \<in> measure (\<lambda>(qhat, _). unat qhat)" by simp
qed simp

declare refine_qhat.simps [simp del]

text \<open>Multiply and subtract, with the top limb of the window as the last step.\<close>

fun mulsub :: "u32 \<Rightarrow> u16 list \<Rightarrow> u16 list \<Rightarrow> u32 \<Rightarrow> int \<Rightarrow> u16 list \<times> int" where
  "mulsub qhat (v # vs) (u # us) carry2 borrow2 =
     (let prod = qhat * ucast v + carry2;
          diff = uint u - sint (prod AND 0xFFFF) + borrow2;
          b = diff div 65536;
          (r, b') = mulsub qhat vs us (drop_bit 16 prod) (if b < -1 then -1 else b)
      in (word_of_int diff # r, b'))"
| "mulsub qhat [] (u # us) carry2 borrow2 =
     (let diff = uint u - sint carry2 + borrow2 in (word_of_int diff # us, diff div 65536))"
| "mulsub qhat vs [] carry2 borrow2 = ([], borrow2)"

text \<open>Add back: the loop over the divisor limbs, then \<open>u[idx + n] += (uint16_t)carry3\<close>.\<close>

definition add_back :: "u16 list \<Rightarrow> u16 list \<Rightarrow> u16 list" where
  "add_back w v =
     (let n = length v; (r, carry3) = add_loop (take n w) v 0
      in r @ [w ! n + ucast carry3])"

definition div_step :: "u16 list \<Rightarrow> u16 list \<Rightarrow> u16 \<times> u16 list" where
  "div_step w v =
     (let n = length v;
          u_hi = push_bit 16 (ucast (w ! n)) OR ucast (w ! (n - 1)) :: u32;
          qhat = refine_qhat (u_hi div ucast (v ! (n - 1))) (u_hi mod ucast (v ! (n - 1)))
                   (v ! (n - 1)) (v ! (n - 2)) (w ! (n - 2));
          (w', borrow2) = mulsub qhat v w 0 0
      in if borrow2 < 0 then (ucast qhat - 1, add_back w' v) else (ucast qhat, w'))"

text \<open>The loop \<open>for (j = m + 1; j > 0; j--)\<close>: quotient digits, lowest first, and the final \<open>u\<close>.\<close>

fun div_loop :: "nat \<Rightarrow> u16 list \<Rightarrow> u16 list \<Rightarrow> u16 list \<times> u16 list" where
  "div_loop 0 u v = ([], u)"
| "div_loop (Suc idx) u v =
     (let n = length v;
          (q, w) = div_step (take (n + 1) (drop idx u)) v;
          (quot, u') = div_loop idx (take idx u @ w @ drop (idx + n + 1) u) v
      in (quot @ [q], u'))"

text \<open>Un-shifting the remainder, from the top limb down.\<close>

fun unshift_loop :: "nat \<Rightarrow> u16 list \<Rightarrow> u16 list \<times> u32" where
  "unshift_loop shift [] = ([], 0)"
| "unshift_loop shift (x # xs) =
     (let (r, carry) = unshift_loop shift xs;
          val = ucast x OR push_bit 16 carry
      in (ucast (drop_bit shift val) # r, ucast (x AND (push_bit shift 1 - 1))))"

definition bignum_divmod :: "u16 list \<Rightarrow> u16 list \<Rightarrow> (u16 list \<times> u16 list) res" where
  "bignum_divmod a b =
     (if length b = 1 then
        (if b ! 0 = 0 then Inl Undefined
         else (let (quot, r) = bignum_div_single a (b ! 0) in Inr (strip_zeros quot, [r])))
      else if b = [] \<or> length a < length b then Inl Undefined
      else case norm_shift 16 (last b) 0 of
        None \<Rightarrow> Inl No_Return
      | Some shift \<Rightarrow>
          (let (v, _) = shift_left_loop shift b 0;
               (u, carry) = shift_left_loop shift a 0;
               (quot, u') = div_loop (length a - length b + 1) (u @ [ucast carry]) v;
               rem = (if shift > 0 then fst (unshift_loop shift (take (length b) u'))
                      else take (length b) u')
           in Inr (strip_zeros quot, rem)))"

section \<open>Correctness\<close>

lemma est_upper:
  fixes U V W x U3 V2 :: nat
  assumes "U3 < x * V2" "U < (U3 + 1) * W" "V2 * W \<le> V"
  shows "U div V < x"
proof -
  have "U < (U3 + 1) * W" by fact
  also have "\<dots> \<le> (x * V2) * W" using assms(1) by (intro mult_le_mono1) simp
  also have "\<dots> \<le> x * V" using assms(3) by (simp add: mult.assoc)
  finally show ?thesis by (rule less_mult_imp_div_less)
qed

lemma est_lower:
  fixes U V W x U3 V2 :: nat
  assumes "x * V2 \<le> U3" "U3 * W \<le> U" "V < (V2 + 1) * W" "x \<le> V2 + 1" "0 < V"
  shows "x \<le> U div V + 1"
proof (cases x)
  case (Suc y)
  have "y * V \<le> y * ((V2 + 1) * W)" using assms(3) by simp
  also have "\<dots> \<le> (x * V2) * W"
  proof -
    have "y * (V2 + 1) \<le> x * V2" using assms(4) Suc by simp
    then have "y * (V2 + 1) * W \<le> x * V2 * W" by (rule mult_le_mono1)
    then show ?thesis by (simp only: mult.assoc)
  qed
  also have "\<dots> \<le> U3 * W" using assms(1) by simp
  also have "\<dots> \<le> U" by fact
  finally show ?thesis using Suc assms(5) by (simp add: less_eq_div_iff_mult_less_eq)
qed simp

lemma unat_minus_one32: "x \<noteq> 0 \<Longrightarrow> unat (x - 1 :: u32) = unat x - 1"
  by (rule unat_minus_one)

lemma unat_rhat_pair:
  fixes rhat :: u32 and u2 :: u16
  assumes "unat rhat < 65536"
  shows "unat (push_bit 16 rhat OR ucast u2 :: u32) = unat rhat * 65536 + unat u2"
proof -
  have "unat (ucast u2 OR push_bit 16 rhat :: u32) = unat u2 + unat rhat * 2 ^ 16"
    using assms unat_lt16 [of u2] by (subst unat_or_push) simp_all
  then show ?thesis by (simp add: or.commute)
qed

lemma refine_qhat_correct:
  fixes v1 v2 u2 :: u16
  assumes "q < 65536" "U2 < unat v1 * 65536 + 65536"
    and up: "\<And>x. U2 * 65536 + unat u2 < x * (unat v1 * 65536 + unat v2) \<Longrightarrow> q < x"
  shows "unat qhat * unat v1 + unat rhat = U2 \<Longrightarrow> unat rhat < 65536 \<Longrightarrow> q \<le> unat qhat \<Longrightarrow> unat qhat \<le> 65537 \<Longrightarrow>
    q \<le> unat (refine_qhat qhat rhat v1 v2 u2) \<and> unat (refine_qhat qhat rhat v1 v2 u2) < 65536
    \<and> unat (refine_qhat qhat rhat v1 v2 u2) * (unat v1 * 65536 + unat v2) \<le> U2 * 65536 + unat u2"
proof (induction "unat qhat" arbitrary: qhat rhat rule: less_induct)
  case less
  define test where "test \<longleftrightarrow> (qhat \<ge> 0x10000 \<or> qhat * ucast v2 > (push_bit 16 rhat OR ucast u2))"
  define s where "s = rhat + ucast v1"
  have rhs: "unat (push_bit 16 rhat OR ucast u2 :: u32) = unat rhat * 65536 + unat u2"
    using less.prems(2) by (rule unat_rhat_pair)
  have prod: "unat (qhat * ucast v2) = unat qhat * unat v2" if "unat qhat < 65536"
  proof (subst unat_mult_small)
    have "unat qhat * unat v2 < 65536 * 65536"
      using that unat_lt16 [of v2] by (intro mult_strict_mono) auto
    then show "unat qhat * unat (ucast v2 :: u32) < 2 ^ LENGTH(32)" by simp
  qed simp
  have test: "test \<longleftrightarrow> 65536 \<le> unat qhat \<or> unat rhat * 65536 + unat u2 < unat qhat * unat v2"
    unfolding test_def using prod rhs
    by (cases "unat qhat < 65536") (simp_all add: word_le_nat_alt word_less_nat_alt)
  have s: "unat s = unat rhat + unat v1"
    unfolding s_def by (subst unat_add_small) (use less.prems(2) unat_lt16 [of v1] in simp_all)
  have key: "unat qhat * (unat v1 * 65536 + unat v2) + unat rhat * 65536
      = U2 * 65536 + unat qhat * unat v2"
    by (simp add: less.prems(1) [symmetric] algebra_simps)
  show ?case
  proof (cases test)
    case False
    then have "refine_qhat qhat rhat v1 v2 u2 = qhat"
      by (subst refine_qhat.simps) (auto simp: test_def)
    moreover have a: "unat qhat < 65536" "unat qhat * unat v2 \<le> unat rhat * 65536 + unat u2"
      using False test by auto
    moreover have "unat qhat * (unat v1 * 65536 + unat v2) + unat rhat * 65536
        \<le> U2 * 65536 + (unat rhat * 65536 + unat u2)"
      unfolding key using a(2) by (rule add_left_mono)
    then have "unat qhat * (unat v1 * 65536 + unat v2) \<le> U2 * 65536 + unat u2" by linarith
    ultimately show ?thesis using less.prems(3) by simp
  next
    case True
    have q: "q < unat qhat"
      using iffD1 [OF test True]
    proof
      assume "65536 \<le> unat qhat"
      then show ?thesis using assms(1) by simp
    next
      assume "unat rhat * 65536 + unat u2 < unat qhat * unat v2"
      then show ?thesis by (intro up) (use key in simp)
    qed
    then have m1: "unat (qhat - 1) = unat qhat - 1" by (intro unat_minus_one32) auto
    have inv: "unat (qhat - 1) * unat v1 + unat s = U2"
      using q less.prems(1) by (cases "unat qhat") (simp_all add: m1 s)
    show ?thesis
    proof (cases "65536 \<le> unat s")
      case False
      have "refine_qhat qhat rhat v1 v2 u2 = refine_qhat (qhat - 1) s v1 v2 u2"
        using True False by (subst refine_qhat.simps) (auto simp: test_def s_def word_le_nat_alt)
      moreover have "unat (qhat - 1) < unat qhat" using q m1 by simp
      ultimately show ?thesis using less.hyps [of "qhat - 1" s] inv False q m1 less.prems(4) by simp
    next
      case big: True
      have r: "refine_qhat qhat rhat v1 v2 u2 = qhat - 1"
        using True big by (subst refine_qhat.simps) (auto simp: test_def s_def word_le_nat_alt)
      have "unat (qhat - 1) * unat v1 < unat v1 * 65536"
        using inv big assms(2) by linarith
      then have lt: "unat (qhat - 1) < 65536" by (subst (asm) mult.commute) (simp add: mult_less_cancel1)
      have "unat (qhat - 1) * (unat v1 * 65536 + unat v2) + unat s * 65536
          = U2 * 65536 + unat (qhat - 1) * unat v2"
        by (simp add: inv [symmetric] algebra_simps)
      moreover have "unat (qhat - 1) * unat v2 \<le> 65536 * 65536"
        using lt unat_lt16 [of v2] by (intro mult_le_mono) auto
      ultimately show ?thesis using r lt q m1 big by simp
    qed
  qed
qed


lemma sint_small32: "unat (x :: u32) < 2147483648 \<Longrightarrow> sint x = int (unat x)"
proof -
  assume "unat x < 2147483648"
  then have "int (unat x) < 2147483648" by linarith
  then show ?thesis using int_word_sint [of "int (unat x)", where 'a = 32]
    by (simp add: mod_pos_pos_trivial)
qed

lemma int_unat_of_int16: "int (unat (word_of_int d :: u16)) = d mod 65536"
  by (simp add: uint_word_of_int)

text \<open>One limb of the multiply-and-subtract loop.\<close>

lemma mulsub_limb:
  fixes u v :: u16 and qhat c :: u32 and b :: int
  assumes "unat qhat < 65536" "unat c < 65536" "-1 \<le> b" "b \<le> 0"
  defines "p \<equiv> qhat * ucast v + c"
  defines "d \<equiv> uint u - sint (p AND 0xFFFF) + b"
  shows "unat p = unat qhat * unat v + unat c" "unat (drop_bit 16 p) < 65536"
    "-1 \<le> d div 65536" "d div 65536 \<le> 0"
    "uint u - (uint qhat * uint v + uint c) + b
      = int (unat (word_of_int d :: u16)) + 65536 * (d div 65536 - int (unat (drop_bit 16 p)))"
proof -
  have bd: "unat qhat * unat v + unat c < 65536 * 65536"
    using mul_bound [of "unat qhat" 65536 "unat v" 0 "unat c"] assms(1,2) unat_lt16 [of v] by simp
  have "unat (qhat * ucast v) = unat qhat * unat v"
    by (subst unat_mult_small) (use bd in simp_all)
  then show up: "unat p = unat qhat * unat v + unat c"
    unfolding p_def by (subst unat_add_small) (use bd in simp_all)
  then show "unat (drop_bit 16 p) < 65536" using bd by (simp add: unat_hi16 less_mult_imp_div_less)
  have lo: "sint (p AND 0xFFFF) = int (unat p mod 65536)"
    by (subst sint_small32) (simp_all add: unat_and_lo16 order_less_trans [OF mod_less_divisor])
  have d: "d = int (unat u) - int (unat p mod 65536) + b" by (simp add: d_def lo)
  have "- 65536 \<le> d" "d < 65536"
    using assms(3,4) unat_lt16 [of u] mod_less_divisor [of 65536 "unat p"] unfolding d by linarith+
  then show "-1 \<le> d div 65536" "d div 65536 \<le> 0" by linarith+
  have "int (unat p) = int (unat p mod 65536) + 65536 * int (unat p div 65536)"
    by (metis mod_mult_div_eq of_nat_add of_nat_mult of_nat_numeral)
  moreover have "int (unat (word_of_int d :: u16)) + 65536 * (d div 65536) = d"
    by (simp only: int_unat_of_int16) simp
  moreover have "int (unat p) = uint qhat * uint v + uint c" "int (unat u) = uint u" using up by simp_all
  ultimately show "uint u - (uint qhat * uint v + uint c) + b
      = int (unat (word_of_int d :: u16)) + 65536 * (d div 65536 - int (unat (drop_bit 16 p)))"
    using d unfolding unat_hi16 right_diff_distrib by linarith
qed

lemma mulsub_split:
  fixes M :: int
  assumes "u - (q * v + c) + b = w + M * (d - e)"
    and "us - (q * vs + e) + d = r + K * k"
  shows "(u + M * us) - (q * (v + M * vs) + c) + b = (w + M * r) + (M * K) * k"
proof -
  have "(u + M * us) - (q * (v + M * vs) + c) + b
      = (u - (q * v + c) + b) + M * (us - q * vs)" by (simp add: algebra_simps)
  also have "\<dots> = w + M * (us - (q * vs + e) + d)" unfolding assms(1) by (simp add: algebra_simps)
  finally show ?thesis unfolding assms(2) by (simp add: algebra_simps)
qed

lemma int_lval_Cons16: "int (lval ((x :: u16) # xs)) = uint x + 65536 * int (lval xs)"
  by simp

lemma mulsub_correct:
  "mulsub qhat vs us c b = (r, b') \<Longrightarrow> length us = Suc (length vs) \<Longrightarrow> unat qhat < 65536 \<Longrightarrow>
    unat c < 65536 \<Longrightarrow> -1 \<le> b \<Longrightarrow> b \<le> 0 \<Longrightarrow>
    length r = length us \<and>
    int (lval us) - (uint qhat * int (lval vs) + uint c) + b = int (lval r) + 2 ^ (16 * length us) * b'"
proof (induction qhat vs us c b arbitrary: r b' rule: mulsub.induct)
  case (1 qhat v vs u us c b)
  define p where "p = qhat * ucast v + c"
  define d where "d = uint u - sint (p AND 0xFFFF) + b"
  have limb: "unat (drop_bit 16 p) < 65536" "-1 \<le> d div 65536" "d div 65536 \<le> 0"
    "uint u - (uint qhat * uint v + uint c) + b
      = int (unat (word_of_int d :: u16)) + 65536 * (d div 65536 - int (unat (drop_bit 16 p)))"
    unfolding d_def p_def by (rule mulsub_limb [OF 1(4-7)])+
  obtain r1 b1 where step: "mulsub qhat vs us (drop_bit 16 p) (d div 65536) = (r1, b1)" by fastforce
  have "mulsub qhat (v # vs) (u # us) c b = (word_of_int d # r1, b1)"
    unfolding mulsub.simps Let_def p_def [symmetric] d_def [symmetric] using step limb(2) by simp
  then have out: "r = word_of_int d # r1" "b' = b1" using 1(2) by simp_all
  have clamp: "(if d div 65536 < -1 then -1 else d div 65536) = d div 65536" using limb(2) by simp
  have len: "length us = Suc (length vs)" using 1(3) by simp
  have IH: "length r1 = length us"
    "int (lval us) - (uint qhat * int (lval vs) + uint (drop_bit 16 p)) + d div 65536
      = int (lval r1) + 2 ^ (16 * length us) * b1"
    using 1(1) [OF p_def d_def refl, unfolded clamp, OF step len 1(4) limb(1-3)] by blast+
  have pw: "(2 :: int) ^ (16 * length (u # us)) = 65536 * 2 ^ (16 * length us)" by (simp add: power_add)
  have "uint u - (uint qhat * uint v + uint c) + b
      = uint (word_of_int d :: u16) + 65536 * (d div 65536 - uint (drop_bit 16 p))"
    using limb(4) by simp
  from mulsub_split [OF this IH(2)] show ?case
    unfolding int_lval_Cons16 out pw using IH(1) by simp
next
  case (2 qhat u us c b)
  define d where "d = uint u - sint c + b"
  have "d = uint u - uint c + b" using 2(3) 2(4) by (simp add: d_def sint_small32)
  moreover have "uint (word_of_int d :: u16) + 65536 * (d div 65536) = d"
    using int_unat_of_int16 [of d] by simp
  moreover have "r = word_of_int d # us" "b' = d div 65536"
    using 2(1) unfolding mulsub.simps Let_def d_def [symmetric] by simp_all
  ultimately show ?case using 2(2) by (simp del: of_int_add of_int_diff)
qed simp

lemma add_back_correct:
  assumes "length w = Suc (length v)"
  shows "length (add_back w v) = length w"
    and "\<exists>k. int (lval (add_back w v)) = int (lval w) + int (lval v) + 2 ^ (16 * length w) * k"
proof -
  let ?n = "length v"
  obtain r c where rc: "add_loop (take ?n w) v 0 = (r, c)" by fastforce
  have len: "length (take ?n w) = ?n" using assms by simp
  have add: "length r = ?n" "unat c \<le> 1" "lval r + 2 ^ (16 * ?n) * unat c = lval (take ?n w) + lval v"
    using add_loop_correct [OF rc] len by simp_all
  show "length (add_back w v) = length w" using rc add assms by (simp add: add_back_def)
  have w: "w = take ?n w @ [w ! ?n]"
    using assms by (metis append_eq_conv_conj lessI order_refl take_Suc_conv_app_nth take_all_iff)
  have c: "unat (ucast c :: u16) = unat c"
    using add(2) by (simp add: unsigned_ucast_eq take_bit_nat_eq_self)
  define t where "t = w ! ?n + ucast c"
  have "unat t = (unat (w ! ?n) + unat c) mod 65536" by (simp add: t_def unat_word_ariths c)
  then have "unat (w ! ?n) + unat c = unat t + 65536 * ((unat (w ! ?n) + unat c) div 65536)"
    by (metis mod_mult_div_eq)
  then obtain k where k: "unat (w ! ?n) + unat c = unat t + 65536 * k" by blast
  have "lval (add_back w v) = lval r + 2 ^ (16 * ?n) * unat t"
    using rc add by (simp add: add_back_def t_def lval_append)
  then have "lval (add_back w v) + 2 ^ (16 * ?n) * (65536 * k)
      = lval r + 2 ^ (16 * ?n) * unat c + 2 ^ (16 * ?n) * unat (w ! ?n)"
    using k by (simp add: add_mult_distrib2 [symmetric] add.commute)
  also have "\<dots> = lval (take ?n w @ [w ! ?n]) + lval v"
    unfolding add(3) by (subst lval_append) (simp only: len, simp)
  finally have "lval (add_back w v) + (2 ^ (16 * length w)) * k = lval w + lval v"
    using w assms by (simp add: power_add mult.assoc mult.left_commute)
  then have "int (lval (add_back w v) + 2 ^ (16 * length w) * k) = int (lval w + lval v)" by simp
  then have "int (lval (add_back w v)) = int (lval w) + int (lval v) + 2 ^ (16 * length w) * (- int k)"
    by simp
  then show "\<exists>k. int (lval (add_back w v)) = int (lval w) + int (lval v) + 2 ^ (16 * length w) * k"
    by blast
qed


lemma horner3: "(lo :: nat) + P * (x + M * (y + M * z)) = ((z * M + y) * M + x) * P + lo"
  by (simp add: algebra_simps)

lemma lval_top3:
  assumes "length w = n + 1" "2 \<le> n"
  shows "\<exists>lo. lo < 2 ^ (16 * (n - 2)) \<and>
    lval (w :: u16 list) = ((unat (w ! n) * 65536 + unat (w ! (n - 1))) * 65536 + unat (w ! (n - 2))) * 2 ^ (16 * (n - 2)) + lo"
proof -
  obtain k where n: "n = k + 2" using assms(2) by (metis add.commute le_Suc_ex)
  have "w = take k w @ [w ! k, w ! (k + 1), w ! (k + 2)]"
    by (rule nth_equalityI) (use assms(1) n in \<open>auto simp: nth_append nth_Cons' less_Suc_eq\<close>)
  then have "lval w = lval (take k w @ [w ! k, w ! (k + 1), w ! (k + 2)])" by (rule arg_cong)
  then have "lval w = lval (take k w) + 2 ^ (16 * length (take k w)) * lval [w ! k, w ! (k + 1), w ! (k + 2)]"
    unfolding lval_append by simp
  moreover have "length (take k w) = k" using assms(1) n by simp
  moreover have "lval (take k w) < 2 ^ (16 * k)" using lval_bound [of "take k w"] calculation(2) by simp
  ultimately show ?thesis using n
    by (intro exI [of _ "lval (take k w)"]) (simp add: horner3 [symmetric])
qed

lemma lval_top2:
  assumes "length v = n" "2 \<le> n"
  shows "\<exists>lo. lo < 2 ^ (16 * (n - 2)) \<and>
    lval (v :: u16 list) = (unat (v ! (n - 1)) * 65536 + unat (v ! (n - 2))) * 2 ^ (16 * (n - 2)) + lo"
proof -
  have "length (v @ [0]) = n + 1" using assms by simp
  from lval_top3 [OF this assms(2)] show ?thesis using assms by (simp add: nth_append lval_append)
qed


lemma scaled_less:
  fixes a b x y W M :: nat
  assumes "a * W \<le> x" "x < y * M" "y \<le> b * W"
  shows "a < b * M"
proof -
  have "a * W < y * M" using assms(1,2) by simp
  also have "\<dots> \<le> (b * W) * M" using assms(3) by simp
  also have "\<dots> = (b * M) * W" by (simp only: ac_simps)
  finally show ?thesis by (simp only: mult_less_cancel2)
qed

lemma scaled_le:
  fixes x y z M :: nat
  assumes "x * M \<le> y * M + z" "z < M"
  shows "x \<le> y"
proof -
  have "x * M < (y + 1) * M" using assms by simp
  then have "x < y + 1" by (simp only: mult_less_cancel2)
  then show ?thesis by simp
qed

lemma div_step_estimate:
  assumes len: "length w = length v + 1" "2 \<le> length v" and top: "0x8000 \<le> last v"
    and small: "lval w < lval v * 65536"
  defines "n \<equiv> length v"
  defines "u_hi \<equiv> push_bit 16 (ucast (w ! n)) OR ucast (w ! (n - 1)) :: u32"
  defines "qhat \<equiv> refine_qhat (u_hi div ucast (v ! (n - 1))) (u_hi mod ucast (v ! (n - 1)))
             (v ! (n - 1)) (v ! (n - 2)) (w ! (n - 2))"
  shows "lval w div lval v \<le> unat qhat" "unat qhat \<le> lval w div lval v + 1" "unat qhat < 65536"
proof -
  let ?W = "2 ^ (16 * (n - 2)) :: nat"
  let ?v1 = "unat (v ! (n - 1))" and ?v2 = "unat (v ! (n - 2))"
  let ?U2 = "unat (w ! n) * 65536 + unat (w ! (n - 1))" and ?u2 = "unat (w ! (n - 2))"
  let ?q = "lval w div lval v"
  obtain lo where U: "lo < ?W" "lval w = (?U2 * 65536 + ?u2) * ?W + lo"
    using lval_top3 [of w n] len unfolding n_def by auto
  obtain lo' where V: "lo' < ?W" "lval v = (?v1 * 65536 + ?v2) * ?W + lo'"
    using lval_top2 [of v n] len unfolding n_def by auto
  have "v \<noteq> []" using len by auto
  then have "last v = v ! (n - 1)" by (simp add: last_conv_nth n_def)
  then have v1: "32768 \<le> ?v1" using top by (simp add: word_le_nat_alt)
  have V0: "0 < lval v" using v1 V by (simp add: trans_less_add1)
  have q: "?q < 65536" using small V0 by (simp add: less_mult_imp_div_less mult.commute)
  have uh: "unat u_hi = ?U2"
    unfolding u_hi_def by (subst unat_rhat_pair) (simp_all add: unat_lt16)
  have W0: "0 < ?W" by simp
  have "?U2 * 65536 + ?u2 < (?v1 * 65536 + ?v2 + 1) * 65536"
    by (rule scaled_less [OF _ small, where W = ?W]) (use U V in simp_all)
  then have "?U2 * 65536 < (?v1 * 65536 + ?v2 + 1) * 65536" by (rule le_less_trans [rotated]) simp
  then have "?U2 < ?v1 * 65536 + ?v2 + 1" by (simp only: mult_less_cancel2)
  then have U2: "?U2 < ?v1 * 65536 + 65536" using unat_lt16 [of "v ! (n - 2)"] by linarith
  have up: "?q < x" if "?U2 * 65536 + ?u2 < x * (?v1 * 65536 + ?v2)" for x
    by (rule est_upper [OF that, where W = ?W]) (use U V in simp_all)
  have init: "?q \<le> ?U2 div ?v1"
  proof -
    have "?q * (?v1 * 65536 + ?v2) \<le> ?U2 * 65536 + ?u2" using up [of ?q] by (meson less_irrefl not_less)
    then have "(?q * ?v1) * 65536 \<le> ?U2 * 65536 + ?u2" by (simp add: add_mult_distrib2 mult.assoc)
    then have "?q * ?v1 \<le> ?U2" using unat_lt16 [of "w ! (n - 2)"] by (rule scaled_le)
    then show ?thesis using v1 by (simp add: less_eq_div_iff_mult_less_eq)
  qed
  have le: "?U2 div ?v1 \<le> 65537"
  proof -
    have "?U2 < 65538 * ?v1" using U2 v1 by linarith
    then have "?U2 div ?v1 < 65538" by (rule less_mult_imp_div_less)
    then show ?thesis by simp
  qed
  have r: "unat (u_hi mod ucast (v ! (n - 1))) < 65536"
    using v1 unat_lt16 [of "v ! (n - 1)"] by (simp add: unat_mod uh order_less_trans [OF mod_less_divisor])
  have fin: "?q \<le> unat qhat \<and> unat qhat < 65536 \<and> unat qhat * (?v1 * 65536 + ?v2) \<le> ?U2 * 65536 + ?u2"
    unfolding qhat_def
    by (rule refine_qhat_correct [OF q U2 up])
       (use r init le in \<open>simp_all add: unat_div unat_mod uh\<close>)
  then show "?q \<le> unat qhat" "unat qhat < 65536" by blast+
  show "unat qhat \<le> ?q + 1"
  proof (rule est_lower [OF _ _ _ _ V0])
    show "unat qhat * (?v1 * 65536 + ?v2) \<le> ?U2 * 65536 + ?u2" using fin by blast
    show "(?U2 * 65536 + ?u2) * ?W \<le> lval w" unfolding U(2) by (rule le_add1)
    show "lval v < (?v1 * 65536 + ?v2 + 1) * ?W" unfolding V(2) using V(1) by simp
    have "unat qhat < 65536" using fin by blast
    then show "unat qhat \<le> ?v1 * 65536 + ?v2 + 1" using v1 by linarith
  qed
qed


lemma div_step_correct:
  assumes len: "length w = length v + 1" "2 \<le> length v" and top: "0x8000 \<le> last v"
    and small: "lval w < lval v * 65536" and out: "div_step w v = (q, w')"
  shows "unat q = lval w div lval v" "lval w' = lval w mod lval v" "length w' = length w"
proof -
  let ?n = "length v" and ?M = "2 ^ (16 * length w) :: int"
  define u_hi where "u_hi = (push_bit 16 (ucast (w ! ?n)) OR ucast (w ! (?n - 1)) :: u32)"
  define qhat where "qhat = refine_qhat (u_hi div ucast (v ! (?n - 1))) (u_hi mod ucast (v ! (?n - 1)))
     (v ! (?n - 1)) (v ! (?n - 2)) (w ! (?n - 2))"
  note est = div_step_estimate [OF len top small, folded u_hi_def, folded qhat_def]
  obtain w1 b where ms: "mulsub qhat v w 0 0 = (w1, b)" by fastforce
  have o: "(q, w') = (if b < 0 then (ucast qhat - 1, add_back w1 v) else (ucast qhat, w1))"
    using out unfolding div_step_def Let_def u_hi_def [symmetric] qhat_def [symmetric] ms by simp
  have m: "length w1 = length w" "int (lval w) - uint qhat * int (lval v) = int (lval w1) + ?M * b"
    using mulsub_correct [OF ms] len est(3) by simp_all
  let ?Q = "lval w div lval v" and ?R = "lval w mod lval v"
  have V0: "0 < lval v" using small by (cases "lval v = 0") simp_all
  have RV: "int ?R < int (lval v)" using V0 by simp
  have "lval v < 2 ^ (16 * ?n)" using lval_bound [of v] by simp
  also have "\<dots> \<le> 2 ^ (16 * length w)" using len by simp
  finally have "int (lval v) < int (2 ^ (16 * length w))" by (simp only: of_nat_less_iff)
  then have VM: "int (lval v) < ?M" by simp
  have dm: "int (lval w) = int ?Q * int (lval v) + int ?R"
    by (metis div_mult_mod_eq of_nat_add of_nat_mult)
  have uq: "unat (ucast qhat :: u16) = unat qhat"
    using est(3) by (simp add: unsigned_ucast_eq take_bit_nat_eq_self)
  consider (exact) "unat qhat = ?Q" | (over) "unat qhat = ?Q + 1" using est by linarith
  then show "unat q = ?Q" "lval w' = ?R" "length w' = length w"
  proof (atomize (full), cases)
    case exact
    then have "uint qhat = int ?Q" by (metis int_nat_eq of_nat_0_le_iff uint_nat)
    then have e: "int ?R = int (lval w1) + ?M * b" using m(2) dm by simp
    have eq: "int ?R = int (lval w1)"
      by (rule int_unique_residue [OF e]) (use RV VM int_lval_bound [of w1] m(1) in simp_all)
    then have "?M * b = 0" using e by linarith
    then have "b = 0" by simp
    then show "unat q = ?Q \<and> lval w' = ?R \<and> length w' = length w"
      using o exact uq eq m(1) by simp
  next
    case over
    then have "uint qhat = int ?Q + 1" by (metis int_ops(2) of_nat_add uint_nat)
    then have e: "int ?R - int (lval v) = int (lval w1) + ?M * b" using m(2) dm by (simp add: algebra_simps)
    then have "?M * b < 0" using RV by linarith
    then have b: "b < 0" by (simp add: mult_less_0_iff)
    have "length w1 = Suc (length v)" using m(1) len by simp
    note ab = add_back_correct [OF this]
    then obtain k where "int (lval (add_back w1 v)) = int (lval w1) + int (lval v) + ?M * k"
      using m(1) by auto
    then have e': "int (lval (add_back w1 v)) = int ?R + ?M * (k - b)"
      using e by (simp add: algebra_simps)
    have "int (lval (add_back w1 v)) = int ?R"
      by (rule int_unique_residue [OF e'])
         (use RV VM int_lval_bound [of "add_back w1 v"] ab m(1) in simp_all)
    moreover have "unat (ucast qhat - 1 :: u16) = unat qhat - 1"
      using uq over by (metis unat_minus_one add_is_0 unat_0 zero_neq_one)
    ultimately show "unat q = ?Q \<and> lval w' = ?R \<and> length w' = length w"
      using o b over ab(1) m(1) by simp
  qed
qed


lemma div_loop_correct:
  "div_loop j u v = (quot, u') \<Longrightarrow> length u = length v + j + k \<Longrightarrow> 2 \<le> length v \<Longrightarrow>
    0x8000 \<le> last v \<Longrightarrow> lval u < lval v * 65536 ^ j \<Longrightarrow>
    length quot = j \<and> length u' = length u \<and> lval u' < lval v
      \<and> lval u = lval quot * lval v + lval u'"
proof (induction j arbitrary: u quot u' k)
  case 0
  then show ?case by simp
next
  case (Suc idx)
  let ?n = "length v" and ?B = "65536 ^ idx :: nat"
  define w where "w = take (?n + 1) (drop idx u)"
  define rest where "rest = drop (idx + ?n + 1) u"
  obtain q w1 where st: "div_step w v = (q, w1)" by fastforce
  define u1 where "u1 = take idx u @ w1 @ rest"
  obtain qs u2 where rec: "div_loop idx u1 v = (qs, u2)" by fastforce
  have out: "quot = qs @ [q]" "u' = u2"
    using Suc.prems(1) rec st by (simp_all add: Let_def w_def u1_def rest_def)
  have u: "u = take idx u @ w @ rest"
  proof -
    have "rest = drop (?n + 1) (drop idx u)" by (simp add: rest_def ac_simps)
    then show ?thesis by (simp only: w_def append_take_drop_id)
  qed
  have lw: "length w = ?n + 1" "length (take idx u) = idx"
    using Suc.prems(2) by (simp_all add: w_def)
  have pw: "(2::nat) ^ (16 * i) = 65536 ^ i" for i by (simp add: power_mult)
  have "lval u = lval (take idx u @ w @ rest)" using u by simp
  also have "\<dots> = lval (take idx u) + ?B * (lval w + 65536 ^ (?n + 1) * lval rest)"
    using lw pw [of "Suc ?n"] by (simp add: lval_append pw del: power_Suc)
  finally have lu: "lval u = lval (take idx u) + ?B * (lval w + 65536 ^ (?n + 1) * lval rest)" .
  have lo: "lval (take idx u) < ?B" using lval_bound [of "take idx u"] lw pw by simp
  have "?B * (lval w + 65536 ^ (?n + 1) * lval rest) \<le> lval u" unfolding lu by (rule le_add2)
  also have "\<dots> < lval v * 65536 ^ Suc idx" by (rule Suc.prems(5))
  also have "\<dots> = ?B * (lval v * 65536)" by (simp only: power_Suc ac_simps)
  finally have "?B * (lval w + 65536 ^ (?n + 1) * lval rest) < ?B * (lval v * 65536)" .
  then have small: "lval w + 65536 ^ (?n + 1) * lval rest < lval v * 65536" by simp
  moreover have "lval v * 65536 \<le> 65536 ^ (?n + 1)"
    using lval_bound [of v] pw [of ?n] by simp
  ultimately have "65536 ^ (?n + 1) * lval rest < 65536 ^ (?n + 1) * 1" by linarith
  then have r0: "lval rest = 0" by simp
  have "lval w < lval v * 65536" using small by linarith
  note step = div_step_correct [OF lw(1) Suc.prems(3,4) this st]
  have lu1: "lval u1 = lval (take idx u) + ?B * lval w1"
    using lw step(3) r0 by (simp add: u1_def lval_append pw)
  have V0: "0 < lval v" using Suc.prems(5) by (cases "lval v = 0") simp_all
  have "lval u1 < ?B + ?B * lval w1" using lo lu1 by simp
  also have "\<dots> = ?B * (lval w1 + 1)" by simp
  also have "\<dots> \<le> ?B * lval v" using step(2) V0 by (intro mult_le_mono2) (simp add: Suc_le_eq)
  finally have s1: "lval u1 < lval v * ?B" by (simp add: mult.commute)
  have l1: "length u1 = ?n + idx + Suc k"
    using Suc.prems(2) lw step(3) by (simp add: u1_def rest_def)
  from Suc.IH [OF rec l1 Suc.prems(3,4) s1] have IH: "length qs = idx" "length u2 = length u1"
    "lval u2 < lval v" "lval u1 = lval qs * lval v + lval u2" by auto
  have "lval u = lval (take idx u) + ?B * (lval w div lval v * lval v + lval w mod lval v)"
    using lu r0 by simp
  also have "\<dots> = lval u1 + ?B * (unat q * lval v)" unfolding step lu1 by (simp only: add_mult_distrib2 add_mult_distrib ac_simps)
  also have "\<dots> = lval quot * lval v + lval u'"
    unfolding out IH(4) using IH(1) by (simp add: lval_append pw add_mult_distrib mult.assoc)
  finally show ?case using IH out l1 Suc.prems(2) by simp
qed

lemma norm_shift_correct:
  "bh \<noteq> 0 \<Longrightarrow> 32768 \<le> unat bh * 2 ^ fuel \<Longrightarrow> \<exists>s. norm_shift (Suc fuel) bh k = Some (k + s) \<and>
    s < 16 \<and> 32768 \<le> unat bh * 2 ^ s \<and> unat bh * 2 ^ s < 65536"
proof (induction fuel arbitrary: bh k)
  case 0
  then show ?case using unat_lt16 [of bh] by (auto simp: word_less_nat_alt)
next
  case (Suc fuel)
  show ?case
  proof (cases "bh < 0x8000")
    case False
    then show ?thesis using unat_lt16 [of bh] by (auto simp: word_less_nat_alt)
  next
    case True
    then have lt: "unat bh < 32768" by (simp add: word_less_nat_alt)
    then have d: "unat (push_bit 1 bh) = 2 * unat bh" by (subst unat_push_bit_small) simp_all
    moreover have "push_bit 1 bh \<noteq> 0" using d Suc.prems(1) by (metis unat_eq_zero mult_eq_0_iff zero_neq_numeral)
    ultimately obtain s where s: "norm_shift (Suc fuel) (push_bit 1 bh) (Suc k) = Some (Suc k + s)"
      "s < 16" "32768 \<le> unat bh * 2 ^ Suc s" "unat bh * 2 ^ Suc s < 65536"
      using Suc.IH [of "push_bit 1 bh" "Suc k"] Suc.prems(2) by (auto simp: mult.assoc)
    have "1 \<le> unat bh" using Suc.prems(1) by (simp add: Suc_le_eq unat_gt_0)
    then have "1 * 2 ^ Suc s \<le> unat bh * 2 ^ Suc s" by (rule mult_le_mono1)
    then have "(2::nat) ^ Suc s < 65536" using s(4) by linarith
    then have "(2::nat) ^ Suc s < 2 ^ 16" by simp
    then have "Suc s < 16" by (simp only: power_strict_increasing_iff)
    then show ?thesis using s True by (intro exI [of _ "Suc s"]) simp
  qed
qed

lemma norm_shift_zero: "norm_shift fuel 0 k = None"
  by (induction fuel arbitrary: k) simp_all

lemma shift_left_loop_correct:
  "shift_left_loop s xs c = (r, c') \<Longrightarrow> s < 16 \<Longrightarrow> unat c < 2 ^ s \<Longrightarrow>
    length r = length xs \<and> unat c' < 2 ^ s
    \<and> lval r + 2 ^ (16 * length xs) * unat c' = lval xs * 2 ^ s + unat c"
proof (induction s xs c arbitrary: r c' rule: shift_left_loop.induct)
  case (2 s x xs c)
  define val where "val = (push_bit s (ucast x) OR c :: u32)"
  obtain r1 c1 where step: "shift_left_loop s xs (drop_bit 16 val) = (r1, c1)" by fastforce
  have s2: "(2::nat) ^ s \<le> 32768" using power_increasing [of s 15 "2::nat"] 2(3) by simp
  have bd: "unat x * 2 ^ s + 2 ^ s \<le> 65536 * 2 ^ s" using unat_lt16 [of x]
    by (metis Suc_leI add.commute mult_Suc mult_le_mono1)
  have "2 ^ s + unat x * 2 ^ s \<le> 65536 * 2 ^ s" using bd by simp
  also have "\<dots> \<le> 65536 * 32768" using s2 by (rule mult_le_mono2)
  finally have "2 ^ s + unat (ucast x :: u32) * 2 ^ s \<le> 2 ^ LENGTH(32)" by simp
  from unat_or_push [OF 2(4) this] have val: "unat val = unat x * 2 ^ s + unat c"
    by (simp add: val_def or.commute add.commute)
  then have "unat val < 65536 * 2 ^ s" using bd 2(4) by linarith
  then have c2: "unat (drop_bit 16 val) < 2 ^ s" by (simp add: unat_hi16 less_mult_imp_div_less mult.commute)
  note IH = 2(1) [OF val_def step 2(3) c2]
  have out: "r = ucast (val AND 0xFFFF) # r1" "c' = c1"
    using 2(2) step by (simp_all add: val_def Let_def)
  have "(unat val mod 65536 + 65536 * lval r1) + (65536 * 2 ^ (16 * length xs)) * unat c1
      = (unat x + 65536 * lval xs) * 2 ^ s + unat c"
    unfolding val by (rule mul_limb_step) (use IH in \<open>simp add: unat_hi16 val\<close>)
  then show ?case using IH out by (simp add: unat_lo16 power_add)
qed simp

lemma unshift_loop_correct:
  "unshift_loop s xs = (r, c) \<Longrightarrow> s < 16 \<Longrightarrow>
    length r = length xs \<and> lval r = lval xs div 2 ^ s \<and> unat c = lval xs mod 2 ^ s"
proof (induction s xs arbitrary: r c rule: unshift_loop.induct)
  case (2 s x xs)
  obtain r1 c1 where step: "unshift_loop s xs = (r1, c1)" by fastforce
  note IH = 2(1) [OF step 2(3)]
  define val where "val = (ucast x OR push_bit 16 c1 :: u32)"
  have out: "r = ucast (drop_bit s val) # r1" "c = ucast (x AND (push_bit s 1 - 1))"
    using 2(2) step by (simp_all add: val_def Let_def)
  let ?S = "2 ^ s :: nat"
  have s2: "?S \<le> 32768" using power_increasing [of s 15 "2::nat"] 2(3) by simp
  have c1: "unat c1 < ?S" using IH by simp
  have val: "unat val = unat x + 65536 * unat c1"
    unfolding val_def using unat_lt16 [of x] c1 s2 by (subst unat_or_push) simp_all
  have "unat val < 65536 * ?S"
  proof -
    have "unat val < 65536 * (unat c1 + 1)" using val unat_lt16 [of x] by simp
    also have "\<dots> \<le> 65536 * ?S" using c1 by (intro mult_le_mono2) simp
    finally show ?thesis .
  qed
  then have vd: "unat (ucast (drop_bit s val) :: u16) = unat val div ?S"
    by (simp add: unsigned_ucast_eq unat_hi_part take_bit_nat_eq_self less_mult_imp_div_less)
  have "push_bit s 1 - 1 = (mask s :: u16)" by (simp add: mask_eq_exp_minus_1)
  then have c: "unat c = unat x mod ?S"
    unfolding out(2) by (simp only: take_bit_eq_mask [symmetric] unat_ucast16_32 unsigned_take_bit_eq)
      (simp only: take_bit_eq_mod)
  obtain d where B: "(65536 :: nat) = ?S * d"
  proof -
    have "(65536 :: nat) = ?S * 2 ^ (16 - s)" using 2(3) by (simp flip: power_add)
    then show thesis by (rule that)
  qed
  have "lval (x # xs) = unat x + 65536 * (lval xs div ?S * ?S + lval xs mod ?S)"
    by (simp only: lval.simps div_mult_mod_eq) simp
  also have "\<dots> = unat val + ?S * (65536 * lval r1)" using IH val by (simp add: add_mult_distrib2)
  finally have lv: "lval (x # xs) = unat val + ?S * (65536 * lval r1)" .
  have "lval (x # xs) div ?S = unat val div ?S + 65536 * lval r1" unfolding lv by simp
  then have "lval r = lval (x # xs) div ?S" by (simp add: out vd)
  moreover have "lval (x # xs) mod ?S = unat val mod ?S" unfolding lv by (rule mod_mult_self2)
  moreover have "unat val mod ?S = unat x mod ?S" unfolding val B by (simp add: mult.assoc)
  ultimately show ?case using IH out c by simp
qed simp


lemma lval_last:
  assumes "xs \<noteq> []"
  shows "lval (xs :: u16 list) = lval (butlast xs) + 65536 ^ (length xs - 1) * unat (last xs)"
    and "lval (butlast xs) < 65536 ^ (length xs - 1)"
proof -
  have pw: "(2::nat) ^ (16 * i) = 65536 ^ i" for i by (simp add: power_mult)
  have "lval xs = lval (butlast xs @ [last xs])" using assms by simp
  also have "\<dots> = lval (butlast xs) + 65536 ^ (length xs - 1) * unat (last xs)"
    by (simp only: lval_append) (simp add: pw)
  finally show "lval xs = lval (butlast xs) + 65536 ^ (length xs - 1) * unat (last xs)" .
  show "lval (butlast xs) < 65536 ^ (length xs - 1)"
    using lval_bound [of "butlast xs"] by (simp add: pw)
qed

text \<open>The normalisation step makes the divisor's top limb at least half the base and loses nothing.\<close>

lemma shift_divisor:
  assumes sl: "shift_left_loop s b 0 = (v, vc)" and s: "s < 16" and ne: "b \<noteq> []"
    and hi: "32768 \<le> unat (last b) * 2 ^ s" "unat (last b) * 2 ^ s < 65536"
  shows "lval v = lval b * 2 ^ s" "length v = length b" "0x8000 \<le> last v"
proof -
  let ?S = "2 ^ s :: nat" and ?P = "65536 ^ (length b - 1) :: nat"
  have pw: "(2::nat) ^ (16 * i) = 65536 ^ i" for i by (simp add: power_mult)
  have vs: "length v = length b" "lval v + 65536 ^ length b * unat vc = lval b * ?S"
    using shift_left_loop_correct [OF sl s] by (simp_all add: pw)
  show "length v = length b" by fact
  have B: "(65536 :: nat) = 2 ^ (16 - s) * ?S" using s by (simp flip: power_add)
  then have "unat (last b) < 2 ^ (16 - s)" using hi(2) by (metis mult_less_cancel2)
  then have "(unat (last b) + 1) * ?S \<le> 2 ^ (16 - s) * ?S" by (intro mult_le_mono1) simp
  then have lb: "(unat (last b) + 1) * ?S \<le> 65536" using B by simp
  note lv = lval_last [OF ne]
  have "lval b < ?P * (unat (last b) + 1)" using lv by simp
  then have "lval b * ?S < ?P * (unat (last b) + 1) * ?S" by simp
  also have "\<dots> \<le> ?P * 65536" unfolding mult.assoc using lb by (rule mult_le_mono2)
  also have "\<dots> = 65536 ^ length b" using ne by (cases b) simp_all
  finally have lt: "lval b * ?S < 65536 ^ length b" .
  then have "65536 ^ length b * unat vc < 65536 ^ length b * 1" using vs(2) by linarith
  then have "unat vc = 0" by simp
  then show val: "lval v = lval b * ?S" using vs(2) by simp
  have "v \<noteq> []" using vs(1) ne by auto
  note lw = lval_last [OF this]
  have "?P * 32768 \<le> ?P * (unat (last b) * ?S)" using hi(1) by (rule mult_le_mono2)
  also have "\<dots> \<le> lval b * ?S" unfolding lv(1) by (simp add: add_mult_distrib)
  also have "\<dots> < ?P * (unat (last v) + 1)" using lw vs(1) val by simp
  finally have "32768 < unat (last v) + 1" by (simp only: mult_less_cancel1)
  then show "0x8000 \<le> last v" by (simp add: word_le_nat_alt)
qed

lemma lval_take_small:
  assumes "lval (xs :: u16 list) < 65536 ^ n" "n \<le> length xs"
  shows "lval (take n xs) = lval xs"
proof -
  have pw: "(2::nat) ^ (16 * i) = 65536 ^ i" for i by (simp add: power_mult)
  have eq: "lval (take n xs @ drop n xs) = lval (take n xs) + 65536 ^ n * lval (drop n xs)"
    using assms(2) by (simp only: lval_append) (simp add: pw)
  then have "65536 ^ n * lval (drop n xs) < 65536 ^ n * 1"
    using assms(1) unfolding append_take_drop_id by linarith
  then have "lval (drop n xs) = 0" by simp
  then show ?thesis using eq by simp
qed

lemma bignum_divmod_correct:
  assumes b: "norm_limbs b" "lval b \<noteq> 0" and len: "length b \<le> length a"
  shows "\<exists>quot rem. bignum_divmod a b = Inr (quot, rem) \<and> norm_limbs quot
    \<and> lval quot = lval a div lval b \<and> lval rem = lval a mod lval b
    \<and> length quot \<le> length a - length b + 1 \<and> length rem = length b"
proof (cases "length b = 1")
  case True
  then obtain d where d: "b = [d]" by (auto simp: length_Suc_conv)
  obtain q r where qr: "bignum_div_single a d = (q, r)" by fastforce
  have "d \<noteq> 0" using b(2) d by auto
  note c = div_single_correct [OF qr this]
  have "q \<noteq> []" using c len d by auto
  then show ?thesis using c d qr \<open>d \<noteq> 0\<close> len strip_zeros_length [of q]
    by (simp add: bignum_divmod_def)
next
  case False
  have nb: "b \<noteq> []" "2 \<le> length b" using b False by (auto simp: norm_limbs_def neq_Nil_conv Suc_le_eq)
  then have top: "last b \<noteq> 0" using b(1) by (simp add: norm_limbs_def)
  let ?m = "length a - length b"
  have pw: "(2::nat) ^ (16 * i) = 65536 ^ i" for i by (simp add: power_mult)
  have "1 \<le> unat (last b)" using top by (simp add: Suc_le_eq unat_gt_0)
  then have "32768 \<le> unat (last b) * 2 ^ 15" by simp
  from norm_shift_correct [OF top this, of 0] obtain s where s: "norm_shift 16 (last b) 0 = Some s"
    "s < 16" "32768 \<le> unat (last b) * 2 ^ s" "unat (last b) * 2 ^ s < 65536"
    by auto
  let ?S = "2 ^ s :: nat"
  obtain v vc where v: "shift_left_loop s b 0 = (v, vc)" by fastforce
  obtain u uc where u: "shift_left_loop s a 0 = (u, uc)" by fastforce
  let ?u = "u @ [ucast uc]"
  obtain quot u' where dl: "div_loop (?m + 1) ?u v = (quot, u')" by fastforce
  note vs = shift_divisor [OF v s(2) nb(1) s(3,4)]
  have us: "length u = length a" "unat uc < ?S" "lval u + 65536 ^ length a * unat uc = lval a * ?S"
    using shift_left_loop_correct [OF u s(2)] by (simp_all add: pw)
  have S: "?S \<le> 32768" using power_increasing [of s 15 "2::nat"] s(2) by simp
  then have "unat (ucast uc :: u16) = unat uc"
    using us(2) by (simp add: unsigned_ucast_eq take_bit_nat_eq_self)
  then have lu: "lval ?u = lval a * ?S" using us by (simp add: lval_append pw)
  have small: "lval ?u < lval v * 65536 ^ (?m + 1)"
  proof -
    have "v \<noteq> []" using vs nb by auto
    note lw = lval_last [OF this]
    have "32768 \<le> unat (last v)" using vs(3) by (simp add: word_le_nat_alt)
    then have "65536 ^ (length v - 1) * 32768 \<le> lval v" unfolding lw(1) by (simp add: trans_le_add2)
    then have 1: "65536 ^ (length b - 1) * 32768 * 65536 ^ (?m + 1) \<le> lval v * 65536 ^ (?m + 1)"
      using vs(2) by (intro mult_le_mono1) simp
    have "65536 ^ (length b - 1) * 65536 ^ (?m + 1) = (65536 :: nat) ^ (length b - 1 + (?m + 1))"
      by (simp only: power_add)
    also have "length b - 1 + (?m + 1) = length a" using len nb by simp
    finally have 2: "65536 ^ length a * 32768 \<le> lval v * 65536 ^ (?m + 1)" using 1 by (simp only: ac_simps)
    have "lval a * ?S < 65536 ^ length a * ?S" using lval_bound [of a] by (simp add: pw)
    also have "\<dots> \<le> 65536 ^ length a * 32768" using S by (rule mult_le_mono2)
    finally show ?thesis using 2 lu by linarith
  qed
  have "length ?u = length v + (?m + 1) + 0" using us vs len by simp
  from div_loop_correct [OF dl this _ vs(3) small] nb vs have
    d: "length quot = ?m + 1" "length u' = length a + 1" "lval u' < lval v"
      "lval a * ?S = lval quot * lval v + lval u'" using us lu by auto
  have "(lval a * ?S) div (lval b * ?S) = lval quot" "(lval a * ?S) mod (lval b * ?S) = lval u'"
    using d(3,4) vs(1) by (simp_all add: div_nat_eqI)
  then have q: "lval quot = lval a div lval b" and r: "lval u' = (lval a mod lval b) * ?S"
    by (simp_all add: mod_mult_mult2)
  have "lval v < 65536 ^ length b" using lval_bound [of v] vs(2) by (simp add: pw)
  then have t: "lval (take (length b) u') = lval u'"
    using d len by (intro lval_take_small) simp_all
  define rem where "rem = (if s > 0 then fst (unshift_loop s (take (length b) u')) else take (length b) u')"
  have rem: "length rem = length b" "lval rem = lval a mod lval b"
    using unshift_loop_correct [of s "take (length b) u'" rem "snd (unshift_loop s (take (length b) u'))"]
      s(2) t r d(2) len by (auto simp: rem_def prod_eq_iff)
  have "bignum_divmod a b = Inr (strip_zeros quot, rem)"
    unfolding bignum_divmod_def using False nb len s(1) v u dl by (simp add: rem_def)
  moreover have "quot \<noteq> []" using d(1) by auto
  ultimately show ?thesis using q rem d(1) strip_zeros_length [of quot] by simp
qed

section \<open>Property\<close>

text \<open>
  C17: Algorithm D is exact.  For a dividend of at least as many limbs as a normalised
  non-zero divisor, \<open>bignum_divmod\<close> returns, and what it returns is the floor quotient,
  without leading zero limbs, and the remainder of the two magnitudes.
\<close>

theorem divmod_exact:
  assumes "norm_limbs b" "lval b \<noteq> 0" "length b \<le> length a"
  shows "\<exists>quot rem. bignum_divmod a b = Inr (quot, rem) \<and> norm_limbs quot
    \<and> lval quot = lval a div lval b \<and> lval rem = lval a mod lval b"
  using bignum_divmod_correct [OF assms] by blast

theorem divmod_exact_witness:
  "norm_limbs [5, 6 :: u16] \<and> (\<exists>quot rem. bignum_divmod [1, 2, 3, 4] [5, 6] = Inr (quot, rem)
    \<and> lval quot = 2863307890 \<and> lval rem = 61895)"
proof -
  have n: "norm_limbs [5, 6 :: u16]" by (simp add: norm_limbs_def)
  then show ?thesis using divmod_exact [of "[5, 6]" "[1, 2, 3, 4]"] by auto
qed

end
