(* ===== verification/Bignum.thy ===== *)
theory Bignum
  imports Knuth "HOL-Library.Signed_Division"
begin

text \<open>
  Integers of \<open>core/bignum.c\<close>: the conversions between fixnums, limb arrays and bignum
  objects with their normalisation, and the integer cases of the arithmetic entry points.

  The C entry points \<open>cl_arith_add\<close>, \<open>cl_arith_sub\<close>, \dots first dispatch on complex,
  float and ratio operands and then run the integer code.  The integer code is what is
  defined here, under the name \<open>integer_\<close>; the dispatching functions themselves, which
  call it, are in the theory of the generic arithmetic.

  \<open>int_obj z\<close> is the specification: the one representation of the integer \<open>z\<close>, a fixnum
  when it is in range and otherwise a bignum without leading zero limbs, or a storage error
  when it has more limbs than a heap object can hold.  \<open>wf_int\<close> is the representation
  invariant.  \<open>computes r z\<close> says that an operation that should produce \<open>z\<close> has done so:
  it returned that representation, or signalled a storage error for a \<open>z\<close> that does not
  fit with one spare bit.
\<close>

section \<open>Construction and normalisation\<close>

definition CL_MAX_BIGNUM_LIMBS :: nat where
  "CL_MAX_BIGNUM_LIMBS = 4194297"

definition cl_make_bignum :: "nat \<Rightarrow> bool \<Rightarrow> cl_bignum res" where
  "cl_make_bignum n_limbs sign =
     (if n_limbs > CL_MAX_BIGNUM_LIMBS then Inl Storage_Error
      else Inr \<lparr> bn_sign = sign, bn_limbs = replicate n_limbs 0 \<rparr>)"

fun to_limbs :: "cl_val \<Rightarrow> (u16 list \<times> bool) res" where
  "to_limbs (Imm w) =
     (if CL_FIXNUM_P w then
        let val = CL_FIXNUM_VAL w;
            uval = word_of_int (if val < 0 then - val else val) :: u32;
            t0 = ucast (uval AND 0xFFFF) :: u16; t1 = ucast (drop_bit 16 uval) :: u16
        in Inr (if t1 \<noteq> 0 then [t0, t1] else [t0], val < 0)
      else Inl Undefined)"
| "to_limbs (Bignum bn) = Inr (bn_limbs bn, bn_sign bn)"
| "to_limbs _ = Inl Undefined"

fun cl_bignum_normalize :: "cl_val \<Rightarrow> cl_val" where
  "cl_bignum_normalize (Bignum bn) =
     (let limbs = strip_zeros (bn_limbs bn);
          obj = Bignum (bn \<lparr> bn_limbs := limbs \<rparr>);
          fit = (\<lambda>val :: u32.
            if val = 0 then mkfix 0
            else if \<not> bn_sign bn then (if val \<le> 0x3FFFFFFF then mkfix (sint val) else obj)
            else (if val \<le> 0x40000000 then mkfix (- sint val) else obj))
      in case limbs of
           [l0] \<Rightarrow> fit (ucast l0)
         | [l0, l1] \<Rightarrow> fit (ucast l0 OR push_bit 16 (ucast l1))
         | _ \<Rightarrow> obj)"
| "cl_bignum_normalize obj = obj"

declare cl_bignum_normalize.simps(1) [simp del]

definition bignum_from_uint32 :: "u32 \<Rightarrow> bool \<Rightarrow> cl_val res" where
  "bignum_from_uint32 val sign =
     (if val = 0 then Inr (mkfix 0)
      else if \<not> sign \<and> val \<le> 0x3FFFFFFF then Inr (mkfix (sint val))
      else if sign \<and> val \<le> 0x40000000 then Inr (mkfix (- sint val))
      else bindr (cl_make_bignum 2 sign) (\<lambda>bn.
        Inr (cl_bignum_normalize (Bignum (bn \<lparr> bn_limbs :=
          [ucast (val AND 0xFFFF), ucast (drop_bit 16 val)] \<rparr>)))))"

definition cl_bignum_from_int32 :: "int \<Rightarrow> cl_val res" where
  "cl_bignum_from_int32 val = bignum_from_uint32 (word_of_int (if val < 0 then - val else val)) (val < 0)"

definition cl_bignum_from_uint32 :: "u32 \<Rightarrow> cl_val res" where
  "cl_bignum_from_uint32 val = bignum_from_uint32 val False"

definition bignum_from_limbs :: "u16 list \<Rightarrow> bool \<Rightarrow> cl_val res" where
  "bignum_from_limbs limbs0 sign =
     (let limbs = strip_zeros limbs0
      in if limbs = [0] then Inr (mkfix 0)
         else bindr (cl_make_bignum (length limbs) sign) (\<lambda>bn.
           Inr (cl_bignum_normalize (Bignum (bn \<lparr> bn_limbs := limbs \<rparr>)))))"

section \<open>Equality and hashing\<close>

fun cl_bignum_equal :: "cl_val \<Rightarrow> cl_val \<Rightarrow> bool" where
  "cl_bignum_equal (Bignum ba) (Bignum bb) =
     (bn_sign ba = bn_sign bb \<and> length (bn_limbs ba) = length (bn_limbs bb)
        \<and> list_all2 (=) (bn_limbs ba) (bn_limbs bb))"
| "cl_bignum_equal _ _ = False"

definition hash_step :: "u32 \<Rightarrow> u32 \<Rightarrow> u32" where
  "hash_step h x = (push_bit 5 h OR drop_bit 27 h) XOR x"

definition cl_bignum_hash :: "cl_bignum \<Rightarrow> u32" where
  "cl_bignum_hash bn =
     foldl (\<lambda>h limb. hash_step h (ucast limb)) (hash_step 0 (if bn_sign bn then 1 else 0)) (bn_limbs bn)"

section \<open>Integer arithmetic\<close>

definition check_integer :: "cl_val \<Rightarrow> string \<Rightarrow> unit res" where
  "check_integer obj op = (if \<not> fixnum_p obj \<and> \<not> CL_BIGNUM_P obj then Inl (Type_Error op) else Inr ())"

definition bignum_addsub :: "cl_val \<Rightarrow> cl_val \<Rightarrow> bool \<Rightarrow> cl_val res" where
  "bignum_addsub a b subtract =
     bindr (to_limbs a) (\<lambda>(al, a_sign). bindr (to_limbs b) (\<lambda>(bl, b_sign0).
       let b_sign = (if subtract then \<not> b_sign0 else b_sign0)
       in if a_sign = b_sign then bignum_from_limbs (bignum_add_mag al bl) a_sign
          else let cmp = bignum_compare_mag al bl
               in if cmp = 0 then Inr (mkfix 0)
                  else if cmp > 0 then bignum_from_limbs (bignum_sub_mag al bl) a_sign
                  else bignum_from_limbs (bignum_sub_mag bl al) b_sign))"

definition integer_add :: "cl_val \<Rightarrow> cl_val \<Rightarrow> cl_val res" where
  "integer_add a b =
     (let sum = fixnum_val a + fixnum_val b
      in if fixnum_p a \<and> fixnum_p b \<and> CL_FIXNUM_MIN \<le> sum \<and> sum \<le> CL_FIXNUM_MAX
         then Inr (mkfix sum) else bignum_addsub a b False)"

definition integer_sub :: "cl_val \<Rightarrow> cl_val \<Rightarrow> cl_val res" where
  "integer_sub a b =
     (let diff = fixnum_val a - fixnum_val b
      in if fixnum_p a \<and> fixnum_p b \<and> CL_FIXNUM_MIN \<le> diff \<and> diff \<le> CL_FIXNUM_MAX
         then Inr (mkfix diff) else bignum_addsub a b True)"

text \<open>
  The two-fixnum path of \<open>cl_arith_mul\<close>; \<open>None\<close> is \<open>goto bignum_mul\<close>.
\<close>

definition fixnum_mul :: "cl_val \<Rightarrow> cl_val \<Rightarrow> cl_val res option" where
  "fixnum_mul a b =
     (let va = fixnum_val a; vb = fixnum_val b
      in if va = 0 \<or> vb = 0 then Some (Inr (mkfix 0))
         else if va = 1 then Some (Inr b)
         else if vb = 1 then Some (Inr a)
         else
           let neg = ((va < 0) \<noteq> (vb < 0));
               ua = word_of_int (if va < 0 then - va else va) :: u32;
               ub = word_of_int (if vb < 0 then - vb else vb) :: u32;
               a_hi = drop_bit 16 ua; a_lo = ua AND 0xFFFF;
               b_hi = drop_bit 16 ub; b_lo = ub AND 0xFFFF
           in if a_hi \<noteq> 0 \<and> b_hi \<noteq> 0 then None
              else
                let cross = (if a_hi \<noteq> 0 then a_hi * b_lo else a_lo * b_hi)
                in if cross > 0xFFFF then None
                   else
                     let prod_lo0 = a_lo * b_lo
                     in if drop_bit 16 prod_lo0 + cross > 0xFFFF then None
                        else
                          let prod_lo = prod_lo0 + push_bit 16 cross
                          in if \<not> neg \<and> prod_lo \<le> 0x3FFFFFFF then Some (Inr (mkfix (sint prod_lo)))
                             else if neg \<and> prod_lo \<le> 0x40000000 then Some (Inr (mkfix (- sint prod_lo)))
                             else Some (bignum_from_uint32 prod_lo neg))"

text \<open>Bignum by fixnum: one pass into the result object.\<close>

definition bignum_mul_fixnum :: "cl_val \<Rightarrow> int \<Rightarrow> cl_val res" where
  "bignum_mul_fixnum big v =
     (case big of Bignum bn \<Rightarrow>
        (let m = word_of_int (if v < 0 then - v else v) :: u32;
             a_len = length (bn_limbs bn);
             r_sign = (bn_sign bn \<noteq> (v < 0))
         in if m = 0 then Inr (mkfix 0)
            else if v = 1 then Inr big
            else
              let r_len = ((a_len - 1) * 16 + bit_length32 (ucast (bn_limbs bn ! (a_len - 1)))
                            + bit_length32 m + 15) div 16
              in bindr (cl_make_bignum r_len r_sign) (\<lambda>rn.
                   Inr (cl_bignum_normalize (Bignum (rn \<lparr> bn_limbs := bignum_mul_small (bn_limbs bn) m r_len \<rparr>)))))
      | _ \<Rightarrow> Inl Undefined)"

definition bignum_mul_general :: "cl_val \<Rightarrow> cl_val \<Rightarrow> cl_val res" where
  "bignum_mul_general a b =
     bindr (to_limbs a) (\<lambda>(al, a_sign). bindr (to_limbs b) (\<lambda>(bl, b_sign).
       if al = [0] then Inr (mkfix 0)
       else if bl = [0] then Inr (mkfix 0)
       else bignum_from_limbs
              (unpack_32_to_16 (bignum_mul_mag32 (pack_16_to_32 al) (pack_16_to_32 bl)))
              (a_sign \<noteq> b_sign)))"

definition integer_mul :: "cl_val \<Rightarrow> cl_val \<Rightarrow> cl_val res" where
  "integer_mul a b =
     (case (if fixnum_p a \<and> fixnum_p b then fixnum_mul a b else None) of
        Some r \<Rightarrow> r
      | None \<Rightarrow>
          if fixnum_p a \<noteq> fixnum_p b
          then bignum_mul_fixnum (if fixnum_p a then b else a) (fixnum_val (if fixnum_p a then a else b))
          else bignum_mul_general a b)"

definition integer_truncate :: "cl_val \<Rightarrow> cl_val \<Rightarrow> cl_val res" where
  "integer_truncate a b =
     bindr (check_integer b ''TRUNCATE'') (\<lambda>_.
       if fixnum_p a \<and> fixnum_p b then
         (if fixnum_val b = 0 then Inl Div_Zero else Inr (mkfix (fixnum_val a sdiv fixnum_val b)))
       else bindr (to_limbs a) (\<lambda>(al, a_sign). bindr (to_limbs b) (\<lambda>(bl, b_sign).
         if bl = [0] then Inl Div_Zero
         else if bignum_compare_mag al bl < 0 then Inr (mkfix 0)
         else bindr (bignum_divmod al bl) (\<lambda>(quot, _).
           bignum_from_limbs quot (a_sign \<noteq> b_sign)))))"

text \<open>The sign test of \<open>cl_arith_mod\<close>, \<open>CL_FIXNUM_P(x) ? CL_FIXNUM_VAL(x) < 0 : bn->sign\<close>.\<close>

fun integer_neg :: "cl_val \<Rightarrow> bool res" where
  "integer_neg (Imm w) = (if CL_FIXNUM_P w then Inr (CL_FIXNUM_VAL w < 0) else Inl Undefined)"
| "integer_neg (Bignum bn) = Inr (bn_sign bn)"
| "integer_neg _ = Inl Undefined"

definition integer_mod :: "cl_val \<Rightarrow> cl_val \<Rightarrow> cl_val res" where
  "integer_mod a b =
     bindr (check_integer b ''MOD'') (\<lambda>_.
       if fixnum_p a \<and> fixnum_p b then
         (let va = fixnum_val a; vb = fixnum_val b
          in if vb = 0 then Inl Div_Zero
             else let r = va smod vb
                  in Inr (mkfix (if r \<noteq> 0 \<and> (r < 0) \<noteq> (vb < 0) then r + vb else r)))
       else bindr (to_limbs a) (\<lambda>(al, a_sign). bindr (to_limbs b) (\<lambda>(bl, b_sign).
         if bl = [0] then Inl Div_Zero
         else bindr (if bignum_compare_mag al bl < 0 then Inr a
                     else bindr (bignum_divmod al bl) (\<lambda>(_, rem).
                       bignum_from_limbs (strip_zeros rem) a_sign)) (\<lambda>rem_obj.
           if fixnum_p rem_obj \<and> fixnum_val rem_obj = 0 then Inr rem_obj
           else bindr (integer_neg rem_obj) (\<lambda>rem_neg. bindr (integer_neg b) (\<lambda>b_neg.
             if rem_neg \<noteq> b_neg then integer_add rem_obj b else Inr rem_obj))))))"

text \<open>
  Negation and absolute value of a bignum copy \<open>uint16_t len = bn->length\<close> limbs: the
  length is reduced modulo 65536.
\<close>

definition integer_negate :: "cl_val \<Rightarrow> cl_val res" where
  "integer_negate a =
     (case a of
        Imm w \<Rightarrow>
          if CL_FIXNUM_P w then
            (if CL_FIXNUM_VAL w = CL_FIXNUM_MIN then bignum_from_uint32 0x40000000 False
             else Inr (mkfix (- CL_FIXNUM_VAL w)))
          else Inl Undefined
      | Bignum bn \<Rightarrow>
          (let len = length (bn_limbs bn) mod 65536
           in bindr (cl_make_bignum len (\<not> bn_sign bn)) (\<lambda>rbn.
                Inr (cl_bignum_normalize (Bignum (rbn \<lparr> bn_limbs := take len (bn_limbs bn) \<rparr>)))))
      | _ \<Rightarrow> Inl Undefined)"

definition integer_abs :: "cl_val \<Rightarrow> cl_val res" where
  "integer_abs a =
     (case a of
        Imm w \<Rightarrow>
          if CL_FIXNUM_P w then
            (if CL_FIXNUM_VAL w = CL_FIXNUM_MIN then bignum_from_uint32 0x40000000 False
             else Inr (mkfix (if CL_FIXNUM_VAL w < 0 then - CL_FIXNUM_VAL w else CL_FIXNUM_VAL w)))
          else Inl Undefined
      | Bignum bn \<Rightarrow>
          if \<not> bn_sign bn then Inr a
          else (let len = length (bn_limbs bn) mod 65536
                in bindr (cl_make_bignum len False) (\<lambda>rbn.
                     Inr (Bignum (rbn \<lparr> bn_limbs := take len (bn_limbs bn) \<rparr>))))
      | _ \<Rightarrow> Inl Undefined)"

definition integer_compare :: "cl_val \<Rightarrow> cl_val \<Rightarrow> int res" where
  "integer_compare a b =
     (if fixnum_p a \<and> fixnum_p b then
        Inr (if fixnum_val a < fixnum_val b then -1 else if fixnum_val a > fixnum_val b then 1 else 0)
      else bindr (to_limbs a) (\<lambda>(al, a_sign). bindr (to_limbs b) (\<lambda>(bl, b_sign).
        if a_sign \<noteq> b_sign then
          (if al = [0] \<and> bl = [0] then Inr 0 else Inr (if a_sign then -1 else 1))
        else let cmp = bignum_compare_mag al bl in Inr (if a_sign then - cmp else cmp))))"

fun integer_zerop :: "cl_val \<Rightarrow> bool" where
  "integer_zerop a = (if fixnum_p a then fixnum_val a = 0 else False)"

fun integer_plusp :: "cl_val \<Rightarrow> bool res" where
  "integer_plusp (Imm w) = (if CL_FIXNUM_P w then Inr (CL_FIXNUM_VAL w > 0) else Inl Undefined)"
| "integer_plusp (Bignum bn) = Inr (\<not> bn_sign bn)"
| "integer_plusp _ = Inl Undefined"

fun integer_minusp :: "cl_val \<Rightarrow> bool res" where
  "integer_minusp (Imm w) = (if CL_FIXNUM_P w then Inr (CL_FIXNUM_VAL w < 0) else Inl Undefined)"
| "integer_minusp (Bignum bn) = Inr (bn_sign bn)"
| "integer_minusp _ = Inl Undefined"

section \<open>Specification\<close>

function nat_limbs :: "nat \<Rightarrow> u16 list" where
  "nat_limbs n = (if n < 65536 then [of_nat n] else of_nat (n mod 65536) # nat_limbs (n div 65536))"
  by pat_completeness auto
termination
  by (relation "measure id") auto

declare nat_limbs.simps [simp del]

definition in_fixnum_range :: "int \<Rightarrow> bool" where
  "in_fixnum_range z \<longleftrightarrow> CL_FIXNUM_MIN \<le> z \<and> z \<le> CL_FIXNUM_MAX"

definition int_obj :: "int \<Rightarrow> cl_val res" where
  "int_obj z =
     (if in_fixnum_range z then Inr (mkfix z)
      else let limbs = nat_limbs (nat \<bar>z\<bar>)
           in if length limbs > CL_MAX_BIGNUM_LIMBS then Inl Storage_Error
              else Inr (Bignum \<lparr> bn_sign = z < 0, bn_limbs = limbs \<rparr>))"

fun int_val :: "cl_val \<Rightarrow> int" where
  "int_val (Imm w) = CL_FIXNUM_VAL w"
| "int_val (Bignum bn) = (if bn_sign bn then - int (lval (bn_limbs bn)) else int (lval (bn_limbs bn)))"
| "int_val _ = 0"

fun wf_int :: "cl_val \<Rightarrow> bool" where
  "wf_int (Imm w) = CL_FIXNUM_P w"
| "wf_int (Bignum bn) = (norm_limbs (bn_limbs bn) \<and> length (bn_limbs bn) \<le> CL_MAX_BIGNUM_LIMBS
     \<and> \<not> in_fixnum_range (int_val (Bignum bn)))"
| "wf_int _ = False"

definition fits :: "int \<Rightarrow> bool" where
  "fits z \<longleftrightarrow> \<bar>z\<bar> < 2 ^ (16 * CL_MAX_BIGNUM_LIMBS - 1)"

definition computes :: "cl_val res \<Rightarrow> int \<Rightarrow> bool" where
  "computes r z \<longleftrightarrow>
     (case r of Inr v \<Rightarrow> int_obj z = Inr v | Inl e \<Rightarrow> e = Storage_Error \<and> \<not> fits z)"

section \<open>Lemmas\<close>

lemma lval_nat_limbs [simp]: "lval (nat_limbs n) = n"
proof (induction n rule: nat_limbs.induct)
  case (1 n)
  show ?case
  proof (cases "n < 65536")
    case True
    then show ?thesis by (simp add: nat_limbs.simps [of n] unat_of_nat)
  next
    case False
    then show ?thesis using 1 by (simp add: nat_limbs.simps [of n] unat_of_nat)
  qed
qed

lemma nat_limbs_nonempty [simp]: "nat_limbs n \<noteq> []"
  by (simp add: nat_limbs.simps [of n])

lemma norm_nat_limbs [simp]: "norm_limbs (nat_limbs n)"
proof (induction n rule: nat_limbs.induct)
  case (1 n)
  show ?case
  proof (cases "n < 65536")
    case True
    then show ?thesis by (simp add: nat_limbs.simps [of n] norm_limbs_def)
  next
    case False
    let ?m = "n div 65536"
    have "last (nat_limbs ?m) \<noteq> 0"
    proof (cases "1 < length (nat_limbs ?m)")
      case True
      then show ?thesis using 1 [OF False] by (simp add: norm_limbs_def)
    next
      case one: False
      have "length (nat_limbs ?m) \<noteq> 0" by simp
      then have "length (nat_limbs ?m) = 1" using one by linarith
      then obtain x where x: "nat_limbs ?m = [x]" by (auto simp: length_Suc_conv)
      have "lval [x] = ?m" using lval_nat_limbs [of ?m] x by simp
      then show ?thesis using False x by auto
    qed
    then show ?thesis using False by (simp add: nat_limbs.simps [of n] norm_limbs_def)
  qed
qed

lemma nat_limbs_lval: "norm_limbs l \<Longrightarrow> nat_limbs (lval l) = l"
  by (rule norm_limbs_inj) simp_all

lemma length_nat_limbs_le: "0 < k \<Longrightarrow> length (nat_limbs n) \<le> k \<longleftrightarrow> n < 2 ^ (16 * k)"
proof
  assume "length (nat_limbs n) \<le> k"
  then have "(2::nat) ^ (16 * length (nat_limbs n)) \<le> 2 ^ (16 * k)" by simp
  moreover have "n < 2 ^ (16 * length (nat_limbs n))" using lval_bound [of "nat_limbs n"] by simp
  ultimately show "n < 2 ^ (16 * k)" by linarith
next
  assume k: "0 < k" and n: "n < 2 ^ (16 * k)"
  show "length (nat_limbs n) \<le> k"
  proof (rule ccontr)
    assume "\<not> length (nat_limbs n) \<le> k"
    then have g: "k < length (nat_limbs n)" by simp
    then have "last (nat_limbs n) \<noteq> 0" using norm_nat_limbs [of n] k by (simp add: norm_limbs_def)
    then have "2 ^ (16 * (length (nat_limbs n) - 1)) \<le> n"
      using lval_last_lower [of "nat_limbs n"] by simp
    moreover have "(2::nat) ^ (16 * k) \<le> 2 ^ (16 * (length (nat_limbs n) - 1))" using g by simp
    ultimately show False using n by linarith
  qed
qed

lemma max_limbs_pos [simp]: "0 < CL_MAX_BIGNUM_LIMBS" "2 \<le> CL_MAX_BIGNUM_LIMBS"
  by (simp_all add: CL_MAX_BIGNUM_LIMBS_def)

lemma in_range_wf: "in_fixnum_range (CL_FIXNUM_VAL w)"
  using fixnum_val_range [of w] by (simp add: in_fixnum_range_def)

lemma int_val_mkfix: "in_fixnum_range z \<Longrightarrow> int_val (mkfix z) = z"
  by (simp add: in_fixnum_range_def fixnum_val_make)

lemma int_obj_cases:
  "int_obj z = (if \<bar>z\<bar> < 2 ^ (16 * CL_MAX_BIGNUM_LIMBS)
     then Inr (if in_fixnum_range z then mkfix z
               else Bignum \<lparr> bn_sign = z < 0, bn_limbs = nat_limbs (nat \<bar>z\<bar>) \<rparr>)
     else Inl Storage_Error)"
proof -
  have eq: "length (nat_limbs (nat \<bar>z\<bar>)) \<le> CL_MAX_BIGNUM_LIMBS \<longleftrightarrow> \<bar>z\<bar> < 2 ^ (16 * CL_MAX_BIGNUM_LIMBS)"
    by (subst length_nat_limbs_le) (simp_all add: nat_less_iff)
  have "\<bar>z\<bar> < 2 ^ (16 * CL_MAX_BIGNUM_LIMBS)" if "in_fixnum_range z"
  proof -
    have "\<bar>z\<bar> < 2 ^ 32" using that by (simp add: in_fixnum_range_def CL_FIXNUM_MIN_def CL_FIXNUM_MAX_def) linarith
    also have "\<dots> \<le> 2 ^ (16 * CL_MAX_BIGNUM_LIMBS)" using max_limbs_pos(2) by (intro power_increasing) simp_all
    finally show ?thesis .
  qed
  then show ?thesis using eq by (auto simp: int_obj_def Let_def not_less)
qed

lemma int_obj_wf:
  assumes "int_obj z = Inr v"
  shows "wf_int v" "int_val v = z"
proof -
  let ?bn = "\<lparr> bn_sign = z < 0, bn_limbs = nat_limbs (nat \<bar>z\<bar>) \<rparr>"
  have v: "int_val (Bignum ?bn) = z" by simp
  show "wf_int v" "int_val v = z"
    using assms v int_val_mkfix [of z]
    by (auto simp: int_obj_def Let_def split: if_splits)
qed

lemma int_obj_of_wf: "wf_int v \<Longrightarrow> int_obj (int_val v) = Inr v"
proof (cases v)
  case (Imm w)
  then show "wf_int v \<Longrightarrow> ?thesis" by (simp add: int_obj_def in_range_wf make_fixnum_val)
next
  case (Bignum bn)
  assume wf: "wf_int v"
  let ?l = "bn_limbs bn"
  have "nat \<bar>int_val v\<bar> = lval ?l" by (simp add: Bignum)
  moreover have "int_val v < 0 \<longleftrightarrow> bn_sign bn"
  proof -
    have "lval ?l \<noteq> 0" using wf Bignum by (auto simp: in_fixnum_range_def CL_FIXNUM_MIN_def CL_FIXNUM_MAX_def split: if_splits)
    then show ?thesis by (simp add: Bignum)
  qed
  ultimately show ?thesis using wf Bignum nat_limbs_lval [of ?l]
    by (auto simp: int_obj_def Let_def simp del: int_val.simps)
qed simp_all

lemma computes_int_obj [simp]: "computes (int_obj z) z"
proof (cases "int_obj z")
  case (Inl e)
  then have "e = Storage_Error" "\<not> \<bar>z\<bar> < 2 ^ (16 * CL_MAX_BIGNUM_LIMBS)"
    by (auto simp: int_obj_cases split: if_splits)
  moreover have "(2::int) ^ (16 * CL_MAX_BIGNUM_LIMBS - 1) \<le> 2 ^ (16 * CL_MAX_BIGNUM_LIMBS)"
    by (intro power_increasing) simp_all
  ultimately have "e = Storage_Error" "\<not> fits z" unfolding fits_def by (blast, linarith)
  then show ?thesis using Inl by (simp add: computes_def)
qed (simp add: computes_def)

lemma computes_Inr: "computes r z \<Longrightarrow> r = Inr v \<Longrightarrow> wf_int v \<and> int_val v = z"
  by (auto simp: computes_def int_obj_wf)

lemma computes_fits: "computes r z \<Longrightarrow> fits z \<Longrightarrow> \<exists>v. r = Inr v \<and> wf_int v \<and> int_val v = z"
  by (cases r) (auto simp: computes_def int_obj_wf)

lemma two_limbs: "unat (ucast l0 OR push_bit 16 (ucast l1) :: u32) = lval [l0, l1 :: u16]"
  by (simp add: unat_pair32)

lemma sint_le_fix: "(w :: u32) \<le> 0x40000000 \<Longrightarrow> sint w = int (unat w)"
  by (rule sint_small32) (simp add: word_le_nat_alt)

lemma in_range_bounds: "in_fixnum_range z \<longleftrightarrow> - 1073741824 \<le> z \<and> z \<le> 1073741823"
  by (simp add: in_fixnum_range_def CL_FIXNUM_MIN_def CL_FIXNUM_MAX_def)

lemma in_range_nat [simp]:
  "in_fixnum_range (int n) \<longleftrightarrow> n \<le> 1073741823"
  "in_fixnum_range (- int n) \<longleftrightarrow> n \<le> 1073741824"
  by (auto simp: in_range_bounds)

lemma fit_fixnum:
  fixes val :: u32
  assumes l: "norm_limbs l" "lval l = unat val" "length l \<le> CL_MAX_BIGNUM_LIMBS"
  shows "Inr (if val = 0 then mkfix 0
      else if \<not> s then (if val \<le> 0x3FFFFFFF then mkfix (sint val) else Bignum \<lparr> bn_sign = s, bn_limbs = l \<rparr>)
      else (if val \<le> 0x40000000 then mkfix (- sint val) else Bignum \<lparr> bn_sign = s, bn_limbs = l \<rparr>))
    = int_obj (if s then - int (unat val) else int (unat val))"
proof -
  let ?n = "unat val" and ?z = "if s then - int (unat val) else int (unat val)"
  have nl: "nat_limbs (nat \<bar>?z\<bar>) = l" using nat_limbs_lval [OF l(1)] l(2) by simp
  have big: "int_obj ?z = Inr (Bignum \<lparr> bn_sign = s, bn_limbs = l \<rparr>)" if "\<not> in_fixnum_range ?z"
  proof -
    have "?z < 0 \<longleftrightarrow> s"
    proof (cases s)
      case True
      then have "\<not> ?n \<le> 1073741824" using that by (simp del: of_nat_unat)
      then show ?thesis using True by (simp del: of_nat_unat)
    qed simp
    then show ?thesis unfolding int_obj_def Let_def nl using that l(3) by simp
  qed
  have le: "val \<le> 0x3FFFFFFF \<longleftrightarrow> ?n \<le> 1073741823" "val \<le> 0x40000000 \<longleftrightarrow> ?n \<le> 1073741824"
    by (simp_all add: word_le_nat_alt)
  consider "val = 0" | (pos) "val \<noteq> 0" "\<not> s" | (neg) "val \<noteq> 0" "s" by blast
  then show ?thesis
  proof cases
    case pos
    have "sint val = int ?n" if "?n \<le> 1073741823" using that by (intro sint_small32) simp
    then show ?thesis using pos big le by (auto simp: int_obj_def simp del: of_nat_unat)
  next
    case neg
    have "sint val = int ?n" if "?n \<le> 1073741824" using that by (intro sint_small32) simp
    then show ?thesis using neg big le by (auto simp: int_obj_def simp del: of_nat_unat)
  qed (simp add: int_obj_def in_range_bounds)
qed

lemma lval_three:
  assumes "norm_limbs l" "2 < length (l :: u16 list)"
  shows "4294967296 \<le> lval l"
proof -
  have "last l \<noteq> 0" "l \<noteq> []" using assms by (auto simp: norm_limbs_def)
  then have "2 ^ (16 * (length l - 1)) \<le> lval l" using lval_last_lower [of l] by simp
  moreover have "(2::nat) ^ 32 \<le> 2 ^ (16 * (length l - 1))" using assms(2) by (intro power_increasing) simp_all
  ultimately show ?thesis by simp
qed

lemma normalize_correct:
  assumes "limbs \<noteq> []" "length (strip_zeros limbs) \<le> CL_MAX_BIGNUM_LIMBS"
  shows "Inr (cl_bignum_normalize (Bignum \<lparr> bn_sign = s, bn_limbs = limbs \<rparr>))
    = int_obj (if s then - int (lval limbs) else int (lval limbs))"
proof -
  let ?l = "strip_zeros limbs"
  have n: "norm_limbs ?l" using assms(1) by simp
  have lv: "lval limbs = lval ?l" by simp
  consider (one) l0 where "?l = [l0]" | (two) l0 l1 where "?l = [l0, l1]" | (more) "2 < length ?l"
    using n by (cases ?l; cases "tl ?l"; cases "tl (tl ?l)") (auto simp: norm_limbs_def)
  then show ?thesis
  proof cases
    case one
    show ?thesis unfolding lv using fit_fixnum [of "[l0]" "ucast l0" s] n one assms(2)
      by (simp add: cl_bignum_normalize.simps Let_def split del: if_split cong: if_cong)
  next
    case two
    show ?thesis unfolding lv
      using fit_fixnum [of "[l0, l1]" "ucast l0 OR push_bit 16 (ucast l1)" s] n two assms(2)
      by (simp add: cl_bignum_normalize.simps Let_def two_limbs del: lval.simps split del: if_split cong: if_cong)
  next
    case more
    then obtain l0 l1 l2 r where r: "?l = l0 # l1 # l2 # r"
      by (cases ?l; cases "tl ?l"; cases "tl (tl ?l)") auto
    let ?z = "if s then - int (lval ?l) else int (lval ?l)"
    have "4294967296 \<le> lval ?l" using n more by (rule lval_three)
    then have nr: "\<not> in_fixnum_range ?z" "?z < 0 \<longleftrightarrow> s" by (auto simp: in_range_bounds)
    have nl: "nat_limbs (nat \<bar>?z\<bar>) = ?l" using nat_limbs_lval [OF n] by simp
    have "int_obj ?z = Inr (Bignum \<lparr> bn_sign = s, bn_limbs = ?l \<rparr>)"
      unfolding int_obj_def Let_def nl using nr assms(2) by simp
    then show ?thesis unfolding lv using r by (simp add: cl_bignum_normalize.simps Let_def)
  qed
qed


lemma strip_strip [simp]: "strip_zeros (strip_zeros xs) = strip_zeros xs"
  by (cases "xs = []") (simp_all add: strip_norm_limbs strip_zeros_id)

lemma from_limbs_correct:
  assumes "limbs \<noteq> []"
  shows "bignum_from_limbs limbs s = int_obj (if s then - int (lval limbs) else int (lval limbs))"
proof -
  let ?l = "strip_zeros limbs" and ?z = "if s then - int (lval limbs) else int (lval limbs)"
  have n: "norm_limbs ?l" using assms by simp
  consider (zero) "?l = [0]" | (huge) "CL_MAX_BIGNUM_LIMBS < length ?l"
    | (ok) "?l \<noteq> [0]" "length ?l \<le> CL_MAX_BIGNUM_LIMBS" by linarith
  then show ?thesis
  proof cases
    case zero
    then have "lval ?l = 0" by simp
    then have "lval limbs = 0" by simp
    then show ?thesis using zero by (simp add: bignum_from_limbs_def int_obj_def in_range_bounds)
  next
    case huge
    then have "2 < length ?l" using max_limbs_pos by linarith
    then have ne: "?l \<noteq> [0]" by auto
    from lval_three [OF n \<open>2 < length ?l\<close>] have nr: "\<not> in_fixnum_range ?z" by simp
    have nl: "nat_limbs (nat \<bar>?z\<bar>) = ?l" using nat_limbs_lval [OF n] by simp
    show ?thesis unfolding int_obj_def Let_def nl using nr huge ne
      by (simp add: bignum_from_limbs_def cl_make_bignum_def Let_def)
  next
    case ok
    then show ?thesis using normalize_correct [of ?l s] assms
      by (simp add: bignum_from_limbs_def cl_make_bignum_def Let_def)
  qed
qed

lemma lval_halves: "lval [ucast (w AND 0xFFFF), ucast (drop_bit 16 w) :: u16] = unat (w :: u32)"
proof -
  have "unat w div 65536 < 65536" using unat_lt32 [of w] by (simp add: less_mult_imp_div_less)
  then have "unat (ucast (drop_bit 16 w) :: u16) = unat w div 65536"
    by (simp add: unsigned_ucast_eq unat_hi16 take_bit_nat_eq_self)
  then show ?thesis by (simp add: unat_lo16)
qed

lemma from_uint32_correct:
  "bignum_from_uint32 val s = int_obj (if s then - int (unat val) else int (unat val))"
proof -
  let ?l = "[ucast (val AND 0xFFFF), ucast (drop_bit 16 val) :: u16]"
  have "length (strip_zeros ?l) \<le> CL_MAX_BIGNUM_LIMBS"
    by (rule order_trans [OF strip_zeros_length]) (simp add: CL_MAX_BIGNUM_LIMBS_def)
  note nc = normalize_correct [of ?l s, OF _ this, unfolded lval_halves]
  have le: "val \<le> 0x3FFFFFFF \<longleftrightarrow> unat val \<le> 1073741823" "val \<le> 0x40000000 \<longleftrightarrow> unat val \<le> 1073741824"
    by (simp_all add: word_le_nat_alt)
  have sv: "sint val = int (unat val)" if "unat val \<le> 1073741824" using that by (intro sint_small32) simp
  have make: "cl_make_bignum 2 s = Inr \<lparr> bn_sign = s, bn_limbs = replicate 2 0 \<rparr>"
    by (simp add: cl_make_bignum_def CL_MAX_BIGNUM_LIMBS_def)
  consider "val = 0" | "val \<noteq> 0" "\<not> s" "unat val \<le> 1073741823" | "val \<noteq> 0" "s" "unat val \<le> 1073741824"
    | (big) "val \<noteq> 0" "\<not> s \<longrightarrow> \<not> unat val \<le> 1073741823" "s \<longrightarrow> \<not> unat val \<le> 1073741824" by blast
  then show ?thesis
  proof cases
    case big
    then have "bignum_from_uint32 val s = Inr (cl_bignum_normalize (Bignum \<lparr> bn_sign = s, bn_limbs = ?l \<rparr>))"
      using make le by (auto simp: bignum_from_uint32_def simp del: of_nat_unat)
    then show ?thesis using nc by (simp del: of_nat_unat)
  qed (use sv le in \<open>simp_all add: bignum_from_uint32_def int_obj_def in_range_bounds [of 0] del: of_nat_unat\<close>)
qed

lemma to_limbs_correct:
  assumes "wf_int v"
  shows "\<exists>l. to_limbs v = Inr (l, int_val v < 0) \<and> norm_limbs l \<and> int (lval l) = \<bar>int_val v\<bar>
    \<and> length l \<le> CL_MAX_BIGNUM_LIMBS"
proof (cases v)
  case (Imm w)
  let ?v = "CL_FIXNUM_VAL w"
  define u where "u = (word_of_int (if ?v < 0 then - ?v else ?v) :: u32)"
  have "(if ?v < 0 then - ?v else ?v) = \<bar>?v\<bar>" by simp
  moreover have "\<bar>?v\<bar> < 4294967296" using in_range_wf [of w] by (simp add: in_range_bounds) linarith
  ultimately have u: "int (unat u) = \<bar>?v\<bar>" by (simp add: u_def uint_word_of_int)
  let ?t0 = "ucast (u AND 0xFFFF) :: u16" and ?t1 = "ucast (drop_bit 16 u) :: u16"
  let ?l = "if ?t1 \<noteq> 0 then [?t0, ?t1] else [?t0]"
  have "lval ?l = unat u" using lval_halves [of u] by (cases "?t1 = 0") simp_all
  moreover have "norm_limbs ?l" by (simp add: norm_limbs_def)
  moreover have "to_limbs v = Inr (?l, ?v < 0)" using assms Imm by (simp add: u_def Let_def)
  moreover have "length ?l \<le> CL_MAX_BIGNUM_LIMBS" by (simp add: CL_MAX_BIGNUM_LIMBS_def)
  ultimately show ?thesis using u Imm by (intro exI [of _ ?l]) simp
next
  case (Bignum bn)
  have "lval (bn_limbs bn) \<noteq> 0"
    using assms Bignum by (auto simp: in_range_bounds split: if_splits)
  then show ?thesis using assms Bignum by auto
qed (use assms in simp_all)

lemma norm_limbs_0: "norm_limbs l \<Longrightarrow> lval l = 0 \<longleftrightarrow> l = [0 :: u16]"
proof
  assume "norm_limbs l" "lval l = 0"
  then have "norm_limbs l" "lval l = lval [0 :: u16]" by simp_all
  then show "l = [0]" by (intro norm_limbs_inj) (simp_all add: norm_limbs_def)
qed simp


lemma add_mag_nonempty: "a \<noteq> [] \<Longrightarrow> bignum_add_mag a b \<noteq> []"
proof -
  assume a: "a \<noteq> []"
  obtain x y where xy: "(if length a < length b then (b, a) else (a, b)) = (x, y)" by fastforce
  then have len: "length y \<le> length x" "x \<noteq> []" using a by (auto split: if_splits)
  obtain r c where rc: "add_loop x y 0 = (r, c)" by fastforce
  have "r \<noteq> []" using add_loop_correct [OF rc len(1)] len(2) by auto
  then show ?thesis unfolding bignum_add_mag_def xy using rc by simp
qed

lemma addsub_correct:
  assumes "wf_int a" "wf_int b"
  shows "bignum_addsub a b subtract = int_obj (if subtract then int_val a - int_val b else int_val a + int_val b)"
proof -
  obtain la where la: "to_limbs a = Inr (la, int_val a < 0)" "norm_limbs la" "int (lval la) = \<bar>int_val a\<bar>"
    using to_limbs_correct [OF assms(1)] by blast
  obtain lb where lb: "to_limbs b = Inr (lb, int_val b < 0)" "norm_limbs lb" "int (lval lb) = \<bar>int_val b\<bar>"
    using to_limbs_correct [OF assms(2)] by blast
  define sa where "sa \<longleftrightarrow> int_val a < 0"
  define sb where "sb \<longleftrightarrow> (if subtract then \<not> int_val b < 0 else int_val b < 0)"
  have z: "(if subtract then int_val a - int_val b else int_val a + int_val b)
      = (if sa then - int (lval la) else int (lval la)) + (if sb then - int (lval lb) else int (lval lb))"
    using la(3) lb(3) by (auto simp: sa_def sb_def)
  have ne: "la \<noteq> []" "lb \<noteq> []" using la(2) lb(2) by (auto simp: norm_limbs_def)
  have cmp: "bignum_compare_mag la lb = sgn (int (lval la) - int (lval lb))"
    using la(2) lb(2) by (rule compare_mag_sgn)
  have sub: "bignum_sub_mag x y \<noteq> []" "lval (bignum_sub_mag x y) = lval x - lval y"
    if "norm_limbs x" "norm_limbs y" "lval y < lval x" for x y
  proof -
    have len: "length y \<le> length x" using norm_limbs_length_less [of x y] that by fastforce
    then have "sub_loop x y 0 \<noteq> []" using sub_loop_correct [of y x 0] that(1) by (auto simp: norm_limbs_def)
    then show "bignum_sub_mag x y \<noteq> []" "lval (bignum_sub_mag x y) = lval x - lval y"
      using lval_sub_mag [OF _ len] that(3) by (simp_all add: bignum_sub_mag_def)
  qed
  have unf: "bignum_addsub a b subtract =
      (if sa = sb then bignum_from_limbs (bignum_add_mag la lb) sa
       else if bignum_compare_mag la lb = 0 then Inr (mkfix 0)
       else if bignum_compare_mag la lb > 0 then bignum_from_limbs (bignum_sub_mag la lb) sa
       else bignum_from_limbs (bignum_sub_mag lb la) sb)"
    by (simp add: bignum_addsub_def la(1) lb(1) sa_def sb_def Let_def)
  show ?thesis
  proof (cases "sa = sb")
    case True
    have "bignum_add_mag la lb \<noteq> []"
      using ne by (intro add_mag_nonempty)
    from from_limbs_correct [OF this, of sa] show ?thesis
      unfolding unf z using True by (auto simp: lval_add_mag)
  next
    case False
    consider "lval la < lval lb" | "lval la = lval lb" | "lval lb < lval la" by linarith
    then show ?thesis
    proof cases
      case 1
      then show ?thesis unfolding unf z cmp using False sub [OF lb(2) la(2) 1]
        by (auto simp: from_limbs_correct of_nat_diff)
    next
      case 2
      then show ?thesis unfolding unf z cmp using False by (simp add: int_obj_def in_range_bounds)
    next
      case 3
      then show ?thesis unfolding unf z cmp using False sub [OF la(2) lb(2) 3]
        by (auto simp: from_limbs_correct of_nat_diff)
    qed
  qed
qed

lemma fixnum_p_val: "fixnum_p v \<Longrightarrow> fixnum_val v = int_val v \<and> in_fixnum_range (int_val v) \<and> mkfix (int_val v) = v"
  by (cases v) (simp_all add: in_range_wf make_fixnum_val)

lemma integer_add_correct:
  assumes "wf_int a" "wf_int b"
  shows "integer_add a b = int_obj (int_val a + int_val b)"
  using addsub_correct [OF assms, of False] fixnum_p_val [of a] fixnum_p_val [of b]
  by (auto simp: integer_add_def int_obj_def in_fixnum_range_def Let_def)

lemma integer_sub_correct:
  assumes "wf_int a" "wf_int b"
  shows "integer_sub a b = int_obj (int_val a - int_val b)"
  using addsub_correct [OF assms, of True] fixnum_p_val [of a] fixnum_p_val [of b]
  by (auto simp: integer_sub_def int_obj_def in_fixnum_range_def Let_def)


lemma unat_abs_word:
  assumes "in_fixnum_range v"
  shows "int (unat (word_of_int (if v < 0 then - v else v) :: u32)) = \<bar>v\<bar>"
proof -
  have "(if v < 0 then - v else v) = \<bar>v\<bar>" "\<bar>v\<bar> < 4294967296"
    using assms by (auto simp: in_range_bounds)
  then show ?thesis by (simp add: uint_word_of_int)
qed

text \<open>The 16 by 16 partial products of the two-fixnum case.\<close>

lemma partial_products:
  fixes ua ub :: u32
  defines "a_hi \<equiv> drop_bit 16 ua" and "a_lo \<equiv> ua AND 0xFFFF"
    and "b_hi \<equiv> drop_bit 16 ub" and "b_lo \<equiv> ub AND 0xFFFF"
  defines "cross \<equiv> (if a_hi \<noteq> 0 then a_hi * b_lo else a_lo * b_hi)"
  assumes hi: "a_hi = 0 \<or> b_hi = 0" and c1: "\<not> cross > 0xFFFF"
    and c2: "\<not> drop_bit 16 (a_lo * b_lo) + cross > 0xFFFF"
  shows "unat (a_lo * b_lo + push_bit 16 cross) = unat ua * unat ub"
proof -
  have parts: "unat a_lo = unat ua mod 65536" "unat b_lo = unat ub mod 65536"
    "unat a_hi = unat ua div 65536" "unat b_hi = unat ub div 65536"
    by (simp_all add: a_lo_def b_lo_def a_hi_def b_hi_def unat_and_lo16 unat_hi16)
  have lt: "unat a_lo < 65536" "unat b_lo < 65536" "unat a_hi < 65536" "unat b_hi < 65536"
    using unat_lt32 [of ua] unat_lt32 [of ub] by (simp_all add: parts less_mult_imp_div_less)
  have mul: "unat (x * y) = unat x * unat y" if "unat x < 65536" "unat y < 65536" for x y :: u32
  proof (rule unat_mult_small)
    have "unat x * unat y < 65536 * 65536" using that by (intro mult_strict_mono) auto
    then show "unat x * unat y < 2 ^ LENGTH(32)" by simp
  qed
  have cross: "unat cross = unat a_hi * unat b_lo + unat a_lo * unat b_hi"
    using hi lt by (auto simp: cross_def mul)
  have c16: "unat cross \<le> 65535" using c1 by (simp add: word_less_nat_alt not_less)
  let ?p = "unat a_lo * unat b_lo"
  have p: "unat (a_lo * b_lo) = ?p" using lt by (intro mul)
  have ph: "unat (drop_bit 16 (a_lo * b_lo) + cross) = ?p div 65536 + unat cross"
  proof (subst unat_add_small)
    have "?p div 65536 < 65536"
    proof (rule less_mult_imp_div_less)
      show "?p < 65536 * 65536" using lt by (intro mult_strict_mono) auto
    qed
    then show "unat (drop_bit 16 (a_lo * b_lo)) + unat cross < 2 ^ LENGTH(32)"
      using c16 by (simp add: unat_hi16 p)
  qed (simp add: unat_hi16 p)
  have le: "?p div 65536 + unat cross \<le> 65535"
    using c2 ph by (simp add: word_less_nat_alt not_less)
  have sum: "?p + unat cross * 65536 < 4294967296"
  proof -
    have "?p = ?p div 65536 * 65536 + ?p mod 65536" by (rule div_mult_mod_eq [symmetric])
    moreover have "?p mod 65536 < 65536" by simp
    ultimately show ?thesis using le by linarith
  qed
  have pb: "unat (push_bit 16 cross) = unat cross * 65536"
    by (subst unat_push_bit_small) (use c16 in simp_all)
  have "unat (a_lo * b_lo + push_bit 16 cross) = ?p + unat cross * 65536"
    by (subst unat_add_small) (use sum p pb in simp_all)
  also have "\<dots> = (unat a_hi * 65536 + unat a_lo) * (unat b_hi * 65536 + unat b_lo)"
    using hi unfolding cross by (auto simp: add_mult_distrib add_mult_distrib2)
  also have "\<dots> = unat ua * unat ub" by (simp only: parts div_mult_mod_eq)
  finally show ?thesis .
qed

lemma fixnum_mul_correct:
  assumes "fixnum_p a" "fixnum_p b" "fixnum_mul a b = Some r"
  shows "r = int_obj (int_val a * int_val b)"
proof -
  let ?va = "int_val a" and ?vb = "int_val b"
  note fa = fixnum_p_val [OF assms(1)] and fb = fixnum_p_val [OF assms(2)]
  have io: "int_obj z = Inr (mkfix z)" if "in_fixnum_range z" for z using that by (simp add: int_obj_def)
  consider "?va = 0 \<or> ?vb = 0" | "?va = 1" | "?vb = 1" | (gen) "?va \<noteq> 0" "?vb \<noteq> 0" "?va \<noteq> 1" "?vb \<noteq> 1" by blast
  then show ?thesis
  proof cases
    case gen
    define neg where "neg \<longleftrightarrow> ((?va < 0) \<noteq> (?vb < 0))"
    define ua where "ua = (word_of_int (if ?va < 0 then - ?va else ?va) :: u32)"
    define ub where "ub = (word_of_int (if ?vb < 0 then - ?vb else ?vb) :: u32)"
    define cross where "cross = (if drop_bit 16 ua \<noteq> 0 then drop_bit 16 ua * (ub AND 0xFFFF) else (ua AND 0xFFFF) * drop_bit 16 ub)"
    define p where "p = (ua AND 0xFFFF) * (ub AND 0xFFFF) + push_bit 16 cross"
    have u: "int (unat ua) = \<bar>?va\<bar>" "int (unat ub) = \<bar>?vb\<bar>"
      using fa fb by (simp_all only: ua_def ub_def unat_abs_word)
    have run: "fixnum_mul a b = (if drop_bit 16 ua \<noteq> 0 \<and> drop_bit 16 ub \<noteq> 0 then None
        else if cross > 0xFFFF then None
        else if drop_bit 16 ((ua AND 0xFFFF) * (ub AND 0xFFFF)) + cross > 0xFFFF then None
        else if \<not> neg \<and> p \<le> 0x3FFFFFFF then Some (Inr (mkfix (sint p)))
        else if neg \<and> p \<le> 0x40000000 then Some (Inr (mkfix (- sint p)))
        else Some (bignum_from_uint32 p neg))"
    proof -
      have fv: "fixnum_val a = ?va" "fixnum_val b = ?vb" using fa fb by simp_all
      show ?thesis
        unfolding fixnum_mul_def Let_def fv ua_def [symmetric] ub_def [symmetric]
          neg_def [symmetric] cross_def [symmetric] p_def [symmetric]
        using gen by (simp split del: if_split)
    qed
    then have c: "drop_bit 16 ua = 0 \<or> drop_bit 16 ub = 0" "\<not> cross > 0xFFFF"
      "\<not> drop_bit 16 ((ua AND 0xFFFF) * (ub AND 0xFFFF)) + cross > 0xFFFF"
      using assms(3) by (auto split: if_splits)
    have p: "unat p = unat ua * unat ub"
      unfolding p_def cross_def by (rule partial_products) (use c in \<open>simp_all add: cross_def\<close>)
    then have "int (unat p) = \<bar>?va\<bar> * \<bar>?vb\<bar>" using u by (simp del: of_nat_unat)
    then have z: "(if neg then - int (unat p) else int (unat p)) = ?va * ?vb"
      by (auto simp: neg_def abs_if split: if_splits simp del: of_nat_unat)
    have "r = bignum_from_uint32 p neg"
      using assms(3) c unfolding run by (auto simp: bignum_from_uint32_def split: if_splits)
    then show ?thesis unfolding from_uint32_correct z .
  next
    case 1
    then show ?thesis using assms(3) fa fb io [of 0] by (auto simp: fixnum_mul_def Let_def in_range_bounds)
  next
    case 2
    then show ?thesis using assms(3) fa fb io [of ?vb] io [of 0]
      by (auto simp: fixnum_mul_def Let_def in_range_bounds split: if_splits)
  next
    case 3
    then show ?thesis using assms(3) fa fb io [of ?va] io [of 0]
      by (auto simp: fixnum_mul_def Let_def in_range_bounds split: if_splits)
  qed
qed


text \<open>The size computed for the result of a bignum by fixnum product: enough room, and at most one limb too much.\<close>

lemma mul_small_size:
  fixes l :: "u16 list" and m :: u32
  assumes l: "norm_limbs l" "lval l \<noteq> 0" and m: "m \<noteq> 0"
  defines "bits \<equiv> (length l - 1) * 16 + bit_length32 (ucast (l ! (length l - 1))) + bit_length32 m"
  shows "lval l * unat m < 2 ^ (16 * ((bits + 15) div 16))"
    and "length l \<le> (bits + 15) div 16"
    and "2 ^ (bits - 2) \<le> lval l * unat m" and "2 \<le> bits"
proof -
  have ne: "l \<noteq> []" using l by (simp add: norm_limbs_def)
  let ?t = "l ! (length l - 1)" and ?P = "65536 ^ (length l - 1) :: nat"
  have P: "?P = 2 ^ ((length l - 1) * 16)"
    using power_mult [of "2::nat" 16 "length l - 1"] by (simp add: mult.commute)
  have t: "?t = last l" using ne by (simp add: last_conv_nth)
  have t0: "?t \<noteq> 0"
  proof (cases "length l = 1")
    case True
    then show ?thesis using l(2) by (auto simp: length_Suc_conv)
  next
    case False
    then have "1 < length l" using ne by (cases l) auto
    then show ?thesis using l(1) t by (simp add: norm_limbs_def)
  qed
  have u0: "(ucast ?t :: u32) \<noteq> 0" using t0 unat_ucast16_32 [of ?t] by (metis unat_eq_zero)
  note lv = lval_last [OF ne]
  have bt: "unat ?t < 2 ^ bit_length32 (ucast ?t)" "2 ^ bit_length32 (ucast ?t) \<le> 2 * unat ?t"
    using bit_length32_bounds [of "ucast ?t"] u0 by simp_all
  have bm: "unat m < 2 ^ bit_length32 m" "2 ^ bit_length32 m \<le> 2 * unat m"
    using bit_length32_bounds [of m] m by simp_all
  have "lval l < ?P * (unat ?t + 1)" using lv t by simp
  also have "\<dots> \<le> ?P * 2 ^ bit_length32 (ucast ?t)" using bt by (intro mult_le_mono2) simp
  finally have "lval l < ?P * 2 ^ bit_length32 (ucast ?t)" .
  then have "lval l * unat m < (?P * 2 ^ bit_length32 (ucast ?t)) * 2 ^ bit_length32 m"
    using bm(1) by (intro mult_strict_mono) simp_all
  also have "\<dots> = 2 ^ bits" by (simp only: bits_def P power_add)
  also have "\<dots> \<le> 2 ^ (16 * ((bits + 15) div 16))" by (intro power_increasing) simp_all
  finally show "lval l * unat m < 2 ^ (16 * ((bits + 15) div 16))" .
  have "bit_length32 m \<noteq> 0" "bit_length32 (ucast ?t) \<noteq> 0" using m u0 by (simp_all add: bit_length32_rec)
  then have b2: "(length l - 1) * 16 + 2 \<le> bits" by (simp add: bits_def)
  then show "2 \<le> bits" by simp
  have "length l * 16 \<le> bits + 15" using b2 ne by (cases l) simp_all
  then show "length l \<le> (bits + 15) div 16" by simp
  have "?P * unat ?t \<le> lval l" unfolding lv(1) t by simp
  have "4 * 2 ^ (bits - 2) = (2 :: nat) ^ 2 * 2 ^ (bits - 2)" by simp
  also have "\<dots> = 2 ^ bits" by (simp only: power_add [symmetric] le_add_diff_inverse [OF \<open>2 \<le> bits\<close>])
  also have "\<dots> = (?P * 2 ^ bit_length32 (ucast ?t)) * 2 ^ bit_length32 m" by (simp only: bits_def P power_add)
  also have "\<dots> \<le> (?P * (2 * unat ?t)) * (2 * unat m)" using bt bm by (intro mult_le_mono) simp_all
  also have "\<dots> \<le> (2 * lval l) * (2 * unat m)"
    using \<open>?P * unat ?t \<le> lval l\<close> by (intro mult_le_mono1) (simp add: mult.left_commute)
  finally show "2 ^ (bits - 2) \<le> lval l * unat m" by simp
qed

lemma bignum_mul_fixnum_correct:
  assumes wf: "wf_int (Bignum bn)" and v: "in_fixnum_range v"
  shows "computes (bignum_mul_fixnum (Bignum bn) v) (int_val (Bignum bn) * v)"
proof -
  let ?l = "bn_limbs bn" and ?z = "int_val (Bignum bn) * v"
  define m where "m = (word_of_int (if v < 0 then - v else v) :: u32)"
  have m: "int (unat m) = \<bar>v\<bar>" unfolding m_def by (rule unat_abs_word [OF v])
  have n: "norm_limbs ?l" "lval ?l \<noteq> 0"
    using wf by (auto simp: in_range_bounds split: if_splits)
  define bits where "bits = (length ?l - 1) * 16 + bit_length32 (ucast (?l ! (length ?l - 1))) + bit_length32 m"
  let ?r = "(bits + 15) div 16" and ?s = "bn_sign bn \<noteq> (v < 0)"
  consider (zero) "m = 0" | (one) "m \<noteq> 0" "v = 1" | (gen) "m \<noteq> 0" "v \<noteq> 1" by blast
  then show ?thesis
  proof cases
    case zero
    then have "v = 0" using m by simp
    then show ?thesis using zero computes_int_obj [of 0]
      by (simp add: bignum_mul_fixnum_def Let_def m_def [symmetric] int_obj_def in_range_bounds)
  next
    case one
    then have "bignum_mul_fixnum (Bignum bn) v = Inr (Bignum bn)"
      unfolding bignum_mul_fixnum_def m_def [symmetric] Let_def by simp
    also have "\<dots> = int_obj ?z" using int_obj_of_wf [OF wf] one by simp
    finally show ?thesis by simp
  next
    case gen
    note size = mul_small_size [OF n gen(1), folded bits_def]
    note ms = lval_mul_small [OF size(2,1)]
    have zabs: "\<bar>?z\<bar> = int (lval ?l * unat m)"
      using m by (simp add: abs_mult del: of_nat_unat)
    have zeq: "(if ?s then - int (lval ?l * unat m) else int (lval ?l * unat m)) = ?z"
      using m by (auto simp: abs_if split: if_splits simp del: of_nat_unat)
    have run: "bignum_mul_fixnum (Bignum bn) v = bindr (cl_make_bignum ?r ?s) (\<lambda>rn.
        Inr (cl_bignum_normalize (Bignum (rn \<lparr> bn_limbs := bignum_mul_small ?l m ?r \<rparr>))))"
      unfolding bignum_mul_fixnum_def m_def [symmetric] Let_def
      using gen by (simp add: bits_def)
    show ?thesis
    proof (cases "?r \<le> CL_MAX_BIGNUM_LIMBS")
      case True
      have ne: "bignum_mul_small ?l m ?r \<noteq> []" using ms(1) size(2) n by (auto simp: norm_limbs_def)
      have len: "length (strip_zeros (bignum_mul_small ?l m ?r)) \<le> CL_MAX_BIGNUM_LIMBS"
        using strip_zeros_length [of "bignum_mul_small ?l m ?r"] ms(1) True by simp
      have nc: "Inr (cl_bignum_normalize (Bignum \<lparr> bn_sign = ?s, bn_limbs = bignum_mul_small ?l m ?r \<rparr>)) = int_obj ?z"
        using normalize_correct [OF ne len, of ?s] by (simp only: ms(2) zeq)
      have "bignum_mul_fixnum (Bignum bn) v
          = Inr (cl_bignum_normalize (Bignum \<lparr> bn_sign = ?s, bn_limbs = bignum_mul_small ?l m ?r \<rparr>))"
        unfolding run using True by (simp add: cl_make_bignum_def)
      then show ?thesis by (simp only: nc computes_int_obj)
    next
      case False
      then have "16 * CL_MAX_BIGNUM_LIMBS - 1 \<le> bits - 2" by linarith
      then have "(2::nat) ^ (16 * CL_MAX_BIGNUM_LIMBS - 1) \<le> 2 ^ (bits - 2)" by (intro power_increasing) simp_all
      also have "\<dots> \<le> lval ?l * unat m" by (rule size(3))
      finally have "int (2 ^ (16 * CL_MAX_BIGNUM_LIMBS - 1)) \<le> \<bar>?z\<bar>" unfolding zabs by (simp only: of_nat_le_iff)
      then have "\<not> fits ?z" unfolding fits_def by simp
      then show ?thesis unfolding run using False by (simp add: computes_def cl_make_bignum_def)
    qed
  qed
qed

lemma bignum_mul_general_correct:
  assumes "wf_int a" "wf_int b"
  shows "bignum_mul_general a b = int_obj (int_val a * int_val b)"
proof -
  obtain la where la: "to_limbs a = Inr (la, int_val a < 0)" "norm_limbs la" "int (lval la) = \<bar>int_val a\<bar>"
    using to_limbs_correct [OF assms(1)] by blast
  obtain lb where lb: "to_limbs b = Inr (lb, int_val b < 0)" "norm_limbs lb" "int (lval lb) = \<bar>int_val b\<bar>"
    using to_limbs_correct [OF assms(2)] by blast
  have io: "int_obj 0 = Inr (mkfix 0)" by (simp add: int_obj_def in_range_bounds)
  let ?r = "unpack_32_to_16 (bignum_mul_mag32 (pack_16_to_32 la) (pack_16_to_32 lb))"
  let ?s = "(int_val a < 0) \<noteq> (int_val b < 0)"
  have r: "lval ?r = lval la * lval lb" by (simp add: lval_simps)
  show ?thesis
  proof (cases "lval la = 0 \<or> lval lb = 0")
    case True
    then have "int_val a * int_val b = 0" using la(3) lb(3) by auto
    then show ?thesis using True la lb io by (auto simp: bignum_mul_general_def norm_limbs_0)
  next
    case False
    then have ne: "la \<noteq> [0]" "lb \<noteq> [0]" by auto
    have "?r \<noteq> []" using r False by auto
    from from_limbs_correct [OF this, of ?s] have
      "bignum_from_limbs ?r ?s = int_obj (if ?s then - int (lval la * lval lb) else int (lval la * lval lb))"
      unfolding r .
    moreover have "(if ?s then - int (lval la * lval lb) else int (lval la * lval lb)) = int_val a * int_val b"
      using la(3) lb(3) by (auto simp: abs_if split: if_splits)
    ultimately show ?thesis using la(1) lb(1) ne by (simp add: bignum_mul_general_def)
  qed
qed

lemma wf_int_cases: "wf_int v \<Longrightarrow> fixnum_p v \<or> (\<exists>bn. v = Bignum bn)"
  by (cases v) auto

lemma integer_mul_correct:
  assumes "wf_int a" "wf_int b"
  shows "computes (integer_mul a b) (int_val a * int_val b)"
proof (cases "fixnum_p a \<and> fixnum_p b")
  case True
  then show ?thesis
    using fixnum_mul_correct [of a b] bignum_mul_general_correct [OF assms]
    by (cases "fixnum_mul a b") (auto simp: integer_mul_def)
next
  case False
  then consider (l) bn where "fixnum_p a" "b = Bignum bn" | (r) bn where "a = Bignum bn" "fixnum_p b"
    | (no) "\<not> fixnum_p a" "\<not> fixnum_p b"
    using wf_int_cases [OF assms(1)] wf_int_cases [OF assms(2)] by auto
  then show ?thesis
  proof cases
    case l
    then show ?thesis using bignum_mul_fixnum_correct [of bn "int_val a"] assms(2) fixnum_p_val [of a]
      by (simp add: integer_mul_def mult.commute)
  next
    case r
    then show ?thesis using bignum_mul_fixnum_correct [of bn "int_val b"] assms(1) fixnum_p_val [of b]
      by (simp add: integer_mul_def)
  next
    case no
    then show ?thesis using bignum_mul_general_correct [OF assms] by (simp add: integer_mul_def)
  qed
qed


lemma sdiv_in_range:
  assumes "in_fixnum_range a" "in_fixnum_range b" "b \<noteq> 0" "\<not> (a = CL_FIXNUM_MIN \<and> b = -1)"
  shows "in_fixnum_range (a sdiv b)"
proof (cases "\<bar>b\<bar> = 1")
  case True
  then have "b = 1 \<or> b = -1" by linarith
  then show ?thesis using assms by (auto simp: in_fixnum_range_def CL_FIXNUM_MIN_def CL_FIXNUM_MAX_def)
next
  case False
  then have "2 \<le> \<bar>b\<bar>" using assms(3) by linarith
  then have "\<bar>a\<bar> div \<bar>b\<bar> \<le> \<bar>a\<bar> div 2" by (intro zdiv_mono2) simp_all
  also have "\<dots> \<le> 536870912" using assms(1) by (simp add: in_range_bounds) linarith
  finally have "\<bar>a\<bar> div \<bar>b\<bar> \<le> 536870912" .
  moreover have "0 \<le> \<bar>a\<bar> div \<bar>b\<bar>" using assms(3) by (simp add: pos_imp_zdiv_nonneg_iff)
  ultimately show ?thesis by (auto simp: signed_divide_int_def in_range_bounds sgn_if)
qed

lemma wf_int_neg:
  "wf_int v \<Longrightarrow> integer_neg v = Inr (int_val v < 0)"
  "wf_int v \<Longrightarrow> fixnum_p v \<and> fixnum_val v = 0 \<longleftrightarrow> int_val v = 0"
  by (cases v; auto simp: in_range_bounds split: if_splits)+

lemma check_integer_wf [simp]: "wf_int v \<Longrightarrow> check_integer v op = Inr ()"
  using wf_int_cases [of v] by (auto simp: check_integer_def)

text \<open>What the division of two limb arrays gives, signs aside.\<close>

lemma divmod_limbs:
  assumes "norm_limbs la" "norm_limbs lb" "lval lb \<noteq> 0" "\<not> bignum_compare_mag la lb < 0"
  shows "\<exists>q r. bignum_divmod la lb = Inr (q, r) \<and> q \<noteq> [] \<and> r \<noteq> []
    \<and> lval q = lval la div lval lb \<and> lval r = lval la mod lval lb"
proof -
  have "lval lb \<le> lval la"
    using assms(4) compare_mag_sgn [OF assms(1,2)] by (simp add: sgn_if split: if_splits)
  then have "length lb \<le> length la" using norm_limbs_length_less [of la lb] assms(1,2) by fastforce
  from bignum_divmod_correct [OF assms(2,3) this] show ?thesis
    using assms(2) by (auto simp: norm_limbs_def)
qed

lemma int_obj_0: "int_obj 0 = Inr (mkfix 0)"
  by (simp add: int_obj_def in_range_bounds)

lemma integer_truncate_correct:
  assumes "wf_int a" "wf_int b"
  shows "integer_truncate a b =
    (if int_val b = 0 then Inl Div_Zero
     else if int_val a = CL_FIXNUM_MIN \<and> int_val b = -1 then Inr (mkfix CL_FIXNUM_MIN)
     else int_obj (int_val a sdiv int_val b))"
proof (cases "fixnum_p a \<and> fixnum_p b")
  case True
  note f = fixnum_p_val [of a] fixnum_p_val [of b] sdiv_in_range [of "int_val a" "int_val b"]
  have "mkfix (CL_FIXNUM_MIN sdiv -1) = mkfix CL_FIXNUM_MIN"
    by (simp add: CL_FIXNUM_MIN_def make_fixnum_eq)
  then show ?thesis using True f assms by (auto simp: integer_truncate_def int_obj_def)
next
  case False
  have nf: "\<not> (int_val a = CL_FIXNUM_MIN \<and> int_val b = -1)"
  proof
    assume "int_val a = CL_FIXNUM_MIN \<and> int_val b = -1"
    then have "in_fixnum_range (int_val a)" "in_fixnum_range (int_val b)"
      by (simp_all add: in_fixnum_range_def CL_FIXNUM_MIN_def CL_FIXNUM_MAX_def)
    then show False using False wf_int_cases [OF assms(1)] wf_int_cases [OF assms(2)] assms by auto
  qed
  obtain la where la: "to_limbs a = Inr (la, int_val a < 0)" "norm_limbs la" "int (lval la) = \<bar>int_val a\<bar>"
    using to_limbs_correct [OF assms(1)] by blast
  obtain lb where lb: "to_limbs b = Inr (lb, int_val b < 0)" "norm_limbs lb" "int (lval lb) = \<bar>int_val b\<bar>"
    using to_limbs_correct [OF assms(2)] by blast
  let ?s = "(int_val a < 0) \<noteq> (int_val b < 0)"
  have unf: "integer_truncate a b = (if lb = [0] then Inl Div_Zero
      else if bignum_compare_mag la lb < 0 then Inr (mkfix 0)
      else bindr (bignum_divmod la lb) (\<lambda>(quot, _). bignum_from_limbs quot ?s))"
    using False assms by (auto simp: integer_truncate_def la(1) lb(1))
  consider (zero) "lval lb = 0" | (less) "lval lb \<noteq> 0" "lval la < lval lb" | (div) "lval lb \<noteq> 0" "lval lb \<le> lval la" by linarith
  then show ?thesis
  proof cases
    case zero
    then show ?thesis using lb unfolding unf by (auto simp: norm_limbs_0)
  next
    case less
    then have "\<bar>int_val a\<bar> < \<bar>int_val b\<bar>" using la(3) lb(3) by linarith
    then have "int_val a sdiv int_val b = 0" by (simp add: signed_divide_int_def)
    then show ?thesis using less lb nf unfolding unf
      by (auto simp: compare_mag_sgn [OF la(2) lb(2)] int_obj_0)
  next
    case div
    then have "\<not> bignum_compare_mag la lb < 0" by (simp add: compare_mag_sgn [OF la(2) lb(2)])
    from divmod_limbs [OF la(2) lb(2) div(1) this] obtain q r where
      q: "bignum_divmod la lb = Inr (q, r)" "q \<noteq> []" "lval q = lval la div lval lb" by blast
    have "int (lval q) = \<bar>int_val a\<bar> div \<bar>int_val b\<bar>" using q(3) la(3) lb(3) by (simp add: zdiv_int)
    then have "(if ?s then - int (lval q) else int (lval q)) = int_val a sdiv int_val b"
      using div(1) lb(3) by (auto simp: signed_divide_int_def sgn_if)
    then show ?thesis using from_limbs_correct [OF q(2), of ?s] q(1) div(1) lb nf \<open>\<not> bignum_compare_mag la lb < 0\<close>
      unfolding unf by auto
  qed
qed

lemma mod_of_smod:
  fixes a b :: int
  assumes "b \<noteq> 0"
  shows "a mod b = (if a smod b \<noteq> 0 \<and> (a smod b < 0) \<noteq> (b < 0) then a smod b + b else a smod b)"
proof -
  have z: "a smod b = 0 \<longleftrightarrow> b dvd a"
    by (auto simp: signed_modulo_int_def dvd_eq_mod_eq_0 [symmetric] sgn_0_0)
  have "sgn (a smod b) = sgn a" if "a smod b \<noteq> 0"
  proof -
    have "0 \<le> \<bar>a\<bar> mod \<bar>b\<bar>" using assms by (simp add: pos_mod_sign)
    moreover have "\<bar>a\<bar> mod \<bar>b\<bar> \<noteq> 0" "a \<noteq> 0" using that by (auto simp: signed_modulo_int_def)
    ultimately show ?thesis by (auto simp: signed_modulo_int_def sgn_mult sgn_if)
  qed
  then show ?thesis unfolding modulo_int_eq_signed_modulo_int [of a b]
    using z assms by (auto simp: sgn_if split: if_splits)
qed


lemma int_obj_smaller:
  assumes "wf_int v" "\<bar>z\<bar> \<le> \<bar>int_val v\<bar>"
  shows "\<exists>r. int_obj z = Inr r \<and> wf_int r \<and> int_val r = z"
proof -
  have "\<bar>int_val v\<bar> < 2 ^ (16 * CL_MAX_BIGNUM_LIMBS)"
    using int_obj_of_wf [OF assms(1)] by (auto simp: int_obj_cases split: if_splits)
  then obtain r where "int_obj z = Inr r" using assms(2) by (auto simp: int_obj_cases [of z])
  then show ?thesis using int_obj_wf by blast
qed

lemma integer_mod_correct:
  assumes "wf_int a" "wf_int b"
  shows "integer_mod a b = (if int_val b = 0 then Inl Div_Zero else int_obj (int_val a mod int_val b))"
proof (cases "fixnum_p a \<and> fixnum_p b")
  case True
  note f = fixnum_p_val [of a] fixnum_p_val [of b]
  show ?thesis
  proof (cases "int_val b = 0")
    case False
    have "\<bar>int_val a mod int_val b\<bar> < \<bar>int_val b\<bar>" using False by (rule abs_mod_less)
    then have "in_fixnum_range (int_val a mod int_val b)"
      using f True False
      by (auto simp: in_range_bounds intro: order_trans [OF _ pos_mod_sign] dest: neg_mod_sign)
    then show ?thesis using True f assms False mod_of_smod [OF False, of "int_val a"]
      by (simp add: integer_mod_def int_obj_def Let_def)
  qed (use True f assms in \<open>simp add: integer_mod_def\<close>)
next
  case False
  obtain la where la: "to_limbs a = Inr (la, int_val a < 0)" "norm_limbs la" "int (lval la) = \<bar>int_val a\<bar>"
    using to_limbs_correct [OF assms(1)] by blast
  obtain lb where lb: "to_limbs b = Inr (lb, int_val b < 0)" "norm_limbs lb" "int (lval lb) = \<bar>int_val b\<bar>"
    using to_limbs_correct [OF assms(2)] by blast
  let ?rem = "if bignum_compare_mag la lb < 0 then Inr a
      else bindr (bignum_divmod la lb) (\<lambda>(_, rem). bignum_from_limbs (strip_zeros rem) (int_val a < 0))"
  define adjust where "adjust = (\<lambda>rem_obj. if fixnum_p rem_obj \<and> fixnum_val rem_obj = 0 then Inr rem_obj
      else bindr (integer_neg rem_obj) (\<lambda>rem_neg. bindr (integer_neg b) (\<lambda>b_neg.
        if rem_neg \<noteq> b_neg then integer_add rem_obj b else Inr rem_obj)))"
  have unf: "integer_mod a b = (if lb = [0] then Inl Div_Zero else bindr ?rem adjust)"
    unfolding integer_mod_def adjust_def using False assms by (auto simp: la(1) lb(1))
  show ?thesis
  proof (cases "lval lb = 0")
    case True
    then show ?thesis unfolding unf using lb by (auto simp: norm_limbs_0)
  next
    case nz: False
    then have b0: "int_val b \<noteq> 0" using lb(3) by auto
    have rem: "?rem = int_obj (int_val a smod int_val b)"
    proof (cases "bignum_compare_mag la lb < 0")
      case True
      then have "\<bar>int_val a\<bar> < \<bar>int_val b\<bar>"
        using compare_mag_sgn [OF la(2) lb(2)] la(3) lb(3) by (simp add: sgn_if split: if_splits)
      then have "int_val a smod int_val b = int_val a" by (simp add: signed_modulo_int_def sgn_mult_abs)
      then show ?thesis using True int_obj_of_wf [OF assms(1)] by simp
    next
      case ge: False
      from divmod_limbs [OF la(2) lb(2) nz ge] obtain q r where
        r: "bignum_divmod la lb = Inr (q, r)" "r \<noteq> []" "lval r = lval la mod lval lb" by blast
      have "int (lval r) = \<bar>int_val a\<bar> mod \<bar>int_val b\<bar>" using r(3) la(3) lb(3) by (simp add: zmod_int)
      then have "(if int_val a < 0 then - int (lval r) else int (lval r)) = int_val a smod int_val b"
        by (auto simp: signed_modulo_int_def sgn_if)
      then show ?thesis using from_limbs_correct [of "strip_zeros r" "int_val a < 0"] r ge by auto
    qed
    have "\<bar>int_val a smod int_val b\<bar> \<le> \<bar>int_val b\<bar>"
      using smod_int_range [OF b0, of "int_val a"] by auto
    from int_obj_smaller [OF assms(2) this] obtain r where
      r: "int_obj (int_val a smod int_val b) = Inr r" "wf_int r" "int_val r = int_val a smod int_val b" by blast
    have "adjust r = int_obj (int_val a mod int_val b)"
      unfolding adjust_def mod_of_smod [OF b0, of "int_val a"]
      using wf_int_neg(2) [OF r(2)] wf_int_neg(1) [OF r(2)] wf_int_neg(1) [OF assms(2)] r
        integer_add_correct [OF r(2) assms(2)] by auto
    then show ?thesis unfolding unf rem r(1) using nz b0 by auto
  qed
qed

text \<open>The bignums that negation and absolute value can copy: fewer than 65536 limbs.\<close>

definition copyable :: "int \<Rightarrow> bool" where
  "copyable z \<longleftrightarrow> length (nat_limbs (nat \<bar>z\<bar>)) < 65536"

lemma copyable_minus [simp]: "copyable (- z) = copyable z" "copyable \<bar>z\<bar> = copyable z"
  by (simp_all add: copyable_def)

lemma copyable_mono: "copyable z \<Longrightarrow> \<bar>y\<bar> \<le> \<bar>z\<bar> \<Longrightarrow> copyable y"
proof -
  assume c: "copyable z" and le: "\<bar>y\<bar> \<le> \<bar>z\<bar>"
  let ?k = "65535 :: nat"
  have iff: "copyable x \<longleftrightarrow> nat \<bar>x\<bar> < 2 ^ (16 * ?k)" for x
    unfolding copyable_def using length_nat_limbs_le [of ?k "nat \<bar>x\<bar>"] by linarith
  have "nat \<bar>y\<bar> \<le> nat \<bar>z\<bar>" using le by simp
  then show ?thesis using c unfolding iff by (rule le_less_trans)
qed

lemma copyable_bignum: "wf_int (Bignum bn) \<Longrightarrow> copyable (int_val (Bignum bn)) \<longleftrightarrow> length (bn_limbs bn) < 65536"
  using nat_limbs_lval [of "bn_limbs bn"] by (simp add: copyable_def)

lemma lval_take_drop:
  assumes "n \<le> length xs"
  shows "lval (drop n (xs :: u16 list)) = lval xs div 2 ^ (16 * n)" "lval (take n xs) = lval xs mod 2 ^ (16 * n)"
proof -
  have "lval (take n xs @ drop n xs) = lval (take n xs) + 2 ^ (16 * n) * lval (drop n xs)"
    using assms by (simp only: lval_append) simp
  then have e: "lval xs = lval (take n xs) + 2 ^ (16 * n) * lval (drop n xs)" by simp
  have "lval (take n xs) < 2 ^ (16 * n)" using lval_bound [of "take n xs"] assms by simp
  then show "lval (drop n xs) = lval xs div 2 ^ (16 * n)" "lval (take n xs) = lval xs mod 2 ^ (16 * n)"
    unfolding e by simp_all
qed

lemma copyable_iff: "copyable z \<longleftrightarrow> \<bar>z\<bar> < 2 ^ (16 * 65535)"
proof -
  have "copyable z \<longleftrightarrow> nat \<bar>z\<bar> < 2 ^ (16 * 65535)"
    unfolding copyable_def using length_nat_limbs_le [of 65535 "nat \<bar>z\<bar>"] by linarith
  moreover have "nat \<bar>z\<bar> < 2 ^ k \<longleftrightarrow> \<bar>z\<bar> < 2 ^ k" for k :: nat
    by (simp add: nat_less_iff)
  ultimately show ?thesis by blast
qed

lemma integer_negate_correct:
  assumes "wf_int a" "copyable (int_val a)"
  shows "integer_negate a = int_obj (- int_val a)"
proof (cases a)
  case (Imm w)
  have f: "bignum_from_uint32 0x40000000 False = int_obj 1073741824" by (simp add: from_uint32_correct)
  show ?thesis
  proof (cases "CL_FIXNUM_VAL w = CL_FIXNUM_MIN")
    case True
    then show ?thesis using assms f Imm by (simp add: integer_negate_def CL_FIXNUM_MIN_def)
  next
    case False
    then have "in_fixnum_range (- CL_FIXNUM_VAL w)"
      using in_range_wf [of w] by (auto simp: in_range_bounds CL_FIXNUM_MIN_def)
    then show ?thesis using assms Imm False by (simp add: integer_negate_def int_obj_def)
  qed
next
  case (Bignum bn)
  let ?l = "bn_limbs bn"
  have len: "length ?l < 65536" using assms copyable_bignum [of bn] Bignum by simp
  have l: "?l \<noteq> []" "length ?l \<le> CL_MAX_BIGNUM_LIMBS" using assms Bignum by (auto simp: norm_limbs_def)
  have "integer_negate a = Inr (cl_bignum_normalize (Bignum \<lparr> bn_sign = \<not> bn_sign bn, bn_limbs = ?l \<rparr>))"
    using Bignum len l by (simp add: integer_negate_def cl_make_bignum_def)
  moreover have "length (strip_zeros ?l) \<le> CL_MAX_BIGNUM_LIMBS" using strip_zeros_length [of ?l] l by simp
  ultimately show ?thesis using normalize_correct [OF l(1), of "\<not> bn_sign bn"] Bignum by simp
qed (use assms in simp_all)

lemma integer_abs_correct:
  assumes "wf_int a" "copyable (int_val a)"
  shows "integer_abs a = int_obj \<bar>int_val a\<bar>"
proof (cases a)
  case (Imm w)
  have f: "bignum_from_uint32 0x40000000 False = int_obj 1073741824" by (simp add: from_uint32_correct)
  show ?thesis
  proof (cases "CL_FIXNUM_VAL w = CL_FIXNUM_MIN")
    case True
    then show ?thesis using assms f Imm by (simp add: integer_abs_def CL_FIXNUM_MIN_def)
  next
    case False
    then have "in_fixnum_range \<bar>CL_FIXNUM_VAL w\<bar>"
      using in_range_wf [of w] by (auto simp: in_range_bounds CL_FIXNUM_MIN_def abs_if)
    then show ?thesis using assms Imm False by (auto simp: integer_abs_def int_obj_def abs_if)
  qed
next
  case (Bignum bn)
  let ?l = "bn_limbs bn"
  have len: "length ?l < 65536" using assms copyable_bignum [of bn] Bignum by simp
  have l: "norm_limbs ?l" "?l \<noteq> []" "length ?l \<le> CL_MAX_BIGNUM_LIMBS" "lval ?l \<noteq> 0"
    using assms Bignum by (auto simp: norm_limbs_def in_range_bounds split: if_splits)
  show ?thesis
  proof (cases "bn_sign bn")
    case False
    then have "\<bar>int_val a\<bar> = int_val a" using Bignum by simp
    then show ?thesis using int_obj_of_wf [OF assms(1)] Bignum False by (simp add: integer_abs_def)
  next
    case True
    let ?bn = "\<lparr> bn_sign = False, bn_limbs = ?l \<rparr>"
    have "\<not> lval ?l \<le> 1073741824" using assms Bignum True by simp
    then have "wf_int (Bignum ?bn)" using l by simp
    from int_obj_of_wf [OF this] show ?thesis
      using Bignum len l True by (simp add: integer_abs_def cl_make_bignum_def)
  qed
qed (use assms in simp_all)

lemma integer_compare_correct:
  assumes "wf_int a" "wf_int b"
  shows "integer_compare a b = Inr (sgn (int_val a - int_val b))"
proof (cases "fixnum_p a \<and> fixnum_p b")
  case True
  then show ?thesis using fixnum_p_val [of a] fixnum_p_val [of b] by (auto simp: integer_compare_def)
next
  case False
  obtain la where la: "to_limbs a = Inr (la, int_val a < 0)" "norm_limbs la" "int (lval la) = \<bar>int_val a\<bar>"
    using to_limbs_correct [OF assms(1)] by blast
  obtain lb where lb: "to_limbs b = Inr (lb, int_val b < 0)" "norm_limbs lb" "int (lval lb) = \<bar>int_val b\<bar>"
    using to_limbs_correct [OF assms(2)] by blast
  have z: "la = [0] \<longleftrightarrow> int_val a = 0" "lb = [0] \<longleftrightarrow> int_val b = 0"
    using norm_limbs_0 [OF la(2)] norm_limbs_0 [OF lb(2)] la(3) lb(3) by auto
  show ?thesis unfolding integer_compare_def using False la(1,3) lb(1,3) z
    by (auto simp: Let_def compare_mag_sgn [OF la(2) lb(2)] abs_if sgn_if split: if_splits)
qed

lemma integer_sign_tests:
  assumes "wf_int a"
  shows "integer_zerop a \<longleftrightarrow> int_val a = 0"
    and "integer_plusp a = Inr (0 < int_val a)" and "integer_minusp a = Inr (int_val a < 0)"
  using assms by (cases a; auto simp: in_range_bounds split: if_splits)+

lemma bignum_equal_iff: "cl_bignum_equal (Bignum x) (Bignum y) \<longleftrightarrow> x = y"
  by (auto simp: list_all2_eq [symmetric] list.rel_eq)

section \<open>The contract of a binary integer operation\<close>

text \<open>
  Every binary integer operation promises the same: on integers in their representation
  that meet its precondition it computes one function of their values.  What a caller may
  conclude from that is proved once.
\<close>

locale int_binop =
  fixes opn :: "cl_val \<Rightarrow> cl_val \<Rightarrow> cl_val res"
    and pre :: "int \<Rightarrow> int \<Rightarrow> bool"
    and f :: "int \<Rightarrow> int \<Rightarrow> int"
  assumes op_computes: "wf_int a \<Longrightarrow> wf_int b \<Longrightarrow> pre (int_val a) (int_val b)
    \<Longrightarrow> computes (opn a b) (f (int_val a) (int_val b))"

begin

lemma op_result:
  assumes "wf_int a" "wf_int b" "pre (int_val a) (int_val b)" "opn a b = Inr r"
  shows "wf_int r" "int_val r = f (int_val a) (int_val b)"
  using computes_Inr [OF op_computes [OF assms(1-3)] assms(4)] by auto

lemma op_total:
  assumes "wf_int a" "wf_int b" "pre (int_val a) (int_val b)" "fits (f (int_val a) (int_val b))"
  shows "\<exists>r. opn a b = Inr r \<and> wf_int r \<and> int_val r = f (int_val a) (int_val b)"
  using computes_fits [OF op_computes [OF assms(1-3)] assms(4)] .

lemma op_error:
  assumes "wf_int a" "wf_int b" "pre (int_val a) (int_val b)" "opn a b = Inl e"
  shows "e = Storage_Error"
  using op_computes [OF assms(1-3)] assms(4) by (simp add: computes_def)

lemma op_canonical:
  assumes "wf_int a" "wf_int b" "pre (int_val a) (int_val b)" "opn a b = Inr r"
    and "wf_int s" "int_val s = f (int_val a) (int_val b)"
  shows "r = s"
  using op_result [OF assms(1-4)] int_obj_of_wf [of r] int_obj_of_wf [OF assms(5)] assms(6) by simp

end

locale comm_int_binop = int_binop +
  assumes f_comm: "f x y = f y x"
    and pre_comm: "pre x y = pre y x"

begin

lemma op_comm:
  assumes "wf_int a" "wf_int b" "pre (int_val a) (int_val b)" "opn a b = Inr r" "opn b a = Inr s"
  shows "r = s"
proof -
  have "pre (int_val b) (int_val a)" using assms(3) by (simp add: pre_comm)
  from op_result [OF assms(2,1) this assms(5)] show ?thesis
    using op_canonical [OF assms(1-4)] by (simp add: f_comm)
qed

end

interpretation iadd: comm_int_binop integer_add "\<lambda>_ _. True" "(+)"
  by unfold_locales (simp_all add: integer_add_correct)

interpretation isub: int_binop integer_sub "\<lambda>_ _. True" "(-)"
  by unfold_locales (simp add: integer_sub_correct)

interpretation imul: comm_int_binop integer_mul "\<lambda>_ _. True" "(*)"
  by unfold_locales (simp_all add: integer_mul_correct)

interpretation itrunc: int_binop integer_truncate
    "\<lambda>x y. y \<noteq> 0 \<and> \<not> (x = CL_FIXNUM_MIN \<and> y = -1)" "(sdiv)"
  by unfold_locales (auto simp: integer_truncate_correct)

interpretation imod: int_binop integer_mod "\<lambda>x y. y \<noteq> 0" "(mod)"
  by unfold_locales (auto simp: integer_mod_correct)

lemmas int_op_result = iadd.op_result isub.op_result imul.op_result itrunc.op_result imod.op_result

section \<open>Properties\<close>

text \<open>
  C18: Addition and subtraction of integers are exact and canonical on every branch (two
  fixnums, overflow into a bignum, mixed, equal magnitudes): the result is the one
  representation of the sum or the difference, a fixnum exactly when it is in range, and a
  storage error exactly when no heap object can hold it.
\<close>

theorem integer_add_sub_exact:
  assumes "wf_int a" "wf_int b"
  shows "integer_add a b = int_obj (int_val a + int_val b)
    \<and> integer_sub a b = int_obj (int_val a - int_val b)"
  using assms by (simp add: integer_add_correct integer_sub_correct)

theorem integer_add_sub_exact_witness:
  "integer_add (mkfix 1073741823) (mkfix 1) = int_obj 1073741824
    \<and> integer_sub (mkfix (-1073741824)) (mkfix 1) = int_obj (-1073741825)"
proof -
  have v: "int_val (mkfix 1073741823) = 1073741823" "int_val (mkfix 1) = 1"
    "int_val (mkfix (-1073741824)) = -1073741824" by (simp_all add: fixnum_val_make_wraps)
  show ?thesis
    using integer_add_sub_exact [of "mkfix 1073741823" "mkfix 1"]
      integer_add_sub_exact [of "mkfix (-1073741824)" "mkfix 1"]
    unfolding v by simp
qed

text \<open>
  C19: Multiplication of integers, over its three paths (fixnum by fixnum with the 16-bit
  partial products, bignum by fixnum in one pass, bignum by bignum), returns the canonical
  representation of the product whenever the product leaves one bit of the largest heap
  object free; any value it returns is that representation, and its only error is the
  storage error.
\<close>

theorem integer_mul_exact:
  assumes "wf_int a" "wf_int b"
  shows "(fits (int_val a * int_val b) \<longrightarrow> integer_mul a b = int_obj (int_val a * int_val b))
    \<and> (\<forall>r. integer_mul a b = Inr r \<longrightarrow> int_obj (int_val a * int_val b) = Inr r)
    \<and> (\<forall>e. integer_mul a b = Inl e \<longrightarrow> e = Storage_Error)"
  using integer_mul_correct [OF assms] by (auto simp: computes_def split: sum.splits)

theorem integer_mul_exact_witness:
  "integer_mul (mkfix 28639) (mkfix 151017) = int_obj 4324975863"
proof -
  have v: "int_val (mkfix 28639) = 28639" "int_val (mkfix 151017) = 151017"
    by (simp_all add: fixnum_val_make_wraps)
  have "(2 :: int) ^ 63 \<le> 2 ^ (16 * CL_MAX_BIGNUM_LIMBS - 1)"
    by (intro power_increasing) (simp_all add: CL_MAX_BIGNUM_LIMBS_def)
  then have "fits (28639 * 151017)" unfolding fits_def by (rule less_le_trans [rotated]) simp
  moreover have "fits (28639 * 151017) \<longrightarrow> integer_mul (mkfix 28639) (mkfix 151017) = int_obj (28639 * 151017)"
    using integer_mul_exact [of "mkfix 28639" "mkfix 151017", THEN conjunct1] unfolding v by simp
  ultimately show ?thesis by simp
qed

text \<open>
  C20: Truncating division and \<open>mod\<close> of integers.  A zero divisor signals the division
  error; otherwise \<open>mod\<close> is the canonical representation of the remainder with the sign of
  the divisor, and truncation that of the quotient rounded towards zero, except for the one
  pair whose quotient leaves the fixnum range on the fixnum path: the most negative fixnum
  divided by -1 gives the most negative fixnum.
\<close>

theorem integer_division_exact:
  assumes "wf_int a" "wf_int b"
  shows "integer_truncate a b =
      (if int_val b = 0 then Inl Div_Zero
       else if int_val a = CL_FIXNUM_MIN \<and> int_val b = -1 then Inr (mkfix CL_FIXNUM_MIN)
       else int_obj (int_val a sdiv int_val b))
    \<and> integer_mod a b = (if int_val b = 0 then Inl Div_Zero else int_obj (int_val a mod int_val b))"
  using integer_truncate_correct [OF assms] integer_mod_correct [OF assms] by simp

theorem integer_division_exact_witness:
  "integer_truncate (mkfix (-7)) (mkfix 2) = int_obj (-3) \<and> integer_mod (mkfix (-7)) (mkfix 2) = int_obj 1
    \<and> integer_truncate (mkfix 7) (mkfix 0) = Inl Div_Zero
    \<and> integer_truncate (mkfix (-1073741824)) (mkfix (-1)) = Inr (mkfix (-1073741824))"
proof -
  have v: "int_val (mkfix (-7)) = -7" "int_val (mkfix 2) = 2" "int_val (mkfix 7) = 7" "int_val (mkfix 0) = 0"
    "int_val (mkfix (-1073741824)) = -1073741824" "int_val (mkfix (-1)) = -1"
    by (simp_all add: fixnum_val_make_wraps)
  have "integer_truncate (mkfix (-7)) (mkfix 2) = int_obj (-3) \<and> integer_mod (mkfix (-7)) (mkfix 2) = int_obj 1"
    using integer_division_exact [of "mkfix (-7)" "mkfix 2"] unfolding v by simp
  moreover have "integer_truncate (mkfix 7) (mkfix 0) = Inl Div_Zero"
    using integer_division_exact [of "mkfix 7" "mkfix 0"] unfolding v by simp
  moreover have "integer_truncate (mkfix (-1073741824)) (mkfix (-1)) = Inr (mkfix (-1073741824))"
    using integer_division_exact [of "mkfix (-1073741824)" "mkfix (-1)"] unfolding v
    by (simp add: CL_FIXNUM_MIN_def)
  ultimately show ?thesis by simp
qed

text \<open>
  Quotient and remainder of the two fixnums for which the fixnum path of truncation
  wraps do not recombine to the dividend: the code returns minus two to the 30 where the
  quotient is two to the 30.
\<close>

theorem truncate_wraps_at_min:
  "integer_truncate (mkfix CL_FIXNUM_MIN) (mkfix (-1)) = Inr (mkfix CL_FIXNUM_MIN)
    \<and> int_val (mkfix CL_FIXNUM_MIN) = CL_FIXNUM_MIN
    \<and> CL_FIXNUM_MIN sdiv (-1) = 1073741824"
proof -
  have v: "int_val (mkfix CL_FIXNUM_MIN) = CL_FIXNUM_MIN" "int_val (mkfix (-1)) = -1"
    by (simp_all add: fixnum_val_make_wraps CL_FIXNUM_MIN_def)
  show ?thesis using integer_truncate_correct [of "mkfix CL_FIXNUM_MIN" "mkfix (-1)"] unfolding v
    by (simp add: CL_FIXNUM_MIN_def)
qed

text \<open>
  Negation and absolute value are exact, the most negative fixnum included, for
  integers of fewer than 65536 limbs; comparison returns the sign of the difference, and
  the sign tests decide the sign, for all integers.
\<close>

theorem integer_sign_ops_exact:
  assumes "wf_int a" "wf_int b"
  shows "(copyable (int_val a) \<longrightarrow> integer_negate a = int_obj (- int_val a) \<and> integer_abs a = int_obj \<bar>int_val a\<bar>)
    \<and> integer_compare a b = Inr (sgn (int_val a - int_val b))
    \<and> (integer_zerop a \<longleftrightarrow> int_val a = 0)
    \<and> integer_plusp a = Inr (0 < int_val a) \<and> integer_minusp a = Inr (int_val a < 0)"
  using integer_negate_correct [OF assms(1)] integer_abs_correct [OF assms(1)]
    integer_compare_correct [OF assms] integer_sign_tests [OF assms(1)] by simp

text \<open>
  C37: Negation copies the length of a bignum into 16 bits.  A bignum of 65536 or more limbs
  keeps only as many of its low limbs as the remainder of the limb count by 65536 says: the
  magnitude is reduced modulo that power of \<open>2 ^ 16\<close>, and without any limb left the result is an
  empty bignum.  It never is the negative of the argument.
\<close>

theorem negate_loses_limbs:
  assumes wf: "wf_int (Bignum bn)" and long: "65536 \<le> length (bn_limbs bn)"
  shows "integer_negate (Bignum bn) =
      (if length (bn_limbs bn) mod 65536 = 0 then Inr (Bignum \<lparr> bn_sign = \<not> bn_sign bn, bn_limbs = [] \<rparr>)
       else int_obj (- sgn (int_val (Bignum bn)) * (\<bar>int_val (Bignum bn)\<bar> mod 2 ^ (16 * (length (bn_limbs bn) mod 65536)))))
    \<and> (\<forall>r. integer_negate (Bignum bn) = Inr r \<longrightarrow> int_val r \<noteq> - int_val (Bignum bn))"
proof -
  let ?l = "bn_limbs bn" and ?s = "bn_sign bn" and ?k = "length (bn_limbs bn) mod 65536" and ?z = "int_val (Bignum bn)"
  have nc: "\<not> copyable ?z" using copyable_bignum [OF wf] long by simp
  have zpos: "lval ?l \<noteq> 0" using wf by (auto simp: in_range_bounds split: if_splits)
  have len: "?k \<le> length ?l" "?k < 65536" using long by simp_all
  have maxk: "?k \<le> CL_MAX_BIGNUM_LIMBS" using wf by (auto intro: le_trans [OF len(1)])
  have run: "integer_negate (Bignum bn) = Inr (cl_bignum_normalize (Bignum \<lparr> bn_sign = \<not> ?s, bn_limbs = take ?k ?l \<rparr>))"
    using maxk by (simp add: integer_negate_def cl_make_bignum_def Let_def)
  have val: "- sgn ?z * (\<bar>?z\<bar> mod 2 ^ (16 * ?k)) = (if \<not> ?s then - int (lval (take ?k ?l)) else int (lval (take ?k ?l)))"
    unfolding lval_take_drop(2) [OF len(1)] using zpos by (simp add: zmod_int)
  have eq: "integer_negate (Bignum bn) =
      (if ?k = 0 then Inr (Bignum \<lparr> bn_sign = \<not> ?s, bn_limbs = [] \<rparr>) else int_obj (- sgn ?z * (\<bar>?z\<bar> mod 2 ^ (16 * ?k))))"
  proof (cases "?k = 0")
    case True
    then show ?thesis unfolding run by (simp add: cl_bignum_normalize.simps strip_zeros.simps [of "[]"])
  next
    case False
    then have "take ?k ?l \<noteq> []" using len(1) by auto
    moreover have "length (strip_zeros (take ?k ?l)) \<le> CL_MAX_BIGNUM_LIMBS" using strip_zeros_length [of "take ?k ?l"] maxk by simp
    ultimately show ?thesis unfolding run val using normalize_correct False by simp
  qed
  have "int_val r \<noteq> - ?z" if r: "integer_negate (Bignum bn) = Inr r" for r
  proof
    assume e: "int_val r = - ?z"
    show False
    proof (cases "?k = 0")
      case True
      then have "r = Bignum \<lparr> bn_sign = \<not> ?s, bn_limbs = [] \<rparr>" using r unfolding eq by simp
      then have "int_val r = 0" by simp
      then show False using e zpos by (simp split: if_splits)
    next
      case False
      then have "int_val r = - sgn ?z * (\<bar>?z\<bar> mod 2 ^ (16 * ?k))" using r int_obj_wf(2) unfolding eq by simp
      then have "\<bar>?z\<bar> = int (lval (take ?k ?l))" using e unfolding val by (simp split: if_splits)
      moreover have "lval (take ?k ?l) < 2 ^ (16 * ?k)" using lval_bound [of "take ?k ?l"] len(1) by (simp add: min_absorb2)
      moreover have "(2 :: nat) ^ (16 * ?k) \<le> 2 ^ (16 * 65535)" using len(2) by (intro power_increasing) simp_all
      ultimately have "\<bar>?z\<bar> < int (2 ^ (16 * 65535))" by (simp only: of_nat_less_iff less_le_trans)
      then have "\<bar>?z\<bar> < 2 ^ (16 * 65535)" by (simp only: of_nat_power of_nat_numeral)
      then show False using nc copyable_iff by blast
    qed
  qed
  then show ?thesis using eq by blast
qed

theorem negate_loses_limbs_witness:
  "integer_negate (Bignum \<lparr> bn_sign = False, bn_limbs = replicate 65535 0 @ [1] \<rparr>)
    = Inr (Bignum \<lparr> bn_sign = True, bn_limbs = [] \<rparr>)"
proof -
  let ?l = "replicate 65535 0 @ [1] :: u16 list"
  have n: "norm_limbs ?l" "length ?l = 65536" by (simp_all add: norm_limbs_def)
  then have "4294967296 \<le> lval ?l" by (intro lval_three) simp_all
  then have "wf_int (Bignum \<lparr> bn_sign = False, bn_limbs = ?l \<rparr>)"
    using n by (simp del: replicate.simps length_append add: CL_MAX_BIGNUM_LIMBS_def)
  from negate_loses_limbs [OF this] n(2) show ?thesis by simp
qed

text \<open>
  C27: The representation of an integer is unique, so that equality of well-formed bignum
  objects field by field is equality of the numbers, and equal numbers hash alike.
\<close>

theorem representation_unique:
  assumes "wf_int a" "wf_int b"
  shows "(int_val a = int_val b \<longleftrightarrow> a = b)
    \<and> (\<forall>x y. a = Bignum x \<and> b = Bignum y \<longrightarrow>
        (cl_bignum_equal a b \<longleftrightarrow> int_val a = int_val b)
        \<and> (int_val a = int_val b \<longrightarrow> cl_bignum_hash x = cl_bignum_hash y))"
proof -
  have eq: "int_val a = int_val b \<longleftrightarrow> a = b"
    using int_obj_of_wf [OF assms(1)] int_obj_of_wf [OF assms(2)] by (metis sum.inject(2))
  show ?thesis unfolding eq using bignum_equal_iff by blast
qed

theorem representation_unique_witness:
  "cl_bignum_equal (Bignum \<lparr> bn_sign = True, bn_limbs = [0, 0, 1] \<rparr>) (Bignum \<lparr> bn_sign = True, bn_limbs = [0, 0, 1] \<rparr>)"
proof -
  let ?a = "Bignum \<lparr> bn_sign = True, bn_limbs = [0, 0, 1] \<rparr>"
  have "wf_int ?a" by (simp add: norm_limbs_def in_range_bounds CL_MAX_BIGNUM_LIMBS_def)
  then show ?thesis using representation_unique [of ?a ?a] by simp
qed

end
