(* ===== verification/Integer_Ops.thy ===== *)
theory Integer_Ops
  imports Bignum
begin

text \<open>
  The extended integer operations of \<open>core/bignum.c\<close>: greatest common divisor, power,
  integer square root, parity, \<open>integer-length\<close> and arithmetic shift.

  Loops whose end depends on the numbers carry fuel, and running out is \<open>No_Return\<close>; the
  fuel each operation starts with is computed from the value of an argument and proved to
  be enough, so \<open>No_Return\<close> never comes out of an operation on integers.
\<close>

section \<open>Definitions\<close>

definition gcd_rem :: "cl_val \<Rightarrow> cl_val \<Rightarrow> cl_val res" where
  "gcd_rem a b =
     (if fixnum_p a \<and> fixnum_p b then Inr (mkfix (fixnum_val a smod fixnum_val b))
      else bindr (to_limbs a) (\<lambda>(al2, _). bindr (to_limbs b) (\<lambda>(bl2, _).
        if bignum_compare_mag al2 bl2 < 0 then Inr a
        else bindr (bignum_divmod al2 bl2) (\<lambda>(_, rem). bignum_from_limbs (strip_zeros rem) False))))"

fun gcd_loop :: "nat \<Rightarrow> cl_val \<Rightarrow> cl_val \<Rightarrow> cl_val res" where
  "gcd_loop 0 a b = Inl No_Return"
| "gcd_loop (Suc fuel) a b =
     (if integer_zerop b then Inr a
      else bindr (gcd_rem a b) (\<lambda>temp. gcd_loop fuel b temp))"

definition integer_gcd :: "cl_val \<Rightarrow> cl_val \<Rightarrow> cl_val res" where
  "integer_gcd a0 b0 =
     bindr (integer_abs a0) (\<lambda>a. bindr (integer_abs b0) (\<lambda>b.
       if integer_zerop a then Inr b
       else if integer_zerop b then Inr a
       else gcd_loop (Suc (nat (int_val b))) a b))"

fun integer_evenp :: "cl_val \<Rightarrow> bool res" where
  "integer_evenp (Imm w) = (if CL_FIXNUM_P w then Inr (CL_FIXNUM_VAL w AND 1 = 0) else Inl Undefined)"
| "integer_evenp (Bignum bn) =
     (case bn_limbs bn of [] \<Rightarrow> Inl Undefined | l0 # _ \<Rightarrow> Inr (l0 AND 1 = 0))"
| "integer_evenp _ = Inl Undefined"

fun expt_loop :: "nat \<Rightarrow> cl_val \<Rightarrow> cl_val \<Rightarrow> cl_val \<Rightarrow> cl_val res" where
  "expt_loop 0 result base ex = Inl No_Return"
| "expt_loop (Suc fuel) result base ex =
     (if integer_zerop ex then Inr result
      else bindr (integer_evenp ex) (\<lambda>even.
        bindr (if even then Inr result else integer_mul result base) (\<lambda>result'.
        bindr (integer_mul base base) (\<lambda>base'.
        bindr (integer_truncate ex (mkfix 2)) (\<lambda>ex'.
          expt_loop fuel result' base' ex')))))"

definition integer_expt :: "cl_val \<Rightarrow> cl_val \<Rightarrow> cl_val res" where
  "integer_expt base ex =
     bindr (check_integer base ''EXPT'') (\<lambda>_. bindr (check_integer ex ''EXPT'') (\<lambda>_.
     bindr (integer_minusp ex) (\<lambda>exp_neg.
       if exp_neg then
         bindr (integer_compare base (mkfix 1)) (\<lambda>c1.
           if c1 = 0 then Inr (mkfix 1)
           else bindr (integer_compare base (mkfix (-1))) (\<lambda>c2.
             if c2 = 0 then bindr (integer_evenp ex) (\<lambda>even. Inr (if even then mkfix 1 else mkfix (-1)))
             else Inr (mkfix 0)))
       else if integer_zerop ex then Inr (mkfix 1)
       else expt_loop (Suc (nat (int_val ex))) (mkfix 1) base ex)))"

text \<open>Bit counting: \<open>while (v) { bits++; v >>= 1; }\<close> on a top limb is \<open>bit_length32\<close>.\<close>

definition integer_integer_length :: "cl_val \<Rightarrow> int res" where
  "integer_integer_length n =
     (case n of
        Imm w \<Rightarrow>
          if CL_FIXNUM_P w then
            (let val = CL_FIXNUM_VAL w
             in if val = 0 then Inr 0
                else if val < 0 then
                  (if val = -1 then Inr 0 else Inr (int (bit_length32 (word_of_int (- (val + 1))))))
                else Inr (int (bit_length32 (word_of_int val))))
          else Inl Undefined
      | Bignum bn \<Rightarrow>
          (let limbs = bn_limbs bn; len = length limbs
           in if len = 0 then Inr 0
              else
                let t = last limbs;
                    bits = int (len - 1) * 16 + int (bit_length32 (ucast t));
                    top_one_bit = (t AND (t - 1) = 0);
                    all_lower_zero = list_all (\<lambda>x. x = 0) (butlast limbs)
                in Inr (if bn_sign bn \<and> top_one_bit \<and> all_lower_zero then bits - 1 else bits))
      | _ \<Rightarrow> Inl Undefined)"

text \<open>The limb loop of a left shift: \<open>word_shift\<close> zero limbs, then the shifted limbs and the carry.\<close>

definition ash_left :: "u16 list \<Rightarrow> nat \<Rightarrow> nat \<Rightarrow> u16 list" where
  "ash_left nl word_shift bit_shift =
     (if bit_shift = 0 then replicate word_shift 0 @ nl @ [0]
      else let (r, carry) = shift_left_loop bit_shift nl 0
           in replicate word_shift 0 @ r @ [if carry \<noteq> 0 then ucast carry else 0])"

text \<open>The limb loop of a right shift by fewer than 16 bits, from \<open>nl + word_shift\<close> on.\<close>

fun ash_right_loop :: "nat \<Rightarrow> u16 list \<Rightarrow> u16 list" where
  "ash_right_loop bit_shift [] = []"
| "ash_right_loop bit_shift [x] = [ucast (drop_bit bit_shift (ucast x :: u32))]"
| "ash_right_loop bit_shift (x # y # xs) =
     ucast (drop_bit bit_shift (ucast x :: u32) OR (push_bit (16 - bit_shift) (ucast y) AND 0xFFFF))
       # ash_right_loop bit_shift (y # xs)"

definition ash_any_set :: "u16 list \<Rightarrow> nat \<Rightarrow> nat \<Rightarrow> bool" where
  "ash_any_set nl word_shift bit_shift =
     (list_ex (\<lambda>x. x \<noteq> 0) (take word_shift nl)
      \<or> bit_shift > 0 \<and> word_shift < length nl
          \<and> (ucast (nl ! word_shift) :: u32) AND (push_bit bit_shift 1 - 1) \<noteq> 0)"

definition ash_limbs :: "cl_val \<Rightarrow> int \<Rightarrow> cl_val res" where
  "ash_limbs n shift =
     (if shift > 0 then
        bindr (to_limbs n) (\<lambda>(nl, n_sign).
          bignum_from_limbs (strip_zeros (ash_left nl (nat shift div 16) (nat shift mod 16))) n_sign)
      else
        bindr (to_limbs n) (\<lambda>(nl, n_sign).
          let word_shift = nat (- shift) div 16; bit_shift = nat (- shift) mod 16
          in if word_shift \<ge> length nl then Inr (if n_sign then mkfix (-1) else mkfix 0)
             else
               let result = (if bit_shift = 0 then drop word_shift nl
                             else ash_right_loop bit_shift (drop word_shift nl));
                   any_set = (n_sign \<and> ash_any_set nl word_shift bit_shift)
               in bindr (bignum_from_limbs (strip_zeros result) n_sign) (\<lambda>res.
                    if n_sign \<and> any_set then integer_sub res (mkfix 1) else Inr res)))"

definition integer_ash :: "cl_val \<Rightarrow> cl_val \<Rightarrow> cl_val res" where
  "integer_ash n count =
     bindr (check_integer n ''ASH'') (\<lambda>_.
       if \<not> fixnum_p count then
         bindr (integer_minusp count) (\<lambda>count_neg.
           if count_neg then
             (if integer_zerop n then Inr n
              else bindr (integer_minusp n) (\<lambda>neg. Inr (if neg then mkfix (-1) else mkfix 0)))
           else if integer_zerop n then Inr n
           else Inl (Type_Error ''ASH: shift count too large for left shift''))
       else
         let shift = fixnum_val count
         in if shift = 0 then Inr n
            else if fixnum_p n \<and> fixnum_val n = 0 then Inr (mkfix 0)
            else if fixnum_p n \<and> shift < 0 then
              (if - shift \<ge> 31 then Inr (if fixnum_val n < 0 then mkfix (-1) else mkfix 0)
               else Inr (mkfix (drop_bit (nat (- shift)) (fixnum_val n))))
            else if fixnum_p n \<and> shift < 31
                 \<and> CL_FIXNUM_MIN \<le> push_bit (nat shift) (fixnum_val n)
                 \<and> push_bit (nat shift) (fixnum_val n) \<le> CL_FIXNUM_MAX
            then Inr (mkfix (push_bit (nat shift) (fixnum_val n)))
            else ash_limbs n shift)"

text \<open>Integer square root: Newton steps from an upper bound, then a correction loop.\<close>

fun isqrt_newton :: "nat \<Rightarrow> cl_val \<Rightarrow> cl_val \<Rightarrow> cl_val res" where
  "isqrt_newton 0 n x = Inr x"
| "isqrt_newton (Suc iters) n x =
     bindr (integer_truncate n x) (\<lambda>q. bindr (integer_add x q) (\<lambda>s.
     bindr (integer_truncate s (mkfix 2)) (\<lambda>x1. bindr (integer_compare x1 x) (\<lambda>c.
       if c \<ge> 0 then Inr x else isqrt_newton iters n x1))))"

fun isqrt_correct :: "nat \<Rightarrow> cl_val \<Rightarrow> cl_val \<Rightarrow> cl_val res" where
  "isqrt_correct 0 n x = Inl No_Return"
| "isqrt_correct (Suc fuel) n x =
     bindr (integer_mul x x) (\<lambda>x1. bindr (integer_compare x1 n) (\<lambda>c.
       if c \<le> 0 then Inr x
       else bindr (integer_sub x (mkfix 1)) (\<lambda>x'. isqrt_correct fuel n x')))"

definition integer_isqrt :: "cl_val \<Rightarrow> cl_val res" where
  "integer_isqrt n =
     bindr (check_integer n ''ISQRT'') (\<lambda>_. bindr (integer_minusp n) (\<lambda>neg.
       if neg then Inl (Type_Error ''ISQRT: argument must be non-negative'')
       else if integer_zerop n then Inr (mkfix 0)
       else bindr (integer_integer_length n) (\<lambda>bl.
         bindr (integer_ash (mkfix 1) (mkfix ((bl + 1) div 2))) (\<lambda>x0.
         bindr (isqrt_newton 1000 n x0) (\<lambda>x.
           isqrt_correct (Suc (nat (int_val x))) n x)))))"

section \<open>Lemmas\<close>

declare integer_zerop.simps [simp del]

lemma gcd_rem_correct:
  assumes "wf_int a" "wf_int b" "0 \<le> int_val a" "0 < int_val b"
  shows "gcd_rem a b = int_obj (int_val a mod int_val b)"
proof (cases "fixnum_p a \<and> fixnum_p b")
  case True
  note f = fixnum_p_val [of a] fixnum_p_val [of b]
  have "int_val a mod int_val b < int_val b" "0 \<le> int_val a mod int_val b" using assms(4) by simp_all
  then have "in_fixnum_range (int_val a mod int_val b)" using f True unfolding in_range_bounds by linarith
  then show ?thesis using True f assms(3,4) by (simp add: gcd_rem_def int_obj_def smod_mod_positive)
next
  case False
  obtain la where la: "to_limbs a = Inr (la, int_val a < 0)" "norm_limbs la" "int (lval la) = \<bar>int_val a\<bar>"
    using to_limbs_correct [OF assms(1)] by blast
  obtain lb where lb: "to_limbs b = Inr (lb, int_val b < 0)" "norm_limbs lb" "int (lval lb) = \<bar>int_val b\<bar>"
    using to_limbs_correct [OF assms(2)] by blast
  have unf: "gcd_rem a b = (if bignum_compare_mag la lb < 0 then Inr a
      else bindr (bignum_divmod la lb) (\<lambda>(_, rem). bignum_from_limbs (strip_zeros rem) False))"
    using False by (auto simp: gcd_rem_def la(1) lb(1))
  have nz: "lval lb \<noteq> 0" using lb(3) assms(4) by auto
  show ?thesis
  proof (cases "bignum_compare_mag la lb < 0")
    case True
    then have "int_val a < int_val b"
      using compare_mag_sgn [OF la(2) lb(2)] la(3) lb(3) assms(3,4) by (simp add: sgn_if split: if_splits)
    then show ?thesis using True int_obj_of_wf [OF assms(1)] assms(3) unfolding unf by simp
  next
    case ge: False
    from divmod_limbs [OF la(2) lb(2) nz ge] obtain q r where
      r: "bignum_divmod la lb = Inr (q, r)" "r \<noteq> []" "lval r = lval la mod lval lb" by blast
    have "int (lval r) = int_val a mod int_val b" using r(3) la(3) lb(3) assms(3,4) by (simp add: zmod_int)
    then show ?thesis using from_limbs_correct [of "strip_zeros r" False] r ge unfolding unf by simp
  qed
qed

lemma gcd_loop_correct:
  "wf_int a \<Longrightarrow> wf_int b \<Longrightarrow> 0 \<le> int_val a \<Longrightarrow> 0 \<le> int_val b \<Longrightarrow> nat (int_val b) < fuel \<Longrightarrow>
    gcd_loop fuel a b = int_obj (gcd (int_val a) (int_val b))"
proof (induction fuel arbitrary: a b)
  case (Suc fuel)
  show ?case
  proof (cases "int_val b = 0")
    case True
    then show ?thesis using Suc.prems integer_sign_tests(1) [of b] int_obj_of_wf [of a] by simp
  next
    case False
    then have b: "0 < int_val b" using Suc.prems(4) by simp
    have m: "int_val a mod int_val b < int_val b" "0 \<le> int_val a mod int_val b" using b by simp_all
    then have "\<bar>int_val a mod int_val b\<bar> \<le> \<bar>int_val b\<bar>" by simp
    from int_obj_smaller [OF Suc.prems(2) this] obtain r where
      r: "int_obj (int_val a mod int_val b) = Inr r" "wf_int r" "int_val r = int_val a mod int_val b" by blast
    have "gcd_loop (Suc fuel) a b = gcd_loop fuel b r"
      using False Suc.prems gcd_rem_correct [OF Suc.prems(1,2,3) b] r(1) integer_sign_tests(1) [of b] by simp
    also have "\<dots> = int_obj (gcd (int_val b) (int_val r))"
    proof (intro Suc.IH)
      have "nat (int_val r) < nat (int_val b)" using r(3) m b by simp
      then show "nat (int_val r) < fuel" using Suc.prems(5) by linarith
    qed (use Suc.prems r m in simp_all)
    also have "gcd (int_val b) (int_val r) = gcd (int_val a) (int_val b)"
      using r(3) by (simp add: gcd_red_int [symmetric] gcd.commute)
    finally show ?thesis .
  qed
qed simp

lemma wf_abs:
  assumes "wf_int a" "copyable (int_val a)"
  shows "\<exists>r. integer_abs a = Inr r \<and> wf_int r \<and> int_val r = \<bar>int_val a\<bar>"
  using int_obj_smaller [OF assms(1), of "\<bar>int_val a\<bar>"] integer_abs_correct [OF assms] by simp

lemma wf_negate:
  assumes "wf_int a" "copyable (int_val a)"
  shows "\<exists>r. integer_negate a = Inr r \<and> wf_int r \<and> int_val r = - int_val a"
  using int_obj_smaller [OF assms(1), of "- int_val a"] integer_negate_correct [OF assms] by simp

lemma integer_gcd_correct:
  assumes "wf_int a" "wf_int b" "copyable (int_val a)" "copyable (int_val b)"
  shows "integer_gcd a b = int_obj (gcd (int_val a) (int_val b))"
proof -
  obtain x where x: "integer_abs a = Inr x" "wf_int x" "int_val x = \<bar>int_val a\<bar>"
    using wf_abs [OF assms(1,3)] by blast
  obtain y where y: "integer_abs b = Inr y" "wf_int y" "int_val y = \<bar>int_val b\<bar>"
    using wf_abs [OF assms(2,4)] by blast
  have "integer_gcd a b = (if int_val x = 0 then Inr y else if int_val y = 0 then Inr x
      else gcd_loop (Suc (nat (int_val y))) x y)"
    using x(1) y(1) integer_sign_tests(1) [OF x(2)] integer_sign_tests(1) [OF y(2)]
    by (simp add: integer_gcd_def del: gcd_loop.simps)
  also have "\<dots> = int_obj (gcd (int_val x) (int_val y))"
    using gcd_loop_correct [OF x(2) y(2)] x(3) y(3) int_obj_of_wf [OF x(2)] int_obj_of_wf [OF y(2)]
    by (simp del: gcd_loop.simps)
  finally show ?thesis using x(3) y(3) by simp
qed

lemma integer_evenp_correct: "wf_int v \<Longrightarrow> integer_evenp v = Inr (even (int_val v))"
proof (cases v)
  case (Imm w)
  then show "wf_int v \<Longrightarrow> ?thesis" by (simp add: and_one_eq even_iff_mod_2_eq_zero)
next
  case (Bignum bn)
  assume "wf_int v"
  then obtain l0 ls where l: "bn_limbs bn = l0 # ls" using Bignum by (cases "bn_limbs bn") (auto simp: norm_limbs_def)
  have "l0 AND 1 = 0 \<longleftrightarrow> even (unat l0)"
    by (simp add: and_one_eq word_unat_eq_iff unat_mod_distrib even_iff_mod_2_eq_zero)
  moreover have "even (uint l0) = even (unat l0)"
    using even_of_nat_iff [of "unat l0", where ?'a = int] by simp
  ultimately show ?thesis using l Bignum by simp
qed simp_all

lemma fits_mono: "fits z \<Longrightarrow> \<bar>y\<bar> \<le> \<bar>z\<bar> \<Longrightarrow> fits y"
  by (simp add: fits_def)

lemma fits_0 [simp]: "fits 0"
  by (simp add: fits_def)

lemma fixnum_two: "int_val (mkfix 2) = 2" "int_val (mkfix 1) = 1" "int_val (mkfix (-1)) = -1"
  "int_val (mkfix 0) = 0"
  by (simp_all add: fixnum_val_make_wraps)

lemma wf_mkfix [simp]: "wf_int (mkfix z)"
  by simp

lemma half_correct:
  assumes "wf_int e" "0 \<le> int_val e"
  shows "\<exists>r. integer_truncate e (mkfix 2) = Inr r \<and> wf_int r \<and> int_val r = int_val e div 2"
proof -
  have "int_val e sdiv 2 = int_val e div 2" using assms(2) by (simp add: signed_divide_int_def sgn_if)
  moreover have "\<bar>int_val e div 2\<bar> \<le> \<bar>int_val e\<bar>" using assms(2) by simp
  ultimately show ?thesis
    using integer_truncate_correct [OF assms(1) wf_mkfix [of 2]] int_obj_smaller [OF assms(1)]
    by (simp only: fixnum_two) simp
qed

lemma halving_bound: "(n :: nat) mod 2 + 4 * (n div 2) \<le> 2 * n"
  by presburger

lemma square_halving: "(b :: int) ^ (n mod 2) * (b\<^sup>2) ^ (n div 2) = b ^ n"
proof -
  have "b ^ (n mod 2) * (b\<^sup>2) ^ (n div 2) = b ^ (n mod 2 + 2 * (n div 2))"
    by (simp only: power_add power_mult)
  then show ?thesis by simp
qed

lemma expt_loop_sound:
  "wf_int r \<Longrightarrow> wf_int b \<Longrightarrow> wf_int e \<Longrightarrow> 0 \<le> int_val e \<Longrightarrow> nat (int_val e) < fuel \<Longrightarrow>
    (case expt_loop fuel r b e of
       Inr x \<Rightarrow> wf_int x \<and> int_val x = int_val r * int_val b ^ nat (int_val e)
     | Inl err \<Rightarrow> err = Storage_Error)"
proof (induction fuel arbitrary: r b e)
  case (Suc fuel)
  show ?case
  proof (cases "int_val e = 0")
    case True
    then show ?thesis using Suc.prems integer_sign_tests(1) [of e] by simp
  next
    case False
    obtain h where h: "integer_truncate e (mkfix 2) = Inr h" "wf_int h" "int_val h = int_val e div 2"
      using half_correct [OF Suc.prems(3,4)] by blast
    let ?r' = "if even (int_val e) then Inr r else integer_mul r b"
    have run: "expt_loop (Suc fuel) r b e = bindr ?r' (\<lambda>r'. bindr (integer_mul b b) (\<lambda>b'. expt_loop fuel r' b' h))"
      using False Suc.prems(3) integer_sign_tests(1) [of e] integer_evenp_correct [of e] h(1)
      by simp
    have "?r' = Inl err \<Longrightarrow> err = Storage_Error" for err
      using imul.op_error [OF Suc.prems(1,2)] by (auto split: if_splits)
    moreover have "integer_mul b b = Inl err \<Longrightarrow> err = Storage_Error" for err
      using imul.op_error [OF Suc.prems(2,2)] by auto
    moreover have "case expt_loop (Suc fuel) r b e of
        Inr x \<Rightarrow> wf_int x \<and> int_val x = int_val r * int_val b ^ nat (int_val e)
      | Inl err \<Rightarrow> err = Storage_Error" if r': "?r' = Inr r'" and b': "integer_mul b b = Inr b'" for r' b'
    proof -
      have rr: "wf_int r'" "int_val r' = int_val r * int_val b ^ (nat (int_val e) mod 2)"
        using r' imul.op_result [OF Suc.prems(1,2)] Suc.prems(1,4)
        by (auto simp: even_nat_iff split: if_splits) (auto simp: mod2_eq_if even_nat_iff)
      have bb: "wf_int b'" "int_val b' = (int_val b)\<^sup>2"
        using b' imul.op_result [OF Suc.prems(2,2)] by (auto simp: power2_eq_square)
      have "nat (int_val h) < fuel" using h(3) Suc.prems(4,5) False by simp
      note IH = Suc.IH [OF rr(1) bb(1) h(2) _ this]
      have "nat (int_val h) = nat (int_val e) div 2" using h(3) Suc.prems(4) by (simp add: nat_div_distrib)
      then have eq: "int_val r' * int_val b' ^ nat (int_val h) = int_val r * int_val b ^ nat (int_val e)"
        unfolding rr(2) bb(2) mult.assoc by (simp only: square_halving)
      have "0 \<le> int_val h" using h(3) Suc.prems(4) by simp
      from IH [OF this] show ?thesis unfolding eq run r' b' by simp
    qed
    ultimately show ?thesis unfolding run by (cases ?r'; cases "integer_mul b b") (auto simp del: expt_loop.simps)
  qed
qed simp


lemma power_le_mono_abs:
  fixes b :: int
  assumes "b \<noteq> 0" "m \<le> n"
  shows "\<bar>b\<bar> ^ m \<le> \<bar>b\<bar> ^ n"
  using assms by (intro power_increasing) simp_all

lemma expt_loop_total:
  "wf_int r \<Longrightarrow> wf_int b \<Longrightarrow> wf_int e \<Longrightarrow> 0 \<le> int_val e \<Longrightarrow> nat (int_val e) < fuel \<Longrightarrow>
    int_val b = 0 \<or> int_val r \<noteq> 0 \<and> fits (int_val r * int_val b ^ (2 * nat (int_val e))) \<Longrightarrow>
    \<exists>x. expt_loop fuel r b e = Inr x"
proof (induction fuel arbitrary: r b e)
  case (Suc fuel)
  let ?R = "int_val r" and ?B = "int_val b" and ?E = "nat (int_val e)"
  show ?case
  proof (cases "int_val e = 0")
    case True
    then show ?thesis using Suc.prems integer_sign_tests(1) [of e] by simp
  next
    case False
    then have E: "1 \<le> ?E" using Suc.prems(4) by simp
    obtain h where h: "integer_truncate e (mkfix 2) = Inr h" "wf_int h" "int_val h = int_val e div 2"
      using half_correct [OF Suc.prems(3,4)] by blast
    have nh: "nat (int_val h) = ?E div 2" using h(3) Suc.prems(4) by (simp add: nat_div_distrib)
    have fit: "fits y" if "\<bar>y\<bar> \<le> \<bar>?R\<bar> * \<bar>?B\<bar> ^ (2 * ?E)" "?B \<noteq> 0" for y
      using Suc.prems(6) that by (auto intro: fits_mono simp: abs_mult power_abs)
    have "fits (?R * ?B)"
    proof (cases "?B = 0")
      case nz: False
      have "\<bar>?R\<bar> * \<bar>?B\<bar> ^ 1 \<le> \<bar>?R\<bar> * \<bar>?B\<bar> ^ (2 * ?E)"
        using E nz by (intro mult_left_mono power_le_mono_abs) simp_all
      then show ?thesis using nz by (intro fit) (simp_all add: abs_mult)
    qed simp
    then obtain r' where r': "(if even (int_val e) then Inr r else integer_mul r b) = Inr r'" "wf_int r'"
      "int_val r' = ?R * ?B ^ (?E mod 2)"
      using imul.op_total [OF Suc.prems(1,2)] Suc.prems(1,4)
      by (cases "even (int_val e)") (auto simp: mod2_eq_if even_nat_iff)
    have "fits (?B * ?B)"
    proof (cases "?B = 0")
      case nz: False
      then have "1 \<le> \<bar>?R\<bar>" using Suc.prems(6) by linarith
      then have "1 * \<bar>?B\<bar> ^ 2 \<le> \<bar>?R\<bar> * \<bar>?B\<bar> ^ (2 * ?E)"
        using E nz by (intro mult_mono power_le_mono_abs) simp_all
      then show ?thesis using nz by (intro fit) (simp_all add: abs_mult power2_eq_square)
    qed simp
    then obtain b' where b': "integer_mul b b = Inr b'" "wf_int b'" "int_val b' = ?B\<^sup>2"
      using imul.op_total [OF Suc.prems(2,2)] by (auto simp: power2_eq_square)
    have "expt_loop (Suc fuel) r b e = expt_loop fuel r' b' h"
      using False Suc.prems(3) integer_sign_tests(1) [of e] integer_evenp_correct [of e] h(1) r'(1) b'(1)
      by simp
    moreover have "\<exists>x. expt_loop fuel r' b' h = Inr x"
    proof (rule Suc.IH [OF r'(2) b'(2) h(2)])
      show "0 \<le> int_val h" "nat (int_val h) < fuel" using h(3) Suc.prems(4,5) False by simp_all
      show "int_val b' = 0 \<or> int_val r' \<noteq> 0 \<and> fits (int_val r' * int_val b' ^ (2 * nat (int_val h)))"
      proof (cases "?B = 0")
        case nz: False
        have "\<bar>int_val r' * int_val b' ^ (2 * nat (int_val h))\<bar>
            = \<bar>?R\<bar> * \<bar>?B\<bar> ^ (?E mod 2 + 4 * (?E div 2))"
          unfolding r'(3) b'(3) nh
          by (simp add: abs_mult power_abs power_add power_mult [symmetric] mult.assoc)
        also have "\<dots> \<le> \<bar>?R\<bar> * \<bar>?B\<bar> ^ (2 * ?E)"
        proof (intro mult_left_mono power_le_mono_abs [OF nz])
          show "?E mod 2 + 4 * (?E div 2) \<le> 2 * ?E" by (rule halving_bound)
        qed simp
        finally show ?thesis using nz Suc.prems(6) r'(3) by (auto intro: fit)
      qed (simp add: b'(3))
    qed
    ultimately show ?thesis by simp
  qed
qed simp


lemma integer_expt_correct:
  assumes "wf_int b" "wf_int e" "0 \<le> int_val e"
  shows "(\<forall>r. integer_expt b e = Inr r \<longrightarrow> int_obj (int_val b ^ nat (int_val e)) = Inr r)
    \<and> (\<forall>err. integer_expt b e = Inl err \<longrightarrow> err = Storage_Error)
    \<and> (fits (int_val b ^ (2 * nat (int_val e))) \<longrightarrow> integer_expt b e = int_obj (int_val b ^ nat (int_val e)))"
proof (cases "int_val e = 0")
  case True
  then have "integer_expt b e = Inr (mkfix 1)"
    using assms integer_sign_tests [OF assms(2)] by (simp add: integer_expt_def)
  moreover have "int_obj 1 = Inr (mkfix 1)" by (simp add: int_obj_def in_range_bounds)
  ultimately show ?thesis using True by simp
next
  case False
  let ?f = "Suc (nat (int_val e))"
  have run: "integer_expt b e = expt_loop ?f (mkfix 1) b e"
    using assms False integer_sign_tests [OF assms(2)] by (simp add: integer_expt_def del: expt_loop.simps)
  have "case expt_loop ?f (mkfix 1) b e of
       Inr x \<Rightarrow> wf_int x \<and> int_val x = int_val b ^ nat (int_val e) | Inl err \<Rightarrow> err = Storage_Error"
    using expt_loop_sound [OF wf_mkfix [of 1] assms lessI] unfolding fixnum_two mult_1 .
  then have sound: "integer_expt b e = Inr r \<Longrightarrow> int_obj (int_val b ^ nat (int_val e)) = Inr r"
    "integer_expt b e = Inl err \<Longrightarrow> err = Storage_Error" for r err
    unfolding run using int_obj_of_wf [of r] by (auto simp del: expt_loop.simps)
  have "\<exists>x. expt_loop ?f (mkfix 1) b e = Inr x" if "fits (int_val b ^ (2 * nat (int_val e)))"
    by (rule expt_loop_total [OF wf_mkfix assms]) (use that in \<open>simp_all only: fixnum_two, simp_all\<close>)
  then show ?thesis using sound run by metis
qed

lemma integer_expt_negative:
  assumes "wf_int b" "wf_int e" "int_val e < 0"
  shows "integer_expt b e = Inr (mkfix (if int_val b = 1 then 1
    else if int_val b = -1 then (if even (int_val e) then 1 else -1) else 0))"
  using assms integer_sign_tests [OF assms(2)] integer_compare_correct [OF assms(1) wf_mkfix [of 1]]
    integer_compare_correct [OF assms(1) wf_mkfix [of "-1"]] integer_evenp_correct [OF assms(2)]
  by (simp only: fixnum_two) (simp add: integer_expt_def sgn_0_0)

lemma isqrt_exists: "0 \<le> n \<Longrightarrow> \<exists>s :: int. 0 \<le> s \<and> s * s \<le> n \<and> n < (s + 1) * (s + 1)"
proof (induction rule: int_ge_induct)
  case (step n)
  then obtain s where s: "0 \<le> s" "s * s \<le> n" "n < (s + 1) * (s + 1)" by blast
  show ?case
  proof (cases "n + 1 < (s + 1) * (s + 1)")
    case True
    then show ?thesis using s by (intro exI [of _ s]) simp
  next
    case False
    then have "n + 1 = (s + 1) * (s + 1)" using s(3) by linarith
    then show ?thesis using s(1) by (intro exI [of _ "s + 1"]) (simp add: algebra_simps)
  qed
qed (intro exI [of _ 0], simp)

lemma newton_step_lower:
  fixes s n x :: int
  assumes "s * s \<le> n" "0 < x"
  shows "s \<le> (x + n div x) div 2"
proof -
  have "0 \<le> (x - s) * (x - s)" by simp
  then have "(2 * s - x) * x \<le> s * s" by (simp add: algebra_simps)
  then have "(2 * s - x) * x \<le> n" using assms(1) by simp
  then have "(2 * s - x) * x div x \<le> n div x" using assms(2) by (rule zdiv_mono1)
  then have "2 * s - x \<le> n div x" using assms(2) by simp
  then show ?thesis by linarith
qed


lemma isqrt_newton_correct:
  "wf_int n \<Longrightarrow> wf_int x \<Longrightarrow> 0 < int_val x \<Longrightarrow> 0 \<le> s \<Longrightarrow> 0 < int_val n \<Longrightarrow> s * s \<le> int_val n \<Longrightarrow>
    s \<le> int_val x \<Longrightarrow> fits (4 * int_val n) \<Longrightarrow> fits (4 * int_val x) \<Longrightarrow>
    \<exists>y. isqrt_newton k n x = Inr y \<and> wf_int y \<and> s \<le> int_val y \<and> int_val y \<le> int_val x"
proof (induction k arbitrary: x)
  case (Suc k)
  let ?n = "int_val n" and ?x = "int_val x"
  let ?q = "?n div ?x"
  have q: "0 \<le> ?q" "?q \<le> ?n" using Suc.prems(3,5) zdiv_mono2 [of ?n 1 ?x]
    by (simp_all add: pos_imp_zdiv_nonneg_iff)
  obtain a where a: "integer_truncate n x = Inr a" "wf_int a" "int_val a = ?q"
  proof -
    have "?n sdiv ?x = ?q" using Suc.prems(3,5) by (simp add: signed_divide_int_def sgn_if)
    then have "integer_truncate n x = int_obj ?q"
      using integer_truncate_correct [OF Suc.prems(1,2)] Suc.prems(3,5) by (simp add: CL_FIXNUM_MIN_def)
    moreover have "\<bar>?q\<bar> \<le> \<bar>?n\<bar>" using q by simp
    ultimately show thesis using int_obj_smaller [OF Suc.prems(1)] that by metis
  qed
  have "fits (?x + ?q)" using Suc.prems(3,5,8,9) q unfolding fits_def by linarith
  then obtain t where t: "integer_add x a = Inr t" "wf_int t" "int_val t = ?x + ?q"
    using iadd.op_total [OF Suc.prems(2) a(2)] a(3) by auto
  obtain x1 where x1: "integer_truncate t (mkfix 2) = Inr x1" "wf_int x1" "int_val x1 = (?x + ?q) div 2"
    using half_correct [OF t(2)] t(3) q Suc.prems(3) by auto
  have cmp: "integer_compare x1 x = Inr (sgn (int_val x1 - ?x))"
    using integer_compare_correct [OF x1(2) Suc.prems(2)] .
  have run: "isqrt_newton (Suc k) n x = (if int_val x1 \<ge> ?x then Inr x else isqrt_newton k n x1)"
    using a(1) t(1) x1(1) cmp by (simp add: sgn_if)
  show ?case
  proof (cases "int_val x1 \<ge> ?x")
    case True
    then show ?thesis using run Suc.prems by simp
  next
    case False
    have lo: "s \<le> int_val x1" unfolding x1(3) using Suc.prems(3,6) by (intro newton_step_lower)
    have "0 < int_val x1"
    proof (cases "s = 0")
      case True
      have "?q = ?n" if "?x = 1" using that by simp
      then have "2 \<le> ?x + ?q" using Suc.prems(3,5) q by linarith
      then show ?thesis using x1(3) by linarith
    next
      case False
      then show ?thesis using lo Suc.prems(4) by linarith
    qed
    moreover have "fits (4 * int_val x1)" using Suc.prems(9) False \<open>0 < int_val x1\<close> by (auto intro: fits_mono)
    ultimately obtain y where "isqrt_newton k n x1 = Inr y" "wf_int y" "s \<le> int_val y" "int_val y \<le> int_val x1"
      using Suc.IH [OF Suc.prems(1) x1(2) _ Suc.prems(4,5,6) lo Suc.prems(8)] by blast
    then show ?thesis using run False by auto
  qed
qed simp

lemma isqrt_correct_correct:
  "wf_int n \<Longrightarrow> wf_int x \<Longrightarrow> 0 \<le> s \<Longrightarrow> s * s \<le> int_val n \<Longrightarrow> int_val n < (s + 1) * (s + 1) \<Longrightarrow>
    s \<le> int_val x \<Longrightarrow> fits (int_val x * int_val x) \<Longrightarrow> nat (int_val x) < fuel \<Longrightarrow>
    isqrt_correct fuel n x = int_obj s"
proof (induction fuel arbitrary: x)
  case (Suc fuel)
  let ?x = "int_val x"
  obtain p where p: "integer_mul x x = Inr p" "wf_int p" "int_val p = ?x * ?x"
    using imul.op_total [OF Suc.prems(2,2)] Suc.prems(7) by auto
  have cmp: "integer_compare p n = Inr (sgn (?x * ?x - int_val n))"
    using integer_compare_correct [OF p(2) Suc.prems(1)] p(3) by simp
  show ?case
  proof (cases "?x * ?x \<le> int_val n")
    case True
    then have "?x * ?x < (s + 1) * (s + 1)" using Suc.prems(5) by linarith
    then have "?x < s + 1" using Suc.prems(3) by (metis mult_mono' not_le add_nonneg_nonneg zero_le_one less_le_not_le)
    then have "?x = s" using Suc.prems(6) by simp
    then show ?thesis using p(1) cmp True int_obj_of_wf [OF Suc.prems(2)] by (simp add: sgn_if)
  next
    case False
    then have "?x \<noteq> s" using Suc.prems(4) by auto
    then have lt: "s \<le> ?x - 1" "0 \<le> ?x - 1" using Suc.prems(3,6) by linarith+
    have io: "integer_sub x (mkfix 1) = int_obj (?x - 1)"
      using integer_sub_correct [OF Suc.prems(2) wf_mkfix [of 1]] by (simp only: fixnum_two)
    obtain y where y: "int_obj (?x - 1) = Inr y" "wf_int y" "int_val y = ?x - 1"
      using int_obj_smaller [OF Suc.prems(2), of "?x - 1"] lt by auto
    have "int_val y * int_val y \<le> ?x * ?x" using y(3) lt by (intro mult_mono) simp_all
    then have "fits (int_val y * int_val y)" using Suc.prems(7) by (rule_tac fits_mono [of "?x * ?x"]) (simp_all add: abs_mult)
    then have "isqrt_correct fuel n y = int_obj s"
      using Suc.IH [OF Suc.prems(1) y(2) Suc.prems(3,4,5)] y(3) lt Suc.prems(8) by simp
    then show ?thesis using p(1) cmp False io y(1) by (simp add: sgn_if)
  qed
qed simp


lemma bit_top_nat: "2 ^ j \<le> n \<Longrightarrow> n < 2 ^ Suc j \<Longrightarrow> bit (n :: nat) j"
proof -
  assume "2 ^ j \<le> n" "n < 2 ^ Suc j"
  then have "n div 2 ^ j = 1" by (intro div_nat_eqI) simp_all
  then show ?thesis by (simp add: bit_iff_odd)
qed

lemma power_of_two_test:
  fixes t :: u16
  assumes "2 ^ j \<le> unat t" "unat t < 2 ^ Suc j" "j < 16"
  shows "t AND (t - 1) = 0 \<longleftrightarrow> unat t = 2 ^ j"
proof
  assume z: "t AND (t - 1) = 0"
  show "unat t = 2 ^ j"
  proof (rule ccontr)
    assume "unat t \<noteq> 2 ^ j"
    moreover have "t \<noteq> 0" using assms(1) by auto
    ultimately have "2 ^ j \<le> unat (t - 1)" "unat (t - 1) < 2 ^ Suc j"
      using assms(1,2) by (simp_all add: unat_minus_one)
    then have "bit (t - 1) j" "bit t j"
      using bit_top_nat [OF assms(1,2)] bit_top_nat [of j "unat (t - 1)"] assms(3)
      by (simp_all add: bit_unsigned_iff)
    then have "bit (t AND (t - 1)) j" by (simp add: bit_and_iff)
    then show False using z by simp
  qed
next
  assume "unat t = 2 ^ j"
  then have "(of_nat (unat t) :: u16) = of_nat (2 ^ j)" by (rule arg_cong)
  then have "t = 2 ^ j" by simp
  then show "t AND (t - 1) = 0"
    by (intro bit_eqI) (auto simp: bit_simps mask_eq_exp_minus_1 [symmetric])
qed

definition int_length_spec :: "int \<Rightarrow> nat \<Rightarrow> bool" where
  "int_length_spec z k \<longleftrightarrow> - (2 ^ k) \<le> z \<and> z < 2 ^ k \<and> (\<forall>j < k. \<not> (- (2 ^ j) \<le> z \<and> z < 2 ^ j))"

lemma int_length_specI:
  assumes "- (2 ^ k) \<le> z" "z < 2 ^ k" "0 < k \<Longrightarrow> z < - (2 ^ (k - 1)) \<or> 2 ^ (k - 1) \<le> z"
  shows "int_length_spec z k"
proof -
  have "\<not> (- (2 ^ j) \<le> z \<and> z < 2 ^ j)" if "j < k" for j
  proof -
    have "(2 :: int) ^ j \<le> 2 ^ (k - 1)" using that by (intro power_increasing) simp_all
    then show ?thesis using assms(3) that by linarith
  qed
  then show ?thesis using assms(1,2) by (simp add: int_length_spec_def)
qed

lemma bit_length32_int:
  assumes "0 < v" "v < 4294967296"
  shows "v < 2 ^ bit_length32 (word_of_int v)" "2 ^ (bit_length32 (word_of_int v) - 1) \<le> v"
    "0 < bit_length32 (word_of_int v)"
proof -
  let ?w = "word_of_int v :: u32"
  have u: "int (unat ?w) = v" using assms by (simp add: uint_word_of_int)
  then have w0: "?w \<noteq> 0" using assms(1) by auto
  note b = bit_length32_bounds [of ?w]
  show k: "0 < bit_length32 ?w" using w0 by (subst bit_length32_rec) simp
  have "int (unat ?w) < int (2 ^ bit_length32 ?w)" using b by (simp only: of_nat_less_iff)
  then show "v < 2 ^ bit_length32 ?w" unfolding u by simp
  have "(2::nat) ^ bit_length32 ?w = 2 * 2 ^ (bit_length32 ?w - 1)" using k by (cases "bit_length32 ?w") simp_all
  then have "2 ^ (bit_length32 ?w - 1) \<le> unat ?w" using b w0 by simp
  then have "int (2 ^ (bit_length32 ?w - 1)) \<le> int (unat ?w)" by (simp only: of_nat_le_iff)
  then show "2 ^ (bit_length32 ?w - 1) \<le> v" unfolding u by simp
qed

lemma integer_length_fixnum:
  assumes "CL_FIXNUM_P w"
  shows "\<exists>k. integer_integer_length (Imm w) = Inr (int k) \<and> int_length_spec (CL_FIXNUM_VAL w) k"
proof -
  let ?v = "CL_FIXNUM_VAL w"
  have r: "- 1073741824 \<le> ?v" "?v \<le> 1073741823" using in_range_wf [of w] by (simp_all add: in_range_bounds)
  consider "?v = 0" | "?v = -1" | (pos) "0 < ?v" | (neg) "?v < -1" by linarith
  then show ?thesis
  proof cases
    case pos
    let ?k = "bit_length32 (word_of_int ?v)"
    have "?v < 4294967296" using r by linarith
    note b = bit_length32_int [OF pos this]
    have "int_length_spec ?v ?k" by (rule int_length_specI) (use b pos in auto)
    then show ?thesis using assms pos by (auto simp: integer_integer_length_def)
  next
    case neg
    let ?u = "- (?v + 1)"
    let ?k = "bit_length32 (word_of_int ?u)"
    have "0 < ?u" "?u < 4294967296" using r neg by linarith+
    note b = bit_length32_int [OF this]
    have "int_length_spec ?v ?k" by (rule int_length_specI) (use b neg in linarith)+
    moreover have "integer_integer_length (Imm w) = Inr (int ?k)"
      unfolding integer_integer_length_def Let_def using assms neg by simp
    ultimately show ?thesis by blast
  qed (use assms in \<open>auto simp: integer_integer_length_def intro!: exI [of _ 0] int_length_specI\<close>)
qed


lemma sum_eq_top:
  fixes a P x y :: nat
  assumes "y \<le> x" "0 < P"
  shows "a + P * x = P * y \<longleftrightarrow> a = 0 \<and> x = y"
proof
  assume e: "a + P * x = P * y"
  have "P * y \<le> P * x" using assms(1) by simp
  then have "a = 0" "P * x = P * y" using e by linarith+
  then show "a = 0 \<and> x = y" using assms(2) by simp
qed simp

lemma integer_length_bignum:
  assumes "wf_int (Bignum bn)"
  shows "\<exists>k. integer_integer_length (Bignum bn) = Inr (int k) \<and> int_length_spec (int_val (Bignum bn)) k"
proof -
  let ?l = "bn_limbs bn" and ?m = "lval (bn_limbs bn)"
  have n: "norm_limbs ?l" "?m \<noteq> 0" "?l \<noteq> []"
    using assms by (auto simp: in_range_bounds norm_limbs_def split: if_splits)
  define t where "t = last ?l"
  define j where "j = bit_length32 (ucast t) - 1"
  let ?P = "65536 ^ (length ?l - 1) :: nat"
  have P: "?P = 2 ^ ((length ?l - 1) * 16)"
    using power_mult [of "2::nat" 16 "length ?l - 1"] by (simp add: mult.commute)
  have t0: "t \<noteq> 0"
  proof (cases "1 < length ?l")
    case False
    then have "length ?l = 1" using n(3) by (cases ?l) auto
    then show ?thesis using n(2) by (auto simp: length_Suc_conv t_def)
  qed (use n in \<open>simp add: norm_limbs_def t_def\<close>)
  have u0: "(ucast t :: u32) \<noteq> 0" using t0 unat_ucast16_32 [of t] by (metis unat_eq_zero)
  have bl: "bit_length32 (ucast t) = Suc j" using u0 by (simp add: j_def bit_length32_rec)
  have tj: "2 ^ j \<le> unat t" "unat t < 2 ^ Suc j" using bit_length32_bounds [of "ucast t"] u0 bl by simp_all
  have "(2 :: nat) ^ j < 2 ^ 16" using tj(1) unat_lt16 [of t] by simp
  then have j16: "j < 16" by (simp only: power_strict_increasing_iff)
  let ?b = "(length ?l - 1) * 16 + j"
  note lv = lval_last [OF n(3), folded t_def]
  have lo: "2 ^ ?b \<le> ?m"
  proof -
    have "?P * 2 ^ j \<le> ?P * unat t" using tj(1) by (rule mult_le_mono2)
    then have "?P * 2 ^ j \<le> lval (butlast ?l) + ?P * unat t" by (rule trans_le_add2)
    then show ?thesis unfolding lv(1) power_add by (simp only: P)
  qed
  have hi: "?m < 2 ^ Suc ?b"
  proof -
    have "?m < ?P * (unat t + 1)" using lv by simp
    also have "\<dots> \<le> ?P * 2 ^ Suc j" using tj(2) by (intro mult_le_mono2) simp
    also have "\<dots> = 2 ^ Suc ?b" by (simp only: P power_add power_Suc ac_simps)
    finally show ?thesis .
  qed
  have z: "list_all (\<lambda>x. x = 0) (butlast ?l) \<longleftrightarrow> lval (butlast ?l) = 0"
    by (simp add: list_all_iff lval_eq_0_iff)
  have pow: "t AND (t - 1) = 0 \<and> list_all (\<lambda>x. x = 0) (butlast ?l) \<longleftrightarrow> ?m = 2 ^ ?b"
  proof -
    have "t AND (t - 1) = 0 \<longleftrightarrow> unat t = 2 ^ j" using tj j16 by (rule power_of_two_test)
    moreover have "?m = 2 ^ ?b \<longleftrightarrow> lval (butlast ?l) + ?P * unat t = ?P * 2 ^ j"
      unfolding lv(1) by (simp only: power_add P)
    moreover have "\<dots> \<longleftrightarrow> lval (butlast ?l) = 0 \<and> unat t = 2 ^ j"
      using tj(1) by (intro sum_eq_top) simp_all
    ultimately show ?thesis using z by blast
  qed
  have run: "integer_integer_length (Bignum bn) = Inr (int (if bn_sign bn \<and> ?m = 2 ^ ?b then ?b else Suc ?b))"
  proof -
    have "integer_integer_length (Bignum bn) =
        Inr (if bn_sign bn \<and> t AND (t - 1) = 0 \<and> list_all (\<lambda>x. x = 0) (butlast ?l)
             then int (length ?l - 1) * 16 + int (bit_length32 (ucast t)) - 1
             else int (length ?l - 1) * 16 + int (bit_length32 (ucast t)))"
      using n(3) by (simp add: integer_integer_length_def Let_def t_def)
    then show ?thesis unfolding pow [symmetric] bl by simp
  qed
  have "int (2 ^ ?b) \<le> int ?m" "int ?m < int (2 ^ Suc ?b)" using lo hi by (simp_all only: of_nat_le_iff of_nat_less_iff)
  then have i: "2 ^ ?b \<le> int ?m" "int ?m < 2 ^ Suc ?b" by simp_all
  have ne: "int ?m \<noteq> 2 ^ ?b" if "?m \<noteq> 2 ^ ?b" using that by (metis of_nat_eq_iff of_nat_numeral of_nat_power)
  have "int_length_spec (int_val (Bignum bn)) (if bn_sign bn \<and> ?m = 2 ^ ?b then ?b else Suc ?b)"
  proof (cases "bn_sign bn")
    case False
    then show ?thesis using i by (simp, intro int_length_specI) simp_all
  next
    case True
    show ?thesis
    proof (cases "?m = 2 ^ ?b")
      case eq: True
      have "(2::int) ^ (?b - 1) < 2 ^ ?b" if "0 < ?b" using that by (intro power_strict_increasing) simp_all
      then show ?thesis using True eq by (simp, intro int_length_specI) simp_all
    next
      case neq: False
      then have "2 ^ ?b < int ?m" using i(1) ne by force
      then show ?thesis using True neq i by (simp, intro int_length_specI) simp_all
    qed
  qed
  then show ?thesis using run by blast
qed

lemma integer_length_correct:
  "wf_int v \<Longrightarrow> \<exists>k. integer_integer_length v = Inr (int k) \<and> int_length_spec (int_val v) k"
  using integer_length_fixnum integer_length_bignum by (cases v) auto


lemma lval_ash_left:
  assumes "bs < 16"
  shows "lval (ash_left nl ws bs) = lval nl * 2 ^ (16 * ws + bs)" "ash_left nl ws bs \<noteq> []"
proof -
  show "lval (ash_left nl ws bs) = lval nl * 2 ^ (16 * ws + bs)"
  proof (cases "bs = 0")
    case True
    then show ?thesis by (simp add: ash_left_def lval_append)
  next
    case False
    obtain r c where rc: "shift_left_loop bs nl 0 = (r, c)" by fastforce
    from shift_left_loop_correct [OF rc assms] have
      r: "length r = length nl" "unat c < 2 ^ bs" "lval r + 2 ^ (16 * length nl) * unat c = lval nl * 2 ^ bs" by simp_all
    have "(2::nat) ^ bs < 2 ^ 16" using assms by (intro power_strict_increasing) simp_all
    then have "unat (ucast c :: u16) = unat c"
      using r(2) by (simp add: unsigned_ucast_eq take_bit_nat_eq_self)
    then have "lval (r @ [if c \<noteq> 0 then ucast c else 0]) = lval nl * 2 ^ bs"
      using r(1,3) by (cases "c = 0") (simp_all add: lval_append)
    then show ?thesis using False rc by (simp add: ash_left_def lval_append power_add)
  qed
  show "ash_left nl ws bs \<noteq> []" by (simp add: ash_left_def split: prod.split)
qed

lemma shifted_in:
  fixes x y :: u16
  assumes "0 < bs" "bs < 16"
  shows "unat (ucast (drop_bit bs (ucast x :: u32) OR (push_bit (16 - bs) (ucast y) AND 0xFFFF)) :: u16)
    = unat x div 2 ^ bs + 2 ^ (16 - bs) * (unat y mod 2 ^ bs)"
proof -
  let ?S = "2 ^ bs :: nat" and ?T = "2 ^ (16 - bs) :: nat"
  have ST: "?T * ?S = 65536" using assms by (simp flip: power_add)
  have m: "push_bit (16 - bs) (ucast y :: u32) AND 0xFFFF = push_bit (16 - bs) (take_bit bs (ucast y))"
  proof -
    have "push_bit (16 - bs) (ucast y :: u32) AND mask 16 = push_bit (16 - bs) (take_bit bs (ucast y))"
      by (rule bit_eqI) (use assms in \<open>auto simp: bit_simps\<close>)
    then show ?thesis by (simp add: mask_eq_exp_minus_1)
  qed
  have b: "unat (take_bit bs (ucast y) :: u32) = unat y mod ?S"
    by (simp only: unsigned_take_bit_eq unat_ucast16_32) (simp only: take_bit_eq_mod)
  have a: "unat (drop_bit bs (ucast x) :: u32) = unat x div ?S" by (simp add: unat_hi_part)
  have xT: "unat x div ?S < ?T" using unat_lt16 [of x] ST by (simp add: less_mult_imp_div_less)
  have "?T * (unat y mod ?S + 1) \<le> ?T * ?S" by (intro mult_le_mono2) (simp add: Suc_le_eq)
  then have le: "?T + (unat y mod ?S) * ?T \<le> 65536" unfolding ST by (simp add: mult.commute)
  have "unat (drop_bit bs (ucast x) OR push_bit (16 - bs) (take_bit bs (ucast y)) :: u32)
      = unat x div ?S + (unat y mod ?S) * ?T"
    by (subst unat_or_push) (use xT le in \<open>simp_all only: a b, simp_all\<close>)
  moreover have "unat x div ?S + (unat y mod ?S) * ?T < 65536" using xT le by linarith
  ultimately show ?thesis unfolding m
    by (simp add: unsigned_ucast_eq take_bit_nat_eq_self mult.commute)
qed

lemma lval_ash_right:
  assumes "0 < bs" "bs < 16"
  shows "lval (ash_right_loop bs xs) = lval xs div 2 ^ bs \<and> length (ash_right_loop bs xs) = length xs"
  using assms
proof (induction bs xs rule: ash_right_loop.induct)
  case (2 bs x)
  have "unat x div 2 ^ bs \<le> unat x" by (rule div_le_dividend)
  then have "unat x div 2 ^ bs < 65536" using unat_lt16 [of x] by linarith
  then show ?case by (simp add: unsigned_ucast_eq unat_hi_part take_bit_nat_eq_self)
next
  case (3 bs x y xs)
  let ?S = "2 ^ bs :: nat" and ?T = "2 ^ (16 - bs) :: nat" and ?Y = "lval (y # xs)"
  have ST: "(65536 :: nat) = ?S * ?T" using 3(3) by (simp flip: power_add)
  have "?Y mod ?S = unat y mod ?S"
  proof -
    have "?Y = unat y + ?S * (?T * lval xs)" using ST by (simp add: mult.assoc [symmetric])
    then show ?thesis by (simp only: mod_mult_self2)
  qed
  then have "lval (ash_right_loop bs (x # y # xs))
      = (unat x div ?S + ?T * (?Y mod ?S)) + 65536 * (?Y div ?S)"
    using 3 shifted_in [OF 3(2,3), of x y] by simp
  also have "\<dots> = unat x div ?S + ?T * (?S * (?Y div ?S) + ?Y mod ?S)"
    unfolding ST by (simp only: add_mult_distrib2 ac_simps)
  also have "\<dots> = unat x div ?S + ?T * ?Y" by simp
  also have "\<dots> = (unat x + ?S * (?T * ?Y)) div ?S" by simp
  also have "unat x + ?S * (?T * ?Y) = lval (x # y # xs)"
    using ST by (simp only: lval.simps mult.assoc [symmetric]) simp
  finally show ?case using 3 by simp
qed simp

lemma any_set_iff:
  assumes "ws < length nl" "bs < 16"
  shows "ash_any_set nl ws bs \<longleftrightarrow> lval nl mod 2 ^ (16 * ws + bs) \<noteq> 0"
proof -
  let ?K = "2 ^ (16 * ws) :: nat" and ?S = "2 ^ bs :: nat"
  have t: "list_ex (\<lambda>x. x \<noteq> 0) (take ws nl) \<longleftrightarrow> lval nl mod ?K \<noteq> 0"
    using lval_take_drop(2) [of ws nl] assms lval_eq_0_iff [of "take ws nl"] by (auto simp: list_ex_iff)
  obtain x xs where d: "drop ws nl = x # xs" "x = nl ! ws"
    using assms(1) by (metis Cons_nth_drop_Suc)
  have "push_bit bs 1 - 1 = (mask bs :: u32)" by (simp add: mask_eq_exp_minus_1)
  then have m: "unat ((ucast x :: u32) AND (push_bit bs 1 - 1)) = unat x mod ?S"
    by (simp only: take_bit_eq_mask [symmetric] unsigned_take_bit_eq unat_ucast16_32)
      (simp only: take_bit_eq_mod)
  have B: "(65536 :: nat) = ?S * 2 ^ (16 - bs)" using assms(2) by (simp flip: power_add)
  have "lval (drop ws nl) = unat x + ?S * (2 ^ (16 - bs) * lval xs)"
    using d B by (simp add: mult.assoc [symmetric])
  then have "(lval nl div ?K) mod ?S = unat x mod ?S"
    using lval_take_drop(1) [of ws nl] assms(1) by (simp only: mod_mult_self2 less_imp_le)
  moreover have "lval nl mod 2 ^ (16 * ws + bs) = ?K * ((lval nl div ?K) mod ?S) + lval nl mod ?K"
    by (simp only: power_add mod_mult2_eq)
  ultimately show ?thesis
    using t m d assms(1) by (cases "bs = 0") (auto simp: ash_any_set_def simp flip: unat_eq_zero)
qed


lemma floor_shift:
  fixes m :: nat
  shows "(- int m) div 2 ^ k = - int (m div 2 ^ k) - (if m mod 2 ^ k \<noteq> 0 then 1 else 0)"
    and "int m div 2 ^ k = int (m div 2 ^ k)"
proof -
  show "int m div 2 ^ k = int (m div 2 ^ k)" by (simp add: zdiv_int)
  have "int m mod 2 ^ k = int (m mod 2 ^ k)" by (simp add: zmod_int)
  then show "(- int m) div 2 ^ k = - int (m div 2 ^ k) - (if m mod 2 ^ k \<noteq> 0 then 1 else 0)"
    by (simp add: zdiv_zminus1_eq_if zdiv_int)
qed

lemma from_strip:
  "limbs \<noteq> [] \<Longrightarrow> bignum_from_limbs (strip_zeros limbs) s = int_obj (if s then - int (lval limbs) else int (lval limbs))"
  using from_limbs_correct [of "strip_zeros limbs" s] by simp

lemma ash_limbs_left:
  assumes "wf_int n" "0 < shift"
  shows "ash_limbs n shift = int_obj (int_val n * 2 ^ nat shift)"
proof -
  obtain l where l: "to_limbs n = Inr (l, int_val n < 0)" "int (lval l) = \<bar>int_val n\<bar>"
    using to_limbs_correct [OF assms(1)] by blast
  let ?a = "ash_left l (nat shift div 16) (nat shift mod 16)"
  have bs: "nat shift mod 16 < 16" by simp
  have "16 * (nat shift div 16) + nat shift mod 16 = nat shift" by simp
  then have "lval ?a = lval l * 2 ^ nat shift" using lval_ash_left(1) [OF bs] by simp
  then have "int (lval ?a) = \<bar>int_val n\<bar> * 2 ^ nat shift" using l(2) by simp
  then have z: "(if int_val n < 0 then - int (lval ?a) else int (lval ?a)) = int_val n * 2 ^ nat shift" by simp
  have "bignum_from_limbs (strip_zeros ?a) (int_val n < 0) = int_obj (int_val n * 2 ^ nat shift)"
    unfolding from_strip [OF lval_ash_left(2) [OF bs]] z ..
  then show ?thesis using l(1) assms(2) by (simp add: ash_limbs_def)
qed

lemma ash_limbs_right:
  assumes "wf_int n" "shift < 0"
  shows "ash_limbs n shift = int_obj (int_val n div 2 ^ nat (- shift))"
proof -
  obtain l where l: "to_limbs n = Inr (l, int_val n < 0)" "norm_limbs l" "int (lval l) = \<bar>int_val n\<bar>"
    using to_limbs_correct [OF assms(1)] by blast
  define ws bs where "ws = nat (- shift) div 16" and "bs = nat (- shift) mod 16"
  have s: "nat (- shift) = 16 * ws + bs" "bs < 16" by (simp_all add: ws_def bs_def)
  let ?m = "lval l" and ?s = "16 * ws + bs"
  have z: "int_val n = (if int_val n < 0 then - int ?m else int ?m)" using l(3) by auto
  have ne: "l \<noteq> []" using l(2) by (simp add: norm_limbs_def)
  show ?thesis
  proof (cases "length l \<le> ws")
    case True
    have "(2::nat) ^ (16 * length l) \<le> 2 ^ ?s" using True by (intro power_increasing) simp_all
    moreover have "?m < 2 ^ (16 * length l)" using lval_bound [of l] by simp
    ultimately have lt: "?m < 2 ^ ?s" by linarith
    have pos: "?m \<noteq> 0" if "int_val n < 0" using l(3) that by auto
    have "int_val n div 2 ^ ?s = (if int_val n < 0 then -1 else 0)"
      using z floor_shift [of ?m ?s] lt pos by (cases "int_val n < 0") auto
    then show ?thesis using True assms(2) l(1) s
      by (auto simp: ash_limbs_def ws_def [symmetric] bs_def [symmetric] int_obj_def in_range_bounds Let_def)
  next
    case False
    let ?r = "if bs = 0 then drop ws l else ash_right_loop bs (drop ws l)"
    have d: "lval (drop ws l) = ?m div 2 ^ (16 * ws)" using lval_take_drop(1) False by simp
    have r: "lval ?r = ?m div 2 ^ ?s" "?r \<noteq> []"
      using d lval_ash_right [of bs "drop ws l"] s(2) False
      by (auto simp: power_add div_mult2_eq simp flip: length_greater_0_conv)
    have "\<bar>(if int_val n < 0 then - int (lval ?r) else int (lval ?r))\<bar> \<le> \<bar>int_val n\<bar>"
      using l(3) r(1) by (simp add: div_le_dividend flip: l(3))
    from int_obj_smaller [OF assms(1) this] obtain x where
      x: "int_obj (if int_val n < 0 then - int (lval ?r) else int (lval ?r)) = Inr x" "wf_int x"
        "int_val x = (if int_val n < 0 then - int (lval ?r) else int (lval ?r))" by blast
    have fl: "bignum_from_limbs (strip_zeros ?r) (int_val n < 0) = Inr x"
      unfolding from_strip [OF r(2)] by (rule x(1))
    have any: "ash_any_set l ws bs \<longleftrightarrow> ?m mod 2 ^ ?s \<noteq> 0" using any_set_iff False s(2) by simp
    have sub: "integer_sub x (mkfix 1) = int_obj (int_val x - 1)"
      using integer_sub_correct [OF x(2) wf_mkfix [of 1]] by (simp only: fixnum_two)
    have "ash_limbs n shift = (if int_val n < 0 \<and> ash_any_set l ws bs then integer_sub x (mkfix 1) else Inr x)"
      unfolding ash_limbs_def l(1) Let_def ws_def [symmetric] bs_def [symmetric]
      using assms(2) False fl by auto
    then show ?thesis using any sub x int_obj_of_wf [OF x(2)] z r(1) floor_shift [of ?m ?s] s(1)
      by (cases "int_val n < 0") auto
  qed
qed


lemma div_huge_power:
  fixes z :: int
  assumes "\<bar>z\<bar> \<le> 2 ^ m" "m \<le> k"
  shows "0 \<le> z \<Longrightarrow> z < 2 ^ m \<Longrightarrow> z div 2 ^ k = 0" "z < 0 \<Longrightarrow> z div 2 ^ k = -1"
proof -
  have p: "(2::int) ^ m \<le> 2 ^ k" using assms(2) by (intro power_increasing) simp_all
  show "z div 2 ^ k = 0" if "0 \<le> z" "z < 2 ^ m"
    by (rule div_pos_pos_trivial) (use that p in linarith)+
  assume "z < 0"
  moreover have "- (2 ^ k) \<le> z" using assms(1) p by linarith
  ultimately have "(z + 2 ^ k) div 2 ^ k = 0" by (intro div_pos_pos_trivial) linarith+
  then show "z div 2 ^ k = -1" using div_add_self2 [of "2 ^ k" z] by simp
qed


lemma div_power_range:
  fixes z :: int
  assumes "lo \<le> z" "z \<le> hi" "lo \<le> 0" "0 \<le> hi"
  shows "lo \<le> z div 2 ^ k" "z div 2 ^ k \<le> hi"
proof -
  have one: "(1 :: int) \<le> 2 ^ k" by simp
  then have "lo * 2 ^ k \<le> lo" using assms(3) mult_left_mono_neg [OF one assms(3)] by simp
  then have "lo * 2 ^ k div 2 ^ k \<le> z div 2 ^ k" using assms(1) by (intro zdiv_mono1) simp_all
  then show "lo \<le> z div 2 ^ k" by simp
  have "z div 2 ^ k \<le> hi div 2 ^ k" using assms(2) by (intro zdiv_mono1) simp_all
  also have "\<dots> \<le> hi div 1" using assms(4) one by (intro zdiv_mono2) simp_all
  finally show "z div 2 ^ k \<le> hi" by simp
qed

lemma wf_int_bound: "wf_int v \<Longrightarrow> \<bar>int_val v\<bar> < 2 ^ (16 * CL_MAX_BIGNUM_LIMBS)"
  using int_obj_of_wf [of v] by (auto simp: int_obj_cases split: if_splits)

lemma fixnum_iff_range: "wf_int v \<Longrightarrow> fixnum_p v \<longleftrightarrow> in_fixnum_range (int_val v)"
  using in_range_wf by (cases v) auto

lemma int_obj_fix: "in_fixnum_range z \<Longrightarrow> Inr (mkfix z) = int_obj z"
  by (simp add: int_obj_def)

lemma integer_ash_fixnum_count:
  assumes "wf_int n" "wf_int c" "fixnum_p c"
  shows "integer_ash n c = int_obj (if 0 \<le> int_val c then int_val n * 2 ^ nat (int_val c)
    else int_val n div 2 ^ nat (- int_val c))"
proof -
  let ?n = "int_val n" and ?s = "int_val c"
  have c: "fixnum_val c = ?s" using fixnum_p_val [OF assms(3)] by simp
  have N: "fixnum_val n = ?n" "in_fixnum_range ?n" if "fixnum_p n" using fixnum_p_val [OF that] by simp_all
  define fastl where "fastl \<longleftrightarrow> fixnum_p n \<and> ?s < 31 \<and> in_fixnum_range (push_bit (nat ?s) ?n)"
  have run: "integer_ash n c =
      (if ?s = 0 then Inr n
       else if fixnum_p n \<and> ?n = 0 then Inr (mkfix 0)
       else if fixnum_p n \<and> ?s < 0 then
         (if - ?s \<ge> 31 then Inr (if ?n < 0 then mkfix (-1) else mkfix 0) else Inr (mkfix (drop_bit (nat (- ?s)) ?n)))
       else if fastl then Inr (mkfix (push_bit (nat ?s) ?n))
       else ash_limbs n ?s)"
    unfolding integer_ash_def fastl_def in_fixnum_range_def using assms N by (auto simp: c Let_def)
  consider (z) "?s = 0" | (zn) "?s \<noteq> 0" "fixnum_p n" "?n = 0" | (r) "?s < 0" "fixnum_p n" "?n \<noteq> 0"
    | (rb) "?s < 0" "\<not> fixnum_p n" | (l) "0 < ?s" "\<not> (fixnum_p n \<and> ?n = 0)" by linarith
  then show ?thesis
  proof cases
    case z
    then show ?thesis using int_obj_of_wf [OF assms(1)] run by simp
  next
    case zn
    then show ?thesis using run by (simp add: int_obj_0)
  next
    case r
    then have b: "- 1073741824 \<le> ?n" "?n \<le> 1073741823" using N by (simp_all add: in_range_bounds)
    show ?thesis
    proof (cases "31 \<le> - ?s")
      case True
      have "31 \<le> nat (- ?s)" using True by simp
      note h = div_huge_power [of ?n 31 "nat (- ?s)", OF _ this]
      have "?n div 2 ^ nat (- ?s) = (if ?n < 0 then -1 else 0)" using h b by auto
      then show ?thesis using run r True by (simp add: int_obj_def in_range_bounds)
    next
      case False
      have "in_fixnum_range (?n div 2 ^ nat (- ?s))" using div_power_range b by (simp add: in_range_bounds)
      then show ?thesis using run r False by (simp add: int_obj_fix drop_bit_eq_div)
    qed
  next
    case rb
    then show ?thesis using run ash_limbs_right [OF assms(1) rb(1)] by (simp add: fastl_def)
  next
    case l
    then show ?thesis using run ash_limbs_left [OF assms(1) l(1)] by (auto simp: fastl_def int_obj_fix push_bit_eq_mult)
  qed
qed

lemma integer_ash_correct:
  assumes "wf_int n" "wf_int c"
  shows "integer_ash n c =
    (if int_val c < 0 then int_obj (int_val n div 2 ^ nat (- int_val c))
     else if fixnum_p c \<or> int_val n = 0 then int_obj (int_val n * 2 ^ nat (int_val c))
     else Inl (Type_Error ''ASH: shift count too large for left shift''))"
proof (cases "fixnum_p c")
  case True
  then show ?thesis using integer_ash_fixnum_count [OF assms True] by auto
next
  case False
  note t = integer_sign_tests [OF assms(1)] integer_sign_tests [OF assms(2)]
  have run: "integer_ash n c = (if int_val c < 0 then
        (if int_val n = 0 then Inr n else Inr (if int_val n < 0 then mkfix (-1) else mkfix 0))
      else if int_val n = 0 then Inr n
      else Inl (Type_Error ''ASH: shift count too large for left shift''))"
    using False t assms by (simp add: integer_ash_def)
  have zero: "Inr n = int_obj 0" if "int_val n = 0" using int_obj_of_wf [OF assms(1)] that by simp
  have "int_val n div 2 ^ nat (- int_val c) = (if int_val n < 0 then -1 else 0)" if "int_val c < 0"
  proof -
    have "\<not> in_fixnum_range (int_val c)" using False fixnum_iff_range [OF assms(2)] by simp
    then have "16 * CL_MAX_BIGNUM_LIMBS \<le> nat (- int_val c)"
      using that by (simp add: in_range_bounds CL_MAX_BIGNUM_LIMBS_def)
    from div_huge_power [OF _ this, of "int_val n"] show ?thesis using wf_int_bound [OF assms(1)] by auto
  qed
  then show ?thesis using run zero False by (auto simp: int_obj_def in_range_bounds)
qed


lemma integer_isqrt_correct:
  assumes wf: "wf_int n" and pos: "0 < int_val n" and fit: "fits (8 * int_val n)"
    and s: "0 \<le> s" "s * s \<le> int_val n" "int_val n < (s + 1) * (s + 1)"
  shows "integer_isqrt n = int_obj s"
proof -
  let ?n = "int_val n"
  obtain k where k: "integer_integer_length n = Inr (int k)" "int_length_spec ?n k"
    using integer_length_correct [OF wf] by blast
  have nk: "?n < 2 ^ k" using k(2) by (simp add: int_length_spec_def)
  have k0: "0 < k" using nk pos by (cases k) simp_all
  have kn: "2 ^ (k - 1) \<le> ?n" using k(2) k0 pos by (auto simp: int_length_spec_def dest: spec [of _ "k - 1"])
  have kk: "(2::int) ^ k = 2 * 2 ^ (k - 1)" using k0 by (cases k) simp_all
  have kmax: "k \<le> 16 * CL_MAX_BIGNUM_LIMBS"
  proof (rule ccontr)
    assume "\<not> ?thesis"
    then have "(2::int) ^ (16 * CL_MAX_BIGNUM_LIMBS) \<le> 2 ^ (k - 1)" by (intro power_increasing) simp_all
    then show False using kn wf_int_bound [OF wf] by linarith
  qed
  define h where "h = (k + 1) div 2"
  have hk: "h \<le> k" "2 * h \<le> k + 1" "k \<le> 2 * h" using k0 by (simp_all add: h_def)
  have hr: "in_fixnum_range (int h)" using kmax hk by (simp add: CL_MAX_BIGNUM_LIMBS_def)
  have h2: "(2::int) ^ h \<le> 2 * ?n"
    using power_increasing [OF hk(1), of "2::int"] kk kn by simp
  have p2: "(2::int) ^ (2 * h) = 2 ^ h * 2 ^ h" by (simp only: mult_2 power_add)
  have "(2::int) ^ (2 * h) \<le> 2 ^ (k + 1)" using hk(2) by (intro power_increasing) simp_all
  then have hh: "(2::int) ^ h * 2 ^ h \<le> 4 * ?n" unfolding p2 using kk kn by simp
  have sh: "s < 2 ^ h"
  proof (rule ccontr)
    assume "\<not> ?thesis"
    then have "(2::int) ^ h * 2 ^ h \<le> s * s" using s(1) by (intro mult_mono) simp_all
    moreover have "(2::int) ^ k \<le> 2 ^ h * 2 ^ h"
      unfolding p2 [symmetric] using hk(3) by (intro power_increasing) simp_all
    ultimately show False using s(2) nk by linarith
  qed
  have iv: "int_val (mkfix (int h)) = int h" using hr by (rule int_val_mkfix)
  have "integer_ash (mkfix 1) (mkfix (int h)) = int_obj (2 ^ h)"
    using integer_ash_fixnum_count [OF wf_mkfix [of 1] wf_mkfix [of "int h"]] unfolding iv fixnum_two by simp
  moreover have "fits (2 ^ h)" by (rule fits_mono [OF fit]) (use h2 pos in simp)
  ultimately obtain x0 where x0: "integer_ash (mkfix 1) (mkfix (int h)) = Inr x0" "wf_int x0" "int_val x0 = 2 ^ h"
    using computes_fits [OF computes_int_obj [of "2 ^ h"]] by auto
  have "fits (4 * ?n)" "fits (4 * int_val x0)" using fit h2 pos x0(3) unfolding fits_def by simp_all
  then obtain x where x: "isqrt_newton 1000 n x0 = Inr x" "wf_int x" "s \<le> int_val x" "int_val x \<le> 2 ^ h"
    using isqrt_newton_correct [OF wf x0(2) _ s(1) pos s(2)] sh x0(3) by fastforce
  have "int_val x * int_val x \<le> 2 ^ h * 2 ^ h" using x(3,4) s(1) by (intro mult_mono) simp_all
  then have fx: "fits (int_val x * int_val x)" using fit hh pos unfolding fits_def by (simp add: abs_mult)
  have run: "integer_isqrt n = isqrt_correct (Suc (nat (int_val x))) n x"
  proof -
    have "(int k + 1) div 2 = int h" by (simp add: h_def zdiv_int)
    then show ?thesis using integer_sign_tests [OF wf] pos wf k(1) x0(1) x(1)
      by (simp add: integer_isqrt_def del: isqrt_correct.simps isqrt_newton.simps)
  qed
  show ?thesis unfolding run
    by (rule isqrt_correct_correct [OF wf x(2) s x(3) fx lessI])
qed

lemma isqrt_total:
  assumes "wf_int n" "0 \<le> s" "s * s \<le> int_val n" "int_val n < (s + 1) * (s + 1)" "fits (8 * int_val n)"
  shows "integer_isqrt n = int_obj s"
proof (cases "int_val n = 0")
  case True
  then have "s * s = 0" using assms(2,3) by (metis dual_order.antisym mult_nonneg_nonneg)
  then show ?thesis using True integer_sign_tests [OF assms(1)] assms(1) by (simp add: integer_isqrt_def int_obj_0)
next
  case False
  have "0 \<le> s * s" using assms(2) by simp
  then have "0 < int_val n" using assms(3) False by linarith
  then show ?thesis using integer_isqrt_correct [OF assms(1)] assms by blast
qed

interpretation igcd: comm_int_binop integer_gcd "\<lambda>x y. copyable x \<and> copyable y" gcd
  by unfold_locales (auto simp: integer_gcd_correct gcd.commute)

section \<open>Properties\<close>

text \<open>
  C29: The Euclidean loop of \<open>cl_arith_gcd\<close> ends and returns the canonical greatest common
  divisor, for operands (of any sign, zero included) that the absolute value can copy.
\<close>

theorem gcd_exact:
  assumes "wf_int a" "wf_int b" "copyable (int_val a)" "copyable (int_val b)"
  shows "integer_gcd a b = int_obj (gcd (int_val a) (int_val b))"
  using assms by (rule integer_gcd_correct)

theorem gcd_exact_witness: "integer_gcd (mkfix (-12)) (mkfix 18) = int_obj 6"
proof -
  have v: "int_val (mkfix (-12)) = -12" "int_val (mkfix 18) = 18" by (simp_all add: fixnum_val_make_wraps)
  have "copyable (-12)" "copyable 18" by (simp_all add: copyable_def nat_limbs.simps)
  moreover have "gcd (-12) 18 = (6 :: int)" by code_simp
  ultimately show ?thesis using gcd_exact [of "mkfix (-12)" "mkfix 18"] unfolding v by simp
qed

text \<open>
  Binary exponentiation with a non-negative exponent: any value returned is the
  canonical power, the only error is the storage error, and it returns whenever the square
  of the power still fits (the loop squares the base once more than it needs).
\<close>

theorem expt_exact:
  assumes "wf_int b" "wf_int e" "0 \<le> int_val e"
  shows "(\<forall>r. integer_expt b e = Inr r \<longrightarrow> int_obj (int_val b ^ nat (int_val e)) = Inr r)
    \<and> (\<forall>err. integer_expt b e = Inl err \<longrightarrow> err = Storage_Error)
    \<and> (fits (int_val b ^ (2 * nat (int_val e))) \<longrightarrow> integer_expt b e = int_obj (int_val b ^ nat (int_val e)))"
  using assms by (rule integer_expt_correct)

text \<open>
  The integer square root of a positive integer that leaves four bits of the largest
  heap object free is the floor of its square root, whether or not the thousand Newton
  steps sufficed; a negative argument is a type error and zero gives zero.
\<close>

theorem isqrt_exact:
  assumes "wf_int n"
  shows "(\<forall>s. 0 \<le> s \<and> s * s \<le> int_val n \<and> int_val n < (s + 1) * (s + 1) \<and> fits (8 * int_val n)
        \<longrightarrow> integer_isqrt n = int_obj s)
    \<and> (int_val n < 0 \<longrightarrow> integer_isqrt n = Inl (Type_Error ''ISQRT: argument must be non-negative''))"
  using isqrt_total [OF assms] integer_sign_tests [OF assms] assms by (simp add: integer_isqrt_def)

text \<open>
  C28: Arithmetic shift is multiplication by a power of two to the left and floor division
  to the right, for every integer and every count, whatever the number of limbs shifted
  out; the one error is a left shift of a non-zero integer by a bignum count.
\<close>

theorem ash_exact:
  assumes "wf_int n" "wf_int c"
  shows "integer_ash n c =
    (if int_val c < 0 then int_obj (int_val n div 2 ^ nat (- int_val c))
     else if fixnum_p c \<or> int_val n = 0 then int_obj (int_val n * 2 ^ nat (int_val c))
     else Inl (Type_Error ''ASH: shift count too large for left shift''))"
  using assms by (rule integer_ash_correct)

theorem ash_exact_witness:
  "integer_ash (mkfix (-5)) (mkfix (-1)) = int_obj (-3) \<and> integer_ash (mkfix 3) (mkfix 40) = int_obj (3 * 2 ^ 40)"
proof -
  have v: "int_val (mkfix (-5)) = -5" "int_val (mkfix (-1)) = -1" "int_val (mkfix 3) = 3" "int_val (mkfix 40) = 40"
    by (simp_all add: fixnum_val_make_wraps)
  have "integer_ash (mkfix (-5)) (mkfix (-1)) = int_obj (-3)"
    using ash_exact [of "mkfix (-5)" "mkfix (-1)"] unfolding v by simp
  moreover have "integer_ash (mkfix 3) (mkfix 40) = int_obj (3 * 2 ^ 40)"
    using ash_exact [of "mkfix 3" "mkfix 40"] unfolding v by simp
  ultimately show ?thesis by simp
qed

text \<open>
  \<open>integer-length\<close> returns the least number of bits of a two's complement field that
  holds the integer apart from its sign, for fixnums and for bignums of either sign, the
  negative powers of two included.
\<close>

theorem integer_length_exact:
  assumes "wf_int v"
  shows "\<exists>k. integer_integer_length v = Inr (int k) \<and> - (2 ^ k) \<le> int_val v \<and> int_val v < 2 ^ k
    \<and> (\<forall>j < k. \<not> (- (2 ^ j) \<le> int_val v \<and> int_val v < 2 ^ j))"
  using integer_length_correct [OF assms] unfolding int_length_spec_def .

end
