(* ===== verification/Ratio_Arith.thy ===== *)
theory Ratio_Arith
  imports Integer_Ops Complex_Main
begin

text \<open>
  Exact fractions, \<open>src/core/ratio.c\<close>.  The components of a ratio object are integers
  (\<open>CL_Ratio\<close> in \<open>types.h\<close>), so that where the C code calls a generic \<open>cl_arith_\<close>
  routine on components the model calls its integer tail, which is \<open>Undefined\<close> on an
  object that is not an integer.

  The specification reads an object as a rational number; \<open>rat_obj\<close> is its one
  representation, in lowest terms, with a denominator above one, an integer when the
  denominator is one.  Every routine is shown to return that representation as long as its
  cross products stay within the length the integer negation can copy.
\<close>

section \<open>The routines of ratio.c\<close>

definition cl_make_ratio :: "cl_val \<Rightarrow> cl_val \<Rightarrow> cl_val" where
  "cl_make_ratio numerator denominator = Ratio numerator denominator"

fun cl_numerator :: "cl_val \<Rightarrow> cl_val" where
  "cl_numerator (Ratio n d) = n"
| "cl_numerator obj = obj"

fun cl_denominator :: "cl_val \<Rightarrow> cl_val" where
  "cl_denominator (Ratio n d) = d"
| "cl_denominator obj = mkfix 1"

text \<open>The part of \<open>cl_make_ratio_normalized\<close> after the sign of the denominator is positive.\<close>

definition ratio_reduce :: "cl_val \<Rightarrow> cl_val \<Rightarrow> cl_val res" where
  "ratio_reduce num den =
     bindr (integer_abs num) (\<lambda>g.
     bindr (integer_gcd g den) (\<lambda>g.
     bindr (integer_truncate num g) (\<lambda>num.
     bindr (integer_truncate den g) (\<lambda>den.
       if fixnum_p den \<and> fixnum_val den = 1 then Inr num
       else Inr (cl_make_ratio num den)))))"

definition cl_make_ratio_normalized :: "cl_val \<Rightarrow> cl_val \<Rightarrow> cl_val res" where
  "cl_make_ratio_normalized num den =
     (if integer_zerop den then Inl Div_Zero
      else if integer_zerop num then Inr (mkfix 0)
      else bindr (integer_minusp den) (\<lambda>neg.
        if neg then
          bindr (integer_negate num) (\<lambda>num.
          bindr (integer_negate den) (\<lambda>den.
            ratio_reduce num den))
        else ratio_reduce num den))"

definition cl_ratio_add :: "cl_val \<Rightarrow> cl_val \<Rightarrow> cl_val res" where
  "cl_ratio_add a b =
     (let an = cl_numerator a; ad = cl_denominator a; bn = cl_numerator b; bd = cl_denominator b in
      bindr (integer_mul an bd) (\<lambda>num.
      bindr (integer_mul bn ad) (\<lambda>den.
      bindr (integer_add num den) (\<lambda>num.
      bindr (integer_mul ad bd) (\<lambda>den.
        cl_make_ratio_normalized num den)))))"

definition cl_ratio_sub :: "cl_val \<Rightarrow> cl_val \<Rightarrow> cl_val res" where
  "cl_ratio_sub a b =
     (let an = cl_numerator a; ad = cl_denominator a; bn = cl_numerator b; bd = cl_denominator b in
      bindr (integer_mul an bd) (\<lambda>num.
      bindr (integer_mul bn ad) (\<lambda>den.
      bindr (integer_sub num den) (\<lambda>num.
      bindr (integer_mul ad bd) (\<lambda>den.
        cl_make_ratio_normalized num den)))))"

definition cl_ratio_mul :: "cl_val \<Rightarrow> cl_val \<Rightarrow> cl_val res" where
  "cl_ratio_mul a b =
     (let an = cl_numerator a; ad = cl_denominator a; bn = cl_numerator b; bd = cl_denominator b in
      bindr (integer_mul an bn) (\<lambda>num.
      bindr (integer_mul ad bd) (\<lambda>den.
        cl_make_ratio_normalized num den)))"

definition cl_ratio_div :: "cl_val \<Rightarrow> cl_val \<Rightarrow> cl_val res" where
  "cl_ratio_div a b =
     (let an = cl_numerator a; ad = cl_denominator a; bn = cl_numerator b; bd = cl_denominator b in
      if integer_zerop bn then Inl Div_Zero
      else
        bindr (integer_mul an bd) (\<lambda>num.
        bindr (integer_mul ad bn) (\<lambda>den.
          cl_make_ratio_normalized num den)))"

fun cl_ratio_negate :: "cl_val \<Rightarrow> cl_val res" where
  "cl_ratio_negate (Ratio n d) = bindr (integer_negate n) (\<lambda>neg_num. Inr (cl_make_ratio neg_num d))"
| "cl_ratio_negate a = integer_negate a"

fun cl_ratio_abs :: "cl_val \<Rightarrow> cl_val res" where
  "cl_ratio_abs (Ratio n d) = bindr (integer_abs n) (\<lambda>abs_num. Inr (cl_make_ratio abs_num d))"
| "cl_ratio_abs a = integer_abs a"

definition cl_ratio_compare :: "cl_val \<Rightarrow> cl_val \<Rightarrow> int res" where
  "cl_ratio_compare a b =
     (let an = cl_numerator a; ad = cl_denominator a; bn = cl_numerator b; bd = cl_denominator b in
      bindr (integer_mul an bd) (\<lambda>lhs.
      bindr (integer_mul bn ad) (\<lambda>rhs.
        integer_compare lhs rhs)))"

fun cl_ratio_zerop :: "cl_val \<Rightarrow> bool" where
  "cl_ratio_zerop (Ratio n d) = integer_zerop n"
| "cl_ratio_zerop a = integer_zerop a"

fun cl_ratio_plusp :: "cl_val \<Rightarrow> bool res" where
  "cl_ratio_plusp (Ratio n d) = integer_plusp n"
| "cl_ratio_plusp a = integer_plusp a"

fun cl_ratio_minusp :: "cl_val \<Rightarrow> bool res" where
  "cl_ratio_minusp (Ratio n d) = integer_minusp n"
| "cl_ratio_minusp a = integer_minusp a"

fun cl_ratio_equal :: "cl_val \<Rightarrow> cl_val \<Rightarrow> bool res" where
  "cl_ratio_equal (Ratio an ad) (Ratio bn bd) =
     bindr (integer_compare an bn) (\<lambda>c.
       if c = 0 then bindr (integer_compare ad bd) (\<lambda>c. Inr (c = 0)) else Inr False)"
| "cl_ratio_equal _ _ = Inr False"

text \<open>The hash of one component; \<open>cl_bignum_hash\<close> of what is not a bignum reads a foreign object.\<close>

fun component_hash :: "cl_val \<Rightarrow> u32 res" where
  "component_hash (Imm w) = (if CL_FIXNUM_P w then Inr (word_of_int (CL_FIXNUM_VAL w)) else Inl Undefined)"
| "component_hash (Bignum bn) = Inr (cl_bignum_hash bn)"
| "component_hash _ = Inl Undefined"

fun cl_ratio_hash :: "cl_val \<Rightarrow> u32 res" where
  "cl_ratio_hash (Ratio n d) =
     bindr (component_hash n) (\<lambda>hn.
     bindr (component_hash d) (\<lambda>hd.
       let h = 0x9e3779b9 XOR hn; h = h * 0x01000193 in Inr (h XOR hd)))"
| "cl_ratio_hash _ = Inr 0"

section \<open>Specification\<close>

definition num_val :: "cl_val \<Rightarrow> int" where
  "num_val v = int_val (cl_numerator v)"

definition den_val :: "cl_val \<Rightarrow> int" where
  "den_val v = int_val (cl_denominator v)"

definition rat_val :: "cl_val \<Rightarrow> rat" where
  "rat_val v = Fract (num_val v) (den_val v)"

fun wf_rat :: "cl_val \<Rightarrow> bool" where
  "wf_rat (Ratio n d) = (wf_int n \<and> wf_int d \<and> 1 < int_val d \<and> coprime (int_val n) (int_val d)
     \<and> copyable (int_val n) \<and> copyable (int_val d))"
| "wf_rat v = (wf_int v \<and> copyable (int_val v))"

definition rat_obj :: "rat \<Rightarrow> cl_val res" where
  "rat_obj r =
     (case quotient_of r of (n, d) \<Rightarrow>
        bindr (int_obj n) (\<lambda>num.
          if d = 1 then Inr num else bindr (int_obj d) (\<lambda>den. Inr (Ratio num den))))"

section \<open>Lemmas\<close>

lemma copyable_small: "\<bar>z\<bar> < 2 ^ 63 \<Longrightarrow> copyable z"
proof -
  assume "\<bar>z\<bar> < 2 ^ 63"
  also have "(2 :: int) ^ 63 \<le> 2 ^ (16 * 65535)" by (rule power_increasing) simp_all
  finally show ?thesis by (rule copyable_iff [THEN iffD2])
qed

lemma copyable_consts [simp]: "copyable 0" "copyable 1" "copyable (-1)" "copyable 2"
  by (rule copyable_small; simp)+

lemma copyable_fits: "copyable z \<Longrightarrow> fits z"
proof -
  assume "copyable z"
  then have "\<bar>z\<bar> < 2 ^ (16 * 65535)" by (rule copyable_iff [THEN iffD1])
  also have "\<dots> \<le> 2 ^ (16 * CL_MAX_BIGNUM_LIMBS - 1)"
    by (rule power_increasing) (simp_all add: CL_MAX_BIGNUM_LIMBS_def)
  finally show ?thesis unfolding fits_def .
qed

lemma copyable_obj:
  "copyable z \<Longrightarrow> \<exists>v. int_obj z = Inr v \<and> wf_int v \<and> int_val v = z"
  using computes_fits [OF computes_int_obj copyable_fits] by blast

text \<open>The object of an integer that has one; the equations below run the integer tails on it.\<close>

definition mkint :: "int \<Rightarrow> cl_val" where
  "mkint z = (case int_obj z of Inr v \<Rightarrow> v | Inl _ \<Rightarrow> mkfix 0)"

lemma mkint_copyable:
  assumes "copyable z"
  shows "int_obj z = Inr (mkint z)" "wf_int (mkint z)" "int_val (mkint z) = z"
  using copyable_obj [OF assms] by (auto simp: mkint_def)

lemma mkint_val: "wf_int v \<Longrightarrow> mkint (int_val v) = v"
  by (simp add: mkint_def int_obj_of_wf)

lemma mkint_fix: "in_fixnum_range z \<Longrightarrow> mkint z = mkfix z"
  by (simp add: mkint_def int_obj_def)

named_theorems mkint_run \<open>integer operations on the objects of copyable integers\<close>

lemma mkint_ops [mkint_run]:
  assumes "copyable x" "copyable y"
  shows "copyable (x + y) \<Longrightarrow> integer_add (mkint x) (mkint y) = Inr (mkint (x + y))"
    and "copyable (x - y) \<Longrightarrow> integer_sub (mkint x) (mkint y) = Inr (mkint (x - y))"
    and "copyable (x * y) \<Longrightarrow> integer_mul (mkint x) (mkint y) = Inr (mkint (x * y))"
    and "integer_compare (mkint x) (mkint y) = Inr (sgn (x - y))"
proof -
  note m = mkint_copyable [OF assms(1)] mkint_copyable [OF assms(2)]
  show "integer_add (mkint x) (mkint y) = Inr (mkint (x + y))" if "copyable (x + y)"
    using m mkint_copyable(1) [OF that] by (simp add: integer_add_correct)
  show "integer_sub (mkint x) (mkint y) = Inr (mkint (x - y))" if "copyable (x - y)"
    using m mkint_copyable(1) [OF that] by (simp add: integer_sub_correct)
  show "integer_mul (mkint x) (mkint y) = Inr (mkint (x * y))" if "copyable (x * y)"
  proof -
    have "computes (integer_mul (mkint x) (mkint y)) (x * y)"
      using imul.op_computes [of "mkint x" "mkint y"] m by simp
    then show ?thesis using computes_fits [OF _ copyable_fits [OF that]] mkint_val by metis
  qed
  show "integer_compare (mkint x) (mkint y) = Inr (sgn (x - y))"
    using m by (simp add: integer_compare_correct)
qed

lemma mkint_unary [mkint_run]:
  assumes "copyable x"
  shows "integer_negate (mkint x) = Inr (mkint (- x))" "integer_abs (mkint x) = Inr (mkint \<bar>x\<bar>)"
    "integer_zerop (mkint x) \<longleftrightarrow> x = 0" "integer_plusp (mkint x) = Inr (0 < x)"
    "integer_minusp (mkint x) = Inr (x < 0)"
proof -
  note m = mkint_copyable [OF assms]
  have "copyable (- x)" "copyable \<bar>x\<bar>" using assms by simp_all
  note c = mkint_copyable(1) [OF this(1)] mkint_copyable(1) [OF this(2)]
  show "integer_negate (mkint x) = Inr (mkint (- x))" "integer_abs (mkint x) = Inr (mkint \<bar>x\<bar>)"
    using integer_negate_correct [OF m(2)] integer_abs_correct [OF m(2)] m(3) assms c by simp_all
  show "integer_zerop (mkint x) \<longleftrightarrow> x = 0" "integer_plusp (mkint x) = Inr (0 < x)"
    "integer_minusp (mkint x) = Inr (x < 0)"
    using integer_sign_tests [OF m(2)] m(3) by simp_all
qed

lemma mkint_gcd [mkint_run]:
  assumes "copyable x" "copyable y"
  shows "integer_gcd (mkint x) (mkint y) = Inr (mkint (gcd x y))" "copyable (gcd x y)"
proof -
  show c: "copyable (gcd x y)"
  proof (cases "y = 0")
    case False
    then have "gcd x y \<le> \<bar>y\<bar>" by (intro zdvd_imp_le) simp_all
    then have "\<bar>gcd x y\<bar> \<le> \<bar>y\<bar>" by simp
    then show ?thesis by (rule copyable_mono [OF assms(2)])
  qed (use assms in simp)
  show "integer_gcd (mkint x) (mkint y) = Inr (mkint (gcd x y))"
    using integer_gcd_correct [of "mkint x" "mkint y"] mkint_copyable [OF assms(1)]
      mkint_copyable [OF assms(2)] mkint_copyable(1) [OF c] assms by simp
qed

lemma mkint_exact_div:
  assumes "copyable x" "copyable g" "0 < g" "g dvd x"
  shows "integer_truncate (mkint x) (mkint g) = Inr (mkint (x div g))" "copyable (x div g)"
proof -
  obtain k where k: "x = g * k" using assms(4) by (rule dvdE)
  have "1 * \<bar>k\<bar> \<le> g * \<bar>k\<bar>" using assms(3) by (intro mult_right_mono) simp_all
  then have "\<bar>x div g\<bar> \<le> \<bar>x\<bar>" using k assms(3) by (simp add: abs_mult)
  then show c: "copyable (x div g)" by (rule copyable_mono [OF assms(1)])
  have "x sdiv g = x div g" using assms(3) k
    by (simp add: signed_divide_int_def sgn_mult abs_mult sgn_mult_abs)
  then show "integer_truncate (mkint x) (mkint g) = Inr (mkint (x div g))"
    using integer_truncate_correct [of "mkint x" "mkint g"] mkint_copyable [OF assms(1)]
      mkint_copyable [OF assms(2)] mkint_copyable(1) [OF c] assms by simp
qed

lemma rat_obj_Fract:
  assumes "0 < d" "coprime n d" "copyable n" "copyable d"
  shows "rat_obj (Fract n d) = Inr (if d = 1 then mkint n else Ratio (mkint n) (mkint d))"
  using assms mkint_copyable(1) by (simp add: rat_obj_def quotient_of_Fract)

lemma mkint_one: "copyable d \<Longrightarrow> fixnum_p (mkint d) \<and> fixnum_val (mkint d) = 1 \<longleftrightarrow> d = 1"
proof
  assume "copyable d" "fixnum_p (mkint d) \<and> fixnum_val (mkint d) = 1"
  then show "d = 1" using mkint_copyable(3) [of d] fixnum_p_val [of "mkint d"] by simp
next
  assume "d = 1"
  then show "fixnum_p (mkint d) \<and> fixnum_val (mkint d) = 1"
    by (simp add: mkint_fix in_range_bounds fixnum_val_make_wraps)
qed

lemma ratio_reduce_correct:
  assumes "copyable n" "copyable d" "0 < d" "n \<noteq> 0"
  shows "ratio_reduce (mkint n) (mkint d) = rat_obj (Fract n d)"
proof -
  let ?g = "gcd n d"
  have g: "0 < ?g" "?g dvd n" "?g dvd d" using assms(3) by simp_all
  have cg: "copyable ?g" using mkint_gcd(2) [OF assms(1,2)] .
  note dn = mkint_exact_div [OF assms(1) cg g(1,2)] and dd = mkint_exact_div [OF assms(2) cg g(1,3)]
  have "gcd \<bar>n\<bar> d = ?g" by simp
  then have run: "ratio_reduce (mkint n) (mkint d) =
      (if d div ?g = 1 then Inr (mkint (n div ?g)) else Inr (Ratio (mkint (n div ?g)) (mkint (d div ?g))))"
    using mkint_gcd(1) [of "\<bar>n\<bar>" d] assms(1,2) mkint_unary(2) [OF assms(1)] dn dd mkint_one [OF dd(2)]
    by (simp add: ratio_reduce_def cl_make_ratio_def)
  have "Fract n d = Fract (n div ?g) (d div ?g)" by (simp add: Fract_coprime)
  moreover have "0 < d div ?g" using g assms(3) by (simp add: pos_imp_zdiv_pos_iff zdvd_imp_le)
  moreover have "coprime (n div ?g) (d div ?g)" using assms(3) by (intro div_gcd_coprime) simp
  ultimately show ?thesis unfolding run using rat_obj_Fract dn(2) dd(2) by simp
qed

lemma make_normalized_correct:
  assumes "copyable n" "copyable d" "d \<noteq> 0"
  shows "cl_make_ratio_normalized (mkint n) (mkint d) = rat_obj (Fract n d)"
proof (cases "n = 0")
  case True
  have "rat_obj (Fract 0 1) = Inr (mkint 0)" by (subst rat_obj_Fract) simp_all
  moreover have "Fract 0 d = Fract 0 1" using assms(3) by (simp add: eq_rat)
  moreover have "mkint 0 = mkfix 0" by (simp add: mkint_fix in_range_bounds)
  moreover have "cl_make_ratio_normalized (mkint 0) (mkint d) = Inr (mkfix 0)"
    using assms mkint_unary(3) by (simp add: cl_make_ratio_normalized_def)
  ultimately show ?thesis using True by simp
next
  case False
  show ?thesis
  proof (cases "d < 0")
    case True
    have "Fract (- n) (- d) = Fract n d" by simp
    then show ?thesis using True False assms mkint_unary ratio_reduce_correct [of "- n" "- d"]
      by (simp add: cl_make_ratio_normalized_def)
  qed (use False assms mkint_unary ratio_reduce_correct [of n d] in
      \<open>simp add: cl_make_ratio_normalized_def\<close>)
qed

text \<open>A well-formed rational given by the integers of its lowest terms.\<close>

lemma wf_rat_cases:
  assumes "wf_rat v"
  obtains (ratio) n d where "v = Ratio n d" "wf_int n" "wf_int d" "1 < int_val d"
      "coprime (int_val n) (int_val d)" "copyable (int_val n)" "copyable (int_val d)"
  | (int) "cl_numerator v = v" "cl_denominator v = mkfix 1" "wf_int v" "copyable (int_val v)" "\<not> CL_RATIO_P v"
  using assms by (cases v) (auto simp del: wf_int.simps int_val.simps)

lemma fix_one: "mkfix 1 = mkint 1" "int_val (mkfix 1) = 1" "CL_FIXNUM_VAL (CL_MAKE_FIXNUM 1) = 1"
  by (simp_all add: mkint_fix in_range_bounds fixnum_val_make_wraps)

lemma wf_rat_parts:
  assumes "wf_rat v"
  shows "cl_numerator v = mkint (num_val v)" "cl_denominator v = mkint (den_val v)"
    "copyable (num_val v)" "copyable (den_val v)" "0 < den_val v" "coprime (num_val v) (den_val v)"
proof -
  have "cl_numerator v = mkint (num_val v) \<and> cl_denominator v = mkint (den_val v)
    \<and> copyable (num_val v) \<and> copyable (den_val v) \<and> 0 < den_val v \<and> coprime (num_val v) (den_val v)"
    using assms by (cases rule: wf_rat_cases)
      (simp_all add: num_val_def den_val_def mkint_val fix_one(2) fix_one(1) [symmetric] del: wf_int.simps int_val.simps)
  then show "cl_numerator v = mkint (num_val v)" "cl_denominator v = mkint (den_val v)"
    "copyable (num_val v)" "copyable (den_val v)" "0 < den_val v" "coprime (num_val v) (den_val v)" by blast+
qed

lemma ratio_add_correct:
  assumes "wf_rat a" "wf_rat b"
    and "copyable (num_val a * den_val b)" "copyable (num_val b * den_val a)"
      "copyable (num_val a * den_val b + num_val b * den_val a)" "copyable (den_val a * den_val b)"
  shows "cl_ratio_add a b = rat_obj (rat_val a + rat_val b)"
proof -
  note pa = wf_rat_parts [OF assms(1)] and pb = wf_rat_parts [OF assms(2)]
  have "rat_val a + rat_val b = Fract (num_val a * den_val b + num_val b * den_val a) (den_val a * den_val b)"
    using pa(5) pb(5) by (simp add: rat_val_def)
  then show ?thesis using pa pb assms make_normalized_correct [OF assms(5,6)]
    by (simp add: cl_ratio_add_def mkint_ops)
qed

lemma ratio_sub_correct:
  assumes "wf_rat a" "wf_rat b"
    and "copyable (num_val a * den_val b)" "copyable (num_val b * den_val a)"
      "copyable (num_val a * den_val b - num_val b * den_val a)" "copyable (den_val a * den_val b)"
  shows "cl_ratio_sub a b = rat_obj (rat_val a - rat_val b)"
proof -
  note pa = wf_rat_parts [OF assms(1)] and pb = wf_rat_parts [OF assms(2)]
  have "rat_val a - rat_val b = Fract (num_val a * den_val b - num_val b * den_val a) (den_val a * den_val b)"
    using pa(5) pb(5) by (simp add: rat_val_def)
  then show ?thesis using pa pb assms make_normalized_correct [OF assms(5,6)]
    by (simp add: cl_ratio_sub_def mkint_ops)
qed

lemma ratio_mul_correct:
  assumes "wf_rat a" "wf_rat b"
    and "copyable (num_val a * num_val b)" "copyable (den_val a * den_val b)"
  shows "cl_ratio_mul a b = rat_obj (rat_val a * rat_val b)"
proof -
  note pa = wf_rat_parts [OF assms(1)] and pb = wf_rat_parts [OF assms(2)]
  have "rat_val a * rat_val b = Fract (num_val a * num_val b) (den_val a * den_val b)"
    using pa(5) pb(5) by (simp add: rat_val_def)
  then show ?thesis using pa pb assms make_normalized_correct [OF assms(3,4)]
    by (simp add: cl_ratio_mul_def mkint_ops)
qed

lemma rat_val_0: "wf_rat v \<Longrightarrow> rat_val v = 0 \<longleftrightarrow> num_val v = 0"
  using wf_rat_parts(5) [of v] by (simp add: rat_val_def Zero_rat_def eq_rat)

lemma ratio_div_correct:
  assumes "wf_rat a" "wf_rat b"
    and "copyable (num_val a * den_val b)" "copyable (den_val a * num_val b)"
  shows "cl_ratio_div a b = (if rat_val b = 0 then Inl Div_Zero else rat_obj (rat_val a / rat_val b))"
proof -
  note pa = wf_rat_parts [OF assms(1)] and pb = wf_rat_parts [OF assms(2)]
  have "rat_val a / rat_val b = Fract (num_val a * den_val b) (den_val a * num_val b)" if "num_val b \<noteq> 0"
    using pa(5) pb(5) that by (simp add: rat_val_def)
  then show ?thesis using pa pb assms make_normalized_correct [OF assms(3,4)] mkint_unary(3) [OF pb(3)]
    by (simp add: cl_ratio_div_def mkint_ops rat_val_0)
qed

lemma ratio_compare_correct:
  assumes "wf_rat a" "wf_rat b"
    and "copyable (num_val a * den_val b)" "copyable (num_val b * den_val a)"
  shows "cl_ratio_compare a b =
    Inr (if rat_val a < rat_val b then -1 else if rat_val a = rat_val b then 0 else 1)"
proof -
  note pa = wf_rat_parts [OF assms(1)] and pb = wf_rat_parts [OF assms(2)]
  have pos: "0 < den_val a * den_val b" using pa(5) pb(5) by (rule mult_pos_pos)
  have "rat_val a < rat_val b \<longleftrightarrow>
      (num_val a * den_val b) * (den_val a * den_val b) < (num_val b * den_val a) * (den_val a * den_val b)"
    using pa(5) pb(5) by (simp add: rat_val_def)
  also have "\<dots> \<longleftrightarrow> num_val a * den_val b < num_val b * den_val a"
    using pos by (rule mult_less_cancel_right_pos)
  finally have "rat_val a < rat_val b \<longleftrightarrow> num_val a * den_val b < num_val b * den_val a" .
  moreover have "rat_val a = rat_val b \<longleftrightarrow> num_val a * den_val b = num_val b * den_val a"
    using pa(5) pb(5) by (simp add: rat_val_def eq_rat)
  ultimately show ?thesis using pa pb assms
    by (simp add: cl_ratio_compare_def mkint_ops sgn_if)
qed

text \<open>Rationals whose lowest terms are integers that negation can copy.\<close>

definition rat_small :: "rat \<Rightarrow> bool" where
  "rat_small r \<longleftrightarrow> (case quotient_of r of (n, d) \<Rightarrow> copyable n \<and> copyable d)"

lemma rat_cases:
  obtains n d where "r = Fract n d" "0 < d" "coprime n d" "quotient_of r = (n, d)"
  using quotient_of_denom_pos [of r] quotient_of_coprime [of r] quotient_of_div [of r]
  by (cases "quotient_of r") (metis Fract_of_int_quotient)

lemma lowest_terms_le:
  assumes "d \<noteq> 0" "quotient_of (Fract n d) = (p, q)"
  shows "\<bar>p\<bar> \<le> \<bar>n\<bar>" "\<bar>q\<bar> \<le> \<bar>d\<bar>"
proof -
  have pq: "0 < q" "coprime p q" "Fract n d = Fract p q"
    using quotient_of_denom_pos [OF assms(2)] quotient_of_coprime [OF assms(2)] quotient_of_div [OF assms(2)]
    by (simp_all add: Fract_of_int_quotient)
  then have e: "n * q = p * d" using assms(1) by (simp add: eq_rat)
  then have "q dvd d" "p dvd n" using pq(2)
    by (metis coprime_commute coprime_dvd_mult_right_iff dvd_triv_right, metis coprime_dvd_mult_left_iff dvd_triv_left)
  moreover have "p = 0" if "n = 0" using that e assms(1) by simp
  ultimately show "\<bar>p\<bar> \<le> \<bar>n\<bar>" "\<bar>q\<bar> \<le> \<bar>d\<bar>"
    using assms(1) dvd_imp_le_int [of d q] dvd_imp_le_int [of n p] by (cases "n = 0", simp_all)
qed

lemma rat_small_Fract:
  assumes "copyable n" "copyable d"
  shows "rat_small (Fract n d)"
proof (cases "d = 0")
  case True
  then show ?thesis by (simp add: rat_small_def quotient_of_Fract)
next
  case False
  obtain p q where "quotient_of (Fract n d) = (p, q)" by fastforce
  then show ?thesis using lowest_terms_le [OF False] assms copyable_mono by (auto simp: rat_small_def)
qed

lemma rat_obj_small:
  assumes "rat_small r"
  shows "\<exists>v. rat_obj r = Inr v \<and> wf_rat v \<and> rat_val v = r"
proof -
  obtain n d where r: "r = Fract n d" "0 < d" "coprime n d" "quotient_of r = (n, d)" by (rule rat_cases)
  have c: "copyable n" "copyable d" using assms r(4) by (simp_all add: rat_small_def)
  note m = mkint_copyable [OF c(1)] and k = mkint_copyable [OF c(2)]
  show ?thesis
  proof (cases "d = 1")
    case True
    have "wf_rat (mkint n) \<and> cl_numerator (mkint n) = mkint n \<and> cl_denominator (mkint n) = mkfix 1"
      using m(2,3) c(1) by (cases "mkint n") simp_all
    then show ?thesis using True rat_obj_Fract [OF r(2,3) c] m(3) r(1)
      by (simp add: rat_val_def num_val_def den_val_def fix_one(2,3))
  next
    case False
    then show ?thesis using rat_obj_Fract [OF r(2,3) c] r(1-3) m(2,3) k(2,3) c
      by (simp add: rat_val_def num_val_def den_val_def)
  qed
qed

lemma rat_obj_of_wf:
  assumes "wf_rat v"
  shows "rat_obj (rat_val v) = Inr v" "rat_small (rat_val v)"
proof -
  note p = wf_rat_parts [OF assms]
  show "rat_small (rat_val v)" unfolding rat_val_def using p(3,4) by (rule rat_small_Fract)
  have "rat_obj (rat_val v) = Inr (if den_val v = 1 then mkint (num_val v) else Ratio (mkint (num_val v)) (mkint (den_val v)))"
    unfolding rat_val_def using p(5,6,3,4) by (rule rat_obj_Fract)
  also have "\<dots> = Inr v" using assms
    by (cases rule: wf_rat_cases)
      (auto simp: num_val_def den_val_def mkint_val fix_one(2) simp del: wf_int.simps int_val.simps)
  finally show "rat_obj (rat_val v) = Inr v" .
qed

lemma rat_val_minus: "wf_rat a \<Longrightarrow> - rat_val a = Fract (- num_val a) (den_val a)"
  by (simp add: rat_val_def)

lemma rat_val_sgn: "wf_rat a \<Longrightarrow> rat_val a < 0 \<longleftrightarrow> num_val a < 0" "wf_rat a \<Longrightarrow> 0 < rat_val a \<longleftrightarrow> 0 < num_val a"
  using wf_rat_parts(5) [of a] by (simp_all add: rat_val_def Fract_less_zero_iff zero_less_Fract_iff)

lemma rat_val_abs: "wf_rat a \<Longrightarrow> \<bar>rat_val a\<bar> = Fract \<bar>num_val a\<bar> (den_val a)"
  using wf_rat_parts(5) [of a] by (simp add: rat_val_def)

lemma ratio_unary_correct:
  assumes "wf_rat a"
  shows "cl_ratio_negate a = rat_obj (- rat_val a)" "cl_ratio_abs a = rat_obj \<bar>rat_val a\<bar>"
    "cl_ratio_zerop a \<longleftrightarrow> rat_val a = 0" "cl_ratio_plusp a = Inr (0 < rat_val a)"
    "cl_ratio_minusp a = Inr (rat_val a < 0)"
proof -
  note p = wf_rat_parts [OF assms] and u = mkint_unary [OF wf_rat_parts(3) [OF assms]]
  have cop: "coprime (- num_val a) (den_val a)" "coprime \<bar>num_val a\<bar> (den_val a)"
    "copyable (- num_val a)" "copyable \<bar>num_val a\<bar>" using p(3,6) by simp_all
  have op: "opn a = rat_obj (Fract m (den_val a))"
    if R: "\<And>n d. opn (Ratio n d) = bindr (f n) (\<lambda>x. Inr (cl_make_ratio x d))"
      and I: "\<not> CL_RATIO_P a \<Longrightarrow> opn a = f a" and f: "f (mkint (num_val a)) = Inr (mkint m)"
      and m: "coprime m (den_val a)" "copyable m" for opn f m
    using assms
  proof (cases rule: wf_rat_cases)
    case (ratio n d)
    then have "f n = Inr (mkint m)" using f p(1) by simp
    moreover have "d = mkint (den_val a)" "den_val a \<noteq> 1" using ratio p(2) by (simp_all add: den_val_def)
    ultimately show ?thesis using rat_obj_Fract [OF p(5) m(1) m(2) p(4)] R ratio(1)
      by (simp add: cl_make_ratio_def)
  next
    case int
    then have "den_val a = 1" "a = mkint (num_val a)" using p(1) by (simp_all add: den_val_def fix_one(2,3))
    then show ?thesis using rat_obj_Fract [OF p(5) m(1) m(2) p(4)] I int f by simp
  qed
  show "cl_ratio_negate a = rat_obj (- rat_val a)" unfolding rat_val_minus [OF assms]
    by (rule op [where f = integer_negate]) (use u cop in \<open>cases a; simp\<close>)+
  show "cl_ratio_abs a = rat_obj \<bar>rat_val a\<bar>" unfolding rat_val_abs [OF assms]
    by (rule op [where f = integer_abs]) (use u cop in \<open>cases a; simp\<close>)+
  have "cl_ratio_zerop a = integer_zerop (cl_numerator a)" "cl_ratio_plusp a = integer_plusp (cl_numerator a)"
    "cl_ratio_minusp a = integer_minusp (cl_numerator a)" by (cases a; simp)+
  then show "cl_ratio_zerop a \<longleftrightarrow> rat_val a = 0" "cl_ratio_plusp a = Inr (0 < rat_val a)"
    "cl_ratio_minusp a = Inr (rat_val a < 0)"
    using u p(1) rat_val_0 [OF assms] rat_val_sgn [OF assms] by simp_all
qed

lemma int_val_inj: "wf_int x \<Longrightarrow> wf_int y \<Longrightarrow> int_val x = int_val y \<longleftrightarrow> x = y"
  using mkint_val by metis

lemma ratio_equal_correct:
  assumes "wf_rat a" "wf_rat b" "CL_RATIO_P a" "CL_RATIO_P b"
  shows "cl_ratio_equal a b = Inr (rat_val a = rat_val b)"
    and "rat_val a = rat_val b \<longleftrightarrow> a = b"
proof -
  obtain an ad bn bd where ab: "a = Ratio an ad" "b = Ratio bn bd" using assms(3,4) by (cases a; cases b) auto
  show eq: "rat_val a = rat_val b \<longleftrightarrow> a = b" 
    using rat_obj_of_wf(1) [OF assms(1)] rat_obj_of_wf(1) [OF assms(2)] by (metis sum.inject(2))
  have wf: "wf_int an" "wf_int ad" "wf_int bn" "wf_int bd" using assms(1,2) ab by simp_all
  have c: "sgn (int_val x - int_val y) = 0 \<longleftrightarrow> x = y" if "wf_int x" "wf_int y" for x y
    using int_val_inj [OF that] by (simp add: sgn_0_0)
  show "cl_ratio_equal a b = Inr (rat_val a = rat_val b)"
    unfolding ab cl_ratio_equal.simps integer_compare_correct [OF wf(1,3)] integer_compare_correct [OF wf(2,4)]
      bindr_simps c [OF wf(1,3)] c [OF wf(2,4)] using eq [unfolded ab] by simp
qed

section \<open>The contract of a binary operation on rationals\<close>

text \<open>
  What the numeric dispatch relies on: on well-formed rationals with room for the cross
  products an operation returns the one object of the result, which again is well-formed.
\<close>

locale rat_binop =
  fixes opn :: "cl_val \<Rightarrow> cl_val \<Rightarrow> cl_val res"
    and room :: "cl_val \<Rightarrow> cl_val \<Rightarrow> bool"
    and f :: "rat \<Rightarrow> rat \<Rightarrow> rat"
  assumes op_exact: "wf_rat a \<Longrightarrow> wf_rat b \<Longrightarrow> room a b \<Longrightarrow> opn a b = rat_obj (f (rat_val a) (rat_val b))"
    and op_small: "wf_rat a \<Longrightarrow> wf_rat b \<Longrightarrow> room a b \<Longrightarrow> rat_small (f (rat_val a) (rat_val b))"

begin

lemma op_wf:
  assumes "wf_rat a" "wf_rat b" "room a b"
  shows "\<exists>v. opn a b = Inr v \<and> wf_rat v \<and> rat_val v = f (rat_val a) (rat_val b)"
  using rat_obj_small [OF op_small [OF assms]] op_exact [OF assms] by simp

lemma op_unit:
  assumes "wf_rat a" "wf_rat b" "room a b" "f (rat_val a) (rat_val b) = rat_val a"
  shows "opn a b = Inr a"
  using op_exact [OF assms(1-3)] rat_obj_of_wf(1) [OF assms(1)] assms(4) by simp

end

locale comm_rat_binop = rat_binop +
  assumes f_comm: "f x y = f y x"
    and room_comm: "room a b \<Longrightarrow> room b a"

begin

lemma op_comm: "wf_rat a \<Longrightarrow> wf_rat b \<Longrightarrow> room a b \<Longrightarrow> opn a b = opn b a"
  using op_exact [of a b] op_exact [of b a] room_comm [of a b] f_comm [of "rat_val a"] by simp

end

definition add_room :: "cl_val \<Rightarrow> cl_val \<Rightarrow> bool" where
  "add_room a b \<longleftrightarrow> copyable (num_val a * den_val b) \<and> copyable (num_val b * den_val a)
     \<and> copyable (num_val a * den_val b + num_val b * den_val a)
     \<and> copyable (num_val a * den_val b - num_val b * den_val a) \<and> copyable (den_val a * den_val b)"

definition mul_room :: "cl_val \<Rightarrow> cl_val \<Rightarrow> bool" where
  "mul_room a b \<longleftrightarrow> copyable (num_val a * num_val b) \<and> copyable (den_val a * den_val b)"

definition div_room :: "cl_val \<Rightarrow> cl_val \<Rightarrow> bool" where
  "div_room a b \<longleftrightarrow> copyable (num_val a * den_val b) \<and> copyable (den_val a * num_val b)"

lemma small_parts:
  assumes "wf_rat a" "wf_rat b"
  shows "add_room a b \<Longrightarrow> rat_small (rat_val a + rat_val b) \<and> rat_small (rat_val a - rat_val b)"
    and "mul_room a b \<Longrightarrow> rat_small (rat_val a * rat_val b)"
    and "div_room a b \<Longrightarrow> rat_small (rat_val a / rat_val b)"
  using wf_rat_parts(5) [OF assms(1)] wf_rat_parts(5) [OF assms(2)]
  by (auto simp: add_room_def mul_room_def div_room_def rat_val_def intro!: rat_small_Fract)

lemma copyable_diff_comm: "copyable (x - y) \<longleftrightarrow> copyable (y - x)"
  by (metis copyable_minus(1) minus_diff_eq)

interpretation radd: comm_rat_binop cl_ratio_add add_room "(+)"
  by unfold_locales
    (auto simp: add_room_def ratio_add_correct small_parts add.commute mult.commute copyable_diff_comm)

interpretation rsub: rat_binop cl_ratio_sub add_room "(-)"
  by unfold_locales (auto simp: add_room_def ratio_sub_correct small_parts)

interpretation rmul: comm_rat_binop cl_ratio_mul mul_room "(*)"
  by unfold_locales (auto simp: mul_room_def ratio_mul_correct small_parts mult.commute)

interpretation rdiv: rat_binop cl_ratio_div "\<lambda>a b. div_room a b \<and> rat_val b \<noteq> 0" "(/)"
  by unfold_locales (auto simp: div_room_def ratio_div_correct small_parts)

section \<open>Properties\<close>

text \<open>
  C24: Addition, subtraction, multiplication and division of rationals (fractions and
  integers in any mix) are exact, and return the object in lowest terms with a positive
  denominator, an integer when the denominator is one; dividing by zero signals the
  division error.  The cross products must stay within what the integer negation can copy.
\<close>

theorem ratio_field_exact:
  assumes "wf_rat a" "wf_rat b"
  shows "(add_room a b \<longrightarrow> cl_ratio_add a b = rat_obj (rat_val a + rat_val b)
      \<and> cl_ratio_sub a b = rat_obj (rat_val a - rat_val b))
    \<and> (mul_room a b \<longrightarrow> cl_ratio_mul a b = rat_obj (rat_val a * rat_val b))
    \<and> (div_room a b \<longrightarrow> cl_ratio_div a b =
        (if rat_val b = 0 then Inl Div_Zero else rat_obj (rat_val a / rat_val b)))"
  using assms by (auto simp: radd.op_exact rsub.op_exact rmul.op_exact ratio_div_correct div_room_def)

lemma small_fracs:
  "wf_rat (Ratio (mkfix 1) (mkfix 2))" "wf_rat (Ratio (mkfix 1) (mkfix 6))"
  "rat_val (Ratio (mkfix 1) (mkfix 2)) = Fract 1 2" "rat_val (Ratio (mkfix 1) (mkfix 6)) = Fract 1 6"
  "add_room (Ratio (mkfix 1) (mkfix 2)) (Ratio (mkfix 1) (mkfix 6))"
  by (simp_all add: fixnum_val_make_wraps copyable_small rat_val_def num_val_def den_val_def add_room_def)

theorem ratio_field_exact_witness:
  "cl_ratio_add (Ratio (mkfix 1) (mkfix 2)) (Ratio (mkfix 1) (mkfix 6)) = rat_obj (Fract 2 3)"
proof -
  have "Fract 1 2 + Fract 1 6 = Fract 2 3" by (simp add: eq_rat)
  then show ?thesis using ratio_field_exact [OF small_fracs(1,2)] small_fracs(3-5) by simp
qed

text \<open>
  Every operation on well-formed rationals that has room yields a well-formed rational:
  lowest terms, denominator above one in a fraction object, and the object of a value is
  unique.
\<close>

theorem ratio_invariant_preserved:
  assumes "wf_rat a" "wf_rat b"
  shows "(add_room a b \<longrightarrow> (\<exists>v. cl_ratio_add a b = Inr v \<and> wf_rat v) \<and> (\<exists>v. cl_ratio_sub a b = Inr v \<and> wf_rat v))
    \<and> (mul_room a b \<longrightarrow> (\<exists>v. cl_ratio_mul a b = Inr v \<and> wf_rat v))
    \<and> (div_room a b \<and> rat_val b \<noteq> 0 \<longrightarrow> (\<exists>v. cl_ratio_div a b = Inr v \<and> wf_rat v))
    \<and> (rat_val a = rat_val b \<longleftrightarrow> a = b)"
proof -
  have "rat_val a = rat_val b \<longleftrightarrow> a = b"
    using rat_obj_of_wf(1) [OF assms(1)] rat_obj_of_wf(1) [OF assms(2)] by (metis sum.inject(2))
  then show ?thesis
    using radd.op_wf [OF assms] rsub.op_wf [OF assms] rmul.op_wf [OF assms] rdiv.op_wf [OF assms] by blast
qed

text \<open>
  The order of rationals: comparison by cross multiplication decides the order of the
  values, the sign tests the sign, negation and absolute value are exact, and equality of
  two fraction objects component by component is equality of the values.
\<close>

theorem ratio_order_exact:
  assumes "wf_rat a" "wf_rat b"
  shows "(add_room a b \<longrightarrow> cl_ratio_compare a b =
        Inr (if rat_val a < rat_val b then -1 else if rat_val a = rat_val b then 0 else 1))
    \<and> cl_ratio_negate a = rat_obj (- rat_val a) \<and> cl_ratio_abs a = rat_obj \<bar>rat_val a\<bar>
    \<and> (cl_ratio_zerop a \<longleftrightarrow> rat_val a = 0) \<and> cl_ratio_plusp a = Inr (0 < rat_val a)
    \<and> cl_ratio_minusp a = Inr (rat_val a < 0)
    \<and> (CL_RATIO_P a \<and> CL_RATIO_P b \<longrightarrow> cl_ratio_equal a b = Inr (rat_val a = rat_val b))"
  using ratio_compare_correct [OF assms] ratio_unary_correct [OF assms(1)] ratio_equal_correct(1) [OF assms]
  by (simp add: add_room_def)

end
