(* ===== verification/Bitops.thy ===== *)
theory Bitops
  imports Integer_Ops
begin

text \<open>
  The bitwise operations of \<open>core/bignum.c\<close> on integers: conversion to two's complement
  limbs and back, the limb-wise logical operations, bit counting and bit testing.  The
  specification is the bit structure of the mathematical integers, with infinitely many
  sign bits.
\<close>

section \<open>Definitions\<close>

text \<open>Invert and add one: \<open>val = (uint32_t)(buf[i] ^ 0xFFFF) + carry\<close>.\<close>

fun complement_loop :: "u16 list \<Rightarrow> u32 \<Rightarrow> u16 list" where
  "complement_loop [] carry = []"
| "complement_loop (x # xs) carry =
     (let val = ucast (x XOR 0xFFFF) + carry
      in ucast (val AND 0xFFFF) # complement_loop xs (drop_bit 16 val))"

definition to_twos_complement :: "cl_val \<Rightarrow> nat \<Rightarrow> (u16 list \<times> bool) res" where
  "to_twos_complement n buf_size =
     bindr (to_limbs n) (\<lambda>(nl, n_sign).
       let n_len = (if length nl + 1 > buf_size then buf_size - 1 else length nl);
           buf = take n_len nl @ [0]
       in Inr (if n_sign then complement_loop buf 1 else buf, n_sign))"

definition from_twos_complement :: "u16 list \<Rightarrow> cl_val res" where
  "from_twos_complement buf =
     (let negative = (last buf AND 0x8000 \<noteq> 0)
      in if \<not> negative then bignum_from_limbs (strip_zeros buf) False
         else bignum_from_limbs (strip_zeros (complement_loop buf 1)) True)"

datatype BignumBitop = BITOP_AND | BITOP_IOR | BITOP_XOR

fun bitop_limb :: "BignumBitop \<Rightarrow> u16 \<Rightarrow> u16 \<Rightarrow> u16" where
  "bitop_limb BITOP_AND av bv = av AND bv"
| "bitop_limb BITOP_IOR av bv = av OR bv"
| "bitop_limb BITOP_XOR av bv = av XOR bv"

definition bignum_bitop :: "cl_val \<Rightarrow> cl_val \<Rightarrow> BignumBitop \<Rightarrow> string \<Rightarrow> cl_val res" where
  "bignum_bitop a b bop name =
     bindr (check_integer a name) (\<lambda>_. bindr (check_integer b name) (\<lambda>_.
     bindr (to_limbs a) (\<lambda>(la, _). bindr (to_limbs b) (\<lambda>(lb, _).
       let need = (if length la > length lb then length la else length lb) + 1
       in bindr (to_twos_complement a need) (\<lambda>(ba, a_neg).
          bindr (to_twos_complement b need) (\<lambda>(bb, b_neg).
            let max_len = (if length ba > length bb then length ba else length bb);
                a_ext = (if a_neg then 0xFFFF else 0);
                b_ext = (if b_neg then 0xFFFF else 0)
            in from_twos_complement
                 (map (\<lambda>i. bitop_limb bop (if i < length ba then ba ! i else a_ext)
                                          (if i < length bb then bb ! i else b_ext)) [0..<max_len])))))))"

definition integer_logand :: "cl_val \<Rightarrow> cl_val \<Rightarrow> cl_val res" where
  "integer_logand a b =
     (if fixnum_p a \<and> fixnum_p b then Inr (mkfix (fixnum_val a AND fixnum_val b))
      else bignum_bitop a b BITOP_AND ''LOGAND'')"

definition integer_logior :: "cl_val \<Rightarrow> cl_val \<Rightarrow> cl_val res" where
  "integer_logior a b =
     (if fixnum_p a \<and> fixnum_p b then Inr (mkfix (fixnum_val a OR fixnum_val b))
      else bignum_bitop a b BITOP_IOR ''LOGIOR'')"

definition integer_logxor :: "cl_val \<Rightarrow> cl_val \<Rightarrow> cl_val res" where
  "integer_logxor a b =
     (if fixnum_p a \<and> fixnum_p b then Inr (mkfix (fixnum_val a XOR fixnum_val b))
      else bignum_bitop a b BITOP_XOR ''LOGXOR'')"

definition integer_lognot :: "cl_val \<Rightarrow> cl_val res" where
  "integer_lognot a = bindr (check_integer a ''LOGNOT'') (\<lambda>_. integer_sub (mkfix (-1)) a)"

text \<open>\<open>while (v) { v &= v - 1; c++; }\<close>, at both widths the source uses.\<close>

function popcount_loop :: "'a::len word \<Rightarrow> nat \<Rightarrow> nat" where
  "popcount_loop v c = (if v = 0 then c else popcount_loop (v AND (v - 1)) (Suc c))"
  by pat_completeness auto
termination
proof (relation "measure (\<lambda>(v, c). unat v)")
  fix v :: "'a word" and c :: nat
  assume "v \<noteq> 0"
  moreover have "unat (v AND (v - 1)) \<le> unat (v - 1)" by (simp only: word_le_nat_alt [symmetric] word_and_le1)
  ultimately show "((v AND (v - 1), Suc c), v, c) \<in> measure (\<lambda>(v, c). unat v)"
    using unat_minus_one [of v] unat_gt_0 [of v] by simp
qed simp

declare popcount_loop.simps [simp del]

definition popcount16 :: "u16 \<Rightarrow> nat" where
  "popcount16 v = popcount_loop v 0"

text \<open>The streamed subtraction \<open>|n| - 1\<close> is the borrow loop \<open>sub_loop2\<close>.\<close>

fun integer_logcount :: "cl_val \<Rightarrow> nat res" where
  "integer_logcount (Imm w) =
     (if CL_FIXNUM_P w then
        let val = CL_FIXNUM_VAL w
        in Inr (popcount_loop (word_of_int (if val < 0 then NOT val else val) :: u32) 0)
      else Inl Undefined)"
| "integer_logcount (Bignum bn) =
     Inr (sum_list (map popcount16 (if \<not> bn_sign bn then bn_limbs bn else sub_loop2 (bn_limbs bn) 1)))"
| "integer_logcount _ = Inl Undefined"

definition integer_logbitp :: "int \<Rightarrow> cl_val \<Rightarrow> bool res" where
  "integer_logbitp index integer =
     (if index < 0 then Inr False
      else case integer of
        Imm w \<Rightarrow>
          if CL_FIXNUM_P w then
            (let val = CL_FIXNUM_VAL w
             in if index \<ge> 31 then Inr (val < 0) else Inr (drop_bit (nat index) val AND 1 \<noteq> 0))
          else Inl Undefined
      | Bignum bn \<Rightarrow>
          (let limb_idx = nat index div 16; bit_idx = nat index mod 16; limbs = bn_limbs bn
           in if \<not> bn_sign bn then
                (if limb_idx \<ge> length limbs then Inr False
                 else Inr (drop_bit bit_idx (limbs ! limb_idx) AND 1 \<noteq> 0))
              else if limb_idx \<ge> length limbs then Inr True
              else let val = last (sub_loop2 (take (limb_idx + 1) limbs) 1)
                   in Inr (drop_bit bit_idx (NOT (uint val)) AND 1 \<noteq> 0))
      | _ \<Rightarrow> Inl Undefined)"

section \<open>Lemmas\<close>

lemma bit_lval:
  "bit (lval (xs :: u16 list)) i \<longleftrightarrow> i < 16 * length xs \<and> bit (xs ! (i div 16)) (i mod 16)"
proof (induction xs arbitrary: i)
  case (Cons x xs)
  have "unat x < 2 ^ 16" using unat_lt16 [of x] by simp
  from bit_split_nat [OF this, of "lval xs" i] show ?case
    using Cons [of "i - 16"]
    by (cases "i < 16") (auto simp: bit_unsigned_iff le_div_geq le_mod_geq)
qed simp

definition rep :: "u16 list \<Rightarrow> int \<Rightarrow> bool" where
  "rep xs z \<longleftrightarrow> (\<forall>i < 16 * length xs. bit (xs ! (i div 16)) (i mod 16) = bit z i)"

lemma rep_iff: "rep xs z \<longleftrightarrow> int (lval xs) = take_bit (16 * length xs) z"
proof
  assume "rep xs z"
  then show "int (lval xs) = take_bit (16 * length xs) z"
    by (intro bit_eqI) (auto simp: rep_def bit_take_bit_iff bit_of_nat_iff_bit bit_lval)
next
  assume e: "int (lval xs) = take_bit (16 * length xs) z"
  have "bit (int (lval xs)) i = bit (take_bit (16 * length xs) z) i" for i using e by simp
  then show "rep xs z" by (auto simp: rep_def bit_take_bit_iff bit_of_nat_iff_bit bit_lval)
qed

lemma unat_xor_ones: "unat (x XOR 0xFFFF :: u16) = 65535 - unat x"
proof -
  have one: "(0xFFFF :: u16) = - 1" by simp
  have "x XOR (- 1) = NOT x" by (rule bit.xor_one_right)
  also have "\<dots> = - 1 - x" by (simp add: not_eq_complement)
  finally have "x XOR 0xFFFF = 0xFFFF - x" unfolding one .
  moreover have "unat (0xFFFF - x) = 65535 - unat x"
    using unat_sub [of x "0xFFFF"] unat_le16 [of x] by (simp add: word_le_nat_alt)
  ultimately show ?thesis by simp
qed

lemma complement_loop_length [simp]: "length (complement_loop xs c) = length xs"
  by (induction xs arbitrary: c) (simp_all add: Let_def)

lemma complement_loop_correct:
  "unat c \<le> 1 \<Longrightarrow> \<exists>d. lval (complement_loop xs c) + 2 ^ (16 * length xs) * d + lval xs + 1
    = 2 ^ (16 * length xs) + unat c"
proof (induction xs arbitrary: c)
  case Nil
  then show ?case by (intro exI [of _ "unat c"]) simp
next
  case (Cons x xs)
  define v where "v = (ucast (x XOR 0xFFFF) + c :: u32)"
  have v: "unat v = (65535 - unat x) + unat c"
    unfolding v_def by (subst unat_add_small) (use Cons.prems in \<open>simp_all add: unat_xor_ones\<close>)
  have "unat (drop_bit 16 v) \<le> 1" using v Cons.prems by (simp add: unat_hi16)
  from Cons.IH [OF this] obtain d where d: "lval (complement_loop xs (drop_bit 16 v)) + 2 ^ (16 * length xs) * d + lval xs + 1
    = 2 ^ (16 * length xs) + unat (drop_bit 16 v)" by blast
  let ?r = "lval (complement_loop xs (drop_bit 16 v))" and ?K = "2 ^ (16 * length xs) :: nat"
  have "lval (complement_loop (x # xs) c) = unat v mod 65536 + 65536 * ?r"
    by (simp add: v_def Let_def unat_lo16)
  moreover have "unat v mod 65536 + 65536 * (unat v div 65536) = unat v" by simp
  moreover have "65536 * (?r + ?K * d + lval xs + 1) = 65536 * (?K + unat v div 65536)"
    using d by (simp only: unat_hi16)
  then have "65536 * ?r + (65536 * ?K) * d + 65536 * lval xs + 65536 = 65536 * ?K + 65536 * (unat v div 65536)"
    by (simp only: add_mult_distrib2 mult.assoc)
  moreover have "unat x \<le> 65535" by (rule unat_le16)
  ultimately have "lval (complement_loop (x # xs) c) + (65536 * ?K) * d + (unat x + 65536 * lval xs) + 1
      = 65536 * ?K + unat c" using v by linarith
  then show ?case by (intro exI [of _ d]) (simp add: power_add)
qed

lemma lval_complement:
  assumes "lval xs \<noteq> 0"
  shows "lval (complement_loop xs 1) = 2 ^ (16 * length xs) - lval xs"
proof -
  let ?K = "2 ^ (16 * length xs) :: nat"
  obtain d where d: "lval (complement_loop xs 1) + ?K * d + lval xs + 1 = ?K + unat (1 :: u32)"
    using complement_loop_correct [of 1 xs] by auto
  have "lval xs < ?K" using lval_bound [of xs] by simp
  have "d = 0"
  proof (rule ccontr)
    assume "d \<noteq> 0"
    then have "?K \<le> ?K * d" by simp
    then show False using d assms unfolding unat_1 by linarith
  qed
  then show ?thesis using d by simp
qed

lemma twos_complement_correct:
  assumes "wf_int n" "to_limbs n = Inr (nl, s)" "length nl + 1 \<le> sz"
  shows "\<exists>xs. to_twos_complement n sz = Inr (xs, int_val n < 0) \<and> length xs = length nl + 1 \<and> rep xs (int_val n)
    \<and> - (2 ^ (16 * length nl)) \<le> int_val n \<and> int_val n < 2 ^ (16 * length nl)"
proof -
  have l: "s \<longleftrightarrow> int_val n < 0" "int (lval nl) = \<bar>int_val n\<bar>"
    using to_limbs_correct [OF assms(1)] assms(2) by auto
  let ?k = "16 * length nl" and ?buf = "nl @ [0]" and ?z = "int_val n"
  have bd: "\<bar>?z\<bar> < 2 ^ ?k" using int_lval_bound [of nl] l(2) by simp
  have pw: "(2 :: int) ^ ?k \<le> 2 ^ (16 * length ?buf)" by (intro power_increasing) simp_all
  have lb: "lval ?buf = lval nl" by (simp add: lval_append)
  show ?thesis
  proof (cases "?z < 0")
    case False
    have "take_bit (16 * length ?buf) ?z = ?z" using bd pw False by (intro take_bit_int_eq_self) linarith+
    then have "rep ?buf ?z" unfolding rep_iff lb using l False by simp
    then show ?thesis using assms l False bd by (simp add: to_twos_complement_def)
  next
    case True
    then have nz: "lval ?buf \<noteq> 0" using l lb by auto
    have "lval ?buf < 2 ^ (16 * length ?buf)" using lval_bound [of ?buf] by simp
    then have "int (lval (complement_loop ?buf 1)) = 2 ^ (16 * length ?buf) - int (lval ?buf)"
      unfolding lval_complement [OF nz] by (simp add: of_nat_diff)
    also have "\<dots> = 2 ^ (16 * length ?buf) + ?z" using l lb True by simp
    also have "\<dots> = take_bit (16 * length ?buf) ?z"
    proof -
      have "(2 ^ (16 * length ?buf) + ?z) mod 2 ^ (16 * length ?buf) = 2 ^ (16 * length ?buf) + ?z"
        using bd pw True by (intro mod_pos_pos_trivial) linarith+
      then show ?thesis unfolding take_bit_eq_mod by (metis mod_add_self1)
    qed
    finally have "rep (complement_loop ?buf 1) ?z" unfolding rep_iff by simp
    then show ?thesis using assms l True bd by (simp add: to_twos_complement_def)
  qed
qed


lemma sign_bits:
  fixes z :: int
  assumes "- (2 ^ n) \<le> z" "z < 2 ^ n" "n \<le> i"
  shows "bit z i \<longleftrightarrow> z < 0"
proof -
  have e: "signed_take_bit n z = z" using assms(1,2) by (rule signed_take_bit_int_eq_self)
  have "bit z i = bit (signed_take_bit n z) i" using e by simp
  also have "\<dots> = bit z n" using assms(3) by (simp add: bit_signed_take_bit_iff min_def)
  also have "\<dots> \<longleftrightarrow> signed_take_bit n z < 0" by (simp add: signed_take_bit_negative_iff)
  finally show ?thesis using e by simp
qed

lemma bit_top16: "bit (0x8000 :: u16) n \<longleftrightarrow> n = 15"
proof -
  have "(0x8000 :: u16) = 2 ^ 15" by simp
  then show ?thesis by (simp only: bit_exp_iff possible_bit_word) auto
qed

lemma from_twos_correct:
  assumes "rep xs z" "xs \<noteq> []" "- (2 ^ (16 * length xs - 1)) \<le> z" "z < 2 ^ (16 * length xs - 1)"
  shows "from_twos_complement xs = int_obj z"
proof -
  let ?L = "16 * length xs"
  have L: "?L - 1 < ?L" using assms(2) by simp
  have ix: "(?L - 1) div 16 = length xs - 1" "(?L - 1) mod 16 = 15" using assms(2) by (cases xs; simp; presburger)+
  have "last xs AND 0x8000 \<noteq> 0 \<longleftrightarrow> bit (last xs) 15"
  proof -
    have "last xs AND 0x8000 = 0 \<longleftrightarrow> (\<forall>n. \<not> bit (last xs AND 0x8000) n)" by (auto intro: bit_eqI)
    then show ?thesis by (simp only: bit_and_iff bit_top16) auto
  qed
  also have "\<dots> \<longleftrightarrow> bit z (?L - 1)"
    unfolding last_conv_nth [OF assms(2)] using assms(1) [unfolded rep_def, rule_format, OF L] ix by (simp only:)
  also have "\<dots> \<longleftrightarrow> z < 0" by (rule sign_bits [OF assms(3,4) order_refl])
  finally have neg: "last xs AND 0x8000 \<noteq> 0 \<longleftrightarrow> z < 0" .
  have lv: "int (lval xs) = z mod 2 ^ ?L" using assms(1) by (simp add: rep_iff take_bit_eq_mod)
  have pw: "(2::int) ^ (?L - 1) < 2 ^ ?L" using L by (intro power_strict_increasing) simp_all
  show ?thesis
  proof (cases "z < 0")
    case False
    then have "int (lval xs) = z" unfolding lv using assms(4) pw by (intro mod_pos_pos_trivial) linarith+
    then show ?thesis using False neg assms(2) by (simp add: from_twos_complement_def from_strip)
  next
    case True
    have "(z + 2 ^ ?L) mod 2 ^ ?L = z + 2 ^ ?L" using True assms(3) pw by (intro mod_pos_pos_trivial) linarith+
    then have m: "int (lval xs) = z + 2 ^ ?L" unfolding lv by simp
    then have "0 < int (lval xs)" using assms(3) pw by linarith
    then have nz: "lval xs \<noteq> 0" by simp
    have "lval xs < 2 ^ ?L" using lval_bound [of xs] by simp
    then have "int (lval (complement_loop xs 1)) = - z"
      unfolding lval_complement [OF nz] using m by (simp add: of_nat_diff)
    moreover have "complement_loop xs 1 \<noteq> []" using assms(2) by (metis complement_loop_length length_0_conv)
    ultimately show ?thesis using True neg by (simp add: from_twos_complement_def from_strip)
  qed
qed

fun bitop_int :: "BignumBitop \<Rightarrow> int \<Rightarrow> int \<Rightarrow> int" where
  "bitop_int BITOP_AND a b = a AND b"
| "bitop_int BITOP_IOR a b = a OR b"
| "bitop_int BITOP_XOR a b = a XOR b"

lemma bitop_bits:
  fixes x y :: u16
  assumes "j < 16" "bit x j = bit a i" "bit y j = bit b i"
  shows "bit (bitop_limb bop x y) j = bit (bitop_int bop a b) i"
  using assms by (cases bop) (simp_all add: bit_and_iff bit_or_iff bit_xor_iff)

lemma signed_bitop:
  "signed_take_bit n (bitop_int bop a b) = bitop_int bop (signed_take_bit n a) (signed_take_bit n b)"
  by (rule bit_eqI) (cases bop; simp add: bit_signed_take_bit_iff bit_and_iff bit_or_iff bit_xor_iff)

lemma bitop_range:
  assumes "- (2 ^ n) \<le> a" "a < 2 ^ n" "- (2 ^ n) \<le> b" "b < 2 ^ n"
  shows "- (2 ^ n) \<le> bitop_int bop a b" "bitop_int bop a b < 2 ^ n"
proof -
  have "signed_take_bit n a = a" "signed_take_bit n b = b"
    using assms by (simp_all add: signed_take_bit_int_eq_self)
  then have "signed_take_bit n (bitop_int bop a b) = bitop_int bop a b"
    using signed_bitop [of n bop a b] by simp
  then show "- (2 ^ n) \<le> bitop_int bop a b" "bitop_int bop a b < 2 ^ n"
    by (simp_all add: signed_take_bit_int_eq_self_iff)
qed


lemma bignum_bitop_correct:
  assumes "wf_int a" "wf_int b"
  shows "bignum_bitop a b bop name = int_obj (bitop_int bop (int_val a) (int_val b))"
proof -
  obtain la where la: "to_limbs a = Inr (la, int_val a < 0)" "norm_limbs la" using to_limbs_correct [OF assms(1)] by blast
  obtain lb where lb: "to_limbs b = Inr (lb, int_val b < 0)" "norm_limbs lb" using to_limbs_correct [OF assms(2)] by blast
  define need where "need = (if length la > length lb then length la else length lb) + 1"
  have "length la + 1 \<le> need" "length lb + 1 \<le> need" by (simp_all add: need_def)
  then obtain xs ys where
    xs: "to_twos_complement a need = Inr (xs, int_val a < 0)" "length xs = length la + 1" "rep xs (int_val a)"
      "- (2 ^ (16 * length la)) \<le> int_val a" "int_val a < 2 ^ (16 * length la)" and
    ys: "to_twos_complement b need = Inr (ys, int_val b < 0)" "length ys = length lb + 1" "rep ys (int_val b)"
      "- (2 ^ (16 * length lb)) \<le> int_val b" "int_val b < 2 ^ (16 * length lb)"
    using twos_complement_correct [OF assms(1) la(1)] twos_complement_correct [OF assms(2) lb(1)] by meson
  define L where "L = (if length xs > length ys then length xs else length ys)"
  define pad where "pad = (\<lambda>(zs :: u16 list) (z :: int) i. if i < length zs then zs ! i else if z < 0 then 0xFFFF else 0)"
  let ?r = "map (\<lambda>i. bitop_limb bop (pad xs (int_val a) i) (pad ys (int_val b) i)) [0..<L]"
  let ?z = "bitop_int bop (int_val a) (int_val b)"
  have run: "bignum_bitop a b bop name = from_twos_complement ?r"
    by (simp only: bignum_bitop_def check_integer_wf [OF assms(1)] check_integer_wf [OF assms(2)]
        la(1) lb(1) bindr_simps prod.case Let_def need_def [symmetric] xs(1) ys(1) L_def [symmetric] pad_def)
  have padbit: "bit (pad zs z (i div 16)) (i mod 16) = bit z i"
    if "rep zs z" "- (2 ^ (16 * k)) \<le> z" "z < 2 ^ (16 * k)" "length zs = k + 1" for zs z i k
  proof (cases "i < 16 * length zs")
    case True
    then have "i div 16 < length zs" by (simp add: less_mult_imp_div_less mult.commute)
    then show ?thesis using that(1) True by (simp add: rep_def pad_def)
  next
    case False
    then have "length zs \<le> i div 16" by simp
    moreover have "bit z i \<longleftrightarrow> z < 0" using that False by (intro sign_bits [of "16 * k"]) simp_all
    moreover have "bit (0xFFFF :: u16) (i mod 16)"
    proof -
      have "bit (mask 16 :: u16) (i mod 16)" by (simp add: bit_mask_iff)
      then show ?thesis by (simp add: mask_eq_exp_minus_1)
    qed
    ultimately show ?thesis by (simp add: pad_def)
  qed
  have "rep ?r ?z" unfolding rep_def
  proof (intro allI impI)
    fix i assume "i < 16 * length ?r"
    then have "i div 16 < L" by (simp add: less_mult_imp_div_less mult.commute)
    moreover have "bit (bitop_limb bop (pad xs (int_val a) (i div 16)) (pad ys (int_val b) (i div 16))) (i mod 16) = bit ?z i"
      by (rule bitop_bits) (use padbit [OF xs(3,4,5,2)] padbit [OF ys(3,4,5,2)] in simp_all)
    ultimately show "bit (?r ! (i div 16)) (i mod 16) = bit ?z i" by simp
  qed
  moreover have "?r \<noteq> []" using xs(2) ys(2) by (auto simp: L_def)
  moreover have "- (2 ^ (16 * length ?r - 1)) \<le> ?z" "?z < 2 ^ (16 * length ?r - 1)"
  proof -
    have le: "16 * length la \<le> 16 * L - 1" "16 * length lb \<le> 16 * L - 1" using xs(2) ys(2) by (simp_all add: L_def)
    have "(2::int) ^ (16 * length la) \<le> 2 ^ (16 * L - 1)" "(2::int) ^ (16 * length lb) \<le> 2 ^ (16 * L - 1)"
      using le by (intro power_increasing; simp)+
    then have "- (2 ^ (16 * L - 1)) \<le> int_val a" "int_val a < 2 ^ (16 * L - 1)"
      "- (2 ^ (16 * L - 1)) \<le> int_val b" "int_val b < 2 ^ (16 * L - 1)" using xs(4,5) ys(4,5) by linarith+
    from bitop_range [OF this, of bop] show "- (2 ^ (16 * length ?r - 1)) \<le> ?z" "?z < 2 ^ (16 * length ?r - 1)"
      by simp_all
  qed
  ultimately show ?thesis unfolding run by (rule from_twos_correct)
qed

lemma fixnum_bitop_range:
  assumes "in_fixnum_range a" "in_fixnum_range b"
  shows "in_fixnum_range (bitop_int bop a b)"
  using bitop_range [of 30 a b bop] assms by (simp add: in_range_bounds)

lemma integer_bitops_correct:
  assumes "wf_int a" "wf_int b"
  shows "integer_logand a b = int_obj (int_val a AND int_val b)"
    and "integer_logior a b = int_obj (int_val a OR int_val b)"
    and "integer_logxor a b = int_obj (int_val a XOR int_val b)"
    and "integer_lognot a = int_obj (NOT (int_val a))"
proof -
  note f = fixnum_p_val [of a] fixnum_p_val [of b]
  note big = bignum_bitop_correct [OF assms]
  show "integer_logand a b = int_obj (int_val a AND int_val b)"
    using f fixnum_bitop_range [of "int_val a" "int_val b" BITOP_AND] big [of BITOP_AND]
    by (auto simp: integer_logand_def int_obj_fix)
  show "integer_logior a b = int_obj (int_val a OR int_val b)"
    using f fixnum_bitop_range [of "int_val a" "int_val b" BITOP_IOR] big [of BITOP_IOR]
    by (auto simp: integer_logior_def int_obj_fix)
  show "integer_logxor a b = int_obj (int_val a XOR int_val b)"
    using f fixnum_bitop_range [of "int_val a" "int_val b" BITOP_XOR] big [of BITOP_XOR]
    by (auto simp: integer_logxor_def int_obj_fix)
  have "NOT (int_val a) = - 1 - int_val a" by (simp add: not_eq_complement)
  then show "integer_lognot a = int_obj (NOT (int_val a))"
    using integer_sub_correct [OF wf_mkfix [of "-1"] assms(1)] assms(1) unfolding fixnum_two
    by (simp add: integer_lognot_def)
qed


fun popn :: "nat \<Rightarrow> nat" where
  "popn n = (if n = 0 then 0 else n mod 2 + popn (n div 2))"

declare popn.simps [simp del]

lemma popn_0 [simp]: "popn 0 = 0"
  by (simp add: popn.simps)

lemma popn_double: "popn (2 * n) = popn n" "popn (Suc (2 * n)) = Suc (popn n)"
proof -
  show "popn (2 * n) = popn n"
  proof (cases "n = 0")
    case False
    then show ?thesis by (subst popn.simps) simp
  qed simp
  show "popn (Suc (2 * n)) = Suc (popn n)" by (subst popn.simps) simp
qed

lemma popn_clear_lowest: "0 < n \<Longrightarrow> Suc (popn (n AND (n - 1))) = popn n"
proof (induction n rule: less_induct)
  case (less n)
  show ?case
  proof (cases "even n")
    case True
    then obtain m where m: "n = 2 * m" by blast
    then have m0: "0 < m" using less.prems by simp
    have "n AND (n - 1) = 2 * (m AND (m - 1))"
    proof -
      have "n - 1 = Suc (2 * (m - 1))" using m m0 by simp
      then show ?thesis unfolding m by (subst and_rec) simp
    qed
    then show ?thesis using less.IH [of m] m m0 by (simp add: popn_double)
  next
    case False
    then obtain m where m: "n = Suc (2 * m)" using oddE by fastforce
    have "n AND (n - 1) = 2 * m" unfolding m by (subst and_rec) simp
    then show ?thesis using m by (simp add: popn_double)
  qed
qed

lemma popcount_loop_correct: "popcount_loop v c = popn (unat v) + c"
proof (induction v c rule: popcount_loop.induct)
  case (1 v c)
  show ?case
  proof (cases "v = 0")
    case True
    then show ?thesis by (simp add: popcount_loop.simps)
  next
    case False
    then have "0 < unat v" by (simp add: unat_gt_0)
    moreover have "unat (v AND (v - 1)) = unat v AND (unat v - 1)"
      using False by (simp add: unsigned_and_eq unat_minus_one)
    ultimately show ?thesis using 1 [OF False] popn_clear_lowest [of "unat v"] False
      by (subst popcount_loop.simps) simp
  qed
qed

lemma popn_split: "a < 2 ^ k \<Longrightarrow> popn (a + 2 ^ k * b) = popn a + popn b"
proof (induction k arbitrary: a)
  case (Suc k)
  obtain m where m: "a = 2 * m \<or> a = Suc (2 * m)" by (metis evenE oddE Suc_eq_plus1)
  then have "m < 2 ^ k" using Suc.prems by auto
  note IH = Suc.IH [OF this]
  have "2 * m + 2 ^ Suc k * b = 2 * (m + 2 ^ k * b)" "Suc (2 * m) + 2 ^ Suc k * b = Suc (2 * (m + 2 ^ k * b))" by simp_all
  then show ?case using m IH by (auto simp only: popn_double)
qed simp

lemma popcount_limbs: "sum_list (map popcount16 xs) = popn (lval xs)"
proof (induction xs)
  case (Cons x xs)
  have "unat x < 2 ^ 16" using unat_lt16 [of x] by simp
  from popn_split [OF this, of "lval xs"] show ?case
    using Cons by (simp add: popcount16_def popcount_loop_correct)
qed simp

lemma lval_pred:
  assumes "lval xs \<noteq> 0"
  shows "lval (sub_loop2 xs 1) = lval xs - 1" "length (sub_loop2 xs 1) = length xs"
proof -
  let ?r = "sub_loop2 xs 1"
  from sub_loop2_correct [of 1 xs] obtain k where
    len: "length ?r = length xs" and
    k: "int (lval ?r) = (int (lval xs) - 1) + 2 ^ (16 * length xs) * k" by auto
  have "int (lval ?r) < 2 ^ (16 * length xs)" "int (lval xs) < 2 ^ (16 * length xs)"
    using int_lval_bound [of ?r] int_lval_bound [of xs] len by simp_all
  then have "int (lval ?r) = int (lval xs) - 1"
    using int_unique_residue [OF k] assms by linarith
  then show "lval ?r = lval xs - 1" using assms by linarith
  show "length ?r = length xs" by fact
qed

lemma integer_logcount_correct:
  assumes "wf_int v"
  shows "integer_logcount v = Inr (popn (nat (if int_val v < 0 then NOT (int_val v) else int_val v)))"
proof (cases v)
  case (Imm w)
  define u where "u = (if CL_FIXNUM_VAL w < 0 then NOT (CL_FIXNUM_VAL w) else CL_FIXNUM_VAL w)"
  have "0 \<le> u" "u < 4294967296"
    using in_range_wf [of w] by (auto simp: u_def in_range_bounds not_eq_complement)
  then have "int (unat (word_of_int u :: u32)) = u" by (simp add: uint_word_of_int)
  then have "unat (word_of_int u :: u32) = nat u" by linarith
  moreover have "integer_logcount v = Inr (popcount_loop (word_of_int u :: u32) 0)"
    unfolding Imm u_def using assms Imm by (simp only: integer_logcount.simps Let_def wf_int.simps if_True)
  ultimately show ?thesis unfolding Imm int_val.simps u_def [symmetric] by (simp add: popcount_loop_correct)
next
  case (Bignum bn)
  have "lval (bn_limbs bn) \<noteq> 0" using assms Bignum by (auto simp: in_range_bounds split: if_splits)
  then show ?thesis using Bignum lval_pred(1) [of "bn_limbs bn"]
    by (auto simp: popcount_limbs not_eq_complement nat_diff_distrib)
qed (use assms in simp_all)


lemma test_bit_word: "drop_bit n (x :: 'a::len word) AND 1 \<noteq> 0 \<longleftrightarrow> bit x n"
  by (simp add: and_one_eq bit_iff_odd_drop_bit odd_iff_mod_2_eq_one)

lemma test_bit_int: "drop_bit n (x :: int) AND 1 \<noteq> 0 \<longleftrightarrow> bit x n"
  by (simp add: and_one_eq bit_iff_odd_drop_bit odd_iff_mod_2_eq_one)

lemma sub_loop2_take: "sub_loop2 (take n xs) b = take n (sub_loop2 xs b)"
  by (induction xs arbitrary: n b) (simp_all add: take_Cons' Let_def)

lemma integer_logbitp_correct:
  assumes "wf_int v" "0 \<le> index"
  shows "integer_logbitp index v = Inr (bit (int_val v) (nat index))"
proof (cases v)
  case (Imm w)
  have "- (2 ^ 30) \<le> CL_FIXNUM_VAL w" "CL_FIXNUM_VAL w < 2 ^ 30"
    using in_range_wf [of w] by (simp_all add: in_range_bounds)
  from sign_bits [OF this, of "nat index"] show ?thesis
    using assms Imm by (auto simp: integer_logbitp_def Let_def test_bit_int)
next
  case (Bignum bn)
  let ?l = "bn_limbs bn" and ?i = "nat index"
  have nz: "lval ?l \<noteq> 0" using assms Bignum by (auto simp: in_range_bounds split: if_splits)
  have idx: "?i div 16 < length ?l \<longleftrightarrow> ?i < 16 * length ?l"
    by (simp add: div_less_iff_less_mult mult.commute)
  show ?thesis
  proof (cases "bn_sign bn")
    case False
    then have "bit (int_val v) ?i \<longleftrightarrow> bit (lval ?l) ?i" using Bignum by (simp add: bit_of_nat_iff_bit)
    then show ?thesis using False Bignum assms(2) idx
      by (auto simp: integer_logbitp_def Let_def test_bit_word bit_lval not_le)
  next
    case True
    let ?p = "sub_loop2 ?l 1"
    have "int_val v = NOT (int (lval ?p))"
      using True Bignum nz lval_pred(1) [OF nz] by (simp add: not_eq_complement of_nat_diff)
    then have bits: "bit (int_val v) ?i \<longleftrightarrow> \<not> bit (lval ?p) ?i"
      by (simp add: bit_not_iff bit_of_nat_iff_bit)
    show ?thesis
    proof (cases "?i div 16 < length ?l")
      case False
      then have "\<not> bit (lval ?p) ?i" using idx lval_pred(2) [OF nz] by (simp add: bit_lval)
      then show ?thesis using bits True False Bignum assms(2) by (simp add: integer_logbitp_def Let_def)
    next
      case lt: True
      then have "last (sub_loop2 (take (?i div 16 + 1) ?l) 1) = ?p ! (?i div 16)"
        unfolding sub_loop2_take using lval_pred(2) [OF nz] by (simp add: take_Suc_conv_app_nth)
      moreover have "bit (lval ?p) ?i \<longleftrightarrow> bit (?p ! (?i div 16)) (?i mod 16)"
        using lt idx lval_pred(2) [OF nz] by (simp add: bit_lval)
      ultimately show ?thesis using bits True lt Bignum assms(2)
        by (simp add: integer_logbitp_def Let_def test_bit_int bit_not_iff bit_unsigned_iff)
    qed
  qed
qed (use assms in simp_all)


lemma popn_card: "finite {i. bit n i} \<and> popn n = card {i. bit n i}"
proof (induction n rule: popn.induct)
  case (1 n)
  show ?case
  proof (cases "n = 0")
    case False
    note IH = 1 [OF False]
    have split: "{i. bit n i} = (if odd n then {0} else {}) \<union> Suc ` {i. bit (n div 2) i}"
    proof (rule set_eqI)
      fix i show "i \<in> {i. bit n i} \<longleftrightarrow> i \<in> (if odd n then {0} else {}) \<union> Suc ` {i. bit (n div 2) i}"
        by (cases i) (auto simp: bit_0 bit_Suc)
    qed
    have "card (Suc ` {i. bit (n div 2) i}) = card {i. bit (n div 2) i}" by (simp add: card_image)
    then show ?thesis using IH False unfolding split
      by (subst popn.simps) (auto simp: mod2_eq_if)
  qed simp
qed

interpretation ilogand: comm_int_binop integer_logand "\<lambda>_ _. True" "(AND)"
  by unfold_locales (simp_all add: integer_bitops_correct and.commute)

interpretation ilogior: comm_int_binop integer_logior "\<lambda>_ _. True" "(OR)"
  by unfold_locales (simp_all add: integer_bitops_correct or.commute)

interpretation ilogxor: comm_int_binop integer_logxor "\<lambda>_ _. True" "(XOR)"
  by unfold_locales (simp_all add: integer_bitops_correct xor.commute)

section \<open>Properties\<close>

text \<open>
  C30: The logical operations act on the infinite two's complement of the integers, for
  operands of any sign and any number of limbs, and return the canonical representation.
\<close>

theorem bitops_exact:
  assumes "wf_int a" "wf_int b"
  shows "integer_logand a b = int_obj (int_val a AND int_val b)
    \<and> integer_logior a b = int_obj (int_val a OR int_val b)
    \<and> integer_logxor a b = int_obj (int_val a XOR int_val b)
    \<and> integer_lognot a = int_obj (NOT (int_val a))"
  using integer_bitops_correct [OF assms] by simp

theorem bitops_exact_witness:
  "integer_logand (Bignum \<lparr> bn_sign = True, bn_limbs = [2, 0, 1] \<rparr>) (mkfix 255) = int_obj 254"
proof -
  let ?a = "Bignum \<lparr> bn_sign = True, bn_limbs = [2, 0, 1] \<rparr>"
  have "wf_int ?a" by (simp add: norm_limbs_def in_range_bounds CL_MAX_BIGNUM_LIMBS_def)
  moreover have "int_val ?a AND int_val (mkfix 255) = 254" by (simp add: fixnum_val_make_wraps)
  ultimately show ?thesis using bitops_exact [of ?a "mkfix 255"] by (simp del: int_val.simps)
qed

text \<open>
  \<open>logcount\<close> counts the one bits of a non-negative integer and the zero bits of a
  negative one, and \<open>logbitp\<close> tests the bit of the infinite two's complement, with no
  limit on the size of the integer or the index.
\<close>

theorem bit_queries_exact:
  assumes "wf_int v"
  shows "integer_logcount v = Inr (card {i. bit (nat (if int_val v < 0 then NOT (int_val v) else int_val v)) i})
    \<and> (0 \<le> index \<longrightarrow> integer_logbitp index v = Inr (bit (int_val v) (nat index)))"
  using integer_logcount_correct [OF assms] integer_logbitp_correct [OF assms] popn_card by simp

end
