(* ===== verification/Numeric.thy ===== *)
theory Numeric
  imports Ratio_Arith Bitops
begin

text \<open>
  The generic arithmetic of \<open>src/core/bignum.c\<close>: every \<open>cl_arith_\<close> routine dispatches on
  the representation of its operands, complex numbers first, then floats, ratios and
  integers.  The complex branches call the generic routine on the components.  Where the
  code hands over to the floating-point routines (\<open>float.c\<close>, \<open>libm\<close>) the model leaves with
  \<open>Float_Path\<close> and the name of the routine; the results of floating-point arithmetic are
  not modelled.
\<close>

section \<open>Canonical complex numbers\<close>

fun CL_SINGLE_FLOAT_P :: "cl_val \<Rightarrow> bool" where
  "CL_SINGLE_FLOAT_P (Single_Float _) = True"
| "CL_SINGLE_FLOAT_P _ = False"

fun CL_DOUBLE_FLOAT_P :: "cl_val \<Rightarrow> bool" where
  "CL_DOUBLE_FLOAT_P (Double_Float _) = True"
| "CL_DOUBLE_FLOAT_P _ = False"

definition cl_make_complex :: "cl_val \<Rightarrow> cl_val \<Rightarrow> cl_val" where
  "cl_make_complex realpart imagpart = Complex_Obj realpart imagpart"

definition coerce_real_to_float :: "cl_val \<Rightarrow> bool \<Rightarrow> cl_val res" where
  "coerce_real_to_float part want_double =
     (if want_double then
        (if CL_DOUBLE_FLOAT_P part then Inr part else Inl (Float_Path ''cl_to_double''))
      else if CL_SINGLE_FLOAT_P part then Inr part
      else Inl (Float_Path ''cl_to_double''))"

definition make_complex_canonical :: "cl_val \<Rightarrow> cl_val \<Rightarrow> cl_val res" where
  "make_complex_canonical re im =
     (let want_double = CL_DOUBLE_FLOAT_P re \<or> CL_DOUBLE_FLOAT_P im;
          want_single = \<not> want_double \<and> (CL_SINGLE_FLOAT_P re \<or> CL_SINGLE_FLOAT_P im);
          finish = (\<lambda>re im. if fixnum_p im \<and> fixnum_val im = 0 then Inr re
                            else Inr (cl_make_complex re im))
      in if want_double \<or> want_single
         then bindr (coerce_real_to_float re want_double) (\<lambda>re.
              bindr (coerce_real_to_float im want_double) (\<lambda>im. finish re im))
         else finish re im)"

fun complex_parts :: "cl_val \<Rightarrow> cl_val \<times> cl_val" where
  "complex_parts (Complex_Obj re im) = (re, im)"
| "complex_parts x = (x, mkfix 0)"

lemma complex_parts_size:
  "CL_COMPLEX_P a \<Longrightarrow> size (fst (complex_parts a)) < size a \<and> size (snd (complex_parts a)) < size a"
  "size (fst (complex_parts a)) \<le> size a \<and> size (snd (complex_parts a)) \<le> size a"
  by (cases a; simp)+

section \<open>The dispatching routines\<close>

function cl_arith_add :: "cl_val \<Rightarrow> cl_val \<Rightarrow> cl_val res" where
  "cl_arith_add a b =
     (if CL_COMPLEX_P a \<or> CL_COMPLEX_P b then
        bindr (cl_arith_add (fst (complex_parts a)) (fst (complex_parts b))) (\<lambda>new_re.
        bindr (cl_arith_add (snd (complex_parts a)) (snd (complex_parts b))) (\<lambda>new_im.
          make_complex_canonical new_re new_im))
      else if CL_FLOATP a \<or> CL_FLOATP b then Inl (Float_Path ''cl_float_add'')
      else if CL_RATIO_P a \<or> CL_RATIO_P b then cl_ratio_add a b
      else integer_add a b)"
  by pat_completeness auto
termination
  using complex_parts_size by (relation "measure (\<lambda>(a, b). size a + size b)")
    (fastforce intro: add_less_le_mono add_le_less_mono)+

function cl_arith_sub :: "cl_val \<Rightarrow> cl_val \<Rightarrow> cl_val res" where
  "cl_arith_sub a b =
     (if CL_COMPLEX_P a \<or> CL_COMPLEX_P b then
        bindr (cl_arith_sub (fst (complex_parts a)) (fst (complex_parts b))) (\<lambda>new_re.
        bindr (cl_arith_sub (snd (complex_parts a)) (snd (complex_parts b))) (\<lambda>new_im.
          make_complex_canonical new_re new_im))
      else if CL_FLOATP a \<or> CL_FLOATP b then Inl (Float_Path ''cl_float_sub'')
      else if CL_RATIO_P a \<or> CL_RATIO_P b then cl_ratio_sub a b
      else integer_sub a b)"
  by pat_completeness auto
termination
  using complex_parts_size by (relation "measure (\<lambda>(a, b). size a + size b)")
    (fastforce intro: add_less_le_mono add_le_less_mono)+

function cl_arith_mul :: "cl_val \<Rightarrow> cl_val \<Rightarrow> cl_val res" where
  "cl_arith_mul a b =
     (if CL_COMPLEX_P a \<or> CL_COMPLEX_P b then
        bindr (cl_arith_mul (fst (complex_parts a)) (fst (complex_parts b))) (\<lambda>ac.
        bindr (cl_arith_mul (snd (complex_parts a)) (snd (complex_parts b))) (\<lambda>bd.
        bindr (cl_arith_sub ac bd) (\<lambda>new_re.
        bindr (cl_arith_mul (fst (complex_parts a)) (snd (complex_parts b))) (\<lambda>ad.
        bindr (cl_arith_mul (snd (complex_parts a)) (fst (complex_parts b))) (\<lambda>bc.
        bindr (cl_arith_add ad bc) (\<lambda>new_im.
          make_complex_canonical new_re new_im))))))
      else if CL_FLOATP a \<or> CL_FLOATP b then Inl (Float_Path ''cl_float_mul'')
      else if CL_RATIO_P a \<or> CL_RATIO_P b then cl_ratio_mul a b
      else integer_mul a b)"
  by pat_completeness auto
termination
  using complex_parts_size by (relation "measure (\<lambda>(a, b). size a + size b)")
    (fastforce intro: add_less_le_mono add_le_less_mono)+

declare cl_arith_add.simps [simp del] cl_arith_sub.simps [simp del] cl_arith_mul.simps [simp del]

fun cl_arith_zerop :: "cl_val \<Rightarrow> bool res" where
  "cl_arith_zerop (Complex_Obj re im) = bindr (cl_arith_zerop re) (\<lambda>z. if z then cl_arith_zerop im else Inr False)"
| "cl_arith_zerop (Single_Float _) = Inl (Float_Path ''cl_float_zerop'')"
| "cl_arith_zerop (Double_Float _) = Inl (Float_Path ''cl_float_zerop'')"
| "cl_arith_zerop (Ratio n d) = Inr (cl_ratio_zerop (Ratio n d))"
| "cl_arith_zerop a = Inr (integer_zerop a)"

definition float_or_ratio_div :: "cl_val \<Rightarrow> cl_val \<Rightarrow> cl_val res" where
  "float_or_ratio_div a b =
     (if CL_FLOATP a \<or> CL_FLOATP b then Inl (Float_Path ''cl_float_div'') else cl_ratio_div a b)"

definition cl_arith_div :: "cl_val \<Rightarrow> cl_val \<Rightarrow> cl_val res" where
  "cl_arith_div a b =
     (if CL_COMPLEX_P a \<or> CL_COMPLEX_P b then
        (case (complex_parts a, complex_parts b) of ((a_re, a_im), (b_re, b_im)) \<Rightarrow>
           bindr (bindr (cl_arith_zerop b_re) (\<lambda>z. if z then cl_arith_zerop b_im else Inr False)) (\<lambda>zero.
           if zero then Inl Div_Zero else
           bindr (cl_arith_mul b_re b_re) (\<lambda>c2.
           bindr (cl_arith_mul b_im b_im) (\<lambda>d2.
           bindr (cl_arith_add c2 d2) (\<lambda>denom.
           bindr (cl_arith_mul a_re b_re) (\<lambda>ac.
           bindr (cl_arith_mul a_im b_im) (\<lambda>bd.
           bindr (cl_arith_add ac bd) (\<lambda>re_num.
           bindr (cl_arith_mul a_im b_re) (\<lambda>bc.
           bindr (cl_arith_mul a_re b_im) (\<lambda>ad.
           bindr (cl_arith_sub bc ad) (\<lambda>im_num.
           bindr (float_or_ratio_div re_num denom) (\<lambda>new_re.
           bindr (float_or_ratio_div im_num denom) (\<lambda>new_im.
             make_complex_canonical new_re new_im)))))))))))))
      else float_or_ratio_div a b)"

fun cl_arith_negate :: "cl_val \<Rightarrow> cl_val res" where
  "cl_arith_negate (Complex_Obj re im) =
     bindr (cl_arith_negate re) (\<lambda>nr. bindr (cl_arith_negate im) (\<lambda>ni. make_complex_canonical nr ni))"
| "cl_arith_negate (Single_Float _) = Inl (Float_Path ''cl_float_negate'')"
| "cl_arith_negate (Double_Float _) = Inl (Float_Path ''cl_float_negate'')"
| "cl_arith_negate (Ratio n d) = cl_ratio_negate (Ratio n d)"
| "cl_arith_negate a = integer_negate a"

definition cl_arith_compare :: "cl_val \<Rightarrow> cl_val \<Rightarrow> int res" where
  "cl_arith_compare a b =
     (if CL_FLOATP a \<or> CL_FLOATP b then Inl (Float_Path ''cl_float_compare'')
      else if CL_RATIO_P a \<or> CL_RATIO_P b then cl_ratio_compare a b
      else integer_compare a b)"

fun cl_arith_abs :: "cl_val \<Rightarrow> cl_val res" where
  "cl_arith_abs (Complex_Obj re im) =
     (if CL_FLOATP re \<or> CL_FLOATP im then Inl (Float_Path ''sqrt'')
      else
        bindr (cl_arith_mul re re) (\<lambda>sq_re.
        bindr (cl_arith_mul im im) (\<lambda>sq_im.
        bindr (cl_arith_add sq_re sq_im) (\<lambda>sum.
          if CL_INTEGER_P sum then
            bindr (integer_isqrt sum) (\<lambda>isq.
            bindr (cl_arith_mul isq isq) (\<lambda>isq_sq.
            bindr (cl_arith_compare isq_sq sum) (\<lambda>c.
              if c = 0 then Inr isq else Inl (Float_Path ''sqrt''))))
          else Inl (Float_Path ''sqrt'')))))"
| "cl_arith_abs (Single_Float _) = Inl (Float_Path ''cl_to_double'')"
| "cl_arith_abs (Double_Float _) = Inl (Float_Path ''cl_to_double'')"
| "cl_arith_abs (Ratio n d) = cl_ratio_abs (Ratio n d)"
| "cl_arith_abs a = integer_abs a"

definition cl_numeric_equal :: "cl_val \<Rightarrow> cl_val \<Rightarrow> bool res" where
  "cl_numeric_equal a b =
     (case (a, b) of
        (Complex_Obj ar ai, Complex_Obj br bi) \<Rightarrow>
          bindr (cl_arith_compare ar br) (\<lambda>c.
            if c = 0 then bindr (cl_arith_compare ai bi) (\<lambda>c. Inr (c = 0)) else Inr False)
      | (Complex_Obj ar ai, _) \<Rightarrow>
          bindr (cl_arith_zerop ai) (\<lambda>z.
            if z then bindr (cl_arith_compare ar b) (\<lambda>c. Inr (c = 0)) else Inr False)
      | (_, Complex_Obj br bi) \<Rightarrow>
          bindr (cl_arith_zerop bi) (\<lambda>z.
            if z then bindr (cl_arith_compare a br) (\<lambda>c. Inr (c = 0)) else Inr False)
      | _ \<Rightarrow> bindr (cl_arith_compare a b) (\<lambda>c. Inr (c = 0)))"

fun cl_arith_plusp :: "cl_val \<Rightarrow> bool res" where
  "cl_arith_plusp (Single_Float _) = Inl (Float_Path ''cl_float_plusp'')"
| "cl_arith_plusp (Double_Float _) = Inl (Float_Path ''cl_float_plusp'')"
| "cl_arith_plusp (Ratio n d) = cl_ratio_plusp (Ratio n d)"
| "cl_arith_plusp a = integer_plusp a"

fun cl_arith_minusp :: "cl_val \<Rightarrow> bool res" where
  "cl_arith_minusp (Single_Float _) = Inl (Float_Path ''cl_float_minusp'')"
| "cl_arith_minusp (Double_Float _) = Inl (Float_Path ''cl_float_minusp'')"
| "cl_arith_minusp (Ratio n d) = cl_ratio_minusp (Ratio n d)"
| "cl_arith_minusp a = integer_minusp a"

section \<open>Rational operands\<close>

lemma wf_rat_kind: "wf_rat v \<Longrightarrow> \<not> CL_COMPLEX_P v \<and> \<not> CL_FLOATP v"
  by (cases v) auto

lemma wf_rat_no_float: "wf_rat v \<Longrightarrow> \<not> CL_SINGLE_FLOAT_P v \<and> \<not> CL_DOUBLE_FLOAT_P v"
  by (cases v) auto

lemma wf_rat_integer:
  assumes "wf_rat v" "\<not> CL_RATIO_P v"
  shows "wf_int v" "copyable (int_val v)" "rat_val v = of_int (int_val v)" "num_val v = int_val v"
proof -
  have "cl_numerator v = v \<and> cl_denominator v = mkfix 1 \<and> wf_int v \<and> copyable (int_val v)"
    using assms by (cases rule: wf_rat_cases) auto
  then show "wf_int v" "copyable (int_val v)" "rat_val v = of_int (int_val v)" "num_val v = int_val v"
    by (simp_all add: rat_val_def num_val_def den_val_def fix_one(2,3) of_int_rat)
qed

lemma rat_obj_of_int: "rat_obj (of_int z) = int_obj z"
  by (cases "int_obj z") (simp_all add: rat_obj_def)

lemma real_add:
  assumes "wf_rat a" "wf_rat b" "add_room a b"
  shows "cl_arith_add a b = rat_obj (rat_val a + rat_val b)"
proof (cases "CL_RATIO_P a \<or> CL_RATIO_P b")
  case False
  then show ?thesis using wf_rat_integer [OF assms(1)] wf_rat_integer [OF assms(2)]
      wf_rat_kind [OF assms(1)] wf_rat_kind [OF assms(2)] rat_obj_of_int [of "int_val a + int_val b"]
    by (simp add: cl_arith_add.simps [of a b] integer_add_correct)
qed (use radd.op_exact [OF assms] wf_rat_kind [OF assms(1)] wf_rat_kind [OF assms(2)] in
  \<open>simp add: cl_arith_add.simps [of a b]\<close>)

lemma real_sub:
  assumes "wf_rat a" "wf_rat b" "add_room a b"
  shows "cl_arith_sub a b = rat_obj (rat_val a - rat_val b)"
proof (cases "CL_RATIO_P a \<or> CL_RATIO_P b")
  case False
  then show ?thesis using wf_rat_integer [OF assms(1)] wf_rat_integer [OF assms(2)]
      wf_rat_kind [OF assms(1)] wf_rat_kind [OF assms(2)] rat_obj_of_int [of "int_val a - int_val b"]
    by (simp add: cl_arith_sub.simps [of a b] integer_sub_correct)
qed (use rsub.op_exact [OF assms] wf_rat_kind [OF assms(1)] wf_rat_kind [OF assms(2)] in
  \<open>simp add: cl_arith_sub.simps [of a b]\<close>)

lemma integer_mul_copyable:
  assumes "wf_int a" "wf_int b" "copyable (int_val a * int_val b)"
  shows "integer_mul a b = int_obj (int_val a * int_val b)"
  using integer_mul_correct [OF assms(1,2)] copyable_fits [OF assms(3)]
  by (auto simp: computes_def split: sum.splits)

lemma real_mul:
  assumes "wf_rat a" "wf_rat b" "mul_room a b"
  shows "cl_arith_mul a b = rat_obj (rat_val a * rat_val b)"
proof (cases "CL_RATIO_P a \<or> CL_RATIO_P b")
  case False
  note ia = wf_rat_integer [OF assms(1)] and ib = wf_rat_integer [OF assms(2)]
  have "integer_mul a b = int_obj (int_val a * int_val b)"
    using assms(3) False ia ib by (intro integer_mul_copyable) (simp_all add: mul_room_def)
  then show ?thesis using False ia(3) ib(3)
      wf_rat_kind [OF assms(1)] wf_rat_kind [OF assms(2)] rat_obj_of_int [of "int_val a * int_val b"]
    by (simp add: cl_arith_mul.simps [of a b])
qed (use rmul.op_exact [OF assms] wf_rat_kind [OF assms(1)] wf_rat_kind [OF assms(2)] in
  \<open>simp add: cl_arith_mul.simps [of a b]\<close>)

lemma real_div:
  assumes "wf_rat a" "wf_rat b" "div_room a b"
  shows "float_or_ratio_div a b = (if rat_val b = 0 then Inl Div_Zero else rat_obj (rat_val a / rat_val b))"
    and "cl_arith_div a b = (if rat_val b = 0 then Inl Div_Zero else rat_obj (rat_val a / rat_val b))"
  using ratio_div_correct [OF assms(1,2)] assms(3) wf_rat_kind [OF assms(1)] wf_rat_kind [OF assms(2)]
  by (simp_all add: float_or_ratio_div_def cl_arith_div_def div_room_def)

text \<open>The dispatching routines meet the same contract as the routines of the ratio component.\<close>

interpretation nadd: comm_rat_binop cl_arith_add add_room "(+)"
  by unfold_locales (auto simp: real_add small_parts add.commute radd.room_comm)

interpretation nsub: rat_binop cl_arith_sub add_room "(-)"
  by unfold_locales (auto simp: real_sub small_parts)

interpretation nmul: comm_rat_binop cl_arith_mul mul_room "(*)"
  by unfold_locales (auto simp: real_mul small_parts mult.commute rmul.room_comm)

interpretation ndiv: rat_binop cl_arith_div "\<lambda>a b. div_room a b \<and> rat_val b \<noteq> 0" "(/)"
  by unfold_locales (auto simp: real_div small_parts)

lemma real_compare:
  assumes "wf_rat a" "wf_rat b" "add_room a b"
  shows "cl_arith_compare a b = Inr (if rat_val a < rat_val b then -1 else if rat_val a = rat_val b then 0 else 1)"
proof (cases "CL_RATIO_P a \<or> CL_RATIO_P b")
  case False
  then show ?thesis using wf_rat_integer [OF assms(1)] wf_rat_integer [OF assms(2)]
      wf_rat_kind [OF assms(1)] wf_rat_kind [OF assms(2)]
    by (simp add: cl_arith_compare_def integer_compare_correct sgn_if)
qed (use ratio_compare_correct [OF assms(1,2)] assms(3) wf_rat_kind [OF assms(1)] wf_rat_kind [OF assms(2)] in
  \<open>simp add: cl_arith_compare_def add_room_def\<close>)

lemma real_unary:
  assumes "wf_rat a"
  shows "cl_arith_negate a = rat_obj (- rat_val a)" "cl_arith_abs a = rat_obj \<bar>rat_val a\<bar>"
    "cl_arith_zerop a = Inr (rat_val a = 0)" "cl_arith_plusp a = Inr (0 < rat_val a)"
    "cl_arith_minusp a = Inr (rat_val a < 0)"
proof -
  have "cl_arith_negate a = cl_ratio_negate a" "cl_arith_abs a = cl_ratio_abs a"
    "cl_arith_zerop a = Inr (cl_ratio_zerop a)" "cl_arith_plusp a = cl_ratio_plusp a"
    "cl_arith_minusp a = cl_ratio_minusp a"
    using assms by (cases a; simp)+
  then show "cl_arith_negate a = rat_obj (- rat_val a)" "cl_arith_abs a = rat_obj \<bar>rat_val a\<bar>"
    "cl_arith_zerop a = Inr (rat_val a = 0)" "cl_arith_plusp a = Inr (0 < rat_val a)"
    "cl_arith_minusp a = Inr (rat_val a < 0)"
    using ratio_unary_correct [OF assms] by simp_all
qed

section \<open>Sizes\<close>

text \<open>A rational whose numerator and denominator have at most \<open>k\<close> bits.\<close>

definition bits :: "nat \<Rightarrow> rat \<Rightarrow> bool" where
  "bits k r \<longleftrightarrow> (case quotient_of r of (n, d) \<Rightarrow> \<bar>n\<bar> < 2 ^ k \<and> d < 2 ^ k)"

lemma bits_Fract:
  assumes "\<bar>n\<bar> < 2 ^ k" "\<bar>d\<bar> < 2 ^ k" "d \<noteq> 0"
  shows "bits k (Fract n d)"
proof -
  obtain p q where "quotient_of (Fract n d) = (p, q)" by fastforce
  then show ?thesis using lowest_terms_le [OF assms(3)] assms by (fastforce simp: bits_def)
qed

lemma bits_mono: "bits k r \<Longrightarrow> k \<le> l \<Longrightarrow> bits l r"
proof -
  assume a: "bits k r" "k \<le> l"
  then have le: "(2 :: int) ^ k \<le> 2 ^ l" by (intro power_increasing) simp_all
  show ?thesis using a(1) unfolding bits_def by (auto split: prod.splits intro: less_le_trans [OF _ le])
qed

lemma bits_cases:
  assumes "bits k r"
  obtains n d where "r = Fract n d" "0 < d" "\<bar>n\<bar> < 2 ^ k" "d < 2 ^ k"
  using assms by (metis (mono_tags, lifting) bits_def case_prod_conv rat_cases)

lemma mult_bits:
  fixes x y :: int
  assumes "\<bar>x\<bar> < 2 ^ k" "\<bar>y\<bar> < 2 ^ l"
  shows "\<bar>x * y\<bar> < 2 ^ (k + l)"
  using mult_strict_mono' [OF assms] by (simp add: abs_mult power_add)

lemma bits_ops:
  assumes "bits k p" "bits l q"
  shows "bits (k + l + 1) (p + q)" "bits (k + l + 1) (p - q)" "bits (k + l) (p * q)"
    "q \<noteq> 0 \<Longrightarrow> bits (k + l) (p / q)"
proof -
  obtain n d where p: "p = Fract n d" "0 < d" "\<bar>n\<bar> < 2 ^ k" "\<bar>d\<bar> < 2 ^ k" using assms(1) by (rule bits_cases) simp
  obtain m e where q: "q = Fract m e" "0 < e" "\<bar>m\<bar> < 2 ^ l" "\<bar>e\<bar> < 2 ^ l" using assms(2) by (rule bits_cases) simp
  have dm: "\<bar>m * d\<bar> < 2 ^ (k + l)" using mult_bits [OF p(4) q(3)] by (simp add: mult.commute)
  note b = mult_bits [OF p(3) q(4)] dm mult_bits [OF p(4) q(4)] mult_bits [OF p(3) q(3)] mult_bits [OF p(4) q(3)]
  have "\<bar>n * e + m * d\<bar> < 2 ^ (k + l + 1)" "\<bar>n * e - m * d\<bar> < 2 ^ (k + l + 1)" "\<bar>d * e\<bar> < 2 ^ (k + l + 1)"
    using b(1-3) by (simp_all add: abs_less_iff)
  then show "bits (k + l + 1) (p + q)" "bits (k + l + 1) (p - q)"
    using bits_Fract [of _ "k + l + 1" "d * e"] p q by simp_all
  show "bits (k + l) (p * q)" using bits_Fract [OF b(4,3)] p q by simp
  show "bits (k + l) (p / q)" if "q \<noteq> 0"
    using bits_Fract [OF b(1,5)] p q that by (simp add: Zero_rat_def eq_rat)
qed

lemma bits_small:
  assumes "bits k r" "k \<le> 16 * 65535"
  shows "rat_small r"
proof -
  obtain n d where q: "quotient_of r = (n, d)" by fastforce
  have "\<bar>n\<bar> < 2 ^ (16 * 65535)" "\<bar>d\<bar> < 2 ^ (16 * 65535)"
    using bits_mono [OF assms] quotient_of_denom_pos [OF q] q unfolding bits_def by (simp_all only: split abs_of_pos)
  then have "copyable n" "copyable d" by (simp_all only: copyable_iff)
  then show ?thesis using q by (simp add: rat_small_def)
qed

lemma bits_zero [simp]: "0 < k \<Longrightarrow> bits k 0"
  using one_less_power [of "2 :: int" k] by (simp add: bits_def)

lemma wf_rat_quotient: "wf_rat v \<Longrightarrow> quotient_of (rat_val v) = (num_val v, den_val v)"
  using wf_rat_parts [of v] by (simp add: rat_val_def quotient_of_Fract)

lemma bits_room:
  assumes "wf_rat a" "wf_rat b" "bits k (rat_val a)" "bits l (rat_val b)" "k + l + 1 \<le> 16 * 65535"
  shows "add_room a b" "mul_room a b" "div_room a b"
proof -
  have p: "\<bar>num_val a\<bar> < 2 ^ k" "\<bar>den_val a\<bar> < 2 ^ k" "\<bar>num_val b\<bar> < 2 ^ l" "\<bar>den_val b\<bar> < 2 ^ l"
    using assms(3,4) wf_rat_quotient [OF assms(1)] wf_rat_quotient [OF assms(2)]
      wf_rat_parts(5) [OF assms(1)] wf_rat_parts(5) [OF assms(2)] by (simp_all add: bits_def)
  have c: "copyable z" if "\<bar>z\<bar> < 2 ^ (k + l + 1)" for z
    using that power_increasing [OF assms(5), of "2 :: int"] by (intro copyable_iff [THEN iffD2]) linarith
  have w: "(2 :: int) ^ (k + l + 1) = 2 * 2 ^ (k + l)" by simp
  note b = mult_bits [OF p(1,4)] mult_bits [OF p(3,2)] mult_bits [OF p(2,4)] mult_bits [OF p(1,3)] mult_bits [OF p(2,3)]
  note b' = b(1) b(2) [unfolded add.commute [of l]] b(3-5)
  show "add_room a b" unfolding add_room_def by (intro conjI; rule c; use b' w in linarith)
  show "mul_room a b" unfolding mul_room_def by (intro conjI; rule c; use b' w in linarith)
  show "div_room a b" unfolding div_room_def by (intro conjI; rule c; use b' w in linarith)
qed

section \<open>Exact numbers: rationals and complex numbers with rational parts\<close>

fun wf_num :: "cl_val \<Rightarrow> bool" where
  "wf_num (Complex_Obj re im) = (wf_rat re \<and> wf_rat im \<and> rat_val im \<noteq> 0)"
| "wf_num v = wf_rat v"

definition re_val :: "cl_val \<Rightarrow> rat" where
  "re_val v = rat_val (fst (complex_parts v))"

definition im_val :: "cl_val \<Rightarrow> rat" where
  "im_val v = rat_val (snd (complex_parts v))"

definition num_obj :: "rat \<Rightarrow> rat \<Rightarrow> cl_val res" where
  "num_obj p q =
     bindr (rat_obj p) (\<lambda>re. if q = 0 then Inr re else bindr (rat_obj q) (\<lambda>im. Inr (Complex_Obj re im)))"

definition num_bits :: "nat \<Rightarrow> cl_val \<Rightarrow> bool" where
  "num_bits k v \<longleftrightarrow> bits k (re_val v) \<and> bits k (im_val v)"

lemma fix_zero: "wf_rat (mkfix 0)" "rat_val (mkfix 0) = 0" "CL_FIXNUM_VAL (CL_MAKE_FIXNUM 0) = 0"
  by (simp_all add: fixnum_val_make_wraps rat_val_def num_val_def den_val_def Zero_rat_def)

lemma wf_num_parts:
  assumes "wf_num v"
  shows "wf_rat (fst (complex_parts v))" "wf_rat (snd (complex_parts v))"
    "CL_COMPLEX_P v \<longleftrightarrow> im_val v \<noteq> 0" "\<not> CL_COMPLEX_P v \<Longrightarrow> wf_rat v \<and> re_val v = rat_val v"
  using assms fix_zero(1,2) by (cases v; simp add: re_val_def im_val_def del: wf_int.simps int_val.simps)+

lemma num_obj_real [simp]: "num_obj p 0 = rat_obj p"
  by (cases "rat_obj p") (simp_all add: num_obj_def)

lemma fixnum_zero_iff: "wf_rat v \<Longrightarrow> fixnum_p v \<and> fixnum_val v = 0 \<longleftrightarrow> rat_val v = 0"
proof -
  assume w: "wf_rat v"
  have "fixnum_p v \<and> fixnum_val v = 0 \<longleftrightarrow> integer_zerop (cl_numerator v)"
  proof (cases "CL_RATIO_P v")
    case True
    then obtain n d where v: "v = Ratio n d" by (cases v) auto
    then have "rat_val v \<noteq> 0" using w rat_val_0 [OF w] by (auto simp: num_val_def)
    then show ?thesis using v ratio_unary_correct(3) [OF w] by simp
  next
    case False
    then show ?thesis by (cases v) (simp_all add: integer_zerop.simps)
  qed
  then show ?thesis using ratio_unary_correct(3) [OF w] by (cases v) simp_all
qed

lemma canonical_correct:
  assumes "wf_rat x" "wf_rat y"
  shows "make_complex_canonical x y = num_obj (rat_val x) (rat_val y)"
  using wf_rat_no_float [OF assms(1)] wf_rat_no_float [OF assms(2)] fixnum_zero_iff [OF assms(2)]
    rat_obj_of_wf(1) [OF assms(1)] rat_obj_of_wf(1) [OF assms(2)]
  by (simp add: make_complex_canonical_def num_obj_def cl_make_complex_def)

text \<open>One step of a computation on rationals of bounded size.\<close>

lemma num_step:
  assumes "wf_rat x" "wf_rat y" "bits k (rat_val x)" "bits l (rat_val y)" "k + l + 1 \<le> 16 * 65535"
  shows "\<exists>v. cl_arith_add x y = Inr v \<and> wf_rat v \<and> rat_val v = rat_val x + rat_val y \<and> bits (k + l + 1) (rat_val v)"
    and "\<exists>v. cl_arith_sub x y = Inr v \<and> wf_rat v \<and> rat_val v = rat_val x - rat_val y \<and> bits (k + l + 1) (rat_val v)"
    and "\<exists>v. cl_arith_mul x y = Inr v \<and> wf_rat v \<and> rat_val v = rat_val x * rat_val y \<and> bits (k + l) (rat_val v)"
    and "rat_val y \<noteq> 0 \<Longrightarrow> \<exists>v. float_or_ratio_div x y = Inr v \<and> wf_rat v \<and> rat_val v = rat_val x / rat_val y"
  using nadd.op_wf [OF assms(1,2) bits_room(1) [OF assms]] nsub.op_wf [OF assms(1,2) bits_room(1) [OF assms]]
    nmul.op_wf [OF assms(1,2) bits_room(2) [OF assms]] rdiv.op_wf [OF assms(1,2)] bits_room(3) [OF assms]
    bits_ops [OF assms(3,4)] wf_rat_kind [OF assms(1)] wf_rat_kind [OF assms(2)]
  by (auto simp: float_or_ratio_div_def)

text \<open>
  Addition and subtraction work component by component; the contract on rationals then
  gives the one on complex numbers.
\<close>

locale componentwise = rat_binop opn add_room f for opn f +
  assumes parts: "CL_COMPLEX_P a \<or> CL_COMPLEX_P b \<Longrightarrow> opn a b =
      bindr (opn (fst (complex_parts a)) (fst (complex_parts b))) (\<lambda>new_re.
      bindr (opn (snd (complex_parts a)) (snd (complex_parts b))) (\<lambda>new_im.
        make_complex_canonical new_re new_im))"
    and zero: "f 0 0 = 0"

begin

lemma op_num:
  assumes "wf_num a" "wf_num b" "num_bits k a" "num_bits l b" "k + l + 1 \<le> 16 * 65535"
  shows "opn a b = num_obj (f (re_val a) (re_val b)) (f (im_val a) (im_val b))"
proof -
  note w = wf_num_parts [OF assms(1)] wf_num_parts [OF assms(2)]
  have room: "add_room (fst (complex_parts a)) (fst (complex_parts b))"
    "add_room (snd (complex_parts a)) (snd (complex_parts b))"
    using assms(3,4) bits_room(1) [OF w(1,5) _ _ assms(5)] bits_room(1) [OF w(2,6) _ _ assms(5)]
    by (simp_all add: num_bits_def re_val_def im_val_def)
  show ?thesis
  proof (cases "CL_COMPLEX_P a \<or> CL_COMPLEX_P b")
    case False
    then have "fst (complex_parts a) = a" "fst (complex_parts b) = b" by (cases a; cases b; simp)+
    then show ?thesis using False w(3,7) zero op_exact [OF w(1,5) room(1)] by (simp add: re_val_def)
  next
    case True
    obtain x where x: "opn (fst (complex_parts a)) (fst (complex_parts b)) = Inr x" "wf_rat x"
      "rat_val x = f (re_val a) (re_val b)" using op_wf [OF w(1,5) room(1)] by (auto simp: re_val_def)
    obtain y where y: "opn (snd (complex_parts a)) (snd (complex_parts b)) = Inr y" "wf_rat y"
      "rat_val y = f (im_val a) (im_val b)" using op_wf [OF w(2,6) room(2)] by (auto simp: im_val_def)
    show ?thesis using x y canonical_correct [OF x(2) y(2)] by (simp add: parts [OF True])
  qed
qed

end

interpretation cadd: componentwise cl_arith_add "(+)"
  by unfold_locales (simp_all add: cl_arith_add.simps)

interpretation csub: componentwise cl_arith_sub "(-)"
  by unfold_locales (simp_all add: cl_arith_sub.simps)

text \<open>Two products and their sum or difference, the step that multiplication and division repeat.\<close>

lemma num_dot:
  assumes "wf_rat x" "wf_rat y" "wf_rat u" "wf_rat v"
    and "bits k (rat_val x)" "bits l (rat_val y)" "bits k (rat_val u)" "bits l (rat_val v)"
    and le: "k + l + (k + l) + 1 \<le> 16 * 65535"
  obtains p q r s where "cl_arith_mul x y = Inr p" "cl_arith_mul u v = Inr q"
    "cl_arith_add p q = Inr r" "wf_rat r" "rat_val r = rat_val x * rat_val y + rat_val u * rat_val v"
    "bits (k + l + (k + l) + 1) (rat_val r)"
    "cl_arith_sub p q = Inr s" "wf_rat s" "rat_val s = rat_val x * rat_val y - rat_val u * rat_val v"
    "bits (k + l + (k + l) + 1) (rat_val s)"
proof -
  have le1: "k + l + 1 \<le> 16 * 65535" using le by simp
  obtain p where p: "cl_arith_mul x y = Inr p" "wf_rat p" "rat_val p = rat_val x * rat_val y" "bits (k + l) (rat_val p)"
    using num_step(3) [OF assms(1,2,5,6) le1] by blast
  obtain q where q: "cl_arith_mul u v = Inr q" "wf_rat q" "rat_val q = rat_val u * rat_val v" "bits (k + l) (rat_val q)"
    using num_step(3) [OF assms(3,4,7,8) le1] by blast
  note st = num_step(1,2) [OF p(2) q(2) p(4) q(4) le]
  show ?thesis using that [OF p(1) q(1)] st p(3) q(3) by metis
qed

lemma num_mul_correct:
  assumes "wf_num a" "wf_num b" "num_bits k a" "num_bits l b" "2 * (k + l) + 1 \<le> 16 * 65535"
  shows "cl_arith_mul a b =
    num_obj (re_val a * re_val b - im_val a * im_val b) (re_val a * im_val b + im_val a * re_val b)"
proof (cases "CL_COMPLEX_P a \<or> CL_COMPLEX_P b")
  case False
  then have "wf_rat a" "wf_rat b" "bits k (rat_val a)" "bits l (rat_val b)" "k + l + 1 \<le> 16 * 65535"
    using wf_num_parts(4) [OF assms(1)] wf_num_parts(4) [OF assms(2)] assms(3-5) by (simp_all add: num_bits_def)
  then show ?thesis using False wf_num_parts(3,4) [OF assms(1)] wf_num_parts(3,4) [OF assms(2)]
      bits_room(2) [of a b k l] real_mul by simp
next
  case True
  note w = wf_num_parts(1,2) [OF assms(1)] wf_num_parts(1,2) [OF assms(2)]
  have bt: "bits k (rat_val (fst (complex_parts a)))" "bits k (rat_val (snd (complex_parts a)))"
    "bits l (rat_val (fst (complex_parts b)))" "bits l (rat_val (snd (complex_parts b)))"
    using assms(3,4) by (simp_all add: num_bits_def re_val_def im_val_def)
  have le: "k + l + (k + l) + 1 \<le> 16 * 65535" using assms(5) by simp
  from num_dot [OF w(1,3,2,4) bt(1,3,2,4) le] obtain ac bd x where
    x: "cl_arith_mul (fst (complex_parts a)) (fst (complex_parts b)) = Inr ac"
      "cl_arith_mul (snd (complex_parts a)) (snd (complex_parts b)) = Inr bd" "cl_arith_sub ac bd = Inr x" "wf_rat x"
      "rat_val x = re_val a * re_val b - im_val a * im_val b" unfolding re_val_def im_val_def by metis
  from num_dot [OF w(1,4,2,3) bt(1,4,2,3) le] obtain ad bc y where
    y: "cl_arith_mul (fst (complex_parts a)) (snd (complex_parts b)) = Inr ad"
      "cl_arith_mul (snd (complex_parts a)) (fst (complex_parts b)) = Inr bc" "cl_arith_add ad bc = Inr y" "wf_rat y"
      "rat_val y = re_val a * im_val b + im_val a * re_val b" unfolding re_val_def im_val_def by metis
  show ?thesis using True x y canonical_correct [OF x(4) y(4)] by (simp add: cl_arith_mul.simps [of a b])
qed

lemma norm_pos: "p * p + q * q \<noteq> (0 :: rat) \<longleftrightarrow> p \<noteq> 0 \<or> q \<noteq> 0"
  by (simp add: sum_squares_eq_zero_iff)

lemma num_div_correct:
  assumes "wf_num a" "wf_num b" "num_bits k a" "num_bits l b" "2 * k + 6 * l + 3 \<le> 16 * 65535"
  shows "cl_arith_div a b =
    (if re_val b = 0 \<and> im_val b = 0 then Inl Div_Zero
     else let n = re_val b * re_val b + im_val b * im_val b
          in num_obj ((re_val a * re_val b + im_val a * im_val b) / n)
                     ((im_val a * re_val b - re_val a * im_val b) / n))"
proof (cases "CL_COMPLEX_P a \<or> CL_COMPLEX_P b")
  case False
  then have r: "wf_rat a" "wf_rat b" "re_val a = rat_val a" "re_val b = rat_val b" "im_val a = 0" "im_val b = 0"
    using wf_num_parts(3,4) [OF assms(1)] wf_num_parts(3,4) [OF assms(2)] by simp_all
  have "div_room a b" using bits_room(3) [OF r(1,2), of k l] assms(3-5) r(3,4) by (simp add: num_bits_def)
  then show ?thesis using real_div(2) [OF r(1,2)] r(3-6) by simp
next
  case True
  note wa = wf_num_parts [OF assms(1)] and wb = wf_num_parts [OF assms(2)]
  obtain ar ai where pa: "complex_parts a = (ar, ai)" by fastforce
  obtain br bi where pb: "complex_parts b = (br, bi)" by fastforce
  have v: "wf_rat ar" "wf_rat ai" "wf_rat br" "wf_rat bi" "re_val a = rat_val ar" "im_val a = rat_val ai"
    "re_val b = rat_val br" "im_val b = rat_val bi" using wa(1,2) wb(1,2) pa pb by (simp_all add: re_val_def im_val_def)
  have bt: "bits k (rat_val ar)" "bits k (rat_val ai)" "bits l (rat_val br)" "bits l (rat_val bi)"
    using assms(3,4) v(5-8) by (simp_all add: num_bits_def)
  let ?z = "bindr (cl_arith_zerop br) (\<lambda>z. if z then cl_arith_zerop bi else Inr False)"
  have z: "?z = Inr (re_val b = 0 \<and> im_val b = 0)" using real_unary(3) [OF v(3)] real_unary(3) [OF v(4)] v(7,8) by simp
  show ?thesis
  proof (cases "re_val b = 0 \<and> im_val b = 0")
    case True
    then show ?thesis using \<open>CL_COMPLEX_P a \<or> CL_COMPLEX_P b\<close> pa pb z by (simp add: cl_arith_div_def)
  next
    case nz: False
    have le: "l + l + (l + l) + 1 \<le> 16 * 65535" "k + l + (k + l) + 1 \<le> 16 * 65535"
      "k + l + (k + l) + 1 + (l + l + (l + l) + 1) + 1 \<le> 16 * 65535" using assms(5) by simp_all
    from num_dot [OF v(3,3,4,4) bt(3,3,4,4) le(1)] obtain c2 d2 dn where
      dn: "cl_arith_mul br br = Inr c2" "cl_arith_mul bi bi = Inr d2" "cl_arith_add c2 d2 = Inr dn" "wf_rat dn"
        "rat_val dn = rat_val br * rat_val br + rat_val bi * rat_val bi" "bits (l + l + (l + l) + 1) (rat_val dn)" by metis
    from num_dot [OF v(1,3,2,4) bt(1,3,2,4) le(2)] obtain ac bd rn where
      rn: "cl_arith_mul ar br = Inr ac" "cl_arith_mul ai bi = Inr bd" "cl_arith_add ac bd = Inr rn" "wf_rat rn"
        "rat_val rn = rat_val ar * rat_val br + rat_val ai * rat_val bi" "bits (k + l + (k + l) + 1) (rat_val rn)" by metis
    from num_dot [OF v(2,3,1,4) bt(2,3,1,4) le(2)] obtain bc ad im where
      im: "cl_arith_mul ai br = Inr bc" "cl_arith_mul ar bi = Inr ad" "cl_arith_sub bc ad = Inr im" "wf_rat im"
        "rat_val im = rat_val ai * rat_val br - rat_val ar * rat_val bi" "bits (k + l + (k + l) + 1) (rat_val im)" by metis
    have dn0: "rat_val dn \<noteq> 0" using nz v(7,8) dn(5) norm_pos by simp
    obtain x where x: "float_or_ratio_div rn dn = Inr x" "wf_rat x" "rat_val x = rat_val rn / rat_val dn"
      using num_step(4) [OF rn(4) dn(4) rn(6) dn(6) le(3) dn0] by blast
    obtain y where y: "float_or_ratio_div im dn = Inr y" "wf_rat y" "rat_val y = rat_val im / rat_val dn"
      using num_step(4) [OF im(4) dn(4) im(6) dn(6) le(3) dn0] by blast
    have "cl_arith_div a b = make_complex_canonical x y" using True nz z x(1) y(1)
      by (auto simp: cl_arith_div_def pa pb dn(1-3) rn(1-3) im(1-3))
    then show ?thesis unfolding canonical_correct [OF x(2) y(2)] x(3) y(3) rn(5) dn(5) im(5)
      using nz v(5-8) by (auto simp: Let_def)
  qed
qed

lemma num_obj_small:
  assumes "rat_small p" "rat_small q"
  shows "\<exists>v. num_obj p q = Inr v \<and> wf_num v \<and> re_val v = p \<and> im_val v = q"
proof -
  obtain x where x: "rat_obj p = Inr x" "wf_rat x" "rat_val x = p" using rat_obj_small [OF assms(1)] by blast
  obtain y where y: "rat_obj q = Inr y" "wf_rat y" "rat_val y = q" using rat_obj_small [OF assms(2)] by blast
  show ?thesis
  proof (cases "q = 0")
    case True
    have "wf_num x \<and> complex_parts x = (x, mkfix 0)" using x(2) by (cases x) auto
    then show ?thesis using True x fix_zero(2) by (simp add: re_val_def im_val_def)
  qed (use x y in \<open>simp add: num_obj_def re_val_def im_val_def\<close>)
qed

lemma num_negate_correct:
  assumes "wf_num a"
  shows "cl_arith_negate a = num_obj (- re_val a) (- im_val a)"
proof (cases "CL_COMPLEX_P a")
  case False
  then show ?thesis using wf_num_parts(3,4) [OF assms] real_unary(1) by simp
next
  case True
  then obtain re im where a: "a = Complex_Obj re im" by (cases a) auto
  then have w: "wf_rat re" "wf_rat im" using assms by simp_all
  have "rat_small (- rat_val x)" if "wf_rat x" for x
    using rat_small_Fract [of "- num_val x" "den_val x"] wf_rat_parts(3,4) [OF that] rat_val_minus [OF that] by simp
  note s = this [OF w(1)] this [OF w(2)]
  obtain x where x: "cl_arith_negate re = Inr x" "wf_rat x" "rat_val x = - rat_val re"
    using real_unary(1) [OF w(1)] rat_obj_small [OF s(1)] by auto
  obtain y where y: "cl_arith_negate im = Inr y" "wf_rat y" "rat_val y = - rat_val im"
    using real_unary(1) [OF w(2)] rat_obj_small [OF s(2)] by auto
  show ?thesis using a x y canonical_correct [OF x(2) y(2)] by (simp add: re_val_def im_val_def)
qed

lemma num_equal_correct:
  assumes "wf_num a" "wf_num b" "num_bits k a" "num_bits l b" "k + l + 1 \<le> 16 * 65535"
  shows "cl_numeric_equal a b = Inr (re_val a = re_val b \<and> im_val a = im_val b)"
proof -
  note wa = wf_num_parts [OF assms(1)] and wb = wf_num_parts [OF assms(2)]
  have room: "add_room (fst (complex_parts a)) (fst (complex_parts b))"
    "add_room (snd (complex_parts a)) (snd (complex_parts b))"
    using assms(3,4) bits_room(1) [OF wa(1) wb(1) _ _ assms(5)] bits_room(1) [OF wa(2) wb(2) _ _ assms(5)]
    by (simp_all add: num_bits_def re_val_def im_val_def)
  note c = real_compare [OF wa(1) wb(1) room(1)] real_compare [OF wa(2) wb(2) room(2)]
  note z = real_unary(3) [OF wa(2)] real_unary(3) [OF wb(2)]
  show ?thesis using c z wa(3) wb(3) fix_zero(2)
    by (cases a; cases b) (auto simp: cl_numeric_equal_def re_val_def im_val_def)
qed

lemma wf_rat_int_value:
  assumes "wf_rat v"
  shows "CL_INTEGER_P v \<longleftrightarrow> (\<exists>z. rat_val v = of_int z)"
proof
  assume "CL_INTEGER_P v"
  then have "\<not> CL_RATIO_P v" by (cases v) (simp_all add: CL_INTEGER_P_def)
  then show "\<exists>z. rat_val v = of_int z" using wf_rat_integer(3) [OF assms] by blast
next
  assume "\<exists>z. rat_val v = of_int z"
  then have d: "den_val v = 1" using wf_rat_quotient [OF assms] by auto
  from assms show "CL_INTEGER_P v"
  proof (cases rule: wf_rat_cases)
    case int
    then show ?thesis using wf_int_cases [of v] by (auto simp: CL_INTEGER_P_def)
  qed (use d in \<open>simp add: den_val_def\<close>)
qed

lemma int_sqrt_exists: "0 \<le> n \<Longrightarrow> \<exists>r :: int. 0 \<le> r \<and> r * r \<le> n \<and> n < (r + 1) * (r + 1)"
proof (induction n rule: int_ge_induct)
  case base
  show ?case by (rule exI [of _ 0]) simp
next
  case (step n)
  then obtain r where r: "0 \<le> r" "r * r \<le> n" "n < (r + 1) * (r + 1)" by blast
  show ?case
  proof (cases "n + 1 < (r + 1) * (r + 1)")
    case False
    then show ?thesis using r by (intro exI [of _ "r + 1"]) (simp add: algebra_simps)
  qed (use r in \<open>auto intro: exI [of _ r]\<close>)
qed

text \<open>The last step of the absolute value, on the sum of the squares.\<close>

lemma abs_of_sum:
  assumes "wf_rat sm" "CL_INTEGER_P sm" "bits m (rat_val sm)" "m + 3 \<le> 16 * 65535"
    and r: "0 \<le> r" "r * r \<le> int_val sm" "int_val sm < (r + 1) * (r + 1)"
  shows "bindr (integer_isqrt sm) (\<lambda>isq. bindr (cl_arith_mul isq isq) (\<lambda>isq_sq.
      bindr (cl_arith_compare isq_sq sm) (\<lambda>c. if c = 0 then Inr isq else Inl (Float_Path ''sqrt''))))
    = (if r * r = int_val sm then int_obj r else Inl (Float_Path ''sqrt''))"
proof -
  have nr: "\<not> CL_RATIO_P sm" using assms(2) by (cases sm) (simp_all add: CL_INTEGER_P_def)
  note I = wf_rat_integer [OF assms(1) nr]
  have "\<bar>int_val sm\<bar> < 2 ^ m" using assms(3) wf_rat_quotient [OF assms(1)] I(4) by (simp add: bits_def)
  then have "\<bar>8 * int_val sm\<bar> < 2 ^ (m + 3)" by (simp add: power_add abs_mult)
  also have "\<dots> \<le> 2 ^ (16 * 65535)" using assms(4) by (intro power_increasing) simp_all
  finally have c: "copyable (8 * int_val sm)" by (rule copyable_iff [THEN iffD2])
  have "r \<le> r * r" using r(1) by (cases "r = 0") simp_all
  then have le: "\<bar>r\<bar> \<le> \<bar>8 * int_val sm\<bar>" "\<bar>r * r\<bar> \<le> \<bar>8 * int_val sm\<bar>" using r(1,2) by simp_all
  note cr = copyable_mono [OF c le(1)] and crr = copyable_mono [OF c le(2)]
  have isq: "integer_isqrt sm = Inr (mkint r)"
    using isqrt_total [OF I(1) r copyable_fits [OF c]] mkint_copyable(1) [OF cr] by simp
  have kind: "\<not> CL_COMPLEX_P (mkint z) \<and> \<not> CL_FLOATP (mkint z) \<and> \<not> CL_RATIO_P (mkint z)" if "copyable z" for z
    using mkint_copyable(2) [OF that] by (cases "mkint z") simp_all
  have mul: "cl_arith_mul (mkint r) (mkint r) = Inr (mkint (r * r))"
    using kind [OF cr] mkint_ops(3) [OF cr cr crr] by (simp add: cl_arith_mul.simps)
  have "sm = mkint (int_val sm)" using mkint_val [OF I(1)] by simp
  then have "cl_arith_compare (mkint (r * r)) sm = Inr (sgn (r * r - int_val sm))"
    using kind [OF crr] kind [OF I(2)] mkint_ops(4) [OF crr I(2)] by (simp add: cl_arith_compare_def)
  then show ?thesis using isq mul mkint_copyable(1) [OF cr] by (simp add: sgn_0_0)
qed

lemma complex_abs_correct:
  assumes "wf_num (Complex_Obj re im)" "num_bits k (Complex_Obj re im)" "4 * k + 4 \<le> 16 * 65535"
  shows "0 \<le> s \<Longrightarrow> of_int (s * s) = rat_val re * rat_val re + rat_val im * rat_val im \<Longrightarrow>
      cl_arith_abs (Complex_Obj re im) = int_obj s"
    and "(\<And>s. of_int (s * s) \<noteq> rat_val re * rat_val re + rat_val im * rat_val im) \<Longrightarrow>
      cl_arith_abs (Complex_Obj re im) = Inl (Float_Path ''sqrt'')"
proof -
  have w: "wf_rat re" "wf_rat im" using assms(1) by simp_all
  have bt: "bits k (rat_val re)" "bits k (rat_val im)" using assms(2) by (simp_all add: num_bits_def re_val_def im_val_def)
  have le: "k + k + (k + k) + 1 \<le> 16 * 65535" "k + k + (k + k) + 1 + 3 \<le> 16 * 65535" using assms(3) by simp_all
  from num_dot [OF w(1,1,2,2) bt(1,1,2,2) le(1)] obtain p q sm where
    sq: "cl_arith_mul re re = Inr p" "cl_arith_mul im im = Inr q" "cl_arith_add p q = Inr sm" "wf_rat sm"
      "rat_val sm = rat_val re * rat_val re + rat_val im * rat_val im" "bits (k + k + (k + k) + 1) (rat_val sm)" by metis
  note run = wf_rat_kind [OF w(1)] wf_rat_kind [OF w(2)] sq(1-3)
  have v: "rat_val sm = of_int (int_val sm)" if "CL_INTEGER_P sm"
    using wf_rat_integer(3) [OF sq(4)] that by (cases sm) (simp_all add: CL_INTEGER_P_def)
  have tail: "cl_arith_abs (Complex_Obj re im) = (if r * r = int_val sm then int_obj r else Inl (Float_Path ''sqrt''))"
    if "CL_INTEGER_P sm" "0 \<le> r" "r * r \<le> int_val sm" "int_val sm < (r + 1) * (r + 1)" for r
    using abs_of_sum [OF sq(4) that(1) sq(6) le(2) that(2-4)] that(1) run by simp
  show "cl_arith_abs (Complex_Obj re im) = int_obj s"
    if s: "0 \<le> s" "of_int (s * s) = rat_val re * rat_val re + rat_val im * rat_val im"
  proof -
    have i: "CL_INTEGER_P sm" using wf_rat_int_value [OF sq(4)] sq(5) s(2) by metis
    then have "int_val sm = s * s" using v sq(5) s(2) by (metis of_int_eq_iff)
    then show ?thesis using tail [OF i s(1)] s(1) by (simp add: algebra_simps)
  qed
  assume no: "\<And>s. of_int (s * s) \<noteq> rat_val re * rat_val re + rat_val im * rat_val im"
  show "cl_arith_abs (Complex_Obj re im) = Inl (Float_Path ''sqrt'')"
  proof (cases "CL_INTEGER_P sm")
    case True
    have "0 \<le> rat_val sm" unfolding sq(5) by simp
    then have "0 \<le> int_val sm" using v [OF True] by simp
    then obtain r where r: "0 \<le> r" "r * r \<le> int_val sm" "int_val sm < (r + 1) * (r + 1)"
      using int_sqrt_exists by blast
    moreover have "r * r \<noteq> int_val sm" using no [of r] v [OF True] sq(5) by metis
    ultimately show ?thesis using tail [OF True r] by simp
  qed (use run in simp)
qed

lemma conjugate_division:
  fixes a b c d :: rat
  assumes "c * c + d * d \<noteq> 0"
  shows "(a * c + b * d) / (c * c + d * d) * c - (b * c - a * d) / (c * c + d * d) * d = a"
    and "(a * c + b * d) / (c * c + d * d) * d + (b * c - a * d) / (c * c + d * d) * c = b"
proof -
  have d: "x / n * u - y / n * v = (x * u - y * v) / n" "x / n * u + y / n * v = (x * u + y * v) / n"
    for x y u v n :: rat by (simp_all add: diff_divide_distrib add_divide_distrib)
  have "(a * c + b * d) * c - (b * c - a * d) * d = a * (c * c + d * d)"
    and "(a * c + b * d) * d + (b * c - a * d) * c = b * (c * c + d * d)" by (simp_all add: algebra_simps)
  then show "(a * c + b * d) / (c * c + d * d) * c - (b * c - a * d) / (c * c + d * d) * d = a"
    and "(a * c + b * d) / (c * c + d * d) * d + (b * c - a * d) / (c * c + d * d) * c = b"
    unfolding d using nonzero_mult_div_cancel_right [OF assms] by metis+
qed

lemma num_obj_of_wf: "wf_num v \<Longrightarrow> num_obj (re_val v) (im_val v) = Inr v"
  using rat_obj_of_wf(1) fix_zero(2) by (cases v) (simp_all add: re_val_def im_val_def num_obj_def)

section \<open>Properties\<close>

text \<open>
  C26: On exact numbers, that is integers, fractions and complex numbers with rational
  parts in any mix, the generic addition, subtraction and multiplication return the
  canonical object of the exact result: a complex object only when the imaginary part is
  not zero, each part in lowest terms, an integer where the denominator is one.  The parts
  of the operands may have up to 262,139 bits.
\<close>

theorem numeric_ring_exact:
  assumes "wf_num a" "wf_num b" "num_bits k a" "num_bits k b" "4 * k + 1 \<le> 16 * 65535"
  shows "cl_arith_add a b = num_obj (re_val a + re_val b) (im_val a + im_val b)
    \<and> cl_arith_sub a b = num_obj (re_val a - re_val b) (im_val a - im_val b)
    \<and> cl_arith_mul a b =
        num_obj (re_val a * re_val b - im_val a * im_val b) (re_val a * im_val b + im_val a * re_val b)"
  using cadd.op_num [OF assms(1-4)] csub.op_num [OF assms(1-4)] num_mul_correct [OF assms(1-4)] assms(5) by simp

lemma small_num:
  assumes "\<bar>x\<bar> < 32" "\<bar>y\<bar> < 32" "y \<noteq> 0"
  shows "wf_num (Complex_Obj (mkfix x) (mkfix y))" "num_bits 5 (Complex_Obj (mkfix x) (mkfix y))"
    "re_val (Complex_Obj (mkfix x) (mkfix y)) = of_int x" "im_val (Complex_Obj (mkfix x) (mkfix y)) = of_int y"
proof -
  have v: "rat_val (mkfix z) = of_int z \<and> wf_rat (mkfix z) \<and> bits 5 (of_int z)" if "\<bar>z\<bar> < 32" for z
  proof -
    have "CL_FIXNUM_VAL (CL_MAKE_FIXNUM z) = z" using that by (intro fixnum_val_make) (simp_all add: CL_FIXNUM_MIN_def CL_FIXNUM_MAX_def)
    moreover have "copyable z" using that by (intro copyable_small) simp
    ultimately show ?thesis using that by (simp add: rat_val_def num_val_def den_val_def fix_one(3) of_int_rat bits_def flip: of_int_rat)
  qed
  show "wf_num (Complex_Obj (mkfix x) (mkfix y))" "num_bits 5 (Complex_Obj (mkfix x) (mkfix y))"
    "re_val (Complex_Obj (mkfix x) (mkfix y)) = of_int x" "im_val (Complex_Obj (mkfix x) (mkfix y)) = of_int y"
    using v [OF assms(1)] v [OF assms(2)] assms(3) by (simp_all add: num_bits_def re_val_def im_val_def)
qed

theorem numeric_ring_exact_witness:
  "cl_arith_mul (Complex_Obj (mkfix 1) (mkfix 2)) (Complex_Obj (mkfix 3) (mkfix 4)) = num_obj (-5) 10"
proof -
  have p: "\<bar>1 :: int\<bar> < 32" "\<bar>2 :: int\<bar> < 32" "2 \<noteq> (0 :: int)" "\<bar>3 :: int\<bar> < 32" "\<bar>4 :: int\<bar> < 32" "4 \<noteq> (0 :: int)" by simp_all
  note a = small_num [OF p(1-3)] and b = small_num [OF p(4-6)]
  show ?thesis using numeric_ring_exact [OF a(1) b(1) a(2) b(2)] unfolding a(3,4) b(3,4) by simp
qed

text \<open>
  Generic division of exact numbers by a non-zero number returns the canonical object
  of the number whose product with the divisor is the dividend (complex division goes
  through the conjugate); division by zero, complex zero included, signals the division
  error.
\<close>

theorem numeric_division_exact:
  assumes "wf_num a" "wf_num b" "num_bits k a" "num_bits k b" "8 * k + 3 \<le> 16 * 65535"
  shows "if re_val b = 0 \<and> im_val b = 0 then cl_arith_div a b = Inl Div_Zero
    else \<exists>p q. cl_arith_div a b = num_obj p q
      \<and> p * re_val b - q * im_val b = re_val a \<and> p * im_val b + q * re_val b = im_val a"
proof (cases "re_val b = 0 \<and> im_val b = 0")
  case True
  then show ?thesis using num_div_correct [OF assms(1-4)] assms(5) by simp
next
  case False
  define n where "n = re_val b * re_val b + im_val b * im_val b"
  define p where "p = (re_val a * re_val b + im_val a * im_val b) / n"
  define q where "q = (im_val a * re_val b - re_val a * im_val b) / n"
  have n: "n \<noteq> 0" using False norm_pos unfolding n_def by simp
  have "p * re_val b - q * im_val b = re_val a" "p * im_val b + q * re_val b = im_val a"
    using conjugate_division [OF n [unfolded n_def]] by (simp_all add: p_def q_def n_def)
  moreover have "cl_arith_div a b = num_obj p q"
    using False num_div_correct [OF assms(1-4)] assms(5) unfolding p_def q_def n_def Let_def by auto
  ultimately show ?thesis using False by auto
qed

text \<open>
  The absolute value of a complex number with rational parts is the exact integer when
  the sum of the squares of its parts is the square of an integer, and is handed to the
  floating-point square root otherwise; negation is exact.
\<close>

theorem complex_abs_exact:
  assumes "wf_num a" "a = Complex_Obj re im" "num_bits k a" "4 * k + 4 \<le> 16 * 65535"
  shows "(\<forall>s. 0 \<le> s \<and> of_int (s * s) = re_val a * re_val a + im_val a * im_val a \<longrightarrow> cl_arith_abs a = int_obj s)
    \<and> ((\<nexists>s. of_int (s * s) = re_val a * re_val a + im_val a * im_val a) \<longrightarrow> cl_arith_abs a = Inl (Float_Path ''sqrt''))
    \<and> cl_arith_negate a = num_obj (- re_val a) (- im_val a)"
  using complex_abs_correct [of re im k] num_negate_correct [OF assms(1)] assms
  by (simp add: re_val_def im_val_def)

text \<open>
  Numeric equality over the exact numbers decides equality of the values across
  representations: a real and a complex number are never equal, since a canonical complex
  number has a non-zero imaginary part.
\<close>

theorem numeric_equal_exact:
  assumes "wf_num a" "wf_num b" "num_bits k a" "num_bits l b" "k + l + 1 \<le> 16 * 65535"
  shows "cl_numeric_equal a b = Inr (re_val a = re_val b \<and> im_val a = im_val b)
    \<and> (cl_numeric_equal a b = Inr True \<longleftrightarrow> a = b)"
proof -
  have "re_val a = re_val b \<and> im_val a = im_val b \<Longrightarrow> a = b"
    using num_obj_of_wf [OF assms(1)] num_obj_of_wf [OF assms(2)] by (metis sum.inject(2))
  then show ?thesis using num_equal_correct [OF assms] by auto
qed

end
