(* ===== verification/Builtins_Arith.thy ===== *)
theory Builtins_Arith
  imports Numeric
begin

text \<open>
  The arithmetic functions of the language, \<open>src/core/builtins_arith.c\<close>.  A builtin takes
  the argument array as a list; the registration table at the end of the C file lets the
  caller pass only argument counts for which every array access below is in bounds, and
  an access outside the list is \<open>Undefined\<close>.  A builtin that answers \<open>SYM_T\<close> or \<open>CL_NIL\<close>
  returns a \<open>bool\<close>; one that sets a second value (\<open>cl_mv_values\<close>) returns the pair.
  The exact branches are modelled; the floating-point branches end in \<open>Float_Path\<close>.
\<close>

section \<open>Argument checks\<close>

definition check_number :: "cl_val \<Rightarrow> string \<Rightarrow> unit res" where
  "check_number obj opn = (if CL_NUMBER_P obj then Inr () else Inl (Type_Error opn))"

definition bi_check_integer :: "cl_val \<Rightarrow> string \<Rightarrow> unit res" where
  "bi_check_integer obj opn = (if CL_INTEGER_P obj then Inr () else Inl (Type_Error opn))"

definition check_real :: "cl_val \<Rightarrow> string \<Rightarrow> unit res" where
  "check_real obj opn = (if CL_REALP obj then Inr () else Inl (Type_Error opn))"

section \<open>Rounding\<close>

datatype round_mode = ROUND_FLOOR | ROUND_CEILING | ROUND_TRUNCATE | ROUND_ROUND

text \<open>The adjustment of the truncated quotient and its remainder, by mode.\<close>

definition round_adjust :: "round_mode \<Rightarrow> cl_val \<Rightarrow> cl_val \<Rightarrow> cl_val \<Rightarrow> cl_val \<Rightarrow> (cl_val \<times> cl_val) res" where
  "round_adjust mode num dvr q r =
     (let up = bindr (cl_arith_add q (mkfix 1)) (\<lambda>q. bindr (cl_arith_sub r dvr) (\<lambda>r. Inr (q, r)));
          down = bindr (cl_arith_sub q (mkfix 1)) (\<lambda>q. bindr (cl_arith_add r dvr) (\<lambda>r. Inr (q, r)))
      in case mode of
        ROUND_FLOOR \<Rightarrow>
          bindr (cl_arith_minusp r) (\<lambda>rn. bindr (cl_arith_minusp dvr) (\<lambda>bn.
            if rn \<noteq> bn then down else Inr (q, r)))
      | ROUND_CEILING \<Rightarrow>
          bindr (cl_arith_minusp r) (\<lambda>rn. bindr (cl_arith_minusp dvr) (\<lambda>bn.
            if rn = bn then up else Inr (q, r)))
      | ROUND_TRUNCATE \<Rightarrow> Inr (q, r)
      | ROUND_ROUND \<Rightarrow>
          bindr (cl_arith_add r r) (\<lambda>abs_2r.
          bindr (cl_arith_abs abs_2r) (\<lambda>abs_2r.
          bindr (cl_arith_abs dvr) (\<lambda>abs_b.
          bindr (cl_arith_compare abs_2r abs_b) (\<lambda>cmp.
          bindr (if cmp = 0 then integer_evenp q else Inr True) (\<lambda>even.
            if cmp > 0 \<or> (cmp = 0 \<and> \<not> even) then
              bindr (cl_arith_minusp num) (\<lambda>an. bindr (cl_arith_minusp dvr) (\<lambda>bn.
                if an = bn then up else down))
            else Inr (q, r)))))))"

definition round_rational :: "round_mode \<Rightarrow> cl_val \<Rightarrow> cl_val \<Rightarrow> (cl_val \<times> cl_val) res" where
  "round_rational mode num dvr =
     bindr (cl_arith_mul (cl_numerator num) (cl_denominator dvr)) (\<lambda>int_a.
     bindr (cl_arith_mul (cl_denominator num) (cl_numerator dvr)) (\<lambda>int_b.
     bindr (integer_truncate int_a int_b) (\<lambda>q.
     bindr (cl_arith_mul q dvr) (\<lambda>r.
     bindr (cl_arith_sub num r) (\<lambda>r.
       if mode \<noteq> ROUND_TRUNCATE then
         bindr (cl_arith_zerop r) (\<lambda>z. if z then Inr (q, r) else round_adjust mode num dvr q r)
       else Inr (q, r))))))"

text \<open>\<open>do_rounding\<close> with two arguments, then with one or two.\<close>

definition do_rounding2 :: "cl_val \<Rightarrow> cl_val \<Rightarrow> round_mode \<Rightarrow> string \<Rightarrow> bool \<Rightarrow> (cl_val \<times> cl_val) res" where
  "do_rounding2 num dvr mode name float_quotient =
     bindr (check_number num name) (\<lambda>_.
     bindr (check_number dvr name) (\<lambda>_.
       if CL_RATIONAL_P num \<and> CL_RATIONAL_P dvr then
         bindr (round_rational mode num dvr) (\<lambda>(q, r).
           if float_quotient then Inl (Float_Path ''cl_make_single_float'') else Inr (q, r))
       else Inl (Float_Path ''cl_to_double'')))"

fun do_rounding :: "cl_val list \<Rightarrow> round_mode \<Rightarrow> string \<Rightarrow> bool \<Rightarrow> (cl_val \<times> cl_val) res" where
  "do_rounding [] mode name float_quotient = Inl Undefined"
| "do_rounding [num] mode name float_quotient =
     bindr (check_number num name) (\<lambda>_.
       if CL_INTEGER_P num then
         (if float_quotient then Inl (Float_Path ''cl_make_single_float'') else Inr (num, mkfix 0))
       else if CL_RATIO_P num then
         bindr (do_rounding2 (cl_numerator num) (cl_denominator num) mode name float_quotient) (\<lambda>(q, _).
         bindr (cl_arith_sub num q) (\<lambda>r. Inr (q, r)))
       else Inl (Float_Path ''cl_to_double''))"
| "do_rounding (num # dvr # _) mode name float_quotient = do_rounding2 num dvr mode name float_quotient"

definition bi_floor :: "cl_val list \<Rightarrow> (cl_val \<times> cl_val) res" where
  "bi_floor args = do_rounding args ROUND_FLOOR ''FLOOR'' False"

definition bi_ceiling :: "cl_val list \<Rightarrow> (cl_val \<times> cl_val) res" where
  "bi_ceiling args = do_rounding args ROUND_CEILING ''CEILING'' False"

definition bi_truncate :: "cl_val list \<Rightarrow> (cl_val \<times> cl_val) res" where
  "bi_truncate args = do_rounding args ROUND_TRUNCATE ''TRUNCATE'' False"

definition bi_round :: "cl_val list \<Rightarrow> (cl_val \<times> cl_val) res" where
  "bi_round args = do_rounding args ROUND_ROUND ''ROUND'' False"

definition bi_ffloor :: "cl_val list \<Rightarrow> (cl_val \<times> cl_val) res" where
  "bi_ffloor args = do_rounding args ROUND_FLOOR ''FFLOOR'' True"

definition bi_fceiling :: "cl_val list \<Rightarrow> (cl_val \<times> cl_val) res" where
  "bi_fceiling args = do_rounding args ROUND_CEILING ''FCEILING'' True"

definition bi_ftruncate :: "cl_val list \<Rightarrow> (cl_val \<times> cl_val) res" where
  "bi_ftruncate args = do_rounding args ROUND_TRUNCATE ''FTRUNCATE'' True"

definition bi_fround :: "cl_val list \<Rightarrow> (cl_val \<times> cl_val) res" where
  "bi_fround args = do_rounding args ROUND_ROUND ''FROUND'' True"

section \<open>Arithmetic\<close>

text \<open>The loop \<open>for (; i < n; i++) { check(args[i]); result = op(result, args[i]); }\<close>.\<close>

fun fold_args :: "(cl_val \<Rightarrow> unit res) \<Rightarrow> (cl_val \<Rightarrow> cl_val \<Rightarrow> cl_val res) \<Rightarrow> cl_val \<Rightarrow> cl_val list \<Rightarrow> cl_val res" where
  "fold_args check opn result [] = Inr result"
| "fold_args check opn result (x # xs) =
     bindr (check x) (\<lambda>_. bindr (opn result x) (\<lambda>result. fold_args check opn result xs))"

fun bi_add :: "cl_val list \<Rightarrow> cl_val res" where
  "bi_add [] = Inr (mkfix 0)"
| "bi_add [x] = bindr (check_number x ''+'') (\<lambda>_. Inr x)"
| "bi_add args = fold_args (\<lambda>x. check_number x ''+'') cl_arith_add (mkfix 0) args"

fun bi_sub :: "cl_val list \<Rightarrow> cl_val res" where
  "bi_sub [] = Inr (mkfix 0)"
| "bi_sub [x] = bindr (check_number x ''-'') (\<lambda>_. cl_arith_negate x)"
| "bi_sub (x # xs) = bindr (check_number x ''-'') (\<lambda>_.
     fold_args (\<lambda>x. check_number x ''-'') cl_arith_sub x xs)"

fun bi_mul :: "cl_val list \<Rightarrow> cl_val res" where
  "bi_mul [] = Inr (mkfix 1)"
| "bi_mul [x] = bindr (check_number x ''*'') (\<lambda>_. Inr x)"
| "bi_mul args = fold_args (\<lambda>x. check_number x ''*'') cl_arith_mul (mkfix 1) args"

fun check_all :: "(cl_val \<Rightarrow> unit res) \<Rightarrow> cl_val list \<Rightarrow> unit res" where
  "check_all check [] = Inr ()"
| "check_all check (x # xs) = bindr (check x) (\<lambda>_. check_all check xs)"

fun bi_div :: "cl_val list \<Rightarrow> cl_val res" where
  "bi_div [] = Inl Undefined"
| "bi_div (x # xs) =
     bindr (check_all (\<lambda>x. check_number x ''/'') (x # xs)) (\<lambda>_.
       if xs = [] then cl_arith_div (mkfix 1) x
       else fold_args (\<lambda>_. Inr ()) cl_arith_div x xs)"

fun bi_rem :: "cl_val list \<Rightarrow> cl_val res" where
  "bi_rem (a # b # _) =
     bindr (check_number a ''REM'') (\<lambda>_. bindr (check_number b ''REM'') (\<lambda>_.
       if CL_FLOATP a \<or> CL_FLOATP b then Inl (Float_Path ''fmod'')
       else if CL_RATIO_P a \<or> CL_RATIO_P b then
         bindr (cl_ratio_div a b) (\<lambda>quot.
         bindr (if CL_INTEGER_P quot then Inr quot
                else integer_truncate (cl_numerator quot) (cl_denominator quot)) (\<lambda>trunc_q.
         bindr (cl_arith_mul trunc_q b) (\<lambda>result. cl_arith_sub a result)))
       else if fixnum_p a \<and> fixnum_p b then
         (if fixnum_val b = 0 then Inl Div_Zero else Inr (mkfix (fixnum_val a smod fixnum_val b)))
       else bindr (integer_truncate a b) (\<lambda>q. bindr (cl_arith_mul q b) (\<lambda>prod. cl_arith_sub a prod))))"
| "bi_rem _ = Inl Undefined"

text \<open>The floor of a fraction, as \<open>bi_mod\<close> computes it.\<close>

definition floor_of_quotient :: "cl_val \<Rightarrow> cl_val res" where
  "floor_of_quotient quot =
     (let num = cl_numerator quot; den = cl_denominator quot in
      bindr (cl_arith_minusp quot) (\<lambda>neg.
      bindr (integer_truncate num den) (\<lambda>trunc_q.
      bindr (cl_arith_mul trunc_q den) (\<lambda>check.
      bindr (cl_arith_compare check num) (\<lambda>c.
        if c \<noteq> 0 \<and> neg then cl_arith_sub trunc_q (mkfix 1) else Inr trunc_q)))))"

fun bi_mod :: "cl_val list \<Rightarrow> cl_val res" where
  "bi_mod (a # b # _) =
     bindr (check_number a ''MOD'') (\<lambda>_. bindr (check_number b ''MOD'') (\<lambda>_.
       if CL_FLOATP a \<or> CL_FLOATP b then Inl (Float_Path ''fmod'')
       else if CL_RATIO_P a \<or> CL_RATIO_P b then
         bindr (cl_ratio_div a b) (\<lambda>quot.
         bindr (if CL_INTEGER_P quot then Inr quot
                else floor_of_quotient quot) (\<lambda>floor_q.
         bindr (cl_arith_mul floor_q b) (\<lambda>result. cl_arith_sub a result)))
       else integer_mod a b))"
| "bi_mod _ = Inl Undefined"

definition bi_1plus :: "cl_val \<Rightarrow> cl_val res" where
  "bi_1plus x = bindr (check_number x ''1+'') (\<lambda>_. cl_arith_add x (mkfix 1))"

definition bi_1minus :: "cl_val \<Rightarrow> cl_val res" where
  "bi_1minus x = bindr (check_number x ''1-'') (\<lambda>_. cl_arith_sub x (mkfix 1))"

section \<open>Comparison\<close>

fun numeq_loop :: "cl_val \<Rightarrow> cl_val list \<Rightarrow> bool res" where
  "numeq_loop a [] = Inr True"
| "numeq_loop a (x # xs) =
     bindr (check_number x ''='') (\<lambda>_. bindr (cl_numeric_equal a x) (\<lambda>e.
       if e then numeq_loop a xs else Inr False))"

fun bi_numeq :: "cl_val list \<Rightarrow> bool res" where
  "bi_numeq [] = Inl Undefined"
| "bi_numeq (x # xs) = bindr (check_number x ''='') (\<lambda>_. numeq_loop x xs)"

fun numneq_loop :: "cl_val \<Rightarrow> cl_val list \<Rightarrow> bool res" where
  "numneq_loop a [] = Inr True"
| "numneq_loop a (x # xs) =
     bindr (check_number x ''/='') (\<lambda>_. bindr (cl_numeric_equal a x) (\<lambda>e.
       if e then Inr False else numneq_loop a xs))"

fun bi_numneq :: "cl_val list \<Rightarrow> bool res" where
  "bi_numneq [] = Inr True"
| "bi_numneq (x # xs) =
     bindr (check_number x ''/='') (\<lambda>_. bindr (numneq_loop x xs) (\<lambda>d.
       if d then bi_numneq xs else Inr False))"

text \<open>The body of \<open>DEFINE_REAL_CHAIN_CMP\<close>; \<open>failop\<close> is the negated relation.\<close>

fun real_chain_cmp :: "string \<Rightarrow> (int \<Rightarrow> bool) \<Rightarrow> cl_val list \<Rightarrow> bool res" where
  "real_chain_cmp who failop (x # y # ys) =
     bindr (check_real x who) (\<lambda>_. bindr (check_real y who) (\<lambda>_.
     bindr (cl_arith_compare x y) (\<lambda>c.
       if failop c then Inr False else real_chain_cmp who failop (y # ys))))"
| "real_chain_cmp who failop _ = Inr True"

definition bi_lt :: "cl_val list \<Rightarrow> bool res" where
  "bi_lt = real_chain_cmp ''<'' (\<lambda>c. c \<ge> 0)"

definition bi_gt :: "cl_val list \<Rightarrow> bool res" where
  "bi_gt = real_chain_cmp ''>'' (\<lambda>c. c \<le> 0)"

definition bi_le :: "cl_val list \<Rightarrow> bool res" where
  "bi_le = real_chain_cmp ''<='' (\<lambda>c. c > 0)"

definition bi_ge :: "cl_val list \<Rightarrow> bool res" where
  "bi_ge = real_chain_cmp ''>='' (\<lambda>c. c < 0)"

section \<open>Numeric predicates\<close>

definition bi_zerop :: "cl_val \<Rightarrow> bool res" where
  "bi_zerop x = bindr (check_number x ''ZEROP'') (\<lambda>_. cl_arith_zerop x)"

definition bi_plusp :: "cl_val \<Rightarrow> bool res" where
  "bi_plusp x = bindr (check_number x ''PLUSP'') (\<lambda>_. cl_arith_plusp x)"

definition bi_minusp :: "cl_val \<Rightarrow> bool res" where
  "bi_minusp x = bindr (check_number x ''MINUSP'') (\<lambda>_. cl_arith_minusp x)"

definition bi_evenp :: "cl_val \<Rightarrow> bool res" where
  "bi_evenp x = bindr (bi_check_integer x ''EVENP'') (\<lambda>_. integer_evenp x)"

definition bi_oddp :: "cl_val \<Rightarrow> bool res" where
  "bi_oddp x = bindr (bi_check_integer x ''ODDP'') (\<lambda>_. bindr (integer_evenp x) (\<lambda>e. Inr (\<not> e)))"

definition bi_abs :: "cl_val \<Rightarrow> cl_val res" where
  "bi_abs x = bindr (check_number x ''ABS'') (\<lambda>_. cl_arith_abs x)"

definition bi_signum :: "cl_val \<Rightarrow> cl_val res" where
  "bi_signum x =
     bindr (check_number x ''SIGNUM'') (\<lambda>_.
     bindr (cl_arith_zerop x) (\<lambda>z.
       if z then Inr x
       else bindr (cl_arith_abs x) (\<lambda>abs_a. cl_arith_div x abs_a)))"

text \<open>The loop of \<open>DEFINE_MINMAX\<close>; \<open>best\<close> is the argument at the winning index.\<close>

fun minmax_loop :: "string \<Rightarrow> (int \<Rightarrow> bool) \<Rightarrow> cl_val \<Rightarrow> cl_val list \<Rightarrow> cl_val res" where
  "minmax_loop who pickop best [] = Inr best"
| "minmax_loop who pickop best (x # xs) =
     bindr (check_number x who) (\<lambda>_.
     bindr (cl_arith_compare x best) (\<lambda>c.
       minmax_loop who pickop (if pickop c then x else best) xs))"

fun minmax :: "string \<Rightarrow> (int \<Rightarrow> bool) \<Rightarrow> cl_val list \<Rightarrow> cl_val res" where
  "minmax who pickop [] = Inl Undefined"
| "minmax who pickop (x # xs) = bindr (check_number x who) (\<lambda>_. minmax_loop who pickop x xs)"

definition bi_max :: "cl_val list \<Rightarrow> cl_val res" where
  "bi_max = minmax ''MAX'' (\<lambda>c. c > 0)"

definition bi_min :: "cl_val list \<Rightarrow> cl_val res" where
  "bi_min = minmax ''MIN'' (\<lambda>c. c < 0)"

section \<open>Integer functions\<close>

fun bi_gcd :: "cl_val list \<Rightarrow> cl_val res" where
  "bi_gcd [] = Inr (mkfix 0)"
| "bi_gcd (x # xs) =
     bindr (bi_check_integer x ''GCD'') (\<lambda>_.
     bindr (cl_arith_abs x) (\<lambda>result.
       fold_args (\<lambda>x. bi_check_integer x ''GCD'') integer_gcd result xs))"

fun lcm_loop :: "cl_val \<Rightarrow> cl_val list \<Rightarrow> cl_val res" where
  "lcm_loop result [] = Inr result"
| "lcm_loop result (x # xs) =
     bindr (bi_check_integer x ''LCM'') (\<lambda>_.
     bindr (cl_arith_abs x) (\<lambda>b.
     bindr (bindr (cl_arith_zerop result) (\<lambda>z. if z then Inr True else cl_arith_zerop b)) (\<lambda>z.
       if z then Inr (mkfix 0)
       else bindr (integer_gcd result b) (\<lambda>g.
            bindr (integer_truncate result g) (\<lambda>g.
            bindr (cl_arith_mul g b) (\<lambda>result. lcm_loop result xs))))))"

fun bi_lcm :: "cl_val list \<Rightarrow> cl_val res" where
  "bi_lcm [] = Inr (mkfix 1)"
| "bi_lcm (x # xs) =
     bindr (bi_check_integer x ''LCM'') (\<lambda>_.
     bindr (cl_arith_abs x) (\<lambda>result. lcm_loop result xs))"

definition bi_expt :: "cl_val \<Rightarrow> cl_val \<Rightarrow> cl_val res" where
  "bi_expt a b = bindr (bi_check_integer a ''EXPT'') (\<lambda>_. bindr (bi_check_integer b ''EXPT'') (\<lambda>_. integer_expt a b))"

definition bi_isqrt :: "cl_val \<Rightarrow> cl_val res" where
  "bi_isqrt a = bindr (bi_check_integer a ''ISQRT'') (\<lambda>_. integer_isqrt a)"

definition bi_integer_length :: "cl_val \<Rightarrow> cl_val res" where
  "bi_integer_length a =
     bindr (bi_check_integer a ''INTEGER-LENGTH'') (\<lambda>_. bindr (integer_integer_length a) (\<lambda>l. Inr (mkfix l)))"

definition bi_ash :: "cl_val \<Rightarrow> cl_val \<Rightarrow> cl_val res" where
  "bi_ash a b = bindr (bi_check_integer a ''ASH'') (\<lambda>_. bindr (bi_check_integer b ''ASH'') (\<lambda>_. integer_ash a b))"

definition bi_logand :: "cl_val list \<Rightarrow> cl_val res" where
  "bi_logand args = fold_args (\<lambda>x. bi_check_integer x ''LOGAND'') integer_logand (mkfix (-1)) args"

definition bi_logior :: "cl_val list \<Rightarrow> cl_val res" where
  "bi_logior args = fold_args (\<lambda>x. bi_check_integer x ''LOGIOR'') integer_logior (mkfix 0) args"

definition bi_logxor :: "cl_val list \<Rightarrow> cl_val res" where
  "bi_logxor args = fold_args (\<lambda>x. bi_check_integer x ''LOGXOR'') integer_logxor (mkfix 0) args"

definition bi_lognot :: "cl_val \<Rightarrow> cl_val res" where
  "bi_lognot a = bindr (bi_check_integer a ''LOGNOT'') (\<lambda>_. integer_lognot a)"

definition bi_logcount :: "cl_val \<Rightarrow> cl_val res" where
  "bi_logcount a =
     bindr (bi_check_integer a ''LOGCOUNT'') (\<lambda>_. bindr (integer_logcount a) (\<lambda>c. Inr (mkfix (int c))))"

definition bi_logbitp :: "cl_val \<Rightarrow> cl_val \<Rightarrow> bool res" where
  "bi_logbitp a b =
     bindr (bi_check_integer a ''LOGBITP'') (\<lambda>_.
     bindr (bi_check_integer b ''LOGBITP'') (\<lambda>_.
     bindr (cl_arith_minusp a) (\<lambda>neg.
       if neg then Inl (Type_Error ''LOGBITP'')
       else if \<not> fixnum_p a then cl_arith_minusp b
       else integer_logbitp (fixnum_val a) b)))"

definition bi_logtest :: "cl_val \<Rightarrow> cl_val \<Rightarrow> bool res" where
  "bi_logtest a b =
     bindr (bi_check_integer a ''LOGTEST'') (\<lambda>_.
     bindr (bi_check_integer b ''LOGTEST'') (\<lambda>_.
     bindr (integer_logand a b) (\<lambda>r.
     bindr (cl_arith_zerop r) (\<lambda>z. Inr (\<not> z)))))"

section \<open>Byte fields\<close>

text \<open>A byte specifier is the cons \<open>(size . position)\<close>; its parts as the readers take them.\<close>

fun byte_spec :: "string \<Rightarrow> cl_val \<Rightarrow> (cl_val \<times> cl_val) res" where
  "byte_spec who (Cons_Obj sz pos) = Inr (sz, pos)"
| "byte_spec who _ = Inl (Type_Error who)"

definition bi_byte :: "cl_val \<Rightarrow> cl_val \<Rightarrow> cl_val res" where
  "bi_byte sz pos =
     bindr (bi_check_integer sz ''BYTE'') (\<lambda>_. bindr (bi_check_integer pos ''BYTE'') (\<lambda>_. Inr (Cons_Obj sz pos)))"

definition bi_byte_size :: "cl_val \<Rightarrow> cl_val res" where
  "bi_byte_size b = bindr (byte_spec ''BYTE-SIZE: not a byte specifier'' b) (\<lambda>(sz, _). Inr sz)"

definition bi_byte_position :: "cl_val \<Rightarrow> cl_val res" where
  "bi_byte_position b = bindr (byte_spec ''BYTE-POSITION: not a byte specifier'' b) (\<lambda>(_, pos). Inr pos)"

text \<open>\<open>mask = ash(1, size) - 1\<close>, the first step of every field operation.\<close>

definition byte_mask :: "cl_val \<Rightarrow> cl_val res" where
  "byte_mask sz = bindr (integer_ash (mkfix 1) sz) (\<lambda>mask. cl_arith_sub mask (mkfix 1))"

definition bi_ldb :: "cl_val \<Rightarrow> cl_val \<Rightarrow> cl_val res" where
  "bi_ldb spec n =
     bindr (byte_spec ''LDB: not a byte specifier'' spec) (\<lambda>(sz, pos).
     bindr (bi_check_integer n ''LDB'') (\<lambda>_.
     bindr (cl_arith_negate pos) (\<lambda>neg.
     bindr (integer_ash n neg) (\<lambda>shifted.
     bindr (byte_mask sz) (\<lambda>mask.
       integer_logand shifted mask)))))"

definition bi_dpb :: "cl_val \<Rightarrow> cl_val \<Rightarrow> cl_val \<Rightarrow> cl_val res" where
  "bi_dpb newbyte spec n =
     bindr (bi_check_integer newbyte ''DPB'') (\<lambda>_.
     bindr (byte_spec ''DPB: not a byte specifier'' spec) (\<lambda>(sz, pos).
     bindr (bi_check_integer n ''DPB'') (\<lambda>_.
     bindr (byte_mask sz) (\<lambda>mask.
     bindr (integer_ash mask pos) (\<lambda>shifted_mask.
     bindr (integer_lognot shifted_mask) (\<lambda>notm.
     bindr (integer_logand n notm) (\<lambda>cleared.
     bindr (integer_logand newbyte mask) (\<lambda>new_bits.
     bindr (integer_ash new_bits pos) (\<lambda>new_bits.
       integer_logior cleared new_bits)))))))))"

definition bi_ldb_test :: "cl_val \<Rightarrow> cl_val \<Rightarrow> bool res" where
  "bi_ldb_test spec n = bindr (bi_ldb spec n) (\<lambda>val. bindr (cl_arith_zerop val) (\<lambda>z. Inr (\<not> z)))"

definition bi_mask_field :: "cl_val \<Rightarrow> cl_val \<Rightarrow> cl_val res" where
  "bi_mask_field spec n =
     bindr (byte_spec ''MASK-FIELD: not a byte specifier'' spec) (\<lambda>(sz, pos).
     bindr (bi_check_integer n ''MASK-FIELD'') (\<lambda>_.
     bindr (byte_mask sz) (\<lambda>mask.
     bindr (integer_ash mask pos) (\<lambda>shifted_mask.
       integer_logand n shifted_mask))))"

definition bi_deposit_field :: "cl_val \<Rightarrow> cl_val \<Rightarrow> cl_val \<Rightarrow> cl_val res" where
  "bi_deposit_field newbyte spec n =
     bindr (bi_check_integer newbyte ''DEPOSIT-FIELD'') (\<lambda>_.
     bindr (byte_spec ''DEPOSIT-FIELD: not a byte specifier'' spec) (\<lambda>(sz, pos).
     bindr (bi_check_integer n ''DEPOSIT-FIELD'') (\<lambda>_.
     bindr (byte_mask sz) (\<lambda>mask.
     bindr (integer_ash mask pos) (\<lambda>shifted_mask.
     bindr (integer_lognot shifted_mask) (\<lambda>notm.
     bindr (integer_logand n notm) (\<lambda>cleared.
     bindr (integer_logand newbyte shifted_mask) (\<lambda>new_bits.
       integer_logior cleared new_bits))))))))"

definition bi_boole :: "cl_val \<Rightarrow> cl_val \<Rightarrow> cl_val \<Rightarrow> cl_val res" where
  "bi_boole opr a b =
     bindr (bi_check_integer opr ''BOOLE'') (\<lambda>_.
     bindr (bi_check_integer a ''BOOLE'') (\<lambda>_.
     bindr (bi_check_integer b ''BOOLE'') (\<lambda>_.
       if \<not> fixnum_p opr then Inl (Type_Error ''BOOLE: operation must be a fixnum'')
       else let k = fixnum_val opr in
         if k = 0 then Inr (mkfix 0)
         else if k = 1 then Inr (mkfix (-1))
         else if k = 2 then Inr a
         else if k = 3 then Inr b
         else if k = 4 then integer_lognot a
         else if k = 5 then integer_lognot b
         else if k = 6 then integer_logand a b
         else if k = 7 then integer_logior a b
         else if k = 8 then integer_logxor a b
         else if k = 9 then bindr (integer_logxor a b) integer_lognot
         else if k = 10 then bindr (integer_logand a b) integer_lognot
         else if k = 11 then bindr (integer_logior a b) integer_lognot
         else if k = 12 then bindr (integer_lognot a) (\<lambda>a. integer_logand a b)
         else if k = 13 then bindr (integer_lognot b) (\<lambda>b. integer_logand a b)
         else if k = 14 then bindr (integer_lognot a) (\<lambda>a. integer_logior a b)
         else if k = 15 then bindr (integer_lognot b) (\<lambda>b. integer_logior a b)
         else Inl (Args_Error ''BOOLE: invalid operation''))))"

section \<open>Complex numbers and rationals\<close>

fun bi_complex :: "cl_val list \<Rightarrow> cl_val res" where
  "bi_complex [] = Inl Undefined"
| "bi_complex (rl # rest) =
     (let imag = (case rest of [] \<Rightarrow> mkfix 0 | i # _ \<Rightarrow> i) in
      if \<not> CL_REALP rl then Inl (Type_Error ''COMPLEX'')
      else if \<not> CL_REALP imag then Inl (Type_Error ''COMPLEX'')
      else if \<not> CL_FLOATP rl \<and> \<not> CL_FLOATP imag then
        (if fixnum_p imag \<and> fixnum_val imag = 0 then Inr rl else Inr (cl_make_complex rl imag))
      else
        (let want_double = CL_DOUBLE_FLOAT_P rl \<or> CL_DOUBLE_FLOAT_P imag in
         bindr (coerce_real_to_float rl want_double) (\<lambda>rl.
         bindr (coerce_real_to_float imag want_double) (\<lambda>imag.
           Inr (cl_make_complex rl imag)))))"

definition bi_realpart :: "cl_val \<Rightarrow> cl_val res" where
  "bi_realpart x =
     (case x of Complex_Obj re im \<Rightarrow> Inr re
      | _ \<Rightarrow> if CL_REALP x then Inr x else Inl (Type_Error ''REALPART''))"

definition bi_imagpart :: "cl_val \<Rightarrow> cl_val res" where
  "bi_imagpart x =
     (case x of Complex_Obj re im \<Rightarrow> Inr im
      | _ \<Rightarrow> if CL_REALP x then
               (if CL_DOUBLE_FLOAT_P x then Inr (Double_Float 0)
                else if CL_SINGLE_FLOAT_P x then Inr (Single_Float 0)
                else Inr (mkfix 0))
             else Inl (Type_Error ''IMAGPART''))"

definition bi_conjugate :: "cl_val \<Rightarrow> cl_val res" where
  "bi_conjugate x =
     (case x of Complex_Obj re im \<Rightarrow>
        bindr (cl_arith_negate im) (\<lambda>neg_imag. Inr (cl_make_complex re neg_imag))
      | _ \<Rightarrow> if CL_REALP x then Inr x else Inl (Type_Error ''CONJUGATE''))"

definition bi_numerator :: "cl_val \<Rightarrow> cl_val res" where
  "bi_numerator x = (if CL_RATIONAL_P x then Inr (cl_numerator x) else Inl (Type_Error ''NUMERATOR''))"

definition bi_denominator :: "cl_val \<Rightarrow> cl_val res" where
  "bi_denominator x = (if CL_RATIONAL_P x then Inr (cl_denominator x) else Inl (Type_Error ''DENOMINATOR''))"

definition bi_rational :: "cl_val \<Rightarrow> cl_val res" where
  "bi_rational x =
     (if CL_RATIONAL_P x then Inr x
      else if CL_FLOATP x then Inl (Float_Path ''cl_float_to_exact_rational'')
      else Inl (Type_Error ''RATIONAL''))"

definition bi_rationalize :: "cl_val \<Rightarrow> cl_val res" where
  "bi_rationalize x = bi_rational x"

section \<open>Raw bits of floats\<close>

definition float_bits_u64_to_obj :: "u64 \<Rightarrow> cl_val res" where
  "float_bits_u64_to_obj v =
     (if v \<le> 0x3FFFFFFF then Inr (mkfix (sint v))
      else bindr (cl_make_bignum 4 False) (\<lambda>bn.
        Inr (cl_bignum_normalize (Bignum (bn \<lparr> bn_limbs :=
          [ucast (v AND 0xFFFF), ucast (drop_bit 16 v AND 0xFFFF),
           ucast (drop_bit 32 v AND 0xFFFF), ucast (drop_bit 48 v AND 0xFFFF)] \<rparr>)))))"

fun or_limbs :: "nat \<Rightarrow> u16 list \<Rightarrow> u64" where
  "or_limbs i [] = 0"
| "or_limbs i (l # ls) = (if i < 4 then push_bit (16 * i) (ucast l) OR or_limbs (Suc i) ls else 0)"

fun float_bits_obj_to_u64 :: "cl_val \<Rightarrow> string \<Rightarrow> u64 res" where
  "float_bits_obj_to_u64 (Imm w) opn =
     (if CL_FIXNUM_P w then Inr (word_of_int (CL_FIXNUM_VAL w)) else Inl (Type_Error opn))"
| "float_bits_obj_to_u64 (Bignum b) opn =
     (let v = or_limbs 0 (bn_limbs b) in Inr (if bn_sign b then - v else v))"
| "float_bits_obj_to_u64 _ opn = Inl (Type_Error opn)"

fun bi_double_float_bits :: "cl_val \<Rightarrow> cl_val res" where
  "bi_double_float_bits (Double_Float d) = float_bits_u64_to_obj d"
| "bi_double_float_bits (Single_Float f) = Inl (Float_Path ''cl_to_double'')"
| "bi_double_float_bits _ = Inl (Type_Error ''DOUBLE-FLOAT-BITS'')"

definition bi_bits_single_float :: "cl_val \<Rightarrow> cl_val res" where
  "bi_bits_single_float x = bindr (float_bits_obj_to_u64 x ''BITS-SINGLE-FLOAT'') (\<lambda>bits. Inr (Single_Float (ucast bits)))"

definition bi_bits_double_float :: "cl_val \<Rightarrow> cl_val res" where
  "bi_bits_double_float x = bindr (float_bits_obj_to_u64 x ''BITS-DOUBLE-FLOAT'') (\<lambda>bits. Inr (Double_Float bits))"

section \<open>Rounding: the arithmetic\<close>

text \<open>The truncated quotient as a rational: no further from zero than the quotient, and within one.\<close>

lemma sdiv_rat:
  fixes x y :: int
  assumes "y \<noteq> 0"
  defines "X \<equiv> (of_int x / of_int y :: rat)"
  shows "0 \<le> X \<Longrightarrow> of_int (x sdiv y) \<le> X \<and> X < of_int (x sdiv y) + 1"
    and "X \<le> 0 \<Longrightarrow> of_int (x sdiv y) - 1 < X \<and> X \<le> of_int (x sdiv y)"
proof -
  define f where "f = \<bar>x\<bar> div \<bar>y\<bar>"
  have ax: "\<bar>X\<bar> = of_int \<bar>x\<bar> / of_int \<bar>y\<bar>" by (simp add: X_def abs_divide)
  have "\<lfloor>\<bar>X\<bar>\<rfloor> = f" unfolding ax f_def by (rule floor_divide_of_int_eq)
  then have f: "of_int f \<le> \<bar>X\<bar>" "\<bar>X\<bar> < of_int f + 1" by linarith+
  have t: "x sdiv y = sgn x * sgn y * f" by (simp add: signed_divide_int_def f_def)
  show "of_int (x sdiv y) \<le> X \<and> X < of_int (x sdiv y) + 1" if "0 \<le> X"
  proof (cases "x = 0")
    case False
    then have "sgn x * sgn y = 1" using that assms(1) by (auto simp: X_def zero_le_divide_iff sgn_if split: if_splits)
    then show ?thesis using f that t by simp
  qed (simp_all add: t X_def)
  show "of_int (x sdiv y) - 1 < X \<and> X \<le> of_int (x sdiv y)" if "X \<le> 0"
  proof (cases "x = 0")
    case False
    then have "sgn x * sgn y = -1" using that assms(1) by (auto simp: X_def divide_le_0_iff sgn_if split: if_splits)
    then show ?thesis using f that t by simp
  qed (simp_all add: t X_def)
qed

lemma sdiv_abs_le: "\<bar>x sdiv y\<bar> \<le> \<bar>x :: int\<bar>"
proof -
  have "0 \<le> \<bar>x\<bar> div \<bar>y\<bar>" by (cases "y = 0") (simp_all add: pos_imp_zdiv_nonneg_iff)
  then have "\<bar>x sdiv y\<bar> \<le> \<bar>x\<bar> div \<bar>y\<bar>" unfolding signed_divide_int_def abs_mult
    by (cases "x = 0"; cases "y = 0") (simp_all add: abs_sgn_eq)
  also have "\<dots> \<le> \<bar>x\<bar>" using zdiv_mono2 [of "\<bar>x\<bar>" 1 "\<bar>y\<bar>"] by (cases "y = 0") simp_all
  finally show ?thesis .
qed

text \<open>What each rounding mode asks of the integer it returns for a quotient.\<close>

fun rounds_to :: "round_mode \<Rightarrow> rat \<Rightarrow> int \<Rightarrow> bool" where
  "rounds_to ROUND_FLOOR x q = (q = \<lfloor>x\<rfloor>)"
| "rounds_to ROUND_CEILING x q = (q = \<lceil>x\<rceil>)"
| "rounds_to ROUND_TRUNCATE x q = (q = (if 0 \<le> x then \<lfloor>x\<rfloor> else \<lceil>x\<rceil>))"
| "rounds_to ROUND_ROUND x q = (\<bar>x - of_int q\<bar> < 1 / 2 \<or> \<bar>x - of_int q\<bar> = 1 / 2 \<and> even q)"

text \<open>The integer the adjustment steps compute from the truncated quotient \<open>t\<close>.\<close>

fun adjusted :: "round_mode \<Rightarrow> rat \<Rightarrow> int \<Rightarrow> int" where
  "adjusted ROUND_FLOOR x t = (if x < of_int t then t - 1 else t)"
| "adjusted ROUND_CEILING x t = (if of_int t < x then t + 1 else t)"
| "adjusted ROUND_TRUNCATE x t = t"
| "adjusted ROUND_ROUND x t =
     (let d = 2 * \<bar>x - of_int t\<bar> in
      if 1 < d \<or> (d = 1 \<and> odd t) then (if 0 < x then t + 1 else t - 1) else t)"

lemma adjusted_rounds:
  assumes pos: "0 \<le> x \<Longrightarrow> of_int t \<le> x \<and> x < of_int t + 1"
    and neg: "x \<le> 0 \<Longrightarrow> of_int t - 1 < x \<and> x \<le> of_int t"
  shows "rounds_to mode x (adjusted mode x t)"
proof (cases mode)
  case ROUND_FLOOR
  have "\<lfloor>x\<rfloor> = (if x < of_int t then t - 1 else t)"
    using assms by (cases "0 \<le> x") (auto simp: floor_eq_iff)
  then show ?thesis using ROUND_FLOOR by simp
next
  case ROUND_CEILING
  have "\<lceil>x\<rceil> = (if of_int t < x then t + 1 else t)"
    using assms by (cases "0 \<le> x") (auto simp: ceiling_eq_iff)
  then show ?thesis using ROUND_CEILING by simp
next
  case ROUND_TRUNCATE
  have "(if 0 \<le> x then \<lfloor>x\<rfloor> else \<lceil>x\<rceil>) = t"
    using assms by (cases "0 \<le> x") (auto simp: floor_eq_iff ceiling_eq_iff)
  then show ?thesis using ROUND_TRUNCATE by simp
next
  case ROUND_ROUND
  show ?thesis
  proof (cases "0 < x")
    case True
    then have "\<bar>x - of_int t\<bar> = x - of_int t" using pos by simp
    then show ?thesis using True pos ROUND_ROUND by (auto simp: Let_def abs_if)
  next
    case False
    then have "\<bar>x - of_int t\<bar> = of_int t - x" using neg by simp
    then show ?thesis using False neg ROUND_ROUND by (auto simp: Let_def abs_if)
  qed
qed

section \<open>Rounding: the routines\<close>

lemma mkint_rat: "copyable z \<Longrightarrow> wf_rat (mkint z) \<and> rat_val (mkint z) = of_int z \<and> \<not> CL_RATIO_P (mkint z)"
proof -
  assume c: "copyable z"
  have nr: "\<not> CL_RATIO_P (mkint z)" using mkint_copyable(2) [OF c] by (cases "mkint z") simp_all
  have "wf_rat (mkint z)" using mkint_copyable(2,3) [OF c] c by (cases "mkint z") simp_all
  then show ?thesis using wf_rat_integer(3) [OF _ nr] mkint_copyable(3) [OF c] nr by simp
qed

lemma wf_rat_of_int:
  assumes "wf_rat v" "rat_val v = of_int z"
  shows "v = mkint z" "copyable z"
proof -
  have "\<not> CL_RATIO_P v" using wf_rat_int_value [OF assms(1)] assms(2) by (cases v) (auto simp: CL_INTEGER_P_def)
  note I = wf_rat_integer [OF assms(1) this]
  then have "int_val v = z" using assms(2) by simp
  then show "v = mkint z" "copyable z" using I(2) mkint_val [OF I(1)] by simp_all
qed

lemma one_rat: "wf_rat (mkfix 1)" "rat_val (mkfix 1) = 1" "bits 1 1"
  using mkint_rat [of 1] by (simp_all add: fix_one(1) [symmetric] bits_def)

definition exact_pair :: "(cl_val \<times> cl_val) res \<Rightarrow> int \<Rightarrow> rat \<Rightarrow> bool" where
  "exact_pair m q r \<longleftrightarrow> (\<exists>q' r'. m = Inr (q', r') \<and> wf_rat q' \<and> rat_val q' = of_int q \<and> wf_rat r' \<and> rat_val r' = r)"

lemma exact_pairI: "wf_rat q \<Longrightarrow> wf_rat r \<Longrightarrow> rat_val q = of_int t \<Longrightarrow> exact_pair (Inr (q, r)) t (rat_val r)"
  by (simp add: exact_pair_def)

lemma round_step:
  assumes "wf_rat q" "wf_rat r" "wf_rat b" "rat_val q = of_int t"
    and "bits m (rat_val q)" "bits m (rat_val r)" "bits k (rat_val b)" "m + k + 2 \<le> 16 * 65535"
  shows "exact_pair (bindr (cl_arith_add q (mkfix 1)) (\<lambda>q. bindr (cl_arith_sub r b) (\<lambda>r. Inr (q, r))))
      (t + 1) (rat_val r - rat_val b)"
    and "exact_pair (bindr (cl_arith_sub q (mkfix 1)) (\<lambda>q. bindr (cl_arith_add r b) (\<lambda>r. Inr (q, r))))
      (t - 1) (rat_val r + rat_val b)"
proof -
  have le: "m + 1 + 1 \<le> 16 * 65535" "m + k + 1 \<le> 16 * 65535" using assms(8) by simp_all
  note s1 = num_step(1,2) [OF assms(1) one_rat(1) assms(5) _ le(1)] and s2 = num_step(1,2) [OF assms(2,3,6,7) le(2)]
  show "exact_pair (bindr (cl_arith_add q (mkfix 1)) (\<lambda>q. bindr (cl_arith_sub r b) (\<lambda>r. Inr (q, r))))
      (t + 1) (rat_val r - rat_val b)"
    using s1(1) s2(2) one_rat assms(4) by (auto simp: exact_pair_def)
  show "exact_pair (bindr (cl_arith_sub q (mkfix 1)) (\<lambda>q. bindr (cl_arith_add r b) (\<lambda>r. Inr (q, r))))
      (t - 1) (rat_val r + rat_val b)"
    using s1(2) s2(1) one_rat assms(4) by (auto simp: exact_pair_def)
qed

lemma quotient_signs:
  fixes r b :: rat
  assumes "r \<noteq> 0" "b \<noteq> 0"
  shows "(r < 0) \<noteq> (b < 0) \<longleftrightarrow> r / b < 0" "(r < 0) = (b < 0) \<longleftrightarrow> 0 < r / b"
  using assms by (auto simp: divide_less_0_iff zero_less_divide_iff)

lemma round_half_test:
  fixes r b :: rat
  assumes "b \<noteq> 0"
  shows "\<bar>r + r\<bar> < \<bar>b\<bar> \<longleftrightarrow> 2 * \<bar>r / b\<bar> < 1" "\<bar>r + r\<bar> = \<bar>b\<bar> \<longleftrightarrow> 2 * \<bar>r / b\<bar> = 1"
proof -
  have "\<bar>r + r\<bar> = 2 * \<bar>r\<bar>" by (simp add: abs_mult flip: mult_2)
  then show "\<bar>r + r\<bar> < \<bar>b\<bar> \<longleftrightarrow> 2 * \<bar>r / b\<bar> < 1" "\<bar>r + r\<bar> = \<bar>b\<bar> \<longleftrightarrow> 2 * \<bar>r / b\<bar> = 1"
    using assms by (simp_all add: abs_divide divide_less_eq divide_eq_eq)
qed

lemma abs_step:
  assumes "wf_rat u" "bits n (rat_val u)"
  shows "\<exists>v. cl_arith_abs u = Inr v \<and> wf_rat v \<and> rat_val v = \<bar>rat_val u\<bar> \<and> bits n (rat_val v)"
proof -
  have "bits n \<bar>rat_val u\<bar>" using assms(2) wf_rat_quotient [OF assms(1)] wf_rat_parts(5) [OF assms(1)]
    unfolding rat_val_abs [OF assms(1)] by (intro bits_Fract) (simp_all add: bits_def)
  moreover have "rat_small \<bar>rat_val u\<bar>" using rat_small_Fract [of "\<bar>num_val u\<bar>" "den_val u"]
      wf_rat_parts(3,4) [OF assms(1)] rat_val_abs [OF assms(1)] by simp
  ultimately show ?thesis using rat_obj_small real_unary(2) [OF assms(1)] by metis
qed

lemma round_adjust_correct:
  assumes wf: "wf_rat num" "wf_rat b" "wf_rat q" "wf_rat r"
    and nz: "rat_val b \<noteq> 0" "rat_val r \<noteq> 0"
    and q: "rat_val q = of_int t" and r: "rat_val r = rat_val num - of_int t * rat_val b"
    and x: "x = rat_val num / rat_val b" and trunc: "0 \<le> x \<Longrightarrow> of_int t \<le> x" "x \<le> 0 \<Longrightarrow> x \<le> of_int t"
    and bt: "bits m (rat_val q)" "bits m (rat_val r)" "bits k (rat_val b)" "2 * m + k + 2 \<le> 16 * 65535"
  shows "exact_pair (round_adjust mode num b q r) (adjusted mode x t) (rat_val num - of_int (adjusted mode x t) * rat_val b)"
proof -
  have "m + k + 2 \<le> 16 * 65535" using bt(4) by simp
  note st = round_step [OF wf(3,4,2) q bt(1-3) this]
  have up: "rat_val r - rat_val b = rat_val num - of_int (t + 1) * rat_val b"
    and down: "rat_val r + rat_val b = rat_val num - of_int (t - 1) * rat_val b" by (simp_all add: r algebra_simps)
  note step = st [unfolded up down] and stay = exact_pairI [OF wf(3,4) q, unfolded r]
  have f: "rat_val r / rat_val b = x - of_int t" using nz(1) by (simp add: r x diff_divide_distrib)
  note mr = real_unary(5) [OF wf(4)] and mb = real_unary(5) [OF wf(2)] and mn = real_unary(5) [OF wf(1)]
  show ?thesis
  proof (cases mode)
    case ROUND_FLOOR
    have "(rat_val r < 0) \<noteq> (rat_val b < 0) \<longleftrightarrow> x < of_int t" using quotient_signs(1) [OF nz(2,1)] f by simp
    then show ?thesis using ROUND_FLOOR step(2) stay mr mb by (simp add: round_adjust_def)
  next
    case ROUND_CEILING
    have "(rat_val r < 0) = (rat_val b < 0) \<longleftrightarrow> of_int t < x" using quotient_signs(2) [OF nz(2,1)] f by simp
    then show ?thesis using ROUND_CEILING step(1) stay mr mb by (simp add: round_adjust_def)
  next
    case ROUND_TRUNCATE
    then show ?thesis using stay by (simp add: round_adjust_def)
  next
    case ROUND_ROUND
    have le: "m + m + 1 \<le> 16 * 65535" "m + m + 1 + k + 1 \<le> 16 * 65535" using bt(4) by simp_all
    obtain d where d: "cl_arith_add r r = Inr d" "wf_rat d" "rat_val d = rat_val r + rat_val r" "bits (m + m + 1) (rat_val d)"
      using num_step(1) [OF wf(4,4) bt(2,2) le(1)] by blast
    obtain d' where d': "cl_arith_abs d = Inr d'" "wf_rat d'" "rat_val d' = \<bar>rat_val d\<bar>" "bits (m + m + 1) (rat_val d')"
      using abs_step [OF d(2,4)] by blast
    obtain b' where b': "cl_arith_abs b = Inr b'" "wf_rat b'" "rat_val b' = \<bar>rat_val b\<bar>" "bits k (rat_val b')"
      using abs_step [OF wf(2) bt(3)] by blast
    have "rat_val d' < rat_val b' \<longleftrightarrow> 2 * \<bar>x - of_int t\<bar> < 1" "rat_val d' = rat_val b' \<longleftrightarrow> 2 * \<bar>x - of_int t\<bar> = 1"
      unfolding d'(3) d(3) b'(3) round_half_test [OF nz(1)] f by (rule refl)+
    note cmp = real_compare [OF d'(2) b'(2) bits_room(1) [OF d'(2) b'(2) d'(4) b'(4) le(2)], unfolded this]
    have "q = mkint t" "copyable t" using wf_rat_of_int [OF wf(3) q] by simp_all
    then have even: "integer_evenp q = Inr (even t)" using mkint_copyable(2,3) [of t] integer_evenp_correct [of q] by simp
    have "x \<noteq> of_int t" using f nz by (metis divide_eq_0_iff right_minus_eq)
    then have "rat_val num \<noteq> 0" using trunc x by auto
    then have sgn: "(rat_val num < 0) = (rat_val b < 0) \<longleftrightarrow> 0 < x" using quotient_signs(2) [OF _ nz(1)] x by simp
    show ?thesis unfolding ROUND_ROUND round_adjust_def Let_def adjusted.simps round_mode.case
      using d(1) d'(1) b'(1) cmp even mn mb sgn step stay by auto
  qed
qed

definition wrap_pair :: "cl_val \<Rightarrow> cl_val \<Rightarrow> bool" where
  "wrap_pair a b \<longleftrightarrow> num_val a * den_val b = CL_FIXNUM_MIN \<and> den_val a * num_val b = -1"

lemma bits_of_int: "\<bar>z\<bar> < 2 ^ k \<Longrightarrow> 0 < k \<Longrightarrow> bits k (of_int z)"
  using one_less_power [of "2 :: int" k] by (simp add: bits_def)

lemma wf_rat_bits:
  assumes "wf_rat v" "bits k (rat_val v)"
  shows "\<bar>num_val v\<bar> < 2 ^ k" "\<bar>den_val v\<bar> < 2 ^ k" "0 < k"
proof -
  show n: "\<bar>num_val v\<bar> < 2 ^ k" "\<bar>den_val v\<bar> < 2 ^ k"
    using assms(2) wf_rat_quotient [OF assms(1)] wf_rat_parts(5) [OF assms(1)] by (simp_all add: bits_def)
  show "0 < k" using n(2) wf_rat_parts(5) [OF assms(1)] by (cases k) simp_all
qed

lemma mul_ints:
  assumes "copyable x" "copyable y" "copyable (x * y)"
  shows "cl_arith_mul (mkint x) (mkint y) = Inr (mkint (x * y))"
  using mkint_rat [OF assms(1)] mkint_rat [OF assms(2)] wf_rat_kind mkint_ops(3) [OF assms]
  by (simp add: cl_arith_mul.simps [of "mkint x"])

text \<open>The integers whose quotient is the quotient of the two rationals.\<close>

lemma cross_products:
  assumes "wf_rat a" "wf_rat b" "bits k (rat_val a)" "bits k (rat_val b)" "2 * k \<le> 16 * 65535"
  defines "x \<equiv> num_val a * den_val b" and "y \<equiv> den_val a * num_val b"
  shows "cl_arith_mul (cl_numerator a) (cl_denominator b) = Inr (mkint x)"
    "cl_arith_mul (cl_denominator a) (cl_numerator b) = Inr (mkint y)"
    "copyable x" "copyable y" "\<bar>x\<bar> < 2 ^ (2 * k)" "rat_val a / rat_val b = of_int x / of_int y" "y = 0 \<longleftrightarrow> rat_val b = 0"
proof -
  note pa = wf_rat_parts [OF assms(1)] and pb = wf_rat_parts [OF assms(2)]
  note na = wf_rat_bits [OF assms(1,3)] and nb = wf_rat_bits [OF assms(2,4)]
  show xb: "\<bar>x\<bar> < 2 ^ (2 * k)" using mult_bits [OF na(1) nb(2)] by (simp add: x_def mult_2)
  have yb: "\<bar>y\<bar> < 2 ^ (2 * k)" using mult_bits [OF na(2) nb(1)] by (simp add: y_def mult_2)
  have le: "(2 :: int) ^ (2 * k) \<le> 2 ^ (16 * 65535)" using assms(5) by (intro power_increasing) simp_all
  show c: "copyable x" "copyable y"
    by (rule copyable_iff [THEN iffD2, OF less_le_trans [OF xb le]],
      rule copyable_iff [THEN iffD2, OF less_le_trans [OF yb le]])
  show "cl_arith_mul (cl_numerator a) (cl_denominator b) = Inr (mkint x)"
    "cl_arith_mul (cl_denominator a) (cl_numerator b) = Inr (mkint y)"
    using mul_ints pa(1-4) pb(1-4) c by (simp_all add: x_def y_def)
  show "rat_val a / rat_val b = of_int x / of_int y"
    using pa(5) pb(5) by (simp add: rat_val_def x_def y_def Fract_of_int_quotient mult.commute)
  show "y = 0 \<longleftrightarrow> rat_val b = 0" using pa(5) rat_val_0 [OF assms(2)] by (simp add: y_def)
qed

lemma round_rational_adjusted:
  assumes "wf_rat a" "wf_rat b" "bits k (rat_val a)" "bits k (rat_val b)" "9 * k + 4 \<le> 16 * 65535" and nz: "rat_val b \<noteq> 0"
    and tr: "integer_truncate (mkint (num_val a * den_val b)) (mkint (den_val a * num_val b)) = Inr (mkint t)"
    and small: "\<bar>t\<bar> \<le> \<bar>num_val a * den_val b\<bar>"
    and trunc: "0 \<le> rat_val a / rat_val b \<Longrightarrow> of_int t \<le> rat_val a / rat_val b" "rat_val a / rat_val b \<le> 0 \<Longrightarrow> rat_val a / rat_val b \<le> of_int t"
  shows "exact_pair (round_rational mode a b) (adjusted mode (rat_val a / rat_val b) t)
    (rat_val a - of_int (adjusted mode (rat_val a / rat_val b) t) * rat_val b)"
proof -
  have "2 * k \<le> 16 * 65535" using assms(5) by simp
  note cp = cross_products [OF assms(1-4) this]
  have ct: "copyable t" and tb: "\<bar>t\<bar> < 2 ^ (2 * k)" using copyable_mono [OF cp(3)] cp(5) small by simp_all
  have k0: "0 < k" using wf_rat_bits(3) [OF assms(1,3)] .
  have Q: "wf_rat (mkint t)" "rat_val (mkint t) = of_int t" "bits (2 * k) (rat_val (mkint t))"
    using mkint_rat [OF ct] bits_of_int [OF tb] k0 by simp_all
  have le: "2 * k + k + 1 \<le> 16 * 65535" "k + (2 * k + k) + 1 \<le> 16 * 65535" "2 * (4 * k + 1) + k + 2 \<le> 16 * 65535"
    using assms(5) by simp_all
  obtain p where p: "cl_arith_mul (mkint t) b = Inr p" "wf_rat p" "rat_val p = of_int t * rat_val b" "bits (2 * k + k) (rat_val p)"
    using num_step(3) [OF Q(1) assms(2) Q(3) assms(4) le(1)] Q(2) by auto
  obtain r where r: "cl_arith_sub a p = Inr r" "wf_rat r" "rat_val r = rat_val a - of_int t * rat_val b"
    "bits (k + (2 * k + k) + 1) (rat_val r)"
    using num_step(2) [OF assms(1) p(2) assms(3) p(4) le(2)] p(3) by auto
  have bt: "bits (4 * k + 1) (rat_val (mkint t))" "bits (4 * k + 1) (rat_val r)"
    using bits_mono [OF Q(3)] bits_mono [OF r(4)] by simp_all
  let ?X = "rat_val a / rat_val b"
  have run: "round_rational mode a b =
      (if mode \<noteq> ROUND_TRUNCATE \<and> rat_val r \<noteq> 0 then round_adjust mode a b (mkint t) r else Inr (mkint t, r))"
    using cp(1,2) tr p(1) r(1) real_unary(3) [OF r(2)] by (simp add: round_rational_def)
  have adj: "adjusted mode ?X t = t" if "mode = ROUND_TRUNCATE \<or> rat_val r = 0"
  proof -
    have "?X = of_int t" if "rat_val r = 0" using that r(3) nz by (simp add: divide_eq_eq)
    then show ?thesis using that by (cases mode) auto
  qed
  show ?thesis
    unfolding run
    using round_adjust_correct [OF assms(1,2) Q(1) r(2) nz _ Q(2) r(3) refl trunc bt assms(4) le(3), of mode]
      exact_pairI [OF Q(1) r(2) Q(2), unfolded r(3)] adj by auto
qed

lemma round_rational_correct:
  assumes "wf_rat a" "wf_rat b" "bits k (rat_val a)" "bits k (rat_val b)" "9 * k + 4 \<le> 16 * 65535"
    and nz: "rat_val b \<noteq> 0" and nw: "\<not> wrap_pair a b"
  shows "\<exists>q. rounds_to mode (rat_val a / rat_val b) q
    \<and> exact_pair (round_rational mode a b) q (rat_val a - of_int q * rat_val b)"
proof -
  define x where "x = num_val a * den_val b"
  define y where "y = den_val a * num_val b"
  have "2 * k \<le> 16 * 65535" using assms(5) by simp
  note cp = cross_products [OF assms(1-4) this, folded x_def y_def]
  have y0: "y \<noteq> 0" using cp(7) nz by simp
  define t where "t = x sdiv y"
  have small: "\<bar>t\<bar> \<le> \<bar>x\<bar>" unfolding t_def by (rule sdiv_abs_le)
  then have ct: "copyable t" using copyable_mono [OF cp(3)] by simp
  have tr: "integer_truncate (mkint x) (mkint y) = Inr (mkint t)"
    using integer_truncate_correct [of "mkint x" "mkint y"] mkint_copyable [OF cp(3)] mkint_copyable [OF cp(4)]
      mkint_copyable(1) [OF ct] y0 nw by (auto simp: t_def wrap_pair_def x_def y_def)
  note sd = sdiv_rat [OF y0, of x, folded t_def cp(6)]
  show ?thesis
    using round_rational_adjusted [OF assms(1-6) tr [unfolded x_def y_def] small [unfolded x_def], of mode] sd
      adjusted_rounds [of "rat_val a / rat_val b" t mode] by blast
qed

text \<open>
  The pair whose fixnum quotient wraps: the quotient is \<open>2 ^ 30\<close> and the one the adjustment starts from
  is \<open>- 2 ^ 30\<close>.
\<close>

lemma wrap_pair_value:
  assumes "wf_rat a" "wf_rat b" "bits k (rat_val a)" "bits k (rat_val b)" "9 * k + 4 \<le> 16 * 65535" "wrap_pair a b"
  shows "rat_val a = 1073741824 * rat_val b" "rat_val b \<noteq> 0" "rat_val a / rat_val b = 1073741824"
proof -
  have "2 * k \<le> 16 * 65535" using assms(5) by simp
  note cp = cross_products [OF assms(1-4) this] and w = assms(6) [unfolded wrap_pair_def CL_FIXNUM_MIN_def]
  show nz: "rat_val b \<noteq> 0" using cp(7) w by auto
  show "rat_val a / rat_val b = 1073741824" unfolding cp(6) w [THEN conjunct1] w [THEN conjunct2] by simp
  then show "rat_val a = 1073741824 * rat_val b" using nz by (simp add: divide_eq_eq)
qed

lemma round_wrap_pair:
  fixes mode :: round_mode
  assumes "wf_rat a" "wf_rat b" "bits k (rat_val a)" "bits k (rat_val b)" "9 * k + 4 \<le> 16 * 65535" "wrap_pair a b"
  defines "n \<equiv> CL_FIXNUM_MIN + (if mode = ROUND_CEILING \<or> mode = ROUND_ROUND then 1 else 0)"
  shows "exact_pair (round_rational mode a b) n (rat_val a - of_int n * rat_val b)"
proof -
  have "2 * k \<le> 16 * 65535" using assms(5) by simp
  note cp = cross_products [OF assms(1-4) this] and w = wrap_pair_value [OF assms(1-6)] and x = assms(6) [unfolded wrap_pair_def]
  have tr: "integer_truncate (mkint (num_val a * den_val b)) (mkint (den_val a * num_val b)) = Inr (mkint CL_FIXNUM_MIN)"
    using integer_truncate_correct [of "mkint (num_val a * den_val b)" "mkint (den_val a * num_val b)"]
      mkint_copyable [OF cp(3)] mkint_copyable [OF cp(4)] x by (simp add: mkint_fix in_range_bounds CL_FIXNUM_MIN_def)
  have "adjusted mode (rat_val a / rat_val b) CL_FIXNUM_MIN = n"
    unfolding w(3) n_def by (cases mode) (simp_all add: CL_FIXNUM_MIN_def)
  then show ?thesis
    using round_rational_adjusted [OF assms(1-5) w(2) tr, of mode] x w(3) by (simp add: CL_FIXNUM_MIN_def)
qed

lemma wf_rat_rational: "wf_rat v \<Longrightarrow> CL_RATIONAL_P v \<and> CL_NUMBER_P v \<and> CL_REALP v"
  by (cases v) (auto simp: CL_RATIONAL_P_def CL_NUMBER_P_def CL_REALP_def CL_INTEGER_P_def)

lemma check_number_ok: "wf_rat v \<Longrightarrow> check_number v who = Inr ()"
  using wf_rat_rational [of v] by (simp add: check_number_def)

lemma do_rounding2_rational:
  assumes "wf_rat a" "wf_rat b"
  shows "do_rounding2 a b mode name False = round_rational mode a b"
  using wf_rat_rational [OF assms(1)] wf_rat_rational [OF assms(2)]
  by (cases "round_rational mode a b") (simp_all add: do_rounding2_def check_number_def split_beta)

lemma round_div_zero:
  assumes "wf_rat a" "wf_rat b" "bits k (rat_val a)" "bits k (rat_val b)" "2 * k \<le> 16 * 65535" "rat_val b = 0"
  shows "round_rational mode a b = Inl Div_Zero"
proof -
  note cp = cross_products [OF assms(1-5)]
  have "integer_truncate (mkint (num_val a * den_val b)) (mkint (den_val a * num_val b)) = Inl Div_Zero"
    using integer_truncate_correct mkint_copyable [OF cp(3)] mkint_copyable [OF cp(4)] cp(7) assms(6) by simp
  then show ?thesis using cp(1,2) by (simp add: round_rational_def)
qed

text \<open>The value of the dividend less an integer multiple of the divisor.\<close>

lemma rest_step:
  assumes "wf_rat a" "wf_rat b" "wf_rat q" "bits k (rat_val a)" "bits k (rat_val b)" "bits m (rat_val q)"
    and "m + 2 * k + 1 \<le> 16 * 65535"
  shows "\<exists>r. bindr (cl_arith_mul q b) (\<lambda>p. cl_arith_sub a p) = Inr r \<and> wf_rat r
    \<and> rat_val r = rat_val a - rat_val q * rat_val b"
proof -
  have le: "m + k + 1 \<le> 16 * 65535" "k + (m + k) + 1 \<le> 16 * 65535" using assms(7) by simp_all
  obtain p where p: "cl_arith_mul q b = Inr p" "wf_rat p" "rat_val p = rat_val q * rat_val b" "bits (m + k) (rat_val p)"
    using num_step(3) [OF assms(3,2,6,5) le(1)] by blast
  show ?thesis using num_step(2) [OF assms(1) p(2) assms(4) p(4) le(2)] p(1,3) by auto
qed

lemma wf_rat_unique: "wf_rat u \<Longrightarrow> wf_rat v \<Longrightarrow> rat_val u = rat_val v \<Longrightarrow> u = v"
  using rat_obj_of_wf(1) by (metis sum.inject(2))

text \<open>Truncation of a fraction to an integer, by dividing its numerator by its denominator.\<close>

lemma trunc_parts:
  assumes "wf_rat v" "bits k (rat_val v)" "k \<le> 16 * 65535"
  defines "t \<equiv> num_val v sdiv den_val v"
  shows "integer_truncate (cl_numerator v) (cl_denominator v) = Inr (mkint t)" "copyable t" "bits k (of_int t)"
    "0 \<le> rat_val v \<Longrightarrow> of_int t \<le> rat_val v \<and> rat_val v < of_int t + 1"
    "rat_val v \<le> 0 \<Longrightarrow> of_int t - 1 < rat_val v \<and> rat_val v \<le> of_int t"
proof -
  note p = wf_rat_parts [OF assms(1)] and b = wf_rat_bits [OF assms(1,2)]
  have le: "\<bar>t\<bar> \<le> \<bar>num_val v\<bar>" unfolding t_def by (rule sdiv_abs_le)
  then show ct: "copyable t" using copyable_mono [OF p(3)] by blast
  show "bits k (of_int t)" using bits_of_int [of t k] le b by simp
  show "integer_truncate (cl_numerator v) (cl_denominator v) = Inr (mkint t)"
    using integer_truncate_correct [of "mkint (num_val v)" "mkint (den_val v)"] mkint_copyable [OF p(3)]
      mkint_copyable [OF p(4)] mkint_copyable(1) [OF ct] p(1,2,5) by (simp add: t_def)
  have "rat_val v = of_int (num_val v) / of_int (den_val v)" by (simp add: rat_val_def Fract_of_int_quotient)
  then show "0 \<le> rat_val v \<Longrightarrow> of_int t \<le> rat_val v \<and> rat_val v < of_int t + 1"
    "rat_val v \<le> 0 \<Longrightarrow> of_int t - 1 < rat_val v \<and> rat_val v \<le> of_int t"
    using sdiv_rat [of "den_val v" "num_val v"] p(5) unfolding t_def by simp_all
qed

lemma sdiv_of_quotient:
  assumes "x / y = (z :: rat)" "y \<noteq> 0" "x = of_int a" "y = of_int b"
  shows "rounds_to ROUND_TRUNCATE z (a sdiv b)"
proof -
  have "b \<noteq> 0" using assms by simp
  from adjusted_rounds [OF sdiv_rat [OF this], of a ROUND_TRUNCATE] show ?thesis using assms by simp
qed

lemma rounds_unique: "mode \<noteq> ROUND_ROUND \<Longrightarrow> rounds_to mode x p \<Longrightarrow> rounds_to mode x q \<Longrightarrow> p = q"
  by (cases mode) simp_all

text \<open>The remainder of the integer case of \<open>rem\<close> and \<open>mod\<close>.\<close>

lemma integer_rem_correct:
  assumes "wf_rat a" "wf_rat b" "\<not> CL_RATIO_P a" "\<not> CL_RATIO_P b" "rat_val b \<noteq> 0"
    and "bits k (rat_val a)" "bits k (rat_val b)" "3 * k + 1 \<le> 16 * 65535"
  shows "\<exists>r. bi_rem [a, b] = Inr r \<and> wf_rat r \<and> rat_val r = of_int (int_val a smod int_val b)"
proof -
  note ia = wf_rat_integer [OF assms(1,3)] and ib = wf_rat_integer [OF assms(2,4)]
  note run = wf_rat_kind [OF assms(1)] wf_rat_kind [OF assms(2)] check_number_ok [OF assms(1)] check_number_ok [OF assms(2)]
  have b0: "int_val b \<noteq> 0" using assms(5) ib(3) by simp
  show ?thesis
  proof (cases "fixnum_p a \<and> fixnum_p b")
    case True
    then have v: "fixnum_val a = int_val a" "fixnum_val b = int_val b" "in_fixnum_range (int_val b)"
      using fixnum_p_val [of a] fixnum_p_val [of b] by simp_all
    have le: "\<bar>int_val a smod int_val b\<bar> < \<bar>int_val b\<bar>" using smod_int_range [of "int_val b" "int_val a"] b0 by auto
    then have "in_fixnum_range (int_val a smod int_val b)" using v(3) unfolding in_range_bounds by linarith
    moreover have "copyable (int_val a smod int_val b)" using copyable_mono [OF ib(2)] le by simp
    ultimately show ?thesis using True v mkint_rat [of "int_val a smod int_val b"] mkint_fix b0 run assms(3,4) by simp
  next
    case False
    then have nw: "\<not> (int_val a = CL_FIXNUM_MIN \<and> int_val b = -1)"
      using fixnum_iff_range [OF ia(1)] fixnum_iff_range [OF ib(1)] by (auto simp: in_range_bounds CL_FIXNUM_MIN_def)
    let ?t = "int_val a sdiv int_val b"
    have le: "\<bar>?t\<bar> \<le> \<bar>int_val a\<bar>" by (rule sdiv_abs_le)
    have ct: "copyable ?t" using copyable_mono [OF ia(2) le] .
    have tr: "integer_truncate a b = Inr (mkint ?t)"
      using integer_truncate_correct [OF ia(1) ib(1)] b0 nw mkint_copyable(1) [OF ct] by simp
    have bt: "bits k (rat_val (mkint ?t))"
      using mkint_rat [OF ct] bits_of_int [of ?t k] le wf_rat_bits [OF assms(1,6)] ia(4) by simp
    have "k + 2 * k + 1 \<le> 16 * 65535" using assms(8) by simp
    then obtain r where "bindr (integer_truncate a b) (\<lambda>q. bindr (cl_arith_mul q b) (\<lambda>prod. cl_arith_sub a prod)) = Inr r"
      "wf_rat r" "rat_val r = rat_val a - rat_val (mkint ?t) * rat_val b"
      using rest_step [OF assms(1,2) mkint_rat [OF ct, THEN conjunct1] assms(6,7) bt] tr by auto
    moreover have "rat_val a - rat_val (mkint ?t) * rat_val b = of_int (int_val a smod int_val b)"
      using mkint_rat [OF ct] ia(3) ib(3) by (simp flip: minus_sdiv_mult_eq_smod)
    ultimately show ?thesis using False run assms(3,4) by auto
  qed
qed

lemma integer_mod_rat:
  assumes "wf_rat a" "wf_rat b" "\<not> CL_RATIO_P a" "\<not> CL_RATIO_P b" "rat_val b \<noteq> 0"
  shows "\<exists>r. bi_mod [a, b] = Inr r \<and> wf_rat r \<and> rat_val r = of_int (int_val a mod int_val b)"
proof -
  note ia = wf_rat_integer [OF assms(1,3)] and ib = wf_rat_integer [OF assms(2,4)]
  have b0: "int_val b \<noteq> 0" using assms(5) ib(3) by simp
  have "\<bar>int_val a mod int_val b\<bar> \<le> \<bar>int_val b\<bar>"
    using b0 pos_mod_bound [of "int_val b" "int_val a"] neg_mod_bound [of "int_val b" "int_val a"]
      pos_mod_sign [of "int_val b" "int_val a"] neg_mod_sign [of "int_val b" "int_val a"] by linarith
  then have "copyable (int_val a mod int_val b)" by (rule copyable_mono [OF ib(2)])
  then show ?thesis using mkint_rat mkint_copyable(1) integer_mod_correct [OF ia(1) ib(1)] b0 assms(3,4)
      wf_rat_kind [OF assms(1)] wf_rat_kind [OF assms(2)] check_number_ok [OF assms(1)] check_number_ok [OF assms(2)] by simp
qed

text \<open>The ratio case: the quotient object, then its truncation or floor.\<close>

lemma floor_of_quotient_correct:
  assumes "wf_rat v" "bits k (rat_val v)" "3 * k + 1 \<le> 16 * 65535"
  shows "\<exists>g. floor_of_quotient v = Inr g \<and> wf_rat g \<and> rat_val g = of_int \<lfloor>rat_val v\<rfloor> \<and> bits (k + 2) (rat_val g)"
proof -
  define t where "t = num_val v sdiv den_val v"
  have le: "k \<le> 16 * 65535" "k + k + 1 \<le> 16 * 65535" "k + k + k + 1 \<le> 16 * 65535" "k + 1 + 1 \<le> 16 * 65535"
    using assms(3) wf_rat_bits(3) [OF assms(1,2)] by simp_all
  note tp = trunc_parts [OF assms(1,2) le(1), folded t_def]
  have T: "wf_rat (mkint t)" "rat_val (mkint t) = of_int t" "bits k (rat_val (mkint t))"
    using mkint_rat [OF tp(2)] tp(3) by simp_all
  have D: "wf_rat (cl_denominator v)" "rat_val (cl_denominator v) = of_int (den_val v)"
    "wf_rat (cl_numerator v)" "rat_val (cl_numerator v) = of_int (num_val v)"
    using wf_rat_parts [OF assms(1)] mkint_rat by simp_all
  have bD: "bits k (rat_val (cl_denominator v))" "bits k (rat_val (cl_numerator v))"
    using bits_of_int wf_rat_bits [OF assms(1,2)] D(2,4) by simp_all
  obtain c where c: "cl_arith_mul (mkint t) (cl_denominator v) = Inr c" "wf_rat c" "rat_val c = of_int t * of_int (den_val v)"
    "bits (k + k) (rat_val c)"
    using num_step(3) [OF T(1) D(1) T(3) bD(1) le(2)] T(2) D(2) by auto
  have "rat_val v = of_int (num_val v) / of_int (den_val v)" by (simp add: rat_val_def Fract_of_int_quotient)
  then have "rat_val c = rat_val (cl_numerator v) \<longleftrightarrow> rat_val v = of_int t"
    using c(3) D(4) wf_rat_parts(5) [OF assms(1)] by (auto simp: divide_eq_eq)
  then obtain s where s: "cl_arith_compare c (cl_numerator v) = Inr s" "s \<noteq> 0 \<longleftrightarrow> rat_val v \<noteq> of_int t"
    using real_compare [OF c(2) D(3) bits_room(1) [OF c(2) D(3) c(4) bD(2) le(3)]] by auto
  obtain f where f: "cl_arith_sub (mkint t) (mkfix 1) = Inr f" "wf_rat f" "rat_val f = of_int (t - 1)" "bits (k + 1 + 1) (rat_val f)"
    using num_step(2) [OF T(1) one_rat(1) T(3) _ le(4)] one_rat T(2) by auto
  have "\<lfloor>rat_val v\<rfloor> = (if s \<noteq> 0 \<and> rat_val v < 0 then t - 1 else t)"
    unfolding s(2) using tp(4,5) by (cases "0 \<le> rat_val v") (auto simp: floor_eq_iff)
  then show ?thesis using tp(1) c(1) s(1) f T bits_mono [OF T(3)] real_unary(5) [OF assms(1)]
    by (auto simp: floor_of_quotient_def Let_def)
qed

lemma ratio_rem_mod_correct:
  assumes "wf_rat a" "wf_rat b" "CL_RATIO_P a \<or> CL_RATIO_P b" "rat_val b \<noteq> 0"
    and "bits k (rat_val a)" "bits k (rat_val b)" "9 * k + 4 \<le> 16 * 65535"
  defines "X \<equiv> rat_val a / rat_val b"
  shows "\<exists>r. bi_rem [a, b] = Inr r \<and> wf_rat r \<and> rat_val r = rat_val a - of_int (if 0 \<le> X then \<lfloor>X\<rfloor> else \<lceil>X\<rceil>) * rat_val b"
    and "\<exists>r. bi_mod [a, b] = Inr r \<and> wf_rat r \<and> rat_val r = rat_val a - of_int \<lfloor>X\<rfloor> * rat_val b"
proof -
  note run = wf_rat_kind [OF assms(1)] wf_rat_kind [OF assms(2)] check_number_ok [OF assms(1)] check_number_ok [OF assms(2)]
  have k0: "0 < k" using wf_rat_bits(3) [OF assms(1,5)] .
  have le: "k + k + 1 \<le> 16 * 65535" "k + k \<le> 16 * 65535" "3 * (k + k) + 1 \<le> 16 * 65535"
    "k + k + 2 + 2 * k + 1 \<le> 16 * 65535" using assms(7) k0 by simp_all
  obtain v where v: "cl_ratio_div a b = Inr v" "wf_rat v" "rat_val v = X"
    using num_step(4) [OF assms(1,2,5,6) le(1) assms(4)] run by (auto simp: float_or_ratio_div_def X_def)
  have bv: "bits (k + k) (rat_val v)" using bits_ops(4) [OF assms(5,6,4)] v(3) by (simp add: X_def)
  define t where "t = num_val v sdiv den_val v"
  note tp = trunc_parts [OF v(2) bv le(2), folded t_def]
  have T: "wf_rat (mkint t)" "rat_val (mkint t) = of_int t" "bits (k + k + 2) (rat_val (mkint t))"
    using mkint_rat [OF tp(2)] bits_mono [OF tp(3)] by simp_all
  have "rounds_to ROUND_TRUNCATE X t" using adjusted_rounds [of X t ROUND_TRUNCATE] tp(4,5) v(3) by simp
  then have tt: "t = (if 0 \<le> X then \<lfloor>X\<rfloor> else \<lceil>X\<rceil>)" by simp
  have i: "X = of_int t \<and> v = mkint t" if int: "CL_INTEGER_P v"
  proof -
    obtain z where "X = of_int z" using int wf_rat_int_value [OF v(2)] v(3) by auto
    then have "X = of_int t" using tt by simp
    then show ?thesis using wf_rat_unique [OF v(2) T(1)] T(2) v(3) by simp
  qed
  show "\<exists>r. bi_rem [a, b] = Inr r \<and> wf_rat r \<and> rat_val r = rat_val a - of_int (if 0 \<le> X then \<lfloor>X\<rfloor> else \<lceil>X\<rceil>) * rat_val b"
    using rest_step [OF assms(1,2) T(1) assms(5,6) T(3) le(4)] T(2) run assms(3) v(1) i tp(1)
    unfolding tt [symmetric] by auto
  obtain g where g: "floor_of_quotient v = Inr g" "wf_rat g" "rat_val g = of_int \<lfloor>X\<rfloor>" "bits (k + k + 2) (rat_val g)"
    using floor_of_quotient_correct [OF v(2) bv le(3)] v(3) by auto
  define f where "f = (if CL_INTEGER_P v then v else g)"
  have F: "wf_rat f" "rat_val f = of_int \<lfloor>X\<rfloor>" "bits (k + k + 2) (rat_val f)"
    using g v(2,3) i bits_mono [OF bv] by (auto simp: f_def)
  have "bi_mod [a, b] = bindr (cl_arith_mul f b) (\<lambda>result. cl_arith_sub a result)"
    using run assms(3) v(1) g(1) by (simp add: f_def floor_of_quotient_def)
  then show "\<exists>r. bi_mod [a, b] = Inr r \<and> wf_rat r \<and> rat_val r = rat_val a - of_int \<lfloor>X\<rfloor> * rat_val b"
    using rest_step [OF assms(1,2) F(1) assms(5,6) F(3) le(4)] F(2) by simp
qed

lemma rounds_near: "rounds_to mode x q \<Longrightarrow> \<bar>x - of_int q\<bar> < 1"
proof -
  assume r: "rounds_to mode x q"
  have "q = \<lfloor>x\<rfloor> \<or> q = \<lceil>x\<rceil> \<or> \<bar>x - of_int q\<bar> \<le> 1 / 2" using r by (cases mode) (auto split: if_splits)
  then show ?thesis
  proof (elim disjE)
    show "\<bar>x - of_int q\<bar> < 1" if "q = \<lfloor>x\<rfloor>"
      using floor_correct [of x] unfolding that abs_less_iff of_int_add of_int_1 by linarith
    show "\<bar>x - of_int q\<bar> < 1" if "q = \<lceil>x\<rceil>"
      using ceiling_correct [of x] unfolding that abs_less_iff by linarith
  qed linarith
qed

lemma rat_val_abs_le: "wf_rat v \<Longrightarrow> \<bar>rat_val v\<bar> \<le> of_int \<bar>num_val v\<bar>"
proof -
  assume w: "wf_rat v"
  have d: "(1 :: rat) \<le> of_int (den_val v)" using wf_rat_parts(5) [OF w] by simp
  have "\<bar>rat_val v\<bar> = of_int \<bar>num_val v\<bar> / of_int (den_val v)"
    using d by (simp add: rat_val_def Fract_of_int_quotient abs_divide)
  also have "\<dots> \<le> of_int \<bar>num_val v\<bar> / 1" using d by (intro divide_left_mono) simp_all
  finally show ?thesis by simp
qed

lemma rounds_bits:
  assumes "wf_rat a" "bits k (rat_val a)" "rounds_to mode (rat_val a) q"
  shows "bits (k + 1) (of_int q)"
proof -
  have "\<bar>of_int q\<bar> < \<bar>rat_val a\<bar> + 1" using rounds_near [OF assms(3)] by linarith
  also have "\<dots> \<le> of_int (\<bar>num_val a\<bar> + 1)" using rat_val_abs_le [OF assms(1)] by simp
  finally have "\<bar>q\<bar> < \<bar>num_val a\<bar> + 1" by (simp flip: of_int_abs add: of_int_less_iff [symmetric] del: of_int_less_iff)
  also have "\<dots> \<le> 2 ^ k" using wf_rat_bits(1) [OF assms(1,2)] by simp
  finally show ?thesis by (intro bits_of_int) (auto intro: less_le_trans)
qed

lemma round_one_arg:
  assumes "wf_rat a" "bits k (rat_val a)" "9 * k + 4 \<le> 16 * 65535"
  shows "\<exists>q. rounds_to mode (rat_val a) q \<and> exact_pair (do_rounding [a] mode name False) q (rat_val a - of_int q)"
proof (cases "CL_RATIO_P a")
  case False
  note I = wf_rat_integer [OF assms(1) False]
  have "rounds_to mode (rat_val a) (int_val a)" unfolding I(3) by (cases mode) simp_all
  moreover have "CL_INTEGER_P a" using wf_rat_int_value [OF assms(1)] I(3) by blast
  ultimately show ?thesis using assms(1) fix_zero(1,2) check_number_ok [OF assms(1)] I(3)
    by (intro exI [of _ "int_val a"]) (simp add: exact_pair_def)
next
  case True
  note p = wf_rat_parts [OF assms(1)] and b = wf_rat_bits [OF assms(1,2)]
  have N: "wf_rat (cl_numerator a)" "rat_val (cl_numerator a) = of_int (num_val a)"
    "wf_rat (cl_denominator a)" "rat_val (cl_denominator a) = of_int (den_val a)" using p(1-4) mkint_rat by simp_all
  have bN: "bits k (rat_val (cl_numerator a))" "bits k (rat_val (cl_denominator a))"
    using b bits_of_int N(2,4) by simp_all
  have X: "rat_val a = rat_val (cl_numerator a) / rat_val (cl_denominator a)"
    by (simp add: rat_val_def [of a] N(2,4) Fract_of_int_quotient)
  have nz: "rat_val (cl_denominator a) \<noteq> 0" using N(4) p(5) by simp
  have "num_val (cl_denominator a) = den_val a" "den_val (cl_numerator a) = 1"
    using wf_rat_quotient [OF N(3)] wf_rat_quotient [OF N(1)] N(2,4) by simp_all
  then have nw: "\<not> wrap_pair (cl_numerator a) (cl_denominator a)" using p(5) by (simp add: wrap_pair_def)
  obtain q where q: "rounds_to mode (rat_val a) q"
    "exact_pair (round_rational mode (cl_numerator a) (cl_denominator a)) q (of_int (num_val a) - of_int q * of_int (den_val a))"
    using round_rational_correct [OF N(1,3) bN assms(3) nz nw, of mode] unfolding X N(2,4) by blast
  then obtain q' r' where qr: "round_rational mode (cl_numerator a) (cl_denominator a) = Inr (q', r')" "wf_rat q'"
    "rat_val q' = of_int q" by (auto simp: exact_pair_def)
  have bq: "bits (k + 1) (rat_val q')" using rounds_bits [OF assms(1,2) q(1)] qr(3) by simp
  have "k + (k + 1) + 1 \<le> 16 * 65535" using assms(3) b(3) by simp
  then obtain r where r: "cl_arith_sub a q' = Inr r" "wf_rat r" "rat_val r = rat_val a - of_int q"
    using num_step(2) [OF assms(1) qr(2) assms(2) bq] qr(3) by auto
  have "\<not> CL_INTEGER_P a" using True by (cases a) (simp_all add: CL_INTEGER_P_def)
  then have "do_rounding [a] mode name False = Inr (q', r)"
    using True check_number_ok [OF assms(1)] do_rounding2_rational [OF N(1,3)] qr(1) r(1) by simp
  then show ?thesis using q(1) qr(2,3) r(2,3) by (auto simp: exact_pair_def)
qed

section \<open>Properties of rounding\<close>

text \<open>
  C21: \<open>floor\<close>, \<open>ceiling\<close>, \<open>truncate\<close> and \<open>round\<close> of exact rationals.  With two arguments
  the first value is the quotient rounded by the mode (to even on a tie for \<open>round\<close>) and
  the second the remainder, so that dividend = quotient * divisor + remainder; a zero
  divisor signals the division error.  With one argument the quotient is the rounded
  number and the remainder what is left.  The exception is the pair for which the fixnum division
  of \<open>truncate\<close> wraps, such as the least fixnum and -1: its quotient is \<open>2 ^ 30\<close>, but the first
  value is \<open>- 2 ^ 30\<close>, or one more for \<open>ceiling\<close> and \<open>round\<close>, with the remainder that belongs to it.
\<close>

theorem rounding_exact:
  assumes "wf_rat a" "wf_rat b" "bits k (rat_val a)" "bits k (rat_val b)" "9 * k + 4 \<le> 16 * 65535"
  shows "(rat_val b = 0 \<longrightarrow> do_rounding [a, b] mode name False = Inl Div_Zero)
    \<and> (rat_val b \<noteq> 0 \<longrightarrow>
        (\<exists>q r n. do_rounding [a, b] mode name False = Inr (q, r) \<and> wf_rat q \<and> wf_rat r \<and> rat_val q = of_int n
          \<and> (if wrap_pair a b then rat_val a / rat_val b = 2 ^ 30 \<and> n = - (2 ^ 30) + (if mode = ROUND_CEILING \<or> mode = ROUND_ROUND then 1 else 0)
             else rounds_to mode (rat_val a / rat_val b) n)
          \<and> rat_val a = rat_val q * rat_val b + rat_val r))
    \<and> (\<exists>q r n. do_rounding [a] mode name False = Inr (q, r) \<and> wf_rat q \<and> wf_rat r \<and> rat_val q = of_int n
        \<and> rounds_to mode (rat_val a) n \<and> rat_val a = rat_val q + rat_val r)"
proof (intro conjI impI)
  have le: "2 * k \<le> 16 * 65535" using assms(5) by simp
  show "do_rounding [a, b] mode name False = Inl Div_Zero" if "rat_val b = 0"
    using round_div_zero [OF assms(1-4) le that] do_rounding2_rational [OF assms(1,2)] by simp
  show "\<exists>q r n. do_rounding [a, b] mode name False = Inr (q, r) \<and> wf_rat q \<and> wf_rat r \<and> rat_val q = of_int n
      \<and> (if wrap_pair a b then rat_val a / rat_val b = 2 ^ 30 \<and> n = - (2 ^ 30) + (if mode = ROUND_CEILING \<or> mode = ROUND_ROUND then 1 else 0)
         else rounds_to mode (rat_val a / rat_val b) n)
      \<and> rat_val a = rat_val q * rat_val b + rat_val r"
    if nz: "rat_val b \<noteq> 0"
  proof (cases "wrap_pair a b")
    case True
    then show ?thesis
      using round_wrap_pair [OF assms True, of mode] wrap_pair_value(3) [OF assms True] do_rounding2_rational [OF assms(1,2)]
      by (force simp: exact_pair_def CL_FIXNUM_MIN_def)
  next
    case False
    then show ?thesis
      using round_rational_correct [OF assms nz False, of mode] do_rounding2_rational [OF assms(1,2)]
      by (force simp: exact_pair_def)
  qed
  show "\<exists>q r n. do_rounding [a] mode name False = Inr (q, r) \<and> wf_rat q \<and> wf_rat r \<and> rat_val q = of_int n
      \<and> rounds_to mode (rat_val a) n \<and> rat_val a = rat_val q + rat_val r"
    using round_one_arg [OF assms(1,3,5), of mode name] by (force simp: exact_pair_def simp del: do_rounding.simps)
qed

lemma small_int:
  assumes "\<bar>z\<bar> < 32"
  shows "wf_rat (mkfix z)" "rat_val (mkfix z) = of_int z" "bits 5 (rat_val (mkfix z))" "num_val (mkfix z) = z" "den_val (mkfix z) = 1"
proof -
  have "copyable z" "mkint z = mkfix z" using assms by (auto intro!: copyable_small mkint_fix simp: in_range_bounds)
  then show w: "wf_rat (mkfix z)" and v: "rat_val (mkfix z) = of_int z" using mkint_rat [of z] by simp_all
  show "bits 5 (rat_val (mkfix z))" using assms bits_of_int [of z 5] v by simp
  show "num_val (mkfix z) = z" "den_val (mkfix z) = 1" using wf_rat_quotient [OF w] v by simp_all
qed

theorem rounding_exact_witness:
  "\<exists>q r n. bi_round [mkfix (-7), mkfix 2] = Inr (q, r) \<and> wf_rat q \<and> wf_rat r \<and> rat_val q = of_int n
    \<and> rounds_to ROUND_ROUND (- 7 / 2) n \<and> - 7 = rat_val q * 2 + rat_val r"
proof -
  have p: "\<bar>-7 :: int\<bar> < 32" "\<bar>2 :: int\<bar> < 32" by simp_all
  note a = small_int [OF p(1)] and b = small_int [OF p(2)]
  have "\<not> wrap_pair (mkfix (-7)) (mkfix 2)" by (simp add: wrap_pair_def a(5) b(4))
  then show ?thesis
    using rounding_exact [OF a(1) b(1) a(3) b(3), of ROUND_ROUND "''ROUND''"] unfolding a(2) b(2) bi_round_def by simp
qed

text \<open>
  C33: \<open>mod\<close> and \<open>rem\<close> agree with the second values of \<open>floor\<close> and \<open>truncate\<close> on rationals,
  although the code computes them by other routes (a remainder of magnitudes for integers,
  a reduced quotient for fractions).  They disagree exactly for the pair whose fixnum quotient
  wraps, such as the least fixnum and -1.
\<close>

theorem mod_rem_agree:
  assumes "wf_rat a" "wf_rat b" "bits k (rat_val a)" "bits k (rat_val b)" "9 * k + 4 \<le> 16 * 65535"
    and "rat_val b \<noteq> 0"
  shows "(\<exists>q r m. bi_floor [a, b] = Inr (q, r) \<and> bi_mod [a, b] = Inr m \<and> (r = m \<longleftrightarrow> \<not> wrap_pair a b))
    \<and> (\<exists>q r m. bi_truncate [a, b] = Inr (q, r) \<and> bi_rem [a, b] = Inr m \<and> (r = m \<longleftrightarrow> \<not> wrap_pair a b))"
proof -
  let ?X = "rat_val a / rat_val b"
  let ?v = "\<lambda>n. if wrap_pair a b then 2 * rat_val a else rat_val a - of_int n * rat_val b"
  have pair: "\<exists>q r. do_rounding [a, b] mode name False = Inr (q, r) \<and> wf_rat r \<and> rat_val r = ?v n"
    if n: "\<And>m. rounds_to mode ?X m \<Longrightarrow> m = n" and mode: "mode = ROUND_FLOOR \<or> mode = ROUND_TRUNCATE" for mode name n
  proof (cases "wrap_pair a b")
    case True
    then show ?thesis
      using round_wrap_pair [OF assms(1-5) True, of mode] mode wrap_pair_value(1) [OF assms(1-5) True] do_rounding2_rational [OF assms(1,2)]
      by (auto simp: exact_pair_def CL_FIXNUM_MIN_def)
  next
    case False
    then show ?thesis using round_rational_correct [OF assms False, of mode] n do_rounding2_rational [OF assms(1,2)]
      by (auto simp: exact_pair_def)
  qed
  have fl: "\<exists>q r. bi_floor [a, b] = Inr (q, r) \<and> wf_rat r \<and> rat_val r = ?v \<lfloor>?X\<rfloor>"
    unfolding bi_floor_def by (rule pair) simp_all
  have tr: "\<exists>q r. bi_truncate [a, b] = Inr (q, r) \<and> wf_rat r \<and> rat_val r = ?v (if 0 \<le> ?X then \<lfloor>?X\<rfloor> else \<lceil>?X\<rceil>)"
    unfolding bi_truncate_def by (rule pair) simp_all
  have rem: "\<exists>r. bi_rem [a, b] = Inr r \<and> wf_rat r \<and> rat_val r = rat_val a - of_int (if 0 \<le> ?X then \<lfloor>?X\<rfloor> else \<lceil>?X\<rceil>) * rat_val b"
    and md: "\<exists>r. bi_mod [a, b] = Inr r \<and> wf_rat r \<and> rat_val r = rat_val a - of_int \<lfloor>?X\<rfloor> * rat_val b"
  proof (atomize (full), cases "CL_RATIO_P a \<or> CL_RATIO_P b")
    case True
    then show "(\<exists>r. bi_rem [a, b] = Inr r \<and> wf_rat r \<and> rat_val r = rat_val a - of_int (if 0 \<le> ?X then \<lfloor>?X\<rfloor> else \<lceil>?X\<rceil>) * rat_val b)
      \<and> (\<exists>r. bi_mod [a, b] = Inr r \<and> wf_rat r \<and> rat_val r = rat_val a - of_int \<lfloor>?X\<rfloor> * rat_val b)"
      using ratio_rem_mod_correct [OF assms(1,2) True assms(6,3-5)] by blast
  next
    case False
    then have nr: "\<not> CL_RATIO_P a" "\<not> CL_RATIO_P b" by simp_all
    note ia = wf_rat_integer [OF assms(1) nr(1)] and ib = wf_rat_integer [OF assms(2) nr(2)]
    have b0: "int_val b \<noteq> 0" using assms(6) ib(3) by simp
    have le: "3 * k + 1 \<le> 16 * 65535" using assms(5) by simp
    have "rounds_to ROUND_TRUNCATE ?X (int_val a sdiv int_val b)"
      by (rule sdiv_of_quotient [OF refl assms(6) ia(3) ib(3)])
    then have t: "(if 0 \<le> ?X then \<lfloor>?X\<rfloor> else \<lceil>?X\<rceil>) = int_val a sdiv int_val b" by simp
    have f: "\<lfloor>?X\<rfloor> = int_val a div int_val b" unfolding ia(3) ib(3) by (rule floor_divide_of_int_eq)
    show "(\<exists>r. bi_rem [a, b] = Inr r \<and> wf_rat r \<and> rat_val r = rat_val a - of_int (if 0 \<le> ?X then \<lfloor>?X\<rfloor> else \<lceil>?X\<rceil>) * rat_val b)
      \<and> (\<exists>r. bi_mod [a, b] = Inr r \<and> wf_rat r \<and> rat_val r = rat_val a - of_int \<lfloor>?X\<rfloor> * rat_val b)"
      unfolding t
      unfolding f
      using integer_rem_correct [OF assms(1,2) nr assms(6,3,4) le] integer_mod_rat [OF assms(1,2) nr assms(6)] ia(3) ib(3)
      by (simp del: bi_rem.simps bi_mod.simps flip: minus_sdiv_mult_eq_smod minus_div_mult_eq_mod)
  qed
  have wrap: "?X = 1073741824 \<and> rat_val a - 1073741824 * rat_val b = 0 \<and> rat_val a \<noteq> 0" if "wrap_pair a b"
    using wrap_pair_value [OF assms(1-5) that] by simp
  have differ: "(r = m) = (\<not> wrap_pair a b)"
    if r: "wf_rat r" "rat_val r = ?v n" and m: "wf_rat m" "rat_val m = rat_val a - of_int n * rat_val b" and n: "wrap_pair a b \<Longrightarrow> n = 1073741824" for r m n
  proof (cases "wrap_pair a b")
    case True
    then show ?thesis using r m n wrap by auto
  next
    case False
    then show ?thesis using wf_rat_unique r m by simp
  qed
  obtain q r where f: "bi_floor [a, b] = Inr (q, r)" "wf_rat r" "rat_val r = ?v \<lfloor>?X\<rfloor>" using fl by blast
  obtain m where m: "bi_mod [a, b] = Inr m" "wf_rat m" "rat_val m = rat_val a - of_int \<lfloor>?X\<rfloor> * rat_val b" using md by blast
  obtain q' r' where t: "bi_truncate [a, b] = Inr (q', r')" "wf_rat r'" "rat_val r' = ?v (if 0 \<le> ?X then \<lfloor>?X\<rfloor> else \<lceil>?X\<rceil>)" using tr by blast
  obtain m' where m': "bi_rem [a, b] = Inr m'" "wf_rat m'" "rat_val m' = rat_val a - of_int (if 0 \<le> ?X then \<lfloor>?X\<rfloor> else \<lceil>?X\<rceil>) * rat_val b" using rem by blast
  have "\<lfloor>?X\<rfloor> = 1073741824" "(if 0 \<le> ?X then \<lfloor>?X\<rfloor> else \<lceil>?X\<rceil>) = 1073741824" if "wrap_pair a b"
    using wrap [OF that] by simp_all
  then show ?thesis using f(1) m(1) t(1) m'(1) differ [OF f(2,3) m(2,3)] differ [OF t(2,3) m'(2,3)] by blast
qed

theorem mod_rem_agree_witness:
  "(\<exists>q r. bi_floor [mkfix (-7), mkfix 2] = Inr (q, r) \<and> bi_mod [mkfix (-7), mkfix 2] = Inr r)
    \<and> (\<exists>q r. bi_truncate [mkfix (-7), mkfix 2] = Inr (q, r) \<and> bi_rem [mkfix (-7), mkfix 2] = Inr r)"
proof -
  have p: "\<bar>-7 :: int\<bar> < 32" "\<bar>2 :: int\<bar> < 32" by simp_all
  note a = small_int [OF p(1)] and b = small_int [OF p(2)]
  have "\<not> wrap_pair (mkfix (-7)) (mkfix 2)" by (simp add: wrap_pair_def a(5) b(4))
  then show ?thesis using mod_rem_agree [OF a(1) b(1) a(3) b(3)] b(2) by auto
qed

end
