(* ===== verification/Builtins_Laws.thy ===== *)
theory Builtins_Laws
  imports Builtins_Arith
begin

text \<open>
  Properties of the arithmetic builtins whose arguments are many or are fields of bits: the
  folds of \<open>+\<close>, \<open>*\<close>, \<open>logand\<close>, \<open>logior\<close> and \<open>logxor\<close>, the chains of the order relations with
  \<open>max\<close> and \<open>min\<close>, the byte functions, and the order functions on complex numbers.
\<close>

section \<open>Functions of many arguments\<close>

context int_binop
begin

lemma fold_args_total:
  assumes "\<forall>x\<in>set xs. wf_int x \<and> check x = Inr ()" "wf_int a" "\<forall>x y. pre x y"
    and "\<forall>n \<le> length xs. fits (foldl f (int_val a) (map int_val (take n xs)))"
  shows "\<exists>r. fold_args check opn a xs = Inr r \<and> wf_int r \<and> int_val r = foldl f (int_val a) (map int_val xs)"
  using assms
proof (induction xs arbitrary: a)
  case (Cons x xs)
  have "fits (f (int_val a) (int_val x))" using Cons.prems(4) [rule_format, of 1] by simp
  then obtain r where r: "opn a x = Inr r" "wf_int r" "int_val r = f (int_val a) (int_val x)"
    using op_total [of a x] Cons.prems(1-3) by auto
  have "\<forall>n \<le> length xs. fits (foldl f (int_val r) (map int_val (take n xs)))"
  proof (intro allI impI)
    show "fits (foldl f (int_val r) (map int_val (take n xs)))" if "n \<le> length xs" for n
      using Cons.prems(4) [rule_format, of "Suc n"] that r(3) by simp
  qed
  then have "\<exists>s. fold_args check opn r xs = Inr s \<and> wf_int s \<and> int_val s = foldl f (int_val r) (map int_val xs)"
    using Cons.IH [OF _ r(2)] Cons.prems(1,3) by auto
  then show ?case using r Cons.prems(1) by auto
qed simp

end

lemma integer_checks:
  assumes "wf_int v"
  shows "check_number v who = Inr ()" "bi_check_integer v who = Inr ()"
  using assms by (cases v; simp add: check_number_def bi_check_integer_def CL_NUMBER_P_def CL_REALP_def CL_INTEGER_P_def)+

lemma integer_dispatch:
  assumes "wf_int a" "wf_int b"
  shows "cl_arith_add a b = integer_add a b" "cl_arith_sub a b = integer_sub a b" "cl_arith_mul a b = integer_mul a b"
  using assms by (cases a; cases b; simp add: cl_arith_add.simps cl_arith_sub.simps cl_arith_mul.simps)+

text \<open>The dispatchers compute integer functions on integers, so they are instances of the integer contract.\<close>

interpretation dadd: int_binop cl_arith_add "\<lambda>_ _. True" "(+)"
  by unfold_locales (simp add: integer_dispatch integer_add_correct)

interpretation dsub: int_binop cl_arith_sub "\<lambda>_ _. True" "(-)"
  by unfold_locales (simp add: integer_dispatch integer_sub_correct)

interpretation dmul: int_binop cl_arith_mul "\<lambda>_ _. True" "(*)"
  by unfold_locales (simp add: integer_dispatch integer_mul_correct)

lemma fits_power: "\<bar>z\<bar> \<le> 2 ^ k \<Longrightarrow> k + 1 < 16 * CL_MAX_BIGNUM_LIMBS \<Longrightarrow> fits z"
  unfolding fits_def by (rule le_less_trans, assumption, rule power_strict_increasing) simp_all

lemma sum_bound: "(\<forall>x\<in>set xs. \<bar>x\<bar> \<le> 2 ^ k) \<Longrightarrow> \<bar>foldl (+) 0 xs :: int\<bar> \<le> 2 ^ (k + length xs)"
proof (induction xs rule: rev_induct)
  case (snoc x xs)
  have "\<bar>foldl (+) 0 xs + x\<bar> \<le> 2 ^ (k + length xs) + 2 ^ k" using snoc by force
  also have "\<dots> \<le> 2 ^ (k + length xs) + 2 ^ (k + length xs)" by simp
  finally show ?case by simp
qed simp

lemma prod_bound: "(\<forall>x\<in>set xs. \<bar>x\<bar> \<le> 2 ^ k) \<Longrightarrow> \<bar>foldl (*) 1 xs :: int\<bar> \<le> 2 ^ (k * length xs)"
proof (induction xs rule: rev_induct)
  case (snoc x xs)
  have "\<bar>foldl (*) 1 xs * x\<bar> \<le> 2 ^ (k * length xs) * 2 ^ k" unfolding abs_mult using snoc by (intro mult_mono) simp_all
  then show ?case by (simp add: power_add algebra_simps)
qed simp

lemma log_bound:
  assumes "\<forall>x\<in>set xs. - (2 ^ k) \<le> x \<and> x < 2 ^ k" "- (2 ^ k) \<le> e" "e < 2 ^ k"
  shows "- (2 ^ k) \<le> foldl (bitop_int bop) e xs \<and> foldl (bitop_int bop) e xs < 2 ^ k"
  using assms by (induction xs arbitrary: e) (auto intro: bitop_range)

lemma foldl_units: "foldl (+) (0 :: int) zs = sum_list zs" "foldl (*) (1 :: int) zs = prod_list zs"
  by (induction zs rule: rev_induct) simp_all

lemma foldl_bits:
  "bit (foldl (AND) e zs :: int) i \<longleftrightarrow> bit e i \<and> (\<forall>z\<in>set zs. bit z i)"
  "bit (foldl (OR) e zs :: int) i \<longleftrightarrow> bit e i \<or> (\<exists>z\<in>set zs. bit z i)"
  "bit (foldl (XOR) e zs :: int) i \<longleftrightarrow> (bit e i \<noteq> odd (length (filter (\<lambda>z. bit z i) zs)))"
  by (induction zs arbitrary: e) (auto simp: bit_and_iff bit_or_iff bit_xor_iff)

lemma add_args_correct:
  assumes "\<forall>x\<in>set xs. wf_int x \<and> \<bar>int_val x\<bar> < 2 ^ k" "k + length xs + 1 < 16 * CL_MAX_BIGNUM_LIMBS"
  shows "\<exists>r. bi_add xs = Inr r \<and> wf_int r \<and> int_val r = sum_list (map int_val xs)"
proof -
  have "fits (foldl (+) 0 (map int_val (take n xs)))" for n
  proof (rule fits_power)
    show "\<bar>foldl (+) 0 (map int_val (take n xs))\<bar> \<le> 2 ^ (k + length (map int_val (take n xs)))"
      using assms(1) by (intro sum_bound) (fastforce dest: in_set_takeD)
  qed (use assms(2) in simp)
  then have "\<exists>r. fold_args (\<lambda>x. check_number x ''+'') cl_arith_add (mkfix 0) xs = Inr r \<and> wf_int r
      \<and> int_val r = foldl (+) 0 (map int_val xs)"
    using dadd.fold_args_total [of xs "\<lambda>x. check_number x ''+''" "mkfix 0"] assms(1) integer_checks(1)
    by (simp add: fixnum_val_make_wraps)
  then show ?thesis unfolding foldl_units using assms(1) integer_checks(1)
    by (cases xs rule: bi_add.cases) (auto simp: fixnum_val_make_wraps)
qed

lemma mul_args_correct:
  assumes "\<forall>x\<in>set xs. wf_int x \<and> \<bar>int_val x\<bar> < 2 ^ k" "k * length xs + 1 < 16 * CL_MAX_BIGNUM_LIMBS"
  shows "\<exists>r. bi_mul xs = Inr r \<and> wf_int r \<and> int_val r = prod_list (map int_val xs)"
proof -
  have "fits (foldl (*) 1 (map int_val (take n xs)))" for n
  proof (rule fits_power)
    show "\<bar>foldl (*) 1 (map int_val (take n xs))\<bar> \<le> 2 ^ (k * length (map int_val (take n xs)))"
      using assms(1) by (intro prod_bound) (fastforce dest: in_set_takeD)
    have "k * length (map int_val (take n xs)) \<le> k * length xs" by (intro mult_le_mono2) simp
    then show "k * length (map int_val (take n xs)) + 1 < 16 * CL_MAX_BIGNUM_LIMBS" using assms(2) by linarith
  qed
  then have "\<exists>r. fold_args (\<lambda>x. check_number x ''*'') cl_arith_mul (mkfix 1) xs = Inr r \<and> wf_int r
      \<and> int_val r = foldl (*) 1 (map int_val xs)"
    using dmul.fold_args_total [of xs "\<lambda>x. check_number x ''*''" "mkfix 1"] assms(1) integer_checks(1)
    by (simp add: fixnum_val_make_wraps)
  then show ?thesis unfolding foldl_units using assms(1) integer_checks(1)
    by (cases xs rule: bi_mul.cases) (auto simp: fixnum_val_make_wraps)
qed

lemma log_args_correct:
  assumes "\<forall>x\<in>set xs. wf_int x \<and> \<bar>int_val x\<bar> < 2 ^ k" "k + 1 < 16 * CL_MAX_BIGNUM_LIMBS"
  shows "\<exists>r. bi_logand xs = Inr r \<and> wf_int r \<and> int_val r = foldl (AND) (-1) (map int_val xs)"
    and "\<exists>r. bi_logior xs = Inr r \<and> wf_int r \<and> int_val r = foldl (OR) 0 (map int_val xs)"
    and "\<exists>r. bi_logxor xs = Inr r \<and> wf_int r \<and> int_val r = foldl (XOR) 0 (map int_val xs)"
proof -
  have room: "fits (foldl (bitop_int bop) e (map int_val (take n xs)))" if "e = -1 \<or> e = 0" for e n bop
  proof (rule fits_power [OF _ assms(2)])
    have "\<forall>x\<in>set (map int_val (take n xs)). - (2 ^ k) \<le> x \<and> x < 2 ^ k"
      using assms(1) by (fastforce dest: in_set_takeD)
    moreover have "- (2 ^ k) \<le> e" "e < 2 ^ k" using that zero_less_power [of "2 :: int" k] by (elim disjE; linarith)+
    ultimately show "\<bar>foldl (bitop_int bop) e (map int_val (take n xs))\<bar> \<le> 2 ^ k"
      using log_bound [of "map int_val (take n xs)" k e bop] by linarith
  qed
  have fn: "bitop_int BITOP_AND = (AND)" "bitop_int BITOP_IOR = (OR)" "bitop_int BITOP_XOR = (XOR)" by (intro ext; simp)+
  have ok: "\<forall>x\<in>set xs. wf_int x \<and> bi_check_integer x who = Inr ()" for who using assms(1) integer_checks(2) by simp
  show "\<exists>r. bi_logand xs = Inr r \<and> wf_int r \<and> int_val r = foldl (AND) (-1) (map int_val xs)"
    using ilogand.fold_args_total [OF ok, of "mkfix (-1)"] room [of "-1" BITOP_AND]
    by (simp add: bi_logand_def fixnum_val_make_wraps fn)
  show "\<exists>r. bi_logior xs = Inr r \<and> wf_int r \<and> int_val r = foldl (OR) 0 (map int_val xs)"
    using ilogior.fold_args_total [OF ok, of "mkfix 0"] room [of 0 BITOP_IOR]
    by (simp add: bi_logior_def fixnum_val_make_wraps fn)
  show "\<exists>r. bi_logxor xs = Inr r \<and> wf_int r \<and> int_val r = foldl (XOR) 0 (map int_val xs)"
    using ilogxor.fold_args_total [OF ok, of "mkfix 0"] room [of 0 BITOP_XOR]
    by (simp add: bi_logxor_def fixnum_val_make_wraps fn)
qed

text \<open>
  The functions of any number of integers: \<open>+\<close> and \<open>*\<close> return the sum and the product of
  all the arguments, \<open>logand\<close>, \<open>logior\<close> and \<open>logxor\<close> the integer whose every bit is set when
  all, some, or an odd number of the arguments have it set; with no argument the result is
  the neutral element.  The arguments have fewer than \<open>k\<close> bits and the result has room.
\<close>

theorem variadic_exact:
  assumes "\<forall>x\<in>set xs. wf_int x \<and> \<bar>int_val x\<bar> < 2 ^ k"
    and "k + length xs + 1 < 16 * CL_MAX_BIGNUM_LIMBS" "k * length xs + 1 < 16 * CL_MAX_BIGNUM_LIMBS"
  shows "(\<exists>r. bi_add xs = Inr r \<and> wf_int r \<and> int_val r = sum_list (map int_val xs))
    \<and> (\<exists>r. bi_mul xs = Inr r \<and> wf_int r \<and> int_val r = prod_list (map int_val xs))
    \<and> (\<exists>r. bi_logand xs = Inr r \<and> wf_int r \<and> (\<forall>i. bit (int_val r) i \<longleftrightarrow> (\<forall>x\<in>set xs. bit (int_val x) i)))
    \<and> (\<exists>r. bi_logior xs = Inr r \<and> wf_int r \<and> (\<forall>i. bit (int_val r) i \<longleftrightarrow> (\<exists>x\<in>set xs. bit (int_val x) i)))
    \<and> (\<exists>r. bi_logxor xs = Inr r \<and> wf_int r
         \<and> (\<forall>i. bit (int_val r) i \<longleftrightarrow> odd (length (filter (\<lambda>x. bit (int_val x) i) xs))))"
proof -
  have k: "k + 1 < 16 * CL_MAX_BIGNUM_LIMBS" using assms(2) by linarith
  show ?thesis
    using add_args_correct [OF assms(1,2)] mul_args_correct [OF assms(1,3)] log_args_correct [OF assms(1) k]
    by (auto simp: foldl_bits comp_def)
qed

section \<open>Order\<close>

lemma check_real_ok: "wf_rat v \<Longrightarrow> check_real v who = Inr ()"
  using wf_rat_rational [of v] by (cases v) (auto simp: check_real_def CL_REALP_def CL_RATIONAL_P_def)

lemma compare_args:
  assumes "wf_rat a" "wf_rat b" "bits k (rat_val a)" "bits k (rat_val b)" "2 * k + 1 \<le> 16 * 65535"
  shows "cl_arith_compare a b = Inr (if rat_val a < rat_val b then -1 else if rat_val a = rat_val b then 0 else 1)"
  using real_compare [OF assms(1,2)] bits_room(1) [OF assms(1-4)] assms(5) by simp

lemma real_chain_correct:
  assumes "\<forall>x\<in>set xs. wf_rat x \<and> bits k (rat_val x)" "2 * k + 1 \<le> 16 * 65535"
    and "\<And>x y :: rat. R x y \<longleftrightarrow> \<not> failop (if x < y then -1 else if x = y then 0 else 1)"
  shows "real_chain_cmp who failop xs = Inr (successively R (map rat_val xs))"
  using assms(1)
proof (induction xs rule: induct_list012)
  case (3 x y zs)
  then have "cl_arith_compare x y = Inr (if rat_val x < rat_val y then -1 else if rat_val x = rat_val y then 0 else 1)"
    by (intro compare_args [OF _ _ _ _ assms(2)]) simp_all
  then show ?case using 3 by (simp add: check_real_ok assms(3))
qed simp_all

lemma minmax_loop_correct:
  assumes "\<forall>x\<in>set xs. wf_rat x \<and> bits k (rat_val x)" "wf_rat best \<and> bits k (rat_val best)" "2 * k + 1 \<le> 16 * 65535"
    and R: "\<And>x y :: rat. R x y \<longleftrightarrow> \<not> pickop (if x < y then -1 else if x = y then 0 else 1)"
    and total: "\<And>x. R x x" "\<And>x y. \<not> R x y \<Longrightarrow> R y x" "\<And>x y z. R x y \<Longrightarrow> R y z \<Longrightarrow> R x z"
  shows "\<exists>m\<in>set (best # xs). minmax_loop who pickop best xs = Inr m \<and> (\<forall>x\<in>set (best # xs). R (rat_val x) (rat_val m))"
  using assms(1,2)
proof (induction xs arbitrary: best)
  case (Cons x xs)
  let ?b = "if R (rat_val x) (rat_val best) then best else x"
  have "cl_arith_compare x best = Inr (if rat_val x < rat_val best then -1 else if rat_val x = rat_val best then 0 else 1)"
    using Cons.prems by (intro compare_args [OF _ _ _ _ assms(3)]) simp_all
  then have step: "minmax_loop who pickop best (x # xs) = minmax_loop who pickop ?b xs"
    using Cons.prems(1) check_number_ok by (auto simp: R)
  have b: "wf_rat ?b \<and> bits k (rat_val ?b)" using Cons.prems by simp
  obtain m where m: "m \<in> set (?b # xs)" "minmax_loop who pickop ?b xs = Inr m" "\<forall>x\<in>set (?b # xs). R (rat_val x) (rat_val m)"
    using Cons.IH [OF _ b] Cons.prems(1) by (meson list.set_intros(2))
  have "R (rat_val best) (rat_val m) \<and> R (rat_val x) (rat_val m)"
  proof (cases "R (rat_val x) (rat_val best)")
    case True
    then show ?thesis using m(3) total(3) [OF True] by simp
  next
    case False
    then show ?thesis using m(3) total(3) [OF total(2) [OF False]] by simp
  qed
  then show ?case unfolding step using m by (intro bexI [of _ m]) (auto split: if_splits)
qed (use total(1) in simp)

lemma minmax_correct:
  assumes "\<forall>x\<in>set xs. wf_rat x \<and> bits k (rat_val x)" "2 * k + 1 \<le> 16 * 65535" "xs \<noteq> []"
    and "\<And>x y :: rat. R x y \<longleftrightarrow> \<not> pickop (if x < y then -1 else if x = y then 0 else 1)"
    and "\<And>x. R x x" "\<And>x y. \<not> R x y \<Longrightarrow> R y x" "\<And>x y z. R x y \<Longrightarrow> R y z \<Longrightarrow> R x z"
  shows "\<exists>m\<in>set xs. minmax who pickop xs = Inr m \<and> (\<forall>x\<in>set xs. R (rat_val x) (rat_val m))"
proof -
  obtain y ys where xs: "xs = y # ys" using assms(3) by (cases xs) auto
  have "minmax who pickop xs = minmax_loop who pickop y ys" using assms(1) check_number_ok [of y who] by (simp add: xs)
  moreover have "\<forall>x\<in>set ys. wf_rat x \<and> bits k (rat_val x)" "wf_rat y \<and> bits k (rat_val y)" using assms(1) xs by simp_all
  ultimately show ?thesis using minmax_loop_correct [of ys k y R pickop who, OF _ _ assms(2,4-7)] xs by simp
qed

text \<open>
  The order relations on rationals of any kind: \<open><\<close>, \<open><=\<close>, \<open>>\<close> and \<open>>=\<close> with any number of
  arguments hold exactly when the whole sequence is ordered, although only neighbours are
  compared, and \<open>max\<close> and \<open>min\<close> return one of the arguments that bounds all of them.
\<close>

theorem order_chain_exact:
  assumes "\<forall>x\<in>set xs. wf_rat x \<and> bits k (rat_val x)" "2 * k + 1 \<le> 16 * 65535"
  shows "bi_lt xs = Inr (sorted_wrt (<) (map rat_val xs)) \<and> bi_le xs = Inr (sorted_wrt (\<le>) (map rat_val xs))
    \<and> bi_gt xs = Inr (sorted_wrt (>) (map rat_val xs)) \<and> bi_ge xs = Inr (sorted_wrt (\<ge>) (map rat_val xs))
    \<and> (xs \<noteq> [] \<longrightarrow> (\<exists>m\<in>set xs. bi_max xs = Inr m \<and> (\<forall>x\<in>set xs. rat_val x \<le> rat_val m)))
    \<and> (xs \<noteq> [] \<longrightarrow> (\<exists>m\<in>set xs. bi_min xs = Inr m \<and> (\<forall>x\<in>set xs. rat_val m \<le> rat_val x)))"
proof (intro conjI impI)
  note chain = real_chain_correct [OF assms]
  have tr: "transp ((<) :: rat \<Rightarrow> _)" "transp ((\<le>) :: rat \<Rightarrow> _)" "transp ((>) :: rat \<Rightarrow> _)" "transp ((\<ge>) :: rat \<Rightarrow> _)"
    by (auto simp: transp_def)
  show "bi_lt xs = Inr (sorted_wrt (<) (map rat_val xs))"
    unfolding bi_lt_def successively_conv_sorted_wrt [OF tr(1), symmetric] by (rule chain) auto
  show "bi_le xs = Inr (sorted_wrt (\<le>) (map rat_val xs))"
    unfolding bi_le_def successively_conv_sorted_wrt [OF tr(2), symmetric] by (rule chain) auto
  show "bi_gt xs = Inr (sorted_wrt (>) (map rat_val xs))"
    unfolding bi_gt_def successively_conv_sorted_wrt [OF tr(3), symmetric] by (rule chain) auto
  show "bi_ge xs = Inr (sorted_wrt (\<ge>) (map rat_val xs))"
    unfolding bi_ge_def successively_conv_sorted_wrt [OF tr(4), symmetric] by (rule chain) auto
  show "\<exists>m\<in>set xs. bi_max xs = Inr m \<and> (\<forall>x\<in>set xs. rat_val x \<le> rat_val m)" if "xs \<noteq> []"
    unfolding bi_max_def by (rule minmax_correct [OF assms that]) auto
  show "\<exists>m\<in>set xs. bi_min xs = Inr m \<and> (\<forall>x\<in>set xs. rat_val m \<le> rat_val x)" if "xs \<noteq> []"
    unfolding bi_min_def by (rule minmax_correct [OF assms that, of "\<lambda>x y. y \<le> x"]) auto
qed

section \<open>Byte fields\<close>

lemma copyable_range:
  assumes "- (2 ^ K) \<le> z" "z \<le> 2 ^ K" "K < 16 * 65535"
  shows "copyable z"
proof -
  have "\<bar>z\<bar> \<le> 2 ^ K" using assms(1,2) by linarith
  also have "(2 :: int) ^ K < 2 ^ (16 * 65535)" using assms(3) by (rule power_strict_increasing) simp
  finally show ?thesis by (rule iffD2 [OF copyable_iff])
qed

lemma shift_run:
  assumes "copyable x" "int s \<le> CL_FIXNUM_MAX"
  shows "copyable (push_bit s x) \<Longrightarrow> integer_ash (mkint x) (mkfix (int s)) = Inr (mkint (push_bit s x))"
    and "copyable (drop_bit s x) \<Longrightarrow> integer_ash (mkint x) (mkfix (- int s)) = Inr (mkint (drop_bit s x))"
proof -
  have r: "in_fixnum_range (int s)" "in_fixnum_range (- int s)" using assms(2) by (simp_all add: in_fixnum_range_def CL_FIXNUM_MAX_def CL_FIXNUM_MIN_def)
  then have v: "int_val (mkfix (int s)) = int s" "int_val (mkfix (- int s)) = - int s"
    "wf_int (mkfix (int s))" "wf_int (mkfix (- int s))" "fixnum_p (mkfix (int s))"
    using int_obj_wf [of "int s"] int_obj_wf [of "- int s"] by (simp_all add: int_obj_def)
  note m = mkint_copyable [OF assms(1)]
  show "integer_ash (mkint x) (mkfix (int s)) = Inr (mkint (push_bit s x))" if "copyable (push_bit s x)"
    using integer_ash_correct [OF m(2) v(3)] mkint_copyable(1) [OF that] v(1,5) m(3) by (simp add: push_bit_eq_mult)
  show "integer_ash (mkint x) (mkfix (- int s)) = Inr (mkint (drop_bit s x))" if "copyable (drop_bit s x)"
  proof (cases "s = 0")
    case True
    then show ?thesis using integer_ash_correct [OF m(2) v(4)] mkint_copyable(1) [OF that] v(2,5) m(3) by simp
  next
    case False
    then show ?thesis using integer_ash_correct [OF m(2) v(4)] mkint_copyable(1) [OF that] v(2) m(3) by (simp add: drop_bit_eq_div)
  qed
qed

lemma bitop_run:
  assumes "copyable x" "copyable y"
  shows "copyable (x AND y) \<Longrightarrow> integer_logand (mkint x) (mkint y) = Inr (mkint (x AND y))"
    and "copyable (x OR y) \<Longrightarrow> integer_logior (mkint x) (mkint y) = Inr (mkint (x OR y))"
    and "copyable (NOT x) \<Longrightarrow> integer_lognot (mkint x) = Inr (mkint (NOT x))"
  using integer_bitops_correct [OF mkint_copyable(2) [OF assms(1)] mkint_copyable(2) [OF assms(2)]] mkint_copyable(1,3) assms
  by simp_all

lemma signed_range_mono:
  assumes "k \<le> K" shows "- (2 ^ K) \<le> - (2 ^ k :: int)" "(2 :: int) ^ k \<le> 2 ^ K"
  using power_increasing [OF assms, of "2 :: int"] by simp_all

lemma field_range:
  fixes x y :: int
  assumes "- (2 ^ K) \<le> x" "x < 2 ^ K" "s + p \<le> K"
  shows "- (2 ^ K) \<le> drop_bit p x" "drop_bit p x < 2 ^ K"
    and "0 \<le> push_bit p (take_bit s y)" "push_bit p (take_bit s y) < 2 ^ K"
    and "0 \<le> take_bit s y" "take_bit s y < 2 ^ K"
proof -
  have t: "0 \<le> take_bit s y" "take_bit s y < 2 ^ s" by simp_all
  have "push_bit p (take_bit s y) < 2 ^ s * 2 ^ p" using t(2) by (simp add: push_bit_eq_mult)
  also have "\<dots> \<le> 2 ^ K" using signed_range_mono(2) [OF assms(3)] by (simp add: power_add)
  finally show "push_bit p (take_bit s y) < 2 ^ K" .
  show "take_bit s y < 2 ^ K" using t(2) signed_range_mono(2) [of s K] assms(3) by linarith
  show "- (2 ^ K) \<le> drop_bit p x" "drop_bit p x < 2 ^ K"
    using div_power_range [of "- (2 ^ K)" x "2 ^ K - 1" p] assms(1,2) by (simp_all add: drop_bit_eq_div)
qed simp_all

lemma bit_range:
  fixes x y :: int
  assumes "- (2 ^ K) \<le> x" "x < 2 ^ K" "- (2 ^ K) \<le> y" "y < 2 ^ K"
  shows "- (2 ^ K) \<le> x AND y" "x AND y < 2 ^ K" "- (2 ^ K) \<le> x OR y" "x OR y < 2 ^ K"
    "- (2 ^ K) \<le> NOT x" "NOT x < 2 ^ K"
  using bitop_range [OF assms, of BITOP_AND] bitop_range [OF assms, of BITOP_IOR] assms(1,2)
  by (simp_all add: not_int_def)

text \<open>The common setting: a byte of size \<open>s\<close> at position \<open>p\<close>, inside integers of at most \<open>K\<close> bits.\<close>

definition byte_setting :: "nat \<Rightarrow> nat \<Rightarrow> nat \<Rightarrow> bool" where
  "byte_setting K s p \<longleftrightarrow> s + p \<le> K \<and> K < 16 * 65535"

definition in_bits :: "nat \<Rightarrow> int \<Rightarrow> bool" where
  "in_bits K x \<longleftrightarrow> - (2 ^ K) \<le> x \<and> x < 2 ^ K"

definition byte_of :: "nat \<Rightarrow> nat \<Rightarrow> cl_val" where
  "byte_of s p = Cons_Obj (mkfix (int s)) (mkfix (int p))"

lemma in_bits_ops:
  "in_bits K x \<Longrightarrow> in_bits K y \<Longrightarrow> in_bits K (x AND y)"
  "in_bits K x \<Longrightarrow> in_bits K y \<Longrightarrow> in_bits K (x OR y)"
  "in_bits K x \<Longrightarrow> in_bits K (NOT x)"
  "byte_setting K s p \<Longrightarrow> in_bits K x \<Longrightarrow> in_bits K (drop_bit p x)"
  "byte_setting K s p \<Longrightarrow> in_bits K (push_bit p (take_bit s y))"
  "byte_setting K s p \<Longrightarrow> in_bits K (take_bit s y)"
  using bit_range(1-4) [of K x y] bit_range(5,6) [of K x x] field_range(1,2) [of K x s p] field_range(4,6) [of K 0 s p y]
  by (auto simp: in_bits_def byte_setting_def intro: order_trans [of _ 0])

lemma in_bits_copyable: "byte_setting K s p \<Longrightarrow> in_bits K x \<Longrightarrow> copyable x"
  using copyable_range [of K x] by (simp add: byte_setting_def in_bits_def)

lemma setting_range: "byte_setting K s p \<Longrightarrow> int s \<le> CL_FIXNUM_MAX \<and> int p \<le> CL_FIXNUM_MAX"
  by (simp add: byte_setting_def CL_FIXNUM_MAX_def)

lemma byte_mask_run:
  assumes "byte_setting K s p"
  shows "byte_mask (mkfix (int s)) = Inr (mkint (mask s))"
proof -
  have c: "copyable 1" "copyable (push_bit s 1)" "copyable (mask s)"
    using assms signed_range_mono(2) [of s K] copyable_small [of 1] in_bits_copyable [OF assms in_bits_ops(6) [OF assms, of "-1"]]
    by (auto intro!: copyable_range [of K "2 ^ s"] simp: byte_setting_def take_bit_minus_one_eq_mask intro: order_trans [of _ 0])
  have one: "mkfix 1 = mkint 1" by (rule mkint_fix [symmetric]) (simp add: in_range_bounds)
  note m = mkint_copyable [OF c(1)] mkint_copyable [OF c(2)]
  have "integer_sub (mkint (push_bit s 1)) (mkint 1) = Inr (mkint (mask s))"
    using mkint_ops(2) [OF c(2,1)] c(3) by (simp add: mask_eq_exp_minus_1)
  then show ?thesis
    using shift_run(1) [OF c(1) _ c(2)] setting_range [OF assms] integer_dispatch(2) [OF m(5,2)]
    by (simp add: byte_mask_def one)
qed

lemma mkint_checked: "copyable x \<Longrightarrow> bi_check_integer (mkint x) who = Inr ()"
  using integer_checks(2) mkint_copyable(2) by blast

lemma negate_fix:
  assumes "byte_setting K s p"
  shows "cl_arith_negate (mkfix (int p)) = Inr (mkfix (- int p))"
proof -
  have r: "in_fixnum_range (int p)" "in_fixnum_range (- int p)" using setting_range [OF assms]
    by (simp_all add: in_fixnum_range_def CL_FIXNUM_MAX_def CL_FIXNUM_MIN_def)
  have c: "copyable (int p)" using setting_range [OF assms] by (intro copyable_small) (simp add: CL_FIXNUM_MAX_def)
  have "cl_arith_negate (mkfix (int p)) = integer_negate (mkint (int p))" using mkint_fix [OF r(1)] by simp
  then show ?thesis using mkint_unary(1) [OF c] mkint_fix [OF r(2)] by simp
qed

lemma ldb_run:
  assumes "byte_setting K s p" "in_bits K x"
  shows "bi_ldb (byte_of s p) (mkint x) = Inr (mkint (take_bit s (drop_bit p x)))"
proof -
  have c: "copyable x" "copyable (drop_bit p x)" "copyable (mask s)" "copyable (drop_bit p x AND mask s)"
    using assms in_bits_ops(4,6) [OF assms(1)] in_bits_ops(1) in_bits_copyable [OF assms(1)]
    by (simp_all flip: take_bit_minus_one_eq_mask)
  show ?thesis
    using mkint_checked [OF c(1)] negate_fix [OF assms(1)] shift_run(2) [OF c(1) _ c(2)] setting_range [OF assms(1)]
      byte_mask_run [OF assms(1)] bitop_run(1) [OF c(2,3,4)]
    by (simp add: bi_ldb_def byte_of_def take_bit_eq_mask)
qed

lemma field_ops:
  assumes "byte_setting K s p" "in_bits K x"
  defines "fm \<equiv> push_bit p (mask s)"
  shows "integer_ash (mkint (mask s)) (mkfix (int p)) = Inr (mkint fm)" "integer_lognot (mkint fm) = Inr (mkint (NOT fm))"
    and "integer_logand (mkint x) (mkint fm) = Inr (mkint (x AND fm))"
    and "integer_logand (mkint x) (mkint (NOT fm)) = Inr (mkint (x AND NOT fm))"
    and "integer_logand (mkint x) (mkint (mask s)) = Inr (mkint (take_bit s x))"
    and "integer_ash (mkint (take_bit s x)) (mkfix (int p)) = Inr (mkint (push_bit p (take_bit s x)))"
proof -
  note ib = in_bits_ops(5,6) [OF assms(1)] in_bits_ops(1-3)
  have b: "in_bits K (mask s)" "in_bits K fm"
    using ib(1,2) [of "-1"] by (simp_all add: fm_def take_bit_minus_one_eq_mask)
  have c: "copyable x" "copyable (mask s)" "copyable fm" "copyable (NOT fm)" "copyable (x AND fm)"
    "copyable (x AND NOT fm)" "copyable (x AND mask s)" "copyable (take_bit s x)" "copyable (push_bit p (take_bit s x))"
    using assms(2) b ib by (auto intro: in_bits_copyable [OF assms(1)])
  have r: "int p \<le> CL_FIXNUM_MAX" using setting_range [OF assms(1)] by simp
  show "integer_ash (mkint (mask s)) (mkfix (int p)) = Inr (mkint fm)"
    using shift_run(1) [OF c(2) r] c(3) by (simp add: fm_def)
  show "integer_lognot (mkint fm) = Inr (mkint (NOT fm))" by (rule bitop_run(3) [OF c(3,3,4)])
  show "integer_logand (mkint x) (mkint fm) = Inr (mkint (x AND fm))" by (rule bitop_run(1) [OF c(1,3,5)])
  show "integer_logand (mkint x) (mkint (NOT fm)) = Inr (mkint (x AND NOT fm))" by (rule bitop_run(1) [OF c(1,4,6)])
  show "integer_logand (mkint x) (mkint (mask s)) = Inr (mkint (take_bit s x))"
    using bitop_run(1) [OF c(1,2,7)] by (simp add: take_bit_eq_mask)
  show "integer_ash (mkint (take_bit s x)) (mkfix (int p)) = Inr (mkint (push_bit p (take_bit s x)))"
    by (rule shift_run(1) [OF c(8) r c(9)])
qed

lemma deposit_run:
  assumes "byte_setting K s p" "in_bits K x" "in_bits K y"
  defines "fm \<equiv> push_bit p (mask s)"
  shows "bi_dpb (mkint y) (byte_of s p) (mkint x) = Inr (mkint (x AND NOT fm OR push_bit p (take_bit s y)))"
    and "bi_deposit_field (mkint y) (byte_of s p) (mkint x) = Inr (mkint (x AND NOT fm OR y AND fm))"
    and "bi_mask_field (byte_of s p) (mkint x) = Inr (mkint (x AND fm))"
    and "in_bits K (x AND NOT fm OR push_bit p (take_bit s y))"
proof -
  note ib = in_bits_ops(5,6) [OF assms(1)] in_bits_ops(1-3)
  have b: "in_bits K fm" using ib(1) [of "-1"] by (simp add: fm_def take_bit_minus_one_eq_mask)
  show r: "in_bits K (x AND NOT fm OR push_bit p (take_bit s y))" using assms(2) b ib by blast
  have c: "copyable x" "copyable y" "copyable (x AND NOT fm)" "copyable (push_bit p (take_bit s y))" "copyable (y AND fm)"
    "copyable (x AND NOT fm OR push_bit p (take_bit s y))" "copyable (x AND NOT fm OR y AND fm)"
    using assms(2,3) b r ib by (auto intro: in_bits_copyable [OF assms(1)])
  note F = field_ops [OF assms(1)] byte_mask_run [OF assms(1)] mkint_checked [OF c(1)] mkint_checked [OF c(2)]
  show "bi_dpb (mkint y) (byte_of s p) (mkint x) = Inr (mkint (x AND NOT fm OR push_bit p (take_bit s y)))"
    using F(1-6) assms(2,3) bitop_run(2) [OF c(3,4,6)] by (simp add: bi_dpb_def byte_of_def F(7-9) fm_def)
  show "bi_deposit_field (mkint y) (byte_of s p) (mkint x) = Inr (mkint (x AND NOT fm OR y AND fm))"
    using F(1-6) assms(2,3) bitop_run(2) [OF c(3,5,7)] by (simp add: bi_deposit_field_def byte_of_def F(7-9) fm_def)
  show "bi_mask_field (byte_of s p) (mkint x) = Inr (mkint (x AND fm))"
    using F(1-6) assms(2) by (simp add: bi_mask_field_def byte_of_def F(7-9) fm_def)
qed

lemma field_bits:
  fixes x y :: int
  shows "bit (x AND NOT (push_bit p (mask s)) OR push_bit p (take_bit s y)) i
      \<longleftrightarrow> (if p \<le> i \<and> i < p + s then bit y (i - p) else bit x i)"
    and "bit (x AND NOT (push_bit p (mask s)) OR y AND push_bit p (mask s)) i
      \<longleftrightarrow> (if p \<le> i \<and> i < p + s then bit y i else bit x i)"
    and "bit (x AND push_bit p (mask s)) i \<longleftrightarrow> p \<le> i \<and> i < p + s \<and> bit x i"
    and "take_bit s (drop_bit p (x AND NOT (push_bit p (mask s)) OR push_bit p (take_bit s y))) = take_bit s y"
  by (auto simp: bit_and_iff bit_or_iff bit_not_int_iff bit_push_bit_iff_int bit_mask_iff bit_take_bit_iff bit_drop_bit_eq
      intro!: bit_eqI)

text \<open>
  C32: The byte functions on a field of \<open>s\<close> bits at position \<open>p\<close> of integers of either sign in
  \<open>K\<close> bits: \<open>ldb\<close> reads the field, \<open>dpb\<close> replaces exactly the bits of the field by the low
  bits of the new byte, \<open>deposit-field\<close> by the same bits of the other integer, \<open>mask-field\<close>
  keeps only the field, and \<open>ldb\<close> after \<open>dpb\<close> gives back the byte that was written.
\<close>

theorem byte_fields_exact:
  assumes "s + p \<le> K" "K < 16 * 65535" "wf_int n" "wf_int new" "in_bits K (int_val n)" "in_bits K (int_val new)"
  defines "spec \<equiv> Cons_Obj (mkfix (int s)) (mkfix (int p))"
  shows "bi_ldb spec n = int_obj (take_bit s (drop_bit p (int_val n)))
    \<and> (\<exists>v. bi_dpb new spec n = Inr v \<and> wf_int v \<and> bi_ldb spec v = int_obj (take_bit s (int_val new))
         \<and> (\<forall>i. bit (int_val v) i \<longleftrightarrow> (if p \<le> i \<and> i < p + s then bit (int_val new) (i - p) else bit (int_val n) i)))
    \<and> (\<exists>v. bi_deposit_field new spec n = Inr v \<and> wf_int v
         \<and> (\<forall>i. bit (int_val v) i \<longleftrightarrow> (if p \<le> i \<and> i < p + s then bit (int_val new) i else bit (int_val n) i)))
    \<and> (\<exists>v. bi_mask_field spec n = Inr v \<and> wf_int v \<and> (\<forall>i. bit (int_val v) i \<longleftrightarrow> p \<le> i \<and> i < p + s \<and> bit (int_val n) i))"
proof -
  let ?fm = "push_bit p (mask s) :: int"
  let ?x = "int_val n" and ?y = "int_val new"
  have B: "byte_setting K s p" using assms(1,2) by (simp add: byte_setting_def)
  note ib = in_bits_ops(5,6) [OF B] in_bits_ops(1-3)
  note R = deposit_run [OF B assms(5,6)]
  have f: "in_bits K ?fm" using ib(1) [of "-1"] by (simp add: take_bit_minus_one_eq_mask)
  have c: "copyable (take_bit s (drop_bit p ?x))" "copyable (take_bit s ?y)" "copyable (?x AND ?fm)"
    "copyable (?x AND NOT ?fm OR ?y AND ?fm)" "copyable (?x AND NOT ?fm OR push_bit p (take_bit s ?y))"
    using assms(5,6) f R(4) ib by (auto intro: in_bits_copyable [OF B])
  have "bi_ldb spec n = int_obj (take_bit s (drop_bit p ?x))"
    using ldb_run [OF B assms(5)] mkint_copyable(1) [OF c(1)] mkint_val [OF assms(3)] by (simp add: spec_def byte_of_def)
  moreover have "bi_ldb spec (mkint (?x AND NOT ?fm OR push_bit p (take_bit s ?y))) = int_obj (take_bit s ?y)"
    using ldb_run [OF B R(4)] mkint_copyable(1) [OF c(2)] unfolding field_bits(4) spec_def byte_of_def by simp
  moreover have "bi_dpb new spec n = Inr (mkint (?x AND NOT ?fm OR push_bit p (take_bit s ?y)))"
    "bi_deposit_field new spec n = Inr (mkint (?x AND NOT ?fm OR ?y AND ?fm))" "bi_mask_field spec n = Inr (mkint (?x AND ?fm))"
    using R(1-3) mkint_val [OF assms(3)] mkint_val [OF assms(4)] by (simp_all add: spec_def byte_of_def)
  ultimately show ?thesis
    using mkint_copyable(2,3) [OF c(3)] mkint_copyable(2,3) [OF c(4)] mkint_copyable(2,3) [OF c(5)]
    by (simp add: field_bits)
qed

theorem byte_fields_exact_witness:
  "bi_ldb (Cons_Obj (mkfix 4) (mkfix 3)) (mkfix (-6)) = int_obj 15
    \<and> (\<exists>v. bi_dpb (mkfix 21) (Cons_Obj (mkfix 4) (mkfix 3)) (mkfix (-6)) = Inr v \<and> wf_int v
         \<and> bi_ldb (Cons_Obj (mkfix 4) (mkfix 3)) v = int_obj 5)"
proof -
  have v: "int_val (mkfix (-6)) = -6" "int_val (mkfix 21) = 21" "wf_int (mkfix (-6))" "wf_int (mkfix 21)"
    by (simp_all add: fixnum_val_make_wraps)
  have "take_bit 4 (drop_bit 3 (-6 :: int)) = 15" "take_bit 4 (21 :: int) = 5"
    by (simp_all add: take_bit_eq_mod drop_bit_eq_div)
  then show ?thesis using byte_fields_exact [of 4 3 10, OF _ _ v(3,4)] unfolding v(1,2) by (auto simp: in_bits_def)
qed

text \<open>
  \<open>plusp\<close>, \<open>minusp\<close>, \<open>max\<close> and \<open>min\<close> admit every number, complex numbers included,
  and go on to code that reads the words of the complex object as if they were those of a
  bignum, while \<open><\<close> and the other order relations reject the same argument with a type error.
\<close>

theorem order_of_complex_undefined:
  "bi_plusp (Complex_Obj re im) = Inl Undefined \<and> bi_minusp (Complex_Obj re im) = Inl Undefined
    \<and> bi_max [Complex_Obj re im, mkfix 0] = Inl Undefined \<and> bi_min [Complex_Obj re im, mkfix 0] = Inl Undefined
    \<and> bi_lt [Complex_Obj re im, mkfix 0] = Inl (Type_Error ''<'') \<and> bi_ge [Complex_Obj re im, mkfix 0] = Inl (Type_Error ''>='')"
proof -
  have c: "CL_NUMBER_P (Complex_Obj re im)" "\<not> CL_REALP (Complex_Obj re im)" "CL_NUMBER_P (mkfix 0)"
    by (simp_all add: CL_NUMBER_P_def CL_REALP_def CL_INTEGER_P_def)
  have cmp: "cl_arith_compare (mkfix 0) (Complex_Obj re im) = Inl Undefined"
    by (simp add: cl_arith_compare_def integer_compare_def Let_def)
  show ?thesis using c cmp
    by (simp add: bi_plusp_def bi_minusp_def bi_max_def bi_min_def bi_lt_def bi_ge_def check_number_def check_real_def)
qed

end
