(* ===== verification/Bignum_IO.thy ===== *)
theory Bignum_IO
  imports Integer_Ops
begin

text \<open>
  Conversion between bignums and digit strings, \<open>cl_bignum_from_string\<close> and
  \<open>cl_bignum_print_base\<close> of \<open>core/bignum.c\<close>.  The text handed to the output callback is
  the result of the printing function.  The accumulator of the parser is a limb list of at
  most 256 limbs, as the array it stands for.
\<close>

section \<open>Parsing\<close>

text \<open>
  Multiplying the accumulator by ten is the one-limb multiplication loop \<open>mul_small_lo\<close>;
  adding the digit stops at the first limb that absorbs the carry.
\<close>

fun add_digit_loop :: "u16 list \<Rightarrow> u32 \<Rightarrow> u16 list \<times> u32" where
  "add_digit_loop [] carry = ([], carry)"
| "add_digit_loop (x # xs) carry =
     (if carry = 0 then (x # xs, 0)
      else let sum = ucast x + carry;
               (r, c) = add_digit_loop xs (drop_bit 16 sum)
           in (ucast (sum AND 0xFFFF) # r, c))"

definition push_carry :: "u16 list \<Rightarrow> u32 \<Rightarrow> u16 list" where
  "push_carry acc carry = (if carry \<noteq> 0 \<and> length acc < 256 then acc @ [ucast carry] else acc)"

definition from_string_step :: "u16 list \<Rightarrow> char \<Rightarrow> u16 list" where
  "from_string_step acc c =
     (let code = of_char c :: nat
      in if code < 48 \<or> code > 57 then acc
         else let digit = of_nat (code - 48) :: u32;
                  (acc1, carry1) = mul_small_lo acc 10 0;
                  (acc2, carry2) = add_digit_loop (push_carry acc1 carry1) digit
              in push_carry acc2 carry2)"

definition cl_bignum_from_string :: "string \<Rightarrow> bool \<Rightarrow> cl_val res" where
  "cl_bignum_from_string str negative = bignum_from_limbs (foldl from_string_step [0] str) negative"

section \<open>Printing\<close>

definition digit_chars :: string where
  "digit_chars = ''0123456789ABCDEFGHIJKLMNOPQRSTUVWXYZ''"

text \<open>
  The digit loop, least significant digit first; \<open>digits\<close> is the buffer filled so far and
  \<open>cap\<close> its size.  Each round divides the number by at least two, so as many rounds as the
  number has bits, and one more, are enough fuel (\<open>print_loop_correct\<close>).
\<close>

fun print_loop :: "nat \<Rightarrow> nat \<Rightarrow> u16 \<Rightarrow> u16 list \<Rightarrow> string \<Rightarrow> string res" where
  "print_loop 0 cap base work digits = Inl No_Return"
| "print_loop (Suc fuel) cap base work digits =
     (if length work > 1 \<or> work ! 0 \<noteq> 0 then
        let (quot, rem) = bignum_div_single work base
        in print_loop fuel cap base (strip_zeros quot)
             (if length digits < cap - 1 then digits @ [digit_chars ! unat rem] else digits)
      else Inr digits)"

definition cl_bignum_print_base :: "cl_bignum \<Rightarrow> int \<Rightarrow> string res" where
  "cl_bignum_print_base bn base0 =
     (let base1 = (if base0 < 2 then 10 else base0);
          base = (if base1 > 36 then 10 else base1);
          work = bn_limbs bn;
          digits_cap = length work * 16 + 2
      in if work = [] then Inl Undefined
         else if work = [0] then Inr ''0''
         else bindr (print_loop (Suc (16 * length work)) digits_cap (word_of_int base) work []) (\<lambda>digits.
           Inr ((if bn_sign bn then ''-'' else []) @ rev digits)))"

definition cl_bignum_print :: "cl_bignum \<Rightarrow> string res" where
  "cl_bignum_print bn = cl_bignum_print_base bn 10"

section \<open>Specification\<close>

definition digit_val :: "char \<Rightarrow> nat" where
  "digit_val c = (let code = of_char c in if code < 58 then code - 48 else code - 55)"

definition decimal_step :: "nat \<Rightarrow> char \<Rightarrow> nat" where
  "decimal_step v c = (let code = of_char c in if code < 48 \<or> code > 57 then v else 10 * v + (code - 48))"

definition decimal_value :: "string \<Rightarrow> nat" where
  "decimal_value str = foldl decimal_step 0 str"

section \<open>Lemmas\<close>

lemma add_digit_loop_correct:
  "add_digit_loop xs c = (r, c') \<Longrightarrow> unat c < 65536 \<Longrightarrow>
    length r = length xs \<and> unat c' < 65536
    \<and> lval r + 2 ^ (16 * length xs) * unat c' = lval xs + unat c"
proof (induction xs c arbitrary: r c' rule: add_digit_loop.induct)
  case (2 x xs c)
  show ?case
  proof (cases "c = 0")
    case True
    then show ?thesis using 2(2) by auto
  next
    case False
    define s where "s = ucast x + c"
    have s: "unat s = unat x + unat c"
      unfolding s_def by (subst unat_add_small) (use 2(3) unat_lt16 [of x] in simp_all)
    obtain r1 c1 where step: "add_digit_loop xs (drop_bit 16 s) = (r1, c1)" by fastforce
    have "unat (drop_bit 16 s) < 65536" using s 2(3) unat_lt16 [of x] by (simp add: unat_hi16)
    note IH = 2(1) [OF False s_def step [symmetric, THEN sym] this]
    have out: "r = ucast (s AND 0xFFFF) # r1" "c' = c1" using 2(2) step False by (simp_all add: s_def Let_def)
    have "(unat s mod 65536 + 65536 * lval r1) + (65536 * 2 ^ (16 * length xs)) * unat c1 = unat s + 65536 * lval xs"
      by (rule limb_step) (use IH in \<open>simp add: unat_hi16\<close>)
    then show ?thesis using IH out s by (simp add: unat_lo16 power_add)
  qed
qed simp

lemma push_carry_correct:
  assumes "unat c < 65536" "length xs \<le> 256"
  shows "length (push_carry xs c) \<le> 256" "xs \<noteq> [] \<Longrightarrow> push_carry xs c \<noteq> []"
    "lval (push_carry xs c) mod 2 ^ 4096 = (lval xs + 2 ^ (16 * length xs) * unat c) mod 2 ^ 4096"
proof -
  have u: "unat (ucast c :: u16) = unat c" using assms(1) by (simp add: unsigned_ucast_eq take_bit_nat_eq_self)
  show "length (push_carry xs c) \<le> 256" "xs \<noteq> [] \<Longrightarrow> push_carry xs c \<noteq> []"
    using assms(2) by (auto simp: push_carry_def)
  show "lval (push_carry xs c) mod 2 ^ 4096 = (lval xs + 2 ^ (16 * length xs) * unat c) mod 2 ^ 4096"
  proof (cases "length xs < 256")
    case True
    then show ?thesis using u by (cases "c = 0") (simp_all add: push_carry_def lval_append)
  next
    case False
    then have "16 * length xs = 4096" using assms(2) by simp
    then show ?thesis using False by (simp only: push_carry_def) simp
  qed
qed

lemma from_string_step_correct:
  assumes "length acc \<le> 256" "acc \<noteq> []"
  shows "length (from_string_step acc ch) \<le> 256" "from_string_step acc ch \<noteq> []"
    "lval (from_string_step acc ch) mod 2 ^ 4096 = decimal_step (lval acc) ch mod 2 ^ 4096"
proof -
  let ?code = "of_char ch :: nat" and ?M = "2 ^ 4096 :: nat"
  have "length (from_string_step acc ch) \<le> 256 \<and> from_string_step acc ch \<noteq> []
    \<and> lval (from_string_step acc ch) mod ?M = decimal_step (lval acc) ch mod ?M"
  proof (cases "?code < 48 \<or> ?code > 57")
    case True
    then show ?thesis using assms by (auto simp: from_string_step_def decimal_step_def Let_def)
  next
    case False
    obtain a1 c1 where m: "mul_small_lo acc 10 0 = (a1, c1)" by fastforce
    have m1: "length a1 = length acc" "lval a1 + 2 ^ (16 * length acc) * unat c1 = lval acc * 10" "unat c1 < 65536"
      using mul_small_lo_correct [OF m] by simp_all
    let ?p = "push_carry a1 c1" and ?d = "of_nat (?code - 48) :: u32"
    have "?code - 48 < 10" using False by linarith
    also have "\<dots> \<le> 2 ^ LENGTH(32)" by simp
    finally have d: "unat ?d = ?code - 48" by (subst unat_of_nat) (rule mod_less)
    then have d9: "unat ?d < 65536" unfolding d using False by linarith
    have "length a1 \<le> 256" using m1(1) assms(1) by simp
    note p = push_carry_correct [OF m1(3) this]
    obtain a2 c2 where a: "add_digit_loop ?p ?d = (a2, c2)" by fastforce
    note a2 = add_digit_loop_correct [OF a d9]
    have "length a2 \<le> 256" using a2 p(1) by simp
    note p2 = push_carry_correct [OF conjunct1 [OF conjunct2 [OF a2]] this]
    have run: "from_string_step acc ch = push_carry a2 c2"
      using False m a by (simp add: from_string_step_def Let_def)
    have "lval (push_carry a2 c2) mod ?M = (lval ?p + unat ?d) mod ?M"
      unfolding p2(3) using a2 by metis
    also have "\<dots> = (lval acc * 10 + unat ?d) mod ?M"
      using p(3) m1 by (metis mod_add_left_eq)
    also have "lval acc * 10 + unat ?d = decimal_step (lval acc) ch"
      unfolding decimal_step_def Let_def d using False by simp
    finally have val: "lval (push_carry a2 c2) mod ?M = decimal_step (lval acc) ch mod ?M" .
    have "a1 \<noteq> []" using m1(1) assms(2) by auto
    then have "?p \<noteq> []" by (rule p(2))
    then have "a2 \<noteq> []" using a2 by auto
    then show ?thesis unfolding run using p2(1) p2(2) val by blast
  qed
  then show "length (from_string_step acc ch) \<le> 256" "from_string_step acc ch \<noteq> []"
    "lval (from_string_step acc ch) mod 2 ^ 4096 = decimal_step (lval acc) ch mod 2 ^ 4096" by blast+
qed


lemma decimal_step_mod: "decimal_step (v mod m) c mod m = decimal_step v c mod m"
proof -
  have "(10 * (v mod m) + k) mod m = (10 * v + k) mod m" for k
    by (metis mod_add_left_eq mod_mult_right_eq)
  then show ?thesis
    by (cases "(of_char c :: nat) < 48 \<or> 57 < (of_char c :: nat)")
       (simp_all only: decimal_step_def Let_def if_True if_False mod_mod_trivial)
qed

lemma from_string_fold:
  "length acc \<le> 256 \<Longrightarrow> acc \<noteq> [] \<Longrightarrow> lval acc = v mod 2 ^ 4096 \<Longrightarrow>
    foldl from_string_step acc str \<noteq> []
    \<and> lval (foldl from_string_step acc str) = foldl decimal_step v str mod 2 ^ 4096"
proof (induction str arbitrary: acc v)
  case (Cons c str)
  note st = from_string_step_correct [OF Cons.prems(1,2), of c]
  have "lval (from_string_step acc c) < 2 ^ (16 * length (from_string_step acc c))"
    using lval_bound [of "from_string_step acc c"] by simp
  also have "\<dots> \<le> 2 ^ 4096" using st(1) by (intro power_increasing) simp_all
  finally have "lval (from_string_step acc c) mod 2 ^ 4096 = lval (from_string_step acc c)" by (rule mod_less)
  then have "lval (from_string_step acc c) = decimal_step v c mod 2 ^ 4096"
    using st(3) unfolding Cons.prems(3) decimal_step_mod by metis
  from Cons.IH [OF st(1,2) this] show ?case by simp
qed simp

lemma from_string_correct:
  "cl_bignum_from_string str negative =
    int_obj (if negative then - int (decimal_value str mod 2 ^ 4096) else int (decimal_value str mod 2 ^ 4096))"
proof -
  let ?r = "foldl from_string_step [0] str"
  have "lval [0 :: u16] = 0 mod 2 ^ 4096" by (simp only: lval.simps) simp
  from from_string_fold [OF _ _ this, of str] have r: "?r \<noteq> []" "lval ?r = decimal_value str mod 2 ^ 4096"
    by (simp_all only: decimal_value_def, simp_all)
  show ?thesis unfolding cl_bignum_from_string_def from_limbs_correct [OF r(1)] r(2) ..
qed

lemma digit_val_chars: "n < 36 \<Longrightarrow> digit_val (digit_chars ! n) = n"
proof -
  assume "n < 36"
  moreover have "\<forall>n \<in> set [0..<36]. digit_val (digit_chars ! n) = n"
    by (simp add: digit_val_def digit_chars_def upt_rec nth_Cons')
  ultimately show ?thesis by simp
qed

fun base_value :: "nat \<Rightarrow> string \<Rightarrow> nat" where
  "base_value b [] = 0"
| "base_value b (c # cs) = digit_val c + b * base_value b cs"

lemma base_value_append: "base_value b (xs @ ys) = base_value b xs + b ^ length xs * base_value b ys"
  by (induction xs) (simp_all add: algebra_simps)

lemma print_loop_correct:
  assumes b: "2 \<le> unat base" "unat base \<le> 36"
  shows "norm_limbs work \<Longrightarrow> lval work < 2 ^ k \<Longrightarrow> k < fuel \<Longrightarrow> length digits + k < cap \<Longrightarrow>
    \<exists>ds. print_loop fuel cap base work digits = Inr (digits @ ds) \<and> base_value (unat base) ds = lval work
      \<and> (\<forall>c \<in> set ds. \<exists>n < unat base. c = digit_chars ! n)"
proof (induction k arbitrary: fuel work digits)
  case 0
  then have "work = [0]" by (simp add: norm_limbs_0)
  moreover obtain f where "fuel = Suc f" using 0 by (cases fuel) auto
  ultimately show ?case by auto
next
  case (Suc k)
  obtain f where f: "fuel = Suc f" using Suc.prems by (cases fuel) auto
  show ?case
  proof (cases "lval work = 0")
    case True
    then have "work = [0]" using Suc.prems(1) by (simp add: norm_limbs_0)
    then show ?thesis using f by auto
  next
    case False
    obtain q r where qr: "bignum_div_single work base = (q, r)" by fastforce
    have "base \<noteq> 0" using b(1) by auto
    note c = div_single_correct [OF qr this]
    have ne: "work \<noteq> []" using Suc.prems(1) by (simp add: norm_limbs_def)
    then have "q \<noteq> []" using c(1) by auto
    then have nq: "norm_limbs (strip_zeros q)" by simp
    have "lval work div unat base \<le> lval work div 2" using b(1) by (intro div_le_mono2) simp_all
    also have "\<dots> < 2 ^ k" using Suc.prems(2) by (simp add: less_mult_imp_div_less)
    finally have lq: "lval (strip_zeros q) < 2 ^ k" by (simp add: c(2))
    let ?d = "digit_chars ! unat r"
    have cont: "length work > 1 \<or> work ! 0 \<noteq> 0"
    proof (rule ccontr)
      assume "\<not> ?thesis"
      then have "work = [0]" using ne by (cases work) auto
      then show False using False by simp
    qed
    have run: "print_loop fuel cap base work digits = print_loop f cap base (strip_zeros q) (digits @ [?d])"
    proof -
      have "length digits < cap - 1" using Suc.prems(4) by linarith
      then show ?thesis unfolding f using cont qr by simp
    qed
    have "length (digits @ [?d]) + k < cap" "k < f" using Suc.prems(3,4) f by simp_all
    from Suc.IH [OF nq lq this(2,1)] obtain ds where
      ds: "print_loop f cap base (strip_zeros q) (digits @ [?d]) = Inr ((digits @ [?d]) @ ds)"
        "base_value (unat base) ds = lval (strip_zeros q)" "\<forall>c \<in> set ds. \<exists>n < unat base. c = digit_chars ! n" by blast
    have rb: "unat r < unat base" using c(3) b(1) by simp
    then have "digit_val ?d = unat r" using b(2) by (intro digit_val_chars) simp
    then have "base_value (unat base) (?d # ds) = lval work"
      using ds(2) c(2,3) by simp
    then show ?thesis using run ds rb by (intro exI [of _ "?d # ds"]) auto
  qed
qed


lemma print_base_correct:
  assumes "wf_int (Bignum bn)" "2 \<le> base" "base \<le> 36"
  shows "\<exists>ds. cl_bignum_print_base bn base = Inr ((if bn_sign bn then ''-'' else []) @ rev ds)
    \<and> base_value (nat base) ds = lval (bn_limbs bn)
    \<and> (\<forall>c \<in> set ds. \<exists>n < nat base. c = digit_chars ! n)"
proof -
  let ?l = "bn_limbs bn" and ?b = "word_of_int base :: u16"
  have n: "norm_limbs ?l" "lval ?l \<noteq> 0" "?l \<noteq> []"
    using assms by (auto simp: in_range_bounds norm_limbs_def split: if_splits)
  have "int (unat ?b) = base" using assms(2,3) by (simp add: uint_word_of_int)
  then have ub: "unat ?b = nat base" by linarith
  have "lval ?l < 2 ^ (16 * length ?l)" using lval_bound [of ?l] by simp
  moreover have "2 \<le> unat ?b" "unat ?b \<le> 36" using assms(2,3) ub by simp_all
  ultimately obtain ds where ds: "print_loop (Suc (16 * length ?l)) (length ?l * 16 + 2) ?b ?l [] = Inr ds"
    "base_value (nat base) ds = lval ?l" "\<forall>c \<in> set ds. \<exists>n < nat base. c = digit_chars ! n"
    using print_loop_correct [of ?b ?l "16 * length ?l" "Suc (16 * length ?l)" "[]" "length ?l * 16 + 2"] n(1)
    by (auto simp: ub simp del: print_loop.simps)
  moreover have "?l \<noteq> [0]" using n(2) by auto
  ultimately show ?thesis using n(3) assms(2,3)
    by (intro exI [of _ ds]) (simp add: cl_bignum_print_base_def Let_def del: print_loop.simps)
qed

lemma decimal_of_base_value:
  "\<forall>c \<in> set ds. \<exists>n < 10. c = digit_chars ! n \<Longrightarrow> decimal_value (rev ds) = base_value 10 ds"
proof (induction ds)
  case (Cons c ds)
  then obtain n where n: "n < 10" "c = digit_chars ! n" by auto
  have "(of_char c :: nat) = 48 + n"
  proof -
    have "\<forall>n \<in> set [0..<10]. (of_char (digit_chars ! n) :: nat) = 48 + n"
      by (simp add: digit_chars_def upt_rec nth_Cons')
    then show ?thesis using n by simp
  qed
  then have "decimal_step v c = 10 * v + n" "digit_val c = n" for v
    using n(1) by (simp_all add: decimal_step_def digit_val_def)
  then show ?case using Cons by (simp add: decimal_value_def)
qed (simp add: decimal_value_def)

lemma print_parse_roundtrip:
  assumes "wf_int (Bignum bn)" "lval (bn_limbs bn) < 2 ^ 4096"
  shows "\<exists>text. cl_bignum_print bn = Inr ((if bn_sign bn then ''-'' else []) @ text)
    \<and> cl_bignum_from_string text (bn_sign bn) = Inr (Bignum bn)"
proof -
  obtain ds where ds: "cl_bignum_print bn = Inr ((if bn_sign bn then ''-'' else []) @ rev ds)"
    "base_value 10 ds = lval (bn_limbs bn)" "\<forall>c \<in> set ds. \<exists>n < 10. c = digit_chars ! n"
    using print_base_correct [OF assms(1), of 10] by (auto simp: cl_bignum_print_def)
  have "decimal_value (rev ds) mod 2 ^ 4096 = lval (bn_limbs bn)"
    unfolding decimal_of_base_value [OF ds(3)] ds(2) using assms(2) by (rule mod_less)
  then have "cl_bignum_from_string (rev ds) (bn_sign bn) = int_obj (int_val (Bignum bn))"
    unfolding from_string_correct by (simp only: int_val.simps)
  then show ?thesis using ds(1) int_obj_of_wf [OF assms(1)] by metis
qed

section \<open>Properties\<close>

text \<open>
  C38: Parsing a digit string gives its decimal value, characters other than digits being
  skipped, reduced modulo two to the 4096: the accumulator has 256 limbs and the carry out
  of the last one is dropped.
\<close>

theorem from_string_value:
  "cl_bignum_from_string str negative =
    int_obj (if negative then - int (decimal_value str mod 2 ^ 4096) else int (decimal_value str mod 2 ^ 4096))"
  by (rule from_string_correct)

text \<open>
  Printing a bignum in any radix from 2 to 36 ends, and prints the sign and the digits
  of its magnitude in that radix, every character a digit below the radix.
\<close>

theorem print_base_value:
  assumes "wf_int (Bignum bn)" "2 \<le> base" "base \<le> 36"
  shows "\<exists>ds. cl_bignum_print_base bn base = Inr ((if bn_sign bn then ''-'' else []) @ rev ds)
    \<and> base_value (nat base) ds = lval (bn_limbs bn)
    \<and> (\<forall>c \<in> set ds. \<exists>n < nat base. c = digit_chars ! n)"
  using assms by (rule print_base_correct)

text \<open>
  C31: A bignum of at most 256 limbs survives being printed in decimal and parsed again
  with its sign.
\<close>

theorem print_parse_identity:
  assumes "wf_int (Bignum bn)" "length (bn_limbs bn) \<le> 256"
  shows "\<exists>text. cl_bignum_print bn = Inr ((if bn_sign bn then ''-'' else []) @ text)
    \<and> cl_bignum_from_string text (bn_sign bn) = Inr (Bignum bn)"
proof -
  have "lval (bn_limbs bn) < 2 ^ (16 * length (bn_limbs bn))" using lval_bound [of "bn_limbs bn"] by simp
  also have "\<dots> \<le> 2 ^ 4096" using assms(2) by (intro power_increasing) simp_all
  finally show ?thesis by (rule print_parse_roundtrip [OF assms(1)])
qed

theorem print_parse_identity_witness:
  "\<exists>text. cl_bignum_print \<lparr> bn_sign = True, bn_limbs = [0, 0, 1] \<rparr> = Inr (''-'' @ text)
    \<and> cl_bignum_from_string text True = Inr (Bignum \<lparr> bn_sign = True, bn_limbs = [0, 0, 1] \<rparr>)"
proof -
  let ?a = "\<lparr> bn_sign = True, bn_limbs = [0, 0, 1] \<rparr> :: cl_bignum"
  have "wf_int (Bignum ?a)" by (simp add: norm_limbs_def in_range_bounds CL_MAX_BIGNUM_LIMBS_def)
  from print_parse_identity [OF this] show ?thesis by simp
qed

end
