(* ===== verification/Env.thy ===== *)
theory Env
  imports Object
begin

text \<open>
  The compile-time lexical environment, \<open>src/core/env.c\<close> and \<open>src/core/env.h\<close>, with the code
  of the compiler that sets its name-hiding bands (\<open>compiler_special.c\<close>) and that reads the
  environment passed to macro expanders (\<open>compiler.c\<close>, \<open>builtins_io.c\<close>).  An array with its
  count is the list of its live entries: no operation reads an entry at or above the count.
  \<open>boxed\<close> keeps all its slots, since it is indexed by slots that come and go.  The chain of
  \<open>parent\<close> pointers is the list of the enclosing environments, innermost first.
\<close>

section \<open>Data\<close>

definition CL_MAX_LOCALS :: nat where "CL_MAX_LOCALS = 256"
definition CL_MAX_UPVALUES :: nat where "CL_MAX_UPVALUES = 64"
definition CL_MAX_LOCAL_FUNS :: nat where "CL_MAX_LOCAL_FUNS = 64"
definition CL_MAX_LOCAL_MACROS :: nat where "CL_MAX_LOCAL_MACROS = 16"
definition CL_MAX_SYMBOL_MACROS :: nat where "CL_MAX_SYMBOL_MACROS = 32"

record upvalue_desc =
  is_local :: bool
  index :: nat
  is_boxed :: bool

record local_fun =
  lf_name :: CL_Obj
  slot :: int
  inline_body :: CL_Obj
  inline_params :: CL_Obj
  def_local_mark :: nat
  def_fun_mark :: nat
  def_macro_mark :: nat
  def_smacro_mark :: nat

record local_macro =
  lm_name :: CL_Obj
  expander :: CL_Obj

record symbol_macro =
  sm_name :: CL_Obj
  expansion :: CL_Obj
  local_count_at_create :: nat

record comp_env =
  locals :: "CL_Obj list"
  max_locals :: nat
  depth :: nat
  boxed :: "bool list"
  upvalues :: "upvalue_desc list"
  local_funs :: "local_fun list"
  local_macros :: "local_macro list"
  symbol_macros :: "symbol_macro list"
  inherited_symbol_macro_count :: nat
  hide_local_lo :: nat
  hide_local_hi :: nat
  hide_fun_lo :: nat
  hide_fun_hi :: nat
  hide_macro_lo :: nat
  hide_macro_hi :: nat
  hide_smacro_lo :: nat
  hide_smacro_hi :: nat

section \<open>Lookup\<close>

definition CL_ENV_LOCAL_VISIBLE :: "comp_env \<Rightarrow> nat \<Rightarrow> bool" where
  "CL_ENV_LOCAL_VISIBLE env i \<longleftrightarrow> i < hide_local_lo env \<or> i \<ge> hide_local_hi env"

text \<open>
  The loop that every lookup runs, from the last entry down.  An index in the hidden band is
  set to the lower end of the band and the loop goes on below it.
\<close>

function band_lookup :: "nat \<Rightarrow> nat \<Rightarrow> ('a \<Rightarrow> bool) \<Rightarrow> 'a list \<Rightarrow> nat \<Rightarrow> int" where
  "band_lookup lo hi found xs 0 = -1"
| "band_lookup lo hi found xs (Suc i) =
     (if i < hi \<and> i \<ge> lo then band_lookup lo hi found xs lo
      else if found (xs ! i) then int i
      else band_lookup lo hi found xs i)"
  by pat_completeness auto
termination by (relation "measure (\<lambda>(lo, hi, found, xs, i). i)") auto

definition cl_env_lookup :: "comp_env \<Rightarrow> CL_Obj \<Rightarrow> int" where
  "cl_env_lookup env symbol =
     band_lookup (hide_local_lo env) (hide_local_hi env) (\<lambda>l. l = symbol) (locals env) (length (locals env))"

definition cl_env_lookup_local_fun_index :: "comp_env \<Rightarrow> CL_Obj \<Rightarrow> int" where
  "cl_env_lookup_local_fun_index env nm =
     band_lookup (hide_fun_lo env) (hide_fun_hi env) (\<lambda>f. lf_name f = nm) (local_funs env) (length (local_funs env))"

definition cl_env_lookup_local_fun :: "comp_env \<Rightarrow> CL_Obj \<Rightarrow> int" where
  "cl_env_lookup_local_fun env nm =
     (let i = cl_env_lookup_local_fun_index env nm in if i \<ge> 0 then slot (local_funs env ! nat i) else -1)"

definition cl_env_lookup_local_macro :: "comp_env \<Rightarrow> CL_Obj \<Rightarrow> CL_Obj" where
  "cl_env_lookup_local_macro env nm =
     (let i = band_lookup (hide_macro_lo env) (hide_macro_hi env) (\<lambda>m. lm_name m = nm) (local_macros env) (length (local_macros env))
      in if i \<ge> 0 then expander (local_macros env ! nat i) else CL_NIL)"

text \<open>Every branch of the loop of \<open>cl_env_lookup_symbol_macro_p\<close> returns at the first entry of the name.\<close>

definition cl_env_lookup_symbol_macro_p :: "comp_env \<Rightarrow> CL_Obj \<Rightarrow> CL_Obj option" where
  "cl_env_lookup_symbol_macro_p env nm =
     (let i = band_lookup (hide_smacro_lo env) (hide_smacro_hi env) (\<lambda>m. sm_name m = nm) (symbol_macros env) (length (symbol_macros env))
      in if i < 0 then None
         else let m = symbol_macros env ! nat i in
           if i \<ge> int (inherited_symbol_macro_count env) then
             (if cl_env_lookup env nm \<ge> int (local_count_at_create m) then None else Some (expansion m))
           else if list_ex (\<lambda>j. CL_ENV_LOCAL_VISIBLE env j \<and> locals env ! j = nm) [0..<length (locals env)] then None
           else Some (expansion m))"

definition cl_env_lookup_symbol_macro :: "comp_env \<Rightarrow> CL_Obj \<Rightarrow> CL_Obj" where
  "cl_env_lookup_symbol_macro env nm = (case cl_env_lookup_symbol_macro_p env nm of None \<Rightarrow> CL_NIL | Some e \<Rightarrow> e)"

text \<open>The walk over the enclosing environments; \<open>depth\<close> counts from 1.\<close>

fun lookup_upvalue_loop :: "nat \<Rightarrow> comp_env list \<Rightarrow> CL_Obj \<Rightarrow> (nat \<times> nat) option" where
  "lookup_upvalue_loop dep [] symbol = None"
| "lookup_upvalue_loop dep (e # es) symbol =
     (let idx = cl_env_lookup e symbol in
      if idx \<ge> 0 then Some (dep, nat idx) else lookup_upvalue_loop (Suc dep) es symbol)"

definition cl_env_lookup_upvalue :: "comp_env list \<Rightarrow> CL_Obj \<Rightarrow> (nat \<times> nat) option" where
  "cl_env_lookup_upvalue parents symbol = lookup_upvalue_loop 1 parents symbol"

fun cl_env_parent_fun_is_inline :: "comp_env list \<Rightarrow> CL_Obj \<Rightarrow> bool" where
  "cl_env_parent_fun_is_inline [] nm = False"
| "cl_env_parent_fun_is_inline (e # es) nm =
     (let i = cl_env_lookup_local_fun_index e nm in
      if i \<ge> 0 then inline_body (local_funs e ! nat i) \<noteq> CL_NIL else cl_env_parent_fun_is_inline es nm)"

section \<open>Extension\<close>

definition empty_env :: "nat \<Rightarrow> comp_env" where
  "empty_env d = \<lparr> locals = [], max_locals = 0, depth = d, boxed = replicate CL_MAX_LOCALS False, upvalues = [],
     local_funs = [], local_macros = [], symbol_macros = [], inherited_symbol_macro_count = 0,
     hide_local_lo = 0, hide_local_hi = 0, hide_fun_lo = 0, hide_fun_hi = 0,
     hide_macro_lo = 0, hide_macro_hi = 0, hide_smacro_lo = 0, hide_smacro_hi = 0 \<rparr>"

text \<open>Whether a local of the parent shadows its symbol-macro number \<open>i\<close>.\<close>

definition locally_shadowed :: "comp_env \<Rightarrow> nat \<Rightarrow> bool" where
  "locally_shadowed parent i =
     (let m = symbol_macros parent ! i;
          threshold = (if i < inherited_symbol_macro_count parent then 0 else local_count_at_create m)
      in list_ex (\<lambda>j. CL_ENV_LOCAL_VISIBLE parent j \<and> locals parent ! j = sm_name m) [threshold..<length (locals parent)])"

fun cl_env_create :: "comp_env list \<Rightarrow> comp_env" where
  "cl_env_create [] = empty_env 0"
| "cl_env_create (parent # _) =
     (let n = min (length (symbol_macros parent)) CL_MAX_SYMBOL_MACROS;
          sms = map (\<lambda>i. symbol_macros parent ! i) (filter (\<lambda>i. \<not> locally_shadowed parent i) [0..<n])
      in (empty_env (depth parent + 1))
           \<lparr> local_macros := take CL_MAX_LOCAL_MACROS (local_macros parent),
             symbol_macros := sms, inherited_symbol_macro_count := length sms \<rparr>)"

definition cl_env_add_local :: "comp_env \<Rightarrow> CL_Obj \<Rightarrow> int \<times> comp_env" where
  "cl_env_add_local env symbol =
     (if length (locals env) \<ge> CL_MAX_LOCALS then (-1, env)
      else (int (length (locals env)),
            env \<lparr> locals := locals env @ [symbol], max_locals := max (max_locals env) (length (locals env) + 1) \<rparr>))"

definition cl_env_add_local_fun :: "comp_env \<Rightarrow> CL_Obj \<Rightarrow> int \<Rightarrow> int \<times> comp_env" where
  "cl_env_add_local_fun env nm sl =
     (if length (local_funs env) \<ge> CL_MAX_LOCAL_FUNS then (-1, env)
      else (int (length (local_funs env)),
            env \<lparr> local_funs := local_funs env @
              [\<lparr> lf_name = nm, slot = sl, inline_body = CL_NIL, inline_params = CL_NIL, def_local_mark = 0,
                 def_fun_mark = 0, def_macro_mark = 0, def_smacro_mark = 0 \<rparr>] \<rparr>))"

definition cl_env_add_local_macro :: "comp_env \<Rightarrow> CL_Obj \<Rightarrow> CL_Obj \<Rightarrow> int \<times> comp_env" where
  "cl_env_add_local_macro env nm ex =
     (if length (local_macros env) \<ge> CL_MAX_LOCAL_MACROS then (-1, env)
      else (int (length (local_macros env)), env \<lparr> local_macros := local_macros env @ [\<lparr> lm_name = nm, expander = ex \<rparr>] \<rparr>))"

definition cl_env_add_symbol_macro :: "comp_env \<Rightarrow> CL_Obj \<Rightarrow> CL_Obj \<Rightarrow> int \<times> comp_env" where
  "cl_env_add_symbol_macro env nm ex =
     (if length (symbol_macros env) \<ge> CL_MAX_SYMBOL_MACROS then (-1, env)
      else (int (length (symbol_macros env)),
            env \<lparr> symbol_macros := symbol_macros env @
              [\<lparr> sm_name = nm, expansion = ex, local_count_at_create = length (locals env) \<rparr>] \<rparr>))"

definition cl_env_clear_boxed :: "comp_env \<Rightarrow> nat \<Rightarrow> comp_env" where
  "cl_env_clear_boxed env from =
     env \<lparr> boxed := map (\<lambda>j. if from \<le> j \<and> j < length (locals env) then False else boxed env ! j) [0..<length (boxed env)] \<rparr>"

section \<open>Captured variables\<close>

text \<open>The search for a descriptor, and its addition when there is none and the table has room.\<close>

fun find_desc :: "bool \<Rightarrow> nat \<Rightarrow> upvalue_desc list \<Rightarrow> nat option" where
  "find_desc loc idx [] = None"
| "find_desc loc idx (d # ds) =
     (if is_local d = loc \<and> index d = idx then Some 0 else map_option Suc (find_desc loc idx ds))"

definition capture :: "comp_env \<Rightarrow> bool \<Rightarrow> nat \<Rightarrow> bool \<Rightarrow> int \<times> comp_env" where
  "capture env loc idx box =
     (case find_desc loc idx (upvalues env) of
        Some i \<Rightarrow> (int i, env)
      | None \<Rightarrow>
          if length (upvalues env) \<ge> CL_MAX_UPVALUES then (-1, env)
          else (int (length (upvalues env)),
                env \<lparr> upvalues := upvalues env @ [\<lparr> is_local = loc, index = idx, is_boxed = box \<rparr>] \<rparr>))"

text \<open>
  \<open>cl_env_resolve_upvalue\<close> and \<open>cl_env_resolve_fun_upvalue\<close> differ only in the lookup they
  run in the parent.  The recursion extends the tables of the enclosing environments too.
\<close>

fun resolve_with :: "(comp_env \<Rightarrow> CL_Obj \<Rightarrow> int) \<Rightarrow> comp_env \<Rightarrow> comp_env list \<Rightarrow> CL_Obj \<Rightarrow> int \<times> comp_env \<times> comp_env list" where
  "resolve_with look env [] symbol = (-1, env, [])"
| "resolve_with look env (parent # ps) symbol =
     (let parent_slot = look parent symbol in
      if parent_slot \<ge> 0 then
        (case capture env True (nat parent_slot) (boxed parent ! nat parent_slot) of (i, env') \<Rightarrow> (i, env', parent # ps))
      else
        (case resolve_with look parent ps symbol of (parent_upval, parent', ps') \<Rightarrow>
           if parent_upval \<ge> 0 then
             (case capture env False (nat parent_upval) (is_boxed (upvalues parent' ! nat parent_upval)) of
                (i, env') \<Rightarrow> (i, env', parent' # ps'))
           else (-1, env, parent' # ps')))"

definition cl_env_resolve_upvalue :: "comp_env \<Rightarrow> comp_env list \<Rightarrow> CL_Obj \<Rightarrow> int \<times> comp_env \<times> comp_env list" where
  "cl_env_resolve_upvalue = resolve_with cl_env_lookup"

definition cl_env_resolve_fun_upvalue :: "comp_env \<Rightarrow> comp_env list \<Rightarrow> CL_Obj \<Rightarrow> int \<times> comp_env \<times> comp_env list" where
  "cl_env_resolve_fun_upvalue = resolve_with cl_env_lookup_local_fun"

section \<open>Inlined local functions\<close>

text \<open>An anonymous slot, as \<open>compile_flet\<close> takes one for an inlined function.\<close>

definition alloc_temp_slot :: "comp_env \<Rightarrow> (nat \<times> comp_env) option" where
  "alloc_temp_slot env =
     (if length (locals env) \<ge> CL_MAX_LOCALS then None
      else Some (length (locals env),
             env \<lparr> locals := locals env @ [CL_NIL], max_locals := max (max_locals env) (length (locals env) + 1) \<rparr>))"

text \<open>
  Registration of an inlined function: \<open>cl_env_add_local_fun\<close>, then the inline fields of the
  new entry.  The marks are the counts the body may see.
\<close>

definition local_inline_register ::
  "comp_env \<Rightarrow> CL_Obj \<Rightarrow> nat \<Rightarrow> CL_Obj \<Rightarrow> CL_Obj \<Rightarrow> nat \<Rightarrow> nat \<Rightarrow> nat \<Rightarrow> nat \<Rightarrow> comp_env" where
  "local_inline_register env nm sl body params local_mark fun_mark macro_mark smacro_mark =
     (case cl_env_add_local_fun env nm (int sl) of (idx, env') \<Rightarrow>
        if idx < 0 then env'
        else env' \<lparr> local_funs := (local_funs env')[nat idx := (local_funs env' ! nat idx)
               \<lparr> inline_body := body, inline_params := params, def_local_mark := local_mark,
                 def_fun_mark := fun_mark, def_macro_mark := macro_mark, def_smacro_mark := smacro_mark \<rparr>] \<rparr>)"

text \<open>
  The registration of one inlined function by \<open>compile_flet\<close>; \<open>entry\<close> is the environment on
  entry to the form, from which the marks of all its functions are taken.
\<close>

definition flet_register :: "comp_env \<Rightarrow> comp_env \<Rightarrow> CL_Obj \<Rightarrow> CL_Obj \<Rightarrow> CL_Obj \<Rightarrow> comp_env option" where
  "flet_register entry env nm body params =
     (case alloc_temp_slot env of None \<Rightarrow> None
      | Some (sl, env') \<Rightarrow>
          Some (local_inline_register env' nm sl body params (length (locals entry)) (length (local_funs entry))
                  (length (local_macros entry)) (length (symbol_macros entry))))"

fun add_params :: "comp_env \<Rightarrow> CL_Obj list \<Rightarrow> comp_env option" where
  "add_params env [] = Some env"
| "add_params env (p # ps) = (case cl_env_add_local env p of (sl, env') \<Rightarrow> if sl < 0 then None else add_params env' ps)"

text \<open>A parameter that is assigned and captured lives in a cell; \<open>needs\<close> is the answer of \<open>determine_boxed_vars\<close>.\<close>

definition box_params :: "comp_env \<Rightarrow> nat \<Rightarrow> bool list \<Rightarrow> comp_env" where
  "box_params env base needs =
     env \<lparr> boxed := map (\<lambda>j. if base \<le> j \<and> j - base < length needs \<and> needs ! (j - base) then True else boxed env ! j)
             [0..<length (boxed env)] \<rparr>"

text \<open>The bands that hide what the call site bound since the definition of the function.\<close>

definition hide_call_site :: "comp_env \<Rightarrow> local_fun \<Rightarrow> nat \<Rightarrow> comp_env" where
  "hide_call_site env lf saved_local_count =
     env \<lparr> hide_local_lo := def_local_mark lf, hide_local_hi := saved_local_count,
           hide_fun_lo := def_fun_mark lf, hide_fun_hi := length (local_funs env),
           hide_macro_lo := def_macro_mark lf, hide_macro_hi := length (local_macros env),
           hide_smacro_lo := def_smacro_mark lf, hide_smacro_hi := length (symbol_macros env) \<rparr>"

text \<open>The environment in which \<open>compile_local_inline_call\<close> compiles the body.\<close>

definition inline_body_env :: "comp_env \<Rightarrow> nat \<Rightarrow> CL_Obj list \<Rightarrow> bool list \<Rightarrow> comp_env option" where
  "inline_body_env env fun_idx params needs =
     (case add_params env params of None \<Rightarrow> None
      | Some env' \<Rightarrow>
          Some (hide_call_site (box_params env' (length (locals env)) needs) (local_funs env' ! fun_idx) (length (locals env))))"

section \<open>The environment given to macro expanders\<close>

datatype lex_datum = Lex_Macro CL_Obj CL_Obj | Lex_Form CL_Obj

type_synonym lex_env = "(CL_Obj \<times> lex_datum) list"

text \<open>The descending loop over the entries outside a band, with an accumulator.\<close>

function band_fold :: "nat \<Rightarrow> nat \<Rightarrow> (nat \<Rightarrow> 'b \<Rightarrow> 'b) \<Rightarrow> nat \<Rightarrow> 'b \<Rightarrow> 'b" where
  "band_fold lo hi step 0 acc = acc"
| "band_fold lo hi step (Suc i) acc =
     (if i < hi \<and> i \<ge> lo then band_fold lo hi step lo acc else band_fold lo hi step i (step i acc))"
  by pat_completeness auto
termination by (relation "measure (\<lambda>(lo, hi, step, i, acc). i)") auto

definition lex_add_macro :: "CL_Obj \<Rightarrow> comp_env \<Rightarrow> nat \<Rightarrow> lex_env \<Rightarrow> lex_env" where
  "lex_add_macro sym_lex_local_macro env i result =
     (let m = local_macros env ! i in (sym_lex_local_macro, Lex_Macro (lm_name m) (expander m)) # result)"

definition lex_add_symbol :: "comp_env \<Rightarrow> nat \<Rightarrow> lex_env \<Rightarrow> lex_env" where
  "lex_add_symbol env i result =
     (let m = symbol_macros env ! i in
      if i < inherited_symbol_macro_count env
           \<and> list_ex (\<lambda>j. CL_ENV_LOCAL_VISIBLE env j \<and> locals env ! j = sm_name m) [0..<length (locals env)] then result
      else if list_ex (\<lambda>e. fst e = sm_name m) result then result
      else (sm_name m, Lex_Form (expansion m)) # result)"

definition cl_build_lex_env :: "CL_Obj \<Rightarrow> comp_env \<Rightarrow> lex_env" where
  "cl_build_lex_env sym_lex_local_macro env =
     (if symbol_macros env = [] \<and> local_macros env = [] then []
      else let result = band_fold (hide_macro_lo env) (hide_macro_hi env) (lex_add_macro sym_lex_local_macro env)
                          (length (local_macros env)) []
           in if symbol_macros env = [] then result
              else band_fold (hide_smacro_lo env) (hide_smacro_hi env) (lex_add_symbol env) (length (symbol_macros env)) result)"

fun lex_env_local_macro :: "CL_Obj \<Rightarrow> lex_env \<Rightarrow> CL_Obj \<Rightarrow> CL_Obj" where
  "lex_env_local_macro sym_lex_local_macro [] symb = CL_NIL"
| "lex_env_local_macro sym_lex_local_macro ((k, d) # es) symb =
     (if k = sym_lex_local_macro then
        (case d of Lex_Macro nm ex \<Rightarrow> if nm = symb then ex else lex_env_local_macro sym_lex_local_macro es symb
         | Lex_Form _ \<Rightarrow> lex_env_local_macro sym_lex_local_macro es symb)
      else lex_env_local_macro sym_lex_local_macro es symb)"

fun lex_env_lookup_symbol_macro :: "CL_Obj \<Rightarrow> lex_env \<Rightarrow> CL_Obj \<Rightarrow> lex_datum option" where
  "lex_env_lookup_symbol_macro sym_lex_local_macro [] symb = None"
| "lex_env_lookup_symbol_macro sym_lex_local_macro ((k, d) # es) symb =
     (if k \<noteq> sym_lex_local_macro \<and> k = symb then Some d else lex_env_lookup_symbol_macro sym_lex_local_macro es symb)"

text \<open>\<open>seed_env_from_lex_env\<close> adds the tail first and ignores a full table.\<close>

fun seed_env_from_lex_env :: "CL_Obj \<Rightarrow> comp_env \<Rightarrow> lex_env \<Rightarrow> comp_env" where
  "seed_env_from_lex_env sym_lex_local_macro env [] = env"
| "seed_env_from_lex_env sym_lex_local_macro env ((k, d) # es) =
     (let env' = seed_env_from_lex_env sym_lex_local_macro env es in
      if k = sym_lex_local_macro then
        (case d of Lex_Macro nm ex \<Rightarrow> snd (cl_env_add_local_macro env' nm ex) | Lex_Form _ \<Rightarrow> env')
      else (case d of Lex_Form ex \<Rightarrow> snd (cl_env_add_symbol_macro env' k ex) | Lex_Macro _ _ \<Rightarrow> env'))"

section \<open>Lookup finds the innermost visible binding\<close>

definition visible :: "nat \<Rightarrow> nat \<Rightarrow> nat \<Rightarrow> bool" where
  "visible lo hi i \<longleftrightarrow> i < lo \<or> hi \<le> i"

lemma band_lookup_spec:
  "(band_lookup lo hi P xs n = -1 \<and> (\<forall>i < n. visible lo hi i \<longrightarrow> \<not> P (xs ! i)))
    \<or> (\<exists>i < n. band_lookup lo hi P xs n = int i \<and> visible lo hi i \<and> P (xs ! i)
          \<and> (\<forall>j. i < j \<and> j < n \<and> visible lo hi j \<longrightarrow> \<not> P (xs ! j)))"
proof (induction lo hi P xs n rule: band_lookup.induct)
  case (2 lo hi P xs i)
  show ?case
  proof (cases "i < hi \<and> i \<ge> lo")
    case True
    have "visible lo hi j \<and> j < Suc i \<longrightarrow> j < lo" for j using True by (auto simp: visible_def)
    then show ?thesis using 2(1) [OF True] True by (auto simp: less_Suc_eq_le)
  next
    case False
    then have v: "visible lo hi i" by (auto simp: visible_def)
    show ?thesis
    proof (cases "P (xs ! i)")
      case True
      then show ?thesis using False v by (auto intro!: exI [of _ i])
    next
      case nP: False
      then show ?thesis using 2(2) [OF False nP] False by (auto simp: less_Suc_eq)
    qed
  qed
qed simp

lemma band_lookup_none: "\<forall>i < n. visible lo hi i \<longrightarrow> \<not> P (xs ! i) \<Longrightarrow> band_lookup lo hi P xs n = -1"
  using band_lookup_spec [of lo hi P xs n] by auto

lemma band_lookup_some:
  assumes "i < n" "visible lo hi i" "P (xs ! i)" "\<forall>j. i < j \<and> j < n \<and> visible lo hi j \<longrightarrow> \<not> P (xs ! j)"
  shows "band_lookup lo hi P xs n = int i"
  using band_lookup_spec [of lo hi P xs n]
proof (elim disjE exE conjE)
  fix k assume k: "k < n" "band_lookup lo hi P xs n = int k" "visible lo hi k" "P (xs ! k)"
    "\<forall>j. k < j \<and> j < n \<and> visible lo hi j \<longrightarrow> \<not> P (xs ! j)"
  have "k = i" using k assms by (metis linorder_neqE_nat)
  then show ?thesis using k(2) by simp
qed (use assms in auto)

lemma band_lookup_cases:
  obtains (none) "band_lookup lo hi P xs n = -1" "\<forall>i < n. visible lo hi i \<longrightarrow> \<not> P (xs ! i)"
  | (some) i where "i < n" "band_lookup lo hi P xs n = int i" "visible lo hi i" "P (xs ! i)"
      "\<forall>j. i < j \<and> j < n \<and> visible lo hi j \<longrightarrow> \<not> P (xs ! j)"
  using band_lookup_spec [of lo hi P xs n] by blast

text \<open>A lookup depends only on which visible indexes satisfy the predicate.\<close>

lemma band_lookup_cong:
  assumes "\<And>i. i < n \<and> visible lo hi i \<and> P (xs ! i) \<longleftrightarrow> i < m \<and> visible lo' hi' i \<and> Q (ys ! i)"
  shows "band_lookup lo hi P xs n = band_lookup lo' hi' Q ys m"
proof (cases rule: band_lookup_cases [of lo hi P xs n])
  case none
  then show ?thesis using assms band_lookup_none [of m lo' hi' Q ys] by metis
next
  case (some i)
  then have "i < m" "visible lo' hi' i" "Q (ys ! i)" using assms by blast+
  then show ?thesis using band_lookup_some [of i m lo' hi' Q ys] assms some by metis
qed

section \<open>Inlined bodies\<close>

definition extends :: "comp_env \<Rightarrow> comp_env \<Rightarrow> bool" where
  "extends D env \<longleftrightarrow> (\<exists>ls fs ms sms. locals env = locals D @ ls \<and> local_funs env = local_funs D @ fs
     \<and> local_macros env = local_macros D @ ms \<and> symbol_macros env = symbol_macros D @ sms
     \<and> inherited_symbol_macro_count env = inherited_symbol_macro_count D)"

definition no_bands :: "comp_env \<Rightarrow> bool" where
  "no_bands D \<longleftrightarrow> hide_local_lo D = hide_local_hi D \<and> hide_fun_lo D = hide_fun_hi D
     \<and> hide_macro_lo D = hide_macro_hi D \<and> hide_smacro_lo D = hide_smacro_hi D"

text \<open>The marks of a function record the counts of the environment it was defined in.\<close>

definition marks_of :: "comp_env \<Rightarrow> local_fun \<Rightarrow> bool" where
  "marks_of D lf \<longleftrightarrow> def_local_mark lf = length (locals D) \<and> def_fun_mark lf = length (local_funs D)
     \<and> def_macro_mark lf = length (local_macros D) \<and> def_smacro_mark lf = length (symbol_macros D)"

lemma visible_empty: "visible lo lo i" by (auto simp: visible_def)

lemma band_lookup_definition:
  assumes "lo = hi"
  shows "band_lookup (length xs) (length xs + length ys) P (xs @ ys) (length xs + length ys) = band_lookup lo hi P xs (length xs)"
  by (rule band_lookup_cong) (auto simp: assms visible_empty visible_def nth_append)

lemma band_lookup_above:
  assumes "\<forall>z\<in>set zs. \<not> P z"
  shows "band_lookup lo hi P (xs @ zs) (length xs + length zs) = band_lookup lo hi P xs (length xs)"
  by (rule band_lookup_cong) (use assms in \<open>auto simp: nth_append\<close>)

lemma band_lookup_last:
  assumes "lo \<le> length xs" "hi \<le> length xs" "s \<in> set zs"
  shows "\<exists>k < length zs. zs ! k = s \<and> (\<forall>j. k < j \<and> j < length zs \<longrightarrow> zs ! j \<noteq> s)
    \<and> band_lookup lo hi (\<lambda>l. l = s) (xs @ zs) (length xs + length zs) = int (length xs + k)"
proof -
  obtain us vs where zs: "zs = us @ s # vs" "s \<notin> set vs" using assms(3) by (meson split_list_last)
  have "band_lookup lo hi (\<lambda>l. l = s) (xs @ zs) (length xs + length zs) = int (length xs + length us)"
    using assms zs(2) by (intro band_lookup_some) (auto simp: zs(1) nth_append nth_Cons' visible_def)
  moreover have "\<forall>j. length us < j \<and> j < length zs \<longrightarrow> zs ! j \<noteq> s"
    using zs(2) by (auto simp: zs(1) nth_append nth_Cons')
  ultimately show ?thesis by (intro exI [of _ "length us"]) (simp add: zs(1))
qed

lemma add_params_fields:
  assumes "add_params env ps = Some env'"
  shows "locals env' = locals env @ ps" "local_funs env' = local_funs env" "local_macros env' = local_macros env"
    "symbol_macros env' = symbol_macros env" "inherited_symbol_macro_count env' = inherited_symbol_macro_count env"
  using assms by (induction ps arbitrary: env) (auto simp: cl_env_add_local_def Let_def split: if_splits)

lemma inline_body_fields:
  assumes "inline_body_env env fi ps needs = Some b"
  shows "locals b = locals env @ ps" "local_funs b = local_funs env" "local_macros b = local_macros env"
    "symbol_macros b = symbol_macros env" "inherited_symbol_macro_count b = inherited_symbol_macro_count env"
    and "hide_local_lo b = def_local_mark (local_funs env ! fi)" "hide_local_hi b = length (locals env)"
    and "hide_fun_lo b = def_fun_mark (local_funs env ! fi)" "hide_fun_hi b = length (local_funs env)"
    and "hide_macro_lo b = def_macro_mark (local_funs env ! fi)" "hide_macro_hi b = length (local_macros env)"
    and "hide_smacro_lo b = def_smacro_mark (local_funs env ! fi)" "hide_smacro_hi b = length (symbol_macros env)"
proof -
  obtain e where e: "add_params env ps = Some e" and b: "b = hide_call_site (box_params e (length (locals env)) needs) (local_funs e ! fi) (length (locals env))"
    using assms by (auto simp: inline_body_env_def split: option.splits)
  note F = add_params_fields [OF e]
  show "locals b = locals env @ ps" "local_funs b = local_funs env" "local_macros b = local_macros env"
    "symbol_macros b = symbol_macros env" "inherited_symbol_macro_count b = inherited_symbol_macro_count env"
    and "hide_local_lo b = def_local_mark (local_funs env ! fi)" "hide_local_hi b = length (locals env)"
    and "hide_fun_lo b = def_fun_mark (local_funs env ! fi)" "hide_fun_hi b = length (local_funs env)"
    and "hide_macro_lo b = def_macro_mark (local_funs env ! fi)" "hide_macro_hi b = length (local_macros env)"
    and "hide_smacro_lo b = def_smacro_mark (local_funs env ! fi)" "hide_smacro_hi b = length (symbol_macros env)"
    unfolding b hide_call_site_def box_params_def by (simp_all add: F)
qed

lemma inline_lookup_local:
  assumes "extends D env" "no_bands D" "marks_of D (local_funs env ! fi)" "inline_body_env env fi ps needs = Some b"
  shows "s \<notin> set ps \<Longrightarrow> cl_env_lookup b s = cl_env_lookup D s"
    and "s \<in> set ps \<Longrightarrow> \<exists>k < length ps. ps ! k = s \<and> (\<forall>j. k < j \<and> j < length ps \<longrightarrow> ps ! j \<noteq> s)
           \<and> cl_env_lookup b s = int (length (locals env) + k)"
proof -
  note F = inline_body_fields [OF assms(4)]
  obtain ls where ls: "locals env = locals D @ ls" using assms(1) by (auto simp: extends_def)
  have m: "hide_local_lo b = length (locals D)" using F(6) assms(3) by (simp add: marks_of_def)
  show "cl_env_lookup b s = cl_env_lookup D s" if "s \<notin> set ps"
  proof -
    have "cl_env_lookup b s = band_lookup (length (locals D)) (length (locals env)) (\<lambda>l. l = s) (locals env) (length (locals env))"
      unfolding cl_env_lookup_def F(1,7) m length_append by (rule band_lookup_above) (use that in auto)
    also have "\<dots> = cl_env_lookup D s"
      using band_lookup_definition [of "hide_local_lo D" "hide_local_hi D" "locals D" ls "\<lambda>l. l = s"] assms(2)
      by (simp add: cl_env_lookup_def ls no_bands_def)
    finally show ?thesis .
  qed
  show "\<exists>k < length ps. ps ! k = s \<and> (\<forall>j. k < j \<and> j < length ps \<longrightarrow> ps ! j \<noteq> s)
      \<and> cl_env_lookup b s = int (length (locals env) + k)" if "s \<in> set ps"
    unfolding cl_env_lookup_def F(1,7) m length_append by (rule band_lookup_last [OF _ _ that]) (simp_all add: ls)
qed

lemma inline_lookup_tables:
  assumes "extends D env" "no_bands D" "marks_of D (local_funs env ! fi)" "inline_body_env env fi ps needs = Some b"
  shows "band_lookup (hide_fun_lo b) (hide_fun_hi b) P (local_funs b) (length (local_funs b))
      = band_lookup (hide_fun_lo D) (hide_fun_hi D) P (local_funs D) (length (local_funs D))"
    and "band_lookup (hide_macro_lo b) (hide_macro_hi b) Q (local_macros b) (length (local_macros b))
      = band_lookup (hide_macro_lo D) (hide_macro_hi D) Q (local_macros D) (length (local_macros D))"
    and "band_lookup (hide_smacro_lo b) (hide_smacro_hi b) R (symbol_macros b) (length (symbol_macros b))
      = band_lookup (hide_smacro_lo D) (hide_smacro_hi D) R (symbol_macros D) (length (symbol_macros D))"
proof -
  note F = inline_body_fields [OF assms(4)]
  obtain ls fs ms sms where E: "local_funs env = local_funs D @ fs" "local_macros env = local_macros D @ ms"
    "symbol_macros env = symbol_macros D @ sms" using assms(1) by (auto simp: extends_def)
  have m: "hide_fun_lo b = length (local_funs D)" "hide_macro_lo b = length (local_macros D)" "hide_smacro_lo b = length (symbol_macros D)"
    using F(8,10,12) assms(3) by (simp_all add: marks_of_def)
  have n: "hide_fun_lo D = hide_fun_hi D" "hide_macro_lo D = hide_macro_hi D" "hide_smacro_lo D = hide_smacro_hi D"
    using assms(2) by (simp_all add: no_bands_def)
  show "band_lookup (hide_fun_lo b) (hide_fun_hi b) P (local_funs b) (length (local_funs b))
      = band_lookup (hide_fun_lo D) (hide_fun_hi D) P (local_funs D) (length (local_funs D))"
    unfolding F(2,9) m E(1) length_append by (rule band_lookup_definition [OF n(1)])
  show "band_lookup (hide_macro_lo b) (hide_macro_hi b) Q (local_macros b) (length (local_macros b))
      = band_lookup (hide_macro_lo D) (hide_macro_hi D) Q (local_macros D) (length (local_macros D))"
    unfolding F(3,11) m E(2) length_append by (rule band_lookup_definition [OF n(2)])
  show "band_lookup (hide_smacro_lo b) (hide_smacro_hi b) R (symbol_macros b) (length (symbol_macros b))
      = band_lookup (hide_smacro_lo D) (hide_smacro_hi D) R (symbol_macros D) (length (symbol_macros D))"
    unfolding F(4,13) m E(3) length_append by (rule band_lookup_definition [OF n(3)])
qed

lemma band_lookup_nat:
  assumes "0 \<le> band_lookup lo hi P xs n"
  shows "nat (band_lookup lo hi P xs n) < n" "P (xs ! nat (band_lookup lo hi P xs n))"
  by (rule band_lookup_cases [of lo hi P xs n]; use assms in simp)+

text \<open>The visible locals of an inlined body are those of the definition and the parameters.\<close>

lemma inline_visible_local:
  assumes "extends D env" "no_bands D" "marks_of D (local_funs env ! fi)" "inline_body_env env fi ps needs = Some b" "s \<notin> set ps"
  shows "list_ex (\<lambda>j. CL_ENV_LOCAL_VISIBLE b j \<and> locals b ! j = s) [0..<length (locals b)]
     \<longleftrightarrow> list_ex (\<lambda>j. CL_ENV_LOCAL_VISIBLE D j \<and> locals D ! j = s) [0..<length (locals D)]"
proof -
  have iff: "list_ex (\<lambda>j. CL_ENV_LOCAL_VISIBLE e j \<and> locals e ! j = s) [0..<length (locals e)] \<longleftrightarrow> 0 \<le> cl_env_lookup e s" for e
    unfolding cl_env_lookup_def list_ex_iff CL_ENV_LOCAL_VISIBLE_def visible_def [symmetric]
    by (rule band_lookup_cases [of "hide_local_lo e" "hide_local_hi e" "\<lambda>l. l = s" "locals e" "length (locals e)"]) auto
  show ?thesis unfolding iff using inline_lookup_local(1) [OF assms] by simp
qed

lemma inline_lookup_symbol_macro:
  assumes "extends D env" "no_bands D" "marks_of D (local_funs env ! fi)" "inline_body_env env fi ps needs = Some b" "s \<notin> set ps"
  shows "cl_env_lookup_symbol_macro_p b s = cl_env_lookup_symbol_macro_p D s"
proof -
  let ?i = "band_lookup (hide_smacro_lo D) (hide_smacro_hi D) (\<lambda>m. sm_name m = s) (symbol_macros D) (length (symbol_macros D))"
  note F = inline_body_fields [OF assms(4)]
  have inh: "inherited_symbol_macro_count b = inherited_symbol_macro_count D" and "\<exists>sms. symbol_macros b = symbol_macros D @ sms"
    using F(4,5) assms(1) by (auto simp: extends_def)
  then have "symbol_macros b ! nat ?i = symbol_macros D ! nat ?i" if "0 \<le> ?i"
    using band_lookup_nat(1) [OF that] by (auto simp: nth_append)
  then show ?thesis
    unfolding cl_env_lookup_symbol_macro_p_def inline_lookup_tables(3) [OF assms(1-4)] inline_visible_local [OF assms]
      inline_lookup_local(1) [OF assms] inh by (auto simp: Let_def not_less)
qed

text \<open>
  C23: Inlining a local function keeps lexical scope.  In the body of an inlined call, with the
  parameters bound above whatever the call site had bound, a parameter name finds the last
  parameter of that name, and every other variable, local function, macro and symbol-macro
  resolves exactly as in the environment where the function was defined, whatever the call
  site has bound since.  This is stated for definition environments without a hidden band of
  their own.  A function inlined within an inlined body has one, and there the claim fails: C35.
\<close>

theorem inline_hygiene:
  assumes "extends D env" "no_bands D" "marks_of D (local_funs env ! fi)" "inline_body_env env fi ps needs = Some b"
  shows "(s \<in> set ps \<longrightarrow> (\<exists>k < length ps. ps ! k = s \<and> (\<forall>j. k < j \<and> j < length ps \<longrightarrow> ps ! j \<noteq> s)
           \<and> cl_env_lookup b s = int (length (locals env) + k)))
    \<and> (s \<notin> set ps \<longrightarrow> cl_env_lookup b s = cl_env_lookup D s \<and> cl_env_lookup_symbol_macro_p b s = cl_env_lookup_symbol_macro_p D s)
    \<and> cl_env_lookup_local_fun_index b s = cl_env_lookup_local_fun_index D s
    \<and> cl_env_lookup_local_macro b s = cl_env_lookup_local_macro D s"
proof -
  note F = inline_body_fields [OF assms(4)] and T = inline_lookup_tables [OF assms]
  let ?i = "band_lookup (hide_macro_lo D) (hide_macro_hi D) (\<lambda>m. lm_name m = s) (local_macros D) (length (local_macros D))"
  have "\<exists>ms. local_macros b = local_macros D @ ms" using F(3) assms(1) by (auto simp: extends_def)
  then have "local_macros b ! nat ?i = local_macros D ! nat ?i" if "0 \<le> ?i"
    using band_lookup_nat(1) [OF that] by (auto simp: nth_append)
  then have "cl_env_lookup_local_macro b s = cl_env_lookup_local_macro D s"
    unfolding cl_env_lookup_local_macro_def T(2) by (simp add: Let_def)
  moreover have "cl_env_lookup_local_fun_index b s = cl_env_lookup_local_fun_index D s"
    unfolding cl_env_lookup_local_fun_index_def T(1) ..
  ultimately show ?thesis
    using inline_lookup_local [OF assms] inline_lookup_symbol_macro [OF assms] by blast
qed

theorem inline_hygiene_witness:
  "\<exists>e1 b. flet_register (snd (cl_env_add_local (cl_env_create []) 8)) (snd (cl_env_add_local (cl_env_create []) 8)) 16 24 32 = Some e1
    \<and> inline_body_env (snd (cl_env_add_local e1 8)) 0 [40] [False] = Some b \<and> cl_env_lookup b 8 = 0 \<and> cl_env_lookup b 40 = 3"
proof -
  let ?D = "snd (cl_env_add_local (cl_env_create []) 8)"
  let ?lf = "\<lparr> lf_name = 16, slot = 1, inline_body = 24, inline_params = 32, def_local_mark = 1, def_fun_mark = 0,
    def_macro_mark = 0, def_smacro_mark = 0 \<rparr>"
  let ?env = "?D \<lparr> locals := [8, CL_NIL, 8], max_locals := 3, local_funs := [?lf] \<rparr>"
  let ?b = "hide_call_site (box_params (?env \<lparr> locals := [8, CL_NIL, 8, 40], max_locals := 4 \<rparr>) 3 [False]) ?lf 3"
  note defs = flet_register_def alloc_temp_slot_def local_inline_register_def cl_env_add_local_fun_def cl_env_add_local_def
      empty_env_def CL_MAX_LOCALS_def CL_MAX_LOCAL_FUNS_def
  have "flet_register ?D ?D 16 24 32 = Some (?D \<lparr> locals := [8, CL_NIL], max_locals := 2, local_funs := [?lf] \<rparr>)"
    by (simp add: defs)
  moreover have "snd (cl_env_add_local (?D \<lparr> locals := [8, CL_NIL], max_locals := 2, local_funs := [?lf] \<rparr>) 8) = ?env"
    by (simp add: defs)
  moreover have body: "inline_body_env ?env 0 [40] [False] = Some ?b" by (simp add: defs inline_body_env_def box_params_def hide_call_site_def)
  moreover have "extends ?D ?env" "no_bands ?D" "marks_of ?D (local_funs ?env ! 0)"
    by (simp_all add: defs extends_def no_bands_def marks_of_def)
  from inline_hygiene [OF this body, of 8] inline_hygiene [OF this body, of 40]
  have "cl_env_lookup ?b 8 = cl_env_lookup ?D 8" "cl_env_lookup ?b 40 = 3" by auto
  moreover have "cl_env_lookup ?D 8 = 0" by (simp add: defs cl_env_lookup_def)
  ultimately show ?thesis by auto
qed

text \<open>
  C35: Nested inlining breaks scope.  Function \<open>f\<close> is defined under a variable \<open>x\<close> and called
  under an inner \<open>x\<close>; its body defines and calls \<open>g\<close>.  In the body of \<open>f\<close> the name \<open>x\<close> is the
  outer variable (slot 0), but the call of \<open>g\<close> replaces the band of \<open>f\<close> instead of adding to
  it, so in the body of \<open>g\<close> the name \<open>x\<close> is the variable of the call site of \<open>f\<close> (slot 2).
\<close>

theorem nested_inline_breaks_scope:
  assumes "x \<noteq> CL_NIL"
  shows "\<exists>e1 b1 e2 b2. flet_register (snd (cl_env_add_local (cl_env_create []) x)) (snd (cl_env_add_local (cl_env_create []) x)) f f_body f_params = Some e1
    \<and> inline_body_env (snd (cl_env_add_local e1 x)) 0 [] [] = Some b1 \<and> cl_env_lookup b1 x = 0
    \<and> flet_register b1 b1 g g_body g_params = Some e2 \<and> cl_env_lookup e2 x = 0
    \<and> inline_body_env e2 1 [] [] = Some b2 \<and> cl_env_lookup b2 x = 2"
  using assms
  by (simp add: flet_register_def alloc_temp_slot_def local_inline_register_def cl_env_add_local_fun_def cl_env_add_local_def
      empty_env_def inline_body_env_def box_params_def hide_call_site_def cl_env_lookup_def CL_MAX_LOCALS_def CL_MAX_LOCAL_FUNS_def)

theorem nested_inline_breaks_scope_witness:
  "\<exists>e1 b1 e2 b2. flet_register (snd (cl_env_add_local (cl_env_create []) 8)) (snd (cl_env_add_local (cl_env_create []) 8)) 16 24 32 = Some e1
    \<and> inline_body_env (snd (cl_env_add_local e1 8)) 0 [] [] = Some b1 \<and> cl_env_lookup b1 8 = 0
    \<and> flet_register b1 b1 40 48 56 = Some e2 \<and> cl_env_lookup e2 8 = 0
    \<and> inline_body_env e2 1 [] [] = Some b2 \<and> cl_env_lookup b2 8 = 2"
  by (rule nested_inline_breaks_scope) (simp add: CL_NIL_def)

end
