(* ===== verification/Env_Capture.thy ===== *)
theory Env_Capture
  imports Env
begin

text \<open>
  Captured variables and the invariant of environments: resolution of a name through the
  enclosing functions, for variables and for local functions, and what every operation on
  environments keeps.
\<close>

section \<open>Captured variables\<close>

text \<open>
  What an upvalue denotes: the number of enclosing environments to go out, and the slot
  there.  An entry of a table is followed through the tables of the enclosing environments
  until one that captures a local of its parent.
\<close>

fun chase :: "comp_env \<Rightarrow> comp_env list \<Rightarrow> nat \<Rightarrow> (nat \<times> nat) option" where
  "chase e [] u = None"
| "chase e (p # ps) u =
     (if u < length (upvalues e) then
        (let d = upvalues e ! u in
         if is_local d then Some (1, index d) else map_option (\<lambda>(k, i). (Suc k, i)) (chase p ps (index d)))
      else None)"

text \<open>The innermost enclosing environment that binds the name, for either name space.\<close>

fun chain_lookup :: "(comp_env \<Rightarrow> CL_Obj \<Rightarrow> int) \<Rightarrow> comp_env list \<Rightarrow> CL_Obj \<Rightarrow> (nat \<times> nat) option" where
  "chain_lookup look [] s = None"
| "chain_lookup look (e # es) s =
     (if look e s \<ge> 0 then Some (1, nat (look e s)) else map_option (\<lambda>(k, i). (Suc k, i)) (chain_lookup look es s))"

lemma lookup_upvalue_loop_chain:
  "lookup_upvalue_loop (Suc k) es s = map_option (\<lambda>(d, i). (d + k, i)) (chain_lookup cl_env_lookup es s)"
  by (induction es arbitrary: k) (auto simp: Let_def option.map_comp comp_def case_prod_unfold)

lemma lookup_upvalue_chain: "cl_env_lookup_upvalue es s = chain_lookup cl_env_lookup es s"
  using lookup_upvalue_loop_chain [of 0 es s] by (simp add: cl_env_lookup_upvalue_def option.map_id)

lemma find_desc_Some:
  "find_desc loc idx ds = Some i \<Longrightarrow> i < length ds \<and> is_local (ds ! i) = loc \<and> index (ds ! i) = idx"
  by (induction ds arbitrary: i) (auto split: if_splits)

lemma find_desc_None: "find_desc loc idx ds = None \<longleftrightarrow> (\<forall>d\<in>set ds. \<not> (is_local d = loc \<and> index d = idx))"
  by (induction ds) auto

lemma find_desc_append:
  "find_desc loc idx (ds @ es) = (case find_desc loc idx ds of Some i \<Rightarrow> Some i
     | None \<Rightarrow> map_option (\<lambda>i. i + length ds) (find_desc loc idx es))"
  by (induction ds) (auto simp: option.map_comp comp_def map_option.id [unfolded id_def] split: option.splits)

definition grows :: "comp_env \<Rightarrow> comp_env \<Rightarrow> bool" where
  "grows e e' \<longleftrightarrow> (\<exists>ds. e' = e \<lparr> upvalues := upvalues e @ ds \<rparr>)"

lemma grows_refl [simp]: "grows e e"
  unfolding grows_def by (rule exI [of _ "[]"]) simp

lemma capture_result:
  assumes "capture e loc idx box = (u, e')"
  shows "grows e e'"
    and "u \<ge> 0 \<Longrightarrow> nat u < length (upvalues e') \<and> is_local (upvalues e' ! nat u) = loc \<and> index (upvalues e' ! nat u) = idx"
    and "u \<ge> 0 \<Longrightarrow> capture e' loc idx box' = (u, e')"
    and "u < 0 \<Longrightarrow> e' = e \<and> u = -1 \<and> length (upvalues e) \<ge> CL_MAX_UPVALUES"
proof -
  show "grows e e'" using assms by (auto simp: capture_def grows_def split: option.splits if_splits intro: exI [of _ "[]"])
  show "nat u < length (upvalues e') \<and> is_local (upvalues e' ! nat u) = loc \<and> index (upvalues e' ! nat u) = idx" if "u \<ge> 0"
    using assms that find_desc_Some [of loc idx "upvalues e"] by (auto simp: capture_def split: option.splits if_splits)
  show "capture e' loc idx box' = (u, e')" if "u \<ge> 0"
    using assms that by (auto simp: capture_def find_desc_append split: option.splits if_splits)
  show "e' = e \<and> u = -1 \<and> length (upvalues e) \<ge> CL_MAX_UPVALUES" if "u < 0"
    using assms that by (auto simp: capture_def split: option.splits if_splits)
qed

lemma chase_grows:
  assumes "grows e e'" "list_all2 grows ps ps'" "chase e ps u = Some r"
  shows "chase e' ps' u = Some r"
  using assms(2,1,3)
proof (induction arbitrary: e e' u r rule: list_all2_induct)
  case (Cons p ps p' ps')
  have u: "u < length (upvalues e)" using Cons.prems(2) by (simp split: if_splits)
  then have same: "upvalues e' ! u = upvalues e ! u" "u < length (upvalues e')"
    using Cons.prems(1) by (auto simp: grows_def nth_append)
  show ?case
  proof (cases "is_local (upvalues e ! u)")
    case True
    then show ?thesis using Cons.prems(2) u same by simp
  next
    case False
    then obtain q where "chase p ps (index (upvalues e ! u)) = Some q" "r = (Suc (fst q), snd q)"
      using Cons.prems(2) u by (auto simp: Let_def)
    then show ?thesis using Cons.IH [OF Cons.hyps(1)] False same by (simp add: split_beta)
  qed
qed simp

text \<open>
  The contract of the lookup that resolution runs in the enclosing environments: it does not
  read the table of captured variables, which resolution itself extends.
\<close>

locale slot_lookup =
  fixes look :: "comp_env \<Rightarrow> CL_Obj \<Rightarrow> int"
  assumes look_upvalues: "look (e \<lparr> upvalues := us \<rparr>) s = look e s"

begin

lemma look_grows: "grows e e' \<Longrightarrow> look e' s = look e s"
  by (auto simp: grows_def look_upvalues)

lemma resolve_grows:
  "resolve_with look e ps s = (u, e', ps') \<Longrightarrow> grows e e' \<and> list_all2 grows ps ps'"
proof (induction ps arbitrary: e u e' ps')
  case (Cons p ps)
  have refl: "list_all2 grows ps ps" by (rule list_all2_refl) simp
  show ?case
  proof (cases "look p s \<ge> 0")
    case True
    then show ?thesis using Cons.prems capture_result(1) refl by (auto simp: Let_def split: prod.splits)
  next
    case False
    obtain v p' qs where r: "resolve_with look p ps s = (v, p', qs)" by (metis prod_cases3)
    show ?thesis using Cons.prems False r Cons.IH [OF r] capture_result(1)
      by (auto simp: Let_def split: prod.splits if_splits)
  qed
qed simp

lemma resolve_denotes:
  "resolve_with look e ps s = (u, e', ps') \<Longrightarrow> u \<ge> 0 \<Longrightarrow> chase e' ps' (nat u) = chain_lookup look ps s \<and> chain_lookup look ps s \<noteq> None"
proof (induction ps arbitrary: e u e' ps')
  case (Cons p ps)
  show ?case
  proof (cases "look p s \<ge> 0")
    case True
    then obtain c where c: "capture e True (nat (look p s)) c = (u, e')" "ps' = p # ps"
      using Cons.prems(1) by (auto simp: Let_def split: prod.splits)
    show ?thesis using capture_result(2) [OF c(1) Cons.prems(2)] True c(2) by simp
  next
    case False
    obtain v p' qs where r: "resolve_with look p ps s = (v, p', qs)" by (metis prod_cases3)
    then obtain c where c: "capture e False (nat v) c = (u, e')" "ps' = p' # qs" and v: "v \<ge> 0"
      using Cons.prems False by (auto simp: Let_def split: prod.splits if_splits)
    show ?thesis using capture_result(2) [OF c(1) Cons.prems(2)] Cons.IH [OF r v] False c(2) by simp
  qed
qed simp

lemma resolve_unbound:
  "chain_lookup look ps s = None \<Longrightarrow> resolve_with look e ps s = (-1, e, ps)"
  by (induction ps arbitrary: e) (auto simp: Let_def split: if_splits)

lemma resolve_total:
  "chain_lookup look ps s \<noteq> None \<Longrightarrow> \<forall>q\<in>set (e # ps). length (upvalues q) < CL_MAX_UPVALUES
    \<Longrightarrow> \<exists>u e' ps'. resolve_with look e ps s = (u, e', ps') \<and> u \<ge> 0"
proof (induction ps arbitrary: e)
  case (Cons p ps)
  have room: "\<exists>u e'. capture e loc i box = (u, e') \<and> u \<ge> 0" for loc i box
    using capture_result(4) [of e loc i box] Cons.prems(2) by (metis linorder_not_le list.set_intros(1) surj_pair)
  show ?case
  proof (cases "look p s \<ge> 0")
    case True
    then show ?thesis using room [of True "nat (look p s)" "boxed p ! nat (look p s)"] by (auto simp: Let_def)
  next
    case False
    then have "chain_lookup look ps s \<noteq> None" using Cons.prems(1) by (auto split: if_splits)
    then obtain v p' qs where r: "resolve_with look p ps s = (v, p', qs)" "v \<ge> 0"
      using Cons.IH [of p] Cons.prems(2) by auto
    then show ?thesis using False room [of False "nat v" "is_boxed (upvalues p' ! nat v)"] by (auto simp: Let_def)
  qed
qed simp

lemma resolve_idempotent:
  "resolve_with look e ps s = (u, e', ps') \<Longrightarrow> u \<ge> 0 \<Longrightarrow> resolve_with look e' ps' s = (u, e', ps')"
proof (induction ps arbitrary: e u e' ps')
  case (Cons p ps)
  show ?case
  proof (cases "look p s \<ge> 0")
    case True
    then obtain c where c: "capture e True (nat (look p s)) c = (u, e')" "ps' = p # ps"
      using Cons.prems(1) by (auto simp: Let_def split: prod.splits)
    show ?thesis using capture_result(3) [OF c(1) Cons.prems(2)] True c(2) by (simp add: Let_def)
  next
    case False
    obtain v p' qs where r: "resolve_with look p ps s = (v, p', qs)" by (metis prod_cases3)
    then obtain c where c: "capture e False (nat v) c = (u, e')" "ps' = p' # qs" and v: "v \<ge> 0"
      using Cons.prems False by (auto simp: Let_def split: prod.splits if_splits)
    have "look p' s = look p s" using resolve_grows [OF r] look_grows by simp
    then show ?thesis using capture_result(3) [OF c(1) Cons.prems(2)] Cons.IH [OF r v] False v c(2) by (simp add: Let_def)
  qed
qed simp

end

interpretation var: slot_lookup cl_env_lookup
  by unfold_locales (simp add: cl_env_lookup_def)

interpretation fn: slot_lookup cl_env_lookup_local_fun
  by unfold_locales (simp add: cl_env_lookup_local_fun_def cl_env_lookup_local_fun_index_def Let_def)

text \<open>
  C22: Resolution of a captured variable.  A name that no enclosing environment binds is not
  resolved and changes nothing.  Otherwise, with room in the tables, it gets an index, and
  following the tables from that index leads to exactly the environment and slot that the
  search through the enclosing environments finds; resolving it again gives the same index
  and adds nothing; and every index handed out before still denotes the same variable.
\<close>

theorem upvalue_resolution:
  assumes "cl_env_resolve_upvalue e ps s = (u, e', ps')"
  shows "(cl_env_lookup_upvalue ps s = None \<longrightarrow> u = -1 \<and> e' = e \<and> ps' = ps)
    \<and> (cl_env_lookup_upvalue ps s \<noteq> None \<and> (\<forall>q\<in>set (e # ps). length (upvalues q) < CL_MAX_UPVALUES) \<longrightarrow> u \<ge> 0)
    \<and> (u \<ge> 0 \<longrightarrow> cl_env_lookup_upvalue ps s \<noteq> None \<and> chase e' ps' (nat u) = cl_env_lookup_upvalue ps s
         \<and> cl_env_resolve_upvalue e' ps' s = (u, e', ps'))
    \<and> (\<forall>w r. chase e ps w = Some r \<longrightarrow> chase e' ps' w = Some r)"
proof (intro conjI allI impI)
  note R = assms [unfolded cl_env_resolve_upvalue_def] and C = lookup_upvalue_chain [of ps s]
  show "u = -1" "e' = e" "ps' = ps" if "cl_env_lookup_upvalue ps s = None"
    using var.resolve_unbound [of ps s e] R that unfolding C by simp_all
  show "u \<ge> 0" if "cl_env_lookup_upvalue ps s \<noteq> None \<and> (\<forall>q\<in>set (e # ps). length (upvalues q) < CL_MAX_UPVALUES)"
    using var.resolve_total [of ps s e] R that unfolding C by auto
  show "cl_env_lookup_upvalue ps s \<noteq> None" "chase e' ps' (nat u) = cl_env_lookup_upvalue ps s" if "u \<ge> 0"
    using var.resolve_denotes [OF R that] unfolding C by simp_all
  show "cl_env_resolve_upvalue e' ps' s = (u, e', ps')" if "u \<ge> 0"
    unfolding cl_env_resolve_upvalue_def by (rule var.resolve_idempotent [OF R that])
  show "chase e' ps' w = Some r" if "chase e ps w = Some r" for w r
    using var.resolve_grows [OF R] chase_grows that by blast
qed

theorem upvalue_resolution_witness:
  "\<exists>u e' ps'. cl_env_resolve_upvalue (cl_env_create [empty_env 1, empty_env 0]) [empty_env 1, snd (cl_env_add_local (empty_env 0) 8)] 8 = (u, e', ps')
    \<and> u \<ge> 0 \<and> chase e' ps' (nat u) = Some (2, 0)"
proof -
  let ?e = "cl_env_create [empty_env 1, empty_env 0]" and ?ps = "[empty_env 1, snd (cl_env_add_local (empty_env 0) 8)]"
  obtain u e' ps' where r: "cl_env_resolve_upvalue ?e ?ps 8 = (u, e', ps')" by (metis prod_cases3)
  have "cl_env_lookup_upvalue ?ps 8 = Some (2, 0)"
    by (simp add: cl_env_lookup_upvalue_def cl_env_lookup_def empty_env_def cl_env_add_local_def CL_MAX_LOCALS_def numeral_2_eq_2)
  moreover have "\<forall>q\<in>set (?e # ?ps). length (upvalues q) < CL_MAX_UPVALUES"
    by (simp add: empty_env_def cl_env_add_local_def CL_MAX_UPVALUES_def CL_MAX_LOCALS_def)
  ultimately show ?thesis using upvalue_resolution [OF r] r by auto
qed

section \<open>The invariant of environments\<close>

definition wf_env :: "comp_env \<Rightarrow> bool" where
  "wf_env e \<longleftrightarrow> length (locals e) \<le> max_locals e \<and> max_locals e \<le> CL_MAX_LOCALS \<and> length (boxed e) = CL_MAX_LOCALS
     \<and> length (upvalues e) \<le> CL_MAX_UPVALUES \<and> length (local_funs e) \<le> CL_MAX_LOCAL_FUNS
     \<and> length (local_macros e) \<le> CL_MAX_LOCAL_MACROS \<and> length (symbol_macros e) \<le> CL_MAX_SYMBOL_MACROS
     \<and> inherited_symbol_macro_count e \<le> length (symbol_macros e)
     \<and> (\<forall>f\<in>set (local_funs e). slot f < int CL_MAX_LOCALS)"

text \<open>A descriptor points into its parent and agrees with it about boxing.\<close>

definition desc_ok :: "comp_env \<Rightarrow> upvalue_desc \<Rightarrow> bool" where
  "desc_ok p d \<longleftrightarrow>
     (if is_local d then index d < CL_MAX_LOCALS \<and> is_boxed d = boxed p ! index d
      else index d < length (upvalues p) \<and> is_boxed d = is_boxed (upvalues p ! index d))"

fun wf_chain :: "comp_env list \<Rightarrow> bool" where
  "wf_chain [] = True"
| "wf_chain [e] = (wf_env e \<and> upvalues e = [] \<and> depth e = 0)"
| "wf_chain (e # p # ps) =
     (wf_env e \<and> (\<forall>d\<in>set (upvalues e). desc_ok p d) \<and> distinct (map (\<lambda>d. (is_local d, index d)) (upvalues e))
      \<and> depth e = Suc (depth p) \<and> wf_chain (p # ps))"

lemma wf_chain_tail: "wf_chain (e # ps) \<Longrightarrow> wf_chain ps \<and> wf_env e"
  by (cases ps) auto

lemma wf_chain_replace:
  assumes "wf_chain (e # ps)" "wf_env e'" "upvalues e' = upvalues e" "depth e' = depth e"
  shows "wf_chain (e' # ps)"
  using assms by (cases ps) auto

lemma wf_create: "wf_chain ps \<Longrightarrow> wf_chain (cl_env_create ps # ps)"
proof (cases ps)
  case Nil
  then show ?thesis by (simp add: empty_env_def wf_env_def)
next
  case (Cons p qs)
  let ?n = "min (length (symbol_macros p)) CL_MAX_SYMBOL_MACROS"
  have "length (filter (\<lambda>i. \<not> locally_shadowed p i) [0..<?n]) \<le> CL_MAX_SYMBOL_MACROS"
    using length_filter_le [of "\<lambda>i. \<not> locally_shadowed p i" "[0..<?n]"] by simp
  then show "wf_chain ps \<Longrightarrow> ?thesis" using Cons by (simp add: empty_env_def wf_env_def Let_def)
qed

lemma wf_add:
  assumes "wf_env e"
  shows "wf_env (snd (cl_env_add_local e s))" "sl < int CL_MAX_LOCALS \<Longrightarrow> wf_env (snd (cl_env_add_local_fun e s sl))"
    "wf_env (snd (cl_env_add_local_macro e s ex))" "wf_env (snd (cl_env_add_symbol_macro e s ex))" "wf_env (cl_env_clear_boxed e from)"
  using assms by (auto simp: wf_env_def cl_env_add_local_def cl_env_add_local_fun_def cl_env_add_local_macro_def
      cl_env_add_symbol_macro_def cl_env_clear_boxed_def CL_MAX_LOCALS_def CL_MAX_LOCAL_FUNS_def)

lemma add_fields:
  "upvalues (snd (cl_env_add_local e s)) = upvalues e" "depth (snd (cl_env_add_local e s)) = depth e"
  "upvalues (snd (cl_env_add_local_fun e s sl)) = upvalues e" "depth (snd (cl_env_add_local_fun e s sl)) = depth e"
  "upvalues (snd (cl_env_add_local_macro e s ex)) = upvalues e" "depth (snd (cl_env_add_local_macro e s ex)) = depth e"
  "upvalues (snd (cl_env_add_symbol_macro e s ex)) = upvalues e" "depth (snd (cl_env_add_symbol_macro e s ex)) = depth e"
  "upvalues (cl_env_clear_boxed e from) = upvalues e" "depth (cl_env_clear_boxed e from) = depth e"
  by (auto simp: cl_env_add_local_def cl_env_add_local_fun_def cl_env_add_local_macro_def
      cl_env_add_symbol_macro_def cl_env_clear_boxed_def)

lemma wf_flet:
  assumes "wf_env e" "flet_register entry e nm body params = Some e'"
  shows "wf_env e' \<and> upvalues e' = upvalues e \<and> depth e' = depth e"
  using assms
  by (auto simp: wf_env_def flet_register_def alloc_temp_slot_def local_inline_register_def cl_env_add_local_fun_def
      CL_MAX_LOCALS_def CL_MAX_LOCAL_FUNS_def nth_append split: if_splits dest: set_mp [OF set_update_subset_insert])

lemma wf_add_params:
  "wf_env e \<Longrightarrow> add_params e ps = Some e' \<Longrightarrow> wf_env e' \<and> upvalues e' = upvalues e \<and> depth e' = depth e"
proof (induction ps arbitrary: e)
  case (Cons p ps)
  then have "add_params (snd (cl_env_add_local e p)) ps = Some e'" by (simp add: split_beta split: if_splits)
  then show ?case using Cons.IH [OF wf_add(1) [OF Cons.prems(1)]] by (simp add: add_fields)
qed simp

lemma wf_inline_body:
  "wf_env e \<Longrightarrow> inline_body_env e fi ps needs = Some b \<Longrightarrow> wf_env b \<and> upvalues b = upvalues e \<and> depth b = depth e"
  using wf_add_params [of e ps] by (auto simp: inline_body_env_def box_params_def hide_call_site_def wf_env_def split: option.splits)

lemma wf_capture:
  assumes "wf_chain (e # p # ps)" "capture e loc idx box = (u, e')" "desc_ok p \<lparr> is_local = loc, index = idx, is_boxed = box \<rparr>"
  shows "wf_chain (e' # p # ps)"
proof (cases "find_desc loc idx (upvalues e)")
  case None
  then have "(loc, idx) \<notin> (\<lambda>d. (is_local d, index d)) ` set (upvalues e)" by (auto simp: find_desc_None)
  then show ?thesis using assms None by (auto simp: capture_def wf_env_def split: if_splits)
next
  case (Some i)
  then show ?thesis using assms by (simp add: capture_def)
qed

lemma grows_parent:
  assumes "wf_chain (e # p # ps)" "grows p p'" "wf_chain (p' # ps')"
  shows "wf_chain (e # p' # ps')"
proof -
  have "desc_ok p' d" if "desc_ok p d" for d using that assms(2) by (auto simp: desc_ok_def grows_def nth_append split: if_splits)
  moreover have "depth p' = depth p" using assms(2) by (auto simp: grows_def)
  ultimately show ?thesis using assms(1,3) by auto
qed

locale bounded_lookup = slot_lookup +
  assumes look_bound: "wf_env e \<Longrightarrow> look e s < int CL_MAX_LOCALS"

begin

lemma resolve_wf:
  "wf_chain (e # ps) \<Longrightarrow> resolve_with look e ps s = (u, e', ps') \<Longrightarrow> wf_chain (e' # ps')"
proof (induction ps arbitrary: e u e' ps')
  case (Cons p ps)
  have wp: "wf_chain (p # ps)" using wf_chain_tail [OF Cons.prems(1)] by simp
  then have we: "wf_env p" using wf_chain_tail by blast
  show ?case
  proof (cases "look p s \<ge> 0")
    case True
    then have c: "capture e True (nat (look p s)) (boxed p ! nat (look p s)) = (u, e')" "ps' = p # ps"
      using Cons.prems(2) by (auto simp: Let_def split: prod.splits)
    have "nat (look p s) < CL_MAX_LOCALS" using look_bound [OF we, of s] True by linarith
    then show ?thesis using wf_capture [OF Cons.prems(1) c(1)] c(2) by (simp add: desc_ok_def)
  next
    case False
    obtain v p' qs where r: "resolve_with look p ps s = (v, p', qs)" by (metis prod_cases3)
    have w: "wf_chain (e # p' # qs)"
      using grows_parent [OF Cons.prems(1)] resolve_grows [OF r] Cons.IH [OF wp r] by blast
    show ?thesis
    proof (cases "v \<ge> 0")
      case True
      then have c: "capture e False (nat v) (is_boxed (upvalues p' ! nat v)) = (u, e')" "ps' = p' # qs"
        using Cons.prems(2) False r by (auto simp: Let_def split: prod.splits)
      have "nat v < length (upvalues p')"
        using resolve_denotes [OF r True] by (cases qs) (auto split: if_splits)
      then show ?thesis using wf_capture [OF w c(1)] c(2) by (simp add: desc_ok_def)
    next
      case nv: False
      then show ?thesis using Cons.prems(2) False r w by (auto simp: Let_def)
    qed
  qed
qed simp

end

lemma lookup_bounds:
  assumes "wf_env e"
  shows "cl_env_lookup e s < int CL_MAX_LOCALS" "cl_env_lookup_local_fun e s < int CL_MAX_LOCALS"
proof -
  let ?i = "cl_env_lookup_local_fun_index e s"
  show "cl_env_lookup e s < int CL_MAX_LOCALS"
  proof (cases "0 \<le> cl_env_lookup e s")
    case True
    then show ?thesis using band_lookup_nat(1) assms unfolding cl_env_lookup_def wf_env_def by fastforce
  qed (simp add: CL_MAX_LOCALS_def)
  show "cl_env_lookup_local_fun e s < int CL_MAX_LOCALS"
  proof (cases "0 \<le> ?i")
    case True
    then have "nat ?i < length (local_funs e)" using band_lookup_nat(1) unfolding cl_env_lookup_local_fun_index_def by blast
    then show ?thesis using True assms by (simp add: cl_env_lookup_local_fun_def wf_env_def)
  qed (simp add: cl_env_lookup_local_fun_def CL_MAX_LOCALS_def)
qed

interpretation bvar: bounded_lookup cl_env_lookup
  by unfold_locales (rule lookup_bounds)

interpretation bfn: bounded_lookup cl_env_lookup_local_fun
  by unfold_locales (rule lookup_bounds)

lemma wf_chain_denotes:
  "wf_chain (e # ps) \<Longrightarrow> u < length (upvalues e) \<Longrightarrow> \<exists>k i. chase e ps u = Some (Suc k, i) \<and> k < length ps
     \<and> i < CL_MAX_LOCALS \<and> is_boxed (upvalues e ! u) = boxed (ps ! k) ! i"
proof (induction ps arbitrary: e u)
  case (Cons p ps)
  have ok: "desc_ok p (upvalues e ! u)" using Cons.prems by simp
  show ?case
  proof (cases "is_local (upvalues e ! u)")
    case True
    then show ?thesis using Cons.prems(2) ok by (simp add: desc_ok_def)
  next
    case False
    then have "index (upvalues e ! u) < length (upvalues p)" "is_boxed (upvalues e ! u) = is_boxed (upvalues p ! index (upvalues e ! u))"
      using ok by (simp_all add: desc_ok_def)
    then show ?thesis using Cons.IH [of p "index (upvalues e ! u)"] Cons.prems False wf_chain_tail [OF Cons.prems(1)] by auto
  qed
qed simp

text \<open>
  C25: The invariant of a chain of environments: every table is within its capacity, the depths
  count down to the outermost function, and each captured variable, followed through the
  tables, denotes an existing slot of an enclosing environment and agrees with that slot on
  whether the variable lives in a heap cell.  Creation of an environment, every operation
  that adds a binding, the registration and the call of an inlined function and the two
  resolutions of captured names keep it.
\<close>

theorem env_invariant_preserved:
  assumes "wf_chain (e # ps)"
  shows "wf_chain (cl_env_create (e # ps) # e # ps)
    \<and> wf_chain (snd (cl_env_add_local e s) # ps) \<and> wf_chain (snd (cl_env_add_local_macro e s x) # ps)
    \<and> wf_chain (snd (cl_env_add_symbol_macro e s x) # ps) \<and> wf_chain (cl_env_clear_boxed e n # ps)
    \<and> (sl < int CL_MAX_LOCALS \<longrightarrow> wf_chain (snd (cl_env_add_local_fun e s sl) # ps))
    \<and> (\<forall>e'. flet_register entry e s x y = Some e' \<longrightarrow> wf_chain (e' # ps))
    \<and> (\<forall>b. inline_body_env e n params needs = Some b \<longrightarrow> wf_chain (b # ps))
    \<and> (\<forall>u e' ps'. cl_env_resolve_upvalue e ps s = (u, e', ps') \<longrightarrow> wf_chain (e' # ps'))
    \<and> (\<forall>u e' ps'. cl_env_resolve_fun_upvalue e ps s = (u, e', ps') \<longrightarrow> wf_chain (e' # ps'))
    \<and> (\<forall>u < length (upvalues e). \<exists>k i. chase e ps u = Some (Suc k, i) \<and> k < length ps \<and> i < CL_MAX_LOCALS
          \<and> is_boxed (upvalues e ! u) = boxed (ps ! k) ! i)"
proof -
  have w: "wf_env e" using wf_chain_tail [OF assms] by simp
  note keep = wf_chain_replace [OF assms]
  have "\<forall>e'. flet_register entry e s x y = Some e' \<longrightarrow> wf_chain (e' # ps)" using wf_flet [OF w] keep by blast
  moreover have "\<forall>b. inline_body_env e n params needs = Some b \<longrightarrow> wf_chain (b # ps)" using wf_inline_body [OF w] keep by blast
  ultimately show ?thesis
    using wf_create [OF assms] wf_add [OF w] keep add_fields bvar.resolve_wf [OF assms] bfn.resolve_wf [OF assms] wf_chain_denotes [OF assms]
    unfolding cl_env_resolve_upvalue_def cl_env_resolve_fun_upvalue_def by presburger
qed

theorem env_invariant_preserved_witness:
  "wf_chain (snd (cl_env_add_local (empty_env 0) 8) # []) \<and> wf_chain (cl_env_create [empty_env 0] # [empty_env 0])"
proof -
  have "wf_chain [empty_env 0]" by (simp add: wf_env_def empty_env_def)
  then show ?thesis using env_invariant_preserved [of "empty_env 0" "[]"] by blast
qed

end
