(* ===== verification/Env_Macros.thy ===== *)
theory Env_Macros
  imports Env_Capture
begin

text \<open>
  Macros and symbol-macros of the compile-time environment: what a nested function inherits
  and what the list handed to macro expanders answers.
\<close>

section \<open>Symbol-macros in nested functions\<close>

lemma cl_env_lookup_ge:
  "int t \<le> cl_env_lookup e s \<longleftrightarrow> (\<exists>j. t \<le> j \<and> j < length (locals e) \<and> CL_ENV_LOCAL_VISIBLE e j \<and> locals e ! j = s)"
  unfolding cl_env_lookup_def CL_ENV_LOCAL_VISIBLE_def visible_def [symmetric]
proof (rule band_lookup_cases [of "hide_local_lo e" "hide_local_hi e" "\<lambda>l. l = s" "locals e" "length (locals e)"])
  fix i assume i: "i < length (locals e)" "visible (hide_local_lo e) (hide_local_hi e) i" "locals e ! i = s"
    "band_lookup (hide_local_lo e) (hide_local_hi e) (\<lambda>l. l = s) (locals e) (length (locals e)) = int i"
    "\<forall>j. i < j \<and> j < length (locals e) \<and> visible (hide_local_lo e) (hide_local_hi e) j \<longrightarrow> locals e ! j \<noteq> s"
  show "int t \<le> band_lookup (hide_local_lo e) (hide_local_hi e) (\<lambda>l. l = s) (locals e) (length (locals e)) \<longleftrightarrow>
    (\<exists>j. t \<le> j \<and> j < length (locals e) \<and> visible (hide_local_lo e) (hide_local_hi e) j \<and> locals e ! j = s)"
    unfolding i(4) using i by (auto intro: exI [of _ i]) (meson linorder_not_less order_trans)
qed auto

text \<open>The slot from which a local shadows the symbol-macro number \<open>i\<close>.\<close>

definition shadow_from :: "comp_env \<Rightarrow> nat \<Rightarrow> nat" where
  "shadow_from p i = (if i < inherited_symbol_macro_count p then 0 else local_count_at_create (symbol_macros p ! i))"

lemma locally_shadowed_iff: "locally_shadowed p i \<longleftrightarrow> int (shadow_from p i) \<le> cl_env_lookup p (sm_name (symbol_macros p ! i))"
  unfolding cl_env_lookup_ge locally_shadowed_def shadow_from_def Let_def by (auto simp: list_ex_iff)

lemma lookup_symbol_macro_shadow:
  "cl_env_lookup_symbol_macro_p p s =
     (let i = band_lookup (hide_smacro_lo p) (hide_smacro_hi p) (\<lambda>m. sm_name m = s) (symbol_macros p) (length (symbol_macros p))
      in if i < 0 \<or> locally_shadowed p (nat i) then None else Some (expansion (symbol_macros p ! nat i)))"
proof -
  let ?i = "band_lookup (hide_smacro_lo p) (hide_smacro_hi p) (\<lambda>m. sm_name m = s) (symbol_macros p) (length (symbol_macros p))"
  have ex: "list_ex (\<lambda>j. CL_ENV_LOCAL_VISIBLE p j \<and> locals p ! j = s) [0..<length (locals p)] \<longleftrightarrow> 0 \<le> cl_env_lookup p s"
    using cl_env_lookup_ge [of 0 p s] by (auto simp: list_ex_iff)
  have "0 \<le> ?i \<Longrightarrow> sm_name (symbol_macros p ! nat ?i) = s" using band_lookup_nat(2) [of _ _ _ "symbol_macros p"] by blast
  then show ?thesis
    unfolding cl_env_lookup_symbol_macro_p_def locally_shadowed_iff shadow_from_def Let_def ex
    by (auto simp: nat_less_iff not_less)
qed

lemma band_lookup_none_set: "\<forall>m\<in>set xs. \<not> P m \<Longrightarrow> band_lookup lo hi P xs (length xs) = -1"
  by (rule band_lookup_none) simp

lemma upt_split: "i < n \<Longrightarrow> [0..<n] = [0..<i] @ i # [Suc i..<n]"
  using upt_add_eq_append [of 0 i "n - i"] upt_conv_Cons [of i n] by simp

lemma create_lookup:
  assumes "length (symbol_macros p) \<le> CL_MAX_SYMBOL_MACROS"
    and "\<And>k i. k \<le> i \<Longrightarrow> i < length (symbol_macros p) \<Longrightarrow> shadow_from p k \<le> shadow_from p i"
    and "hide_smacro_lo p = hide_smacro_hi p"
  shows "cl_env_lookup_symbol_macro_p (cl_env_create (p # ps)) s = cl_env_lookup_symbol_macro_p p s"
proof -
  let ?sm = "symbol_macros p" and ?c = "cl_env_create (p # ps)" and ?keep = "filter (\<lambda>i. \<not> locally_shadowed p i)"
  let ?xs = "map (\<lambda>i. ?sm ! i) (?keep [0..<length ?sm])" and ?P = "\<lambda>m. sm_name m = s"
  have c: "symbol_macros ?c = ?xs" "hide_smacro_lo ?c = 0" "hide_smacro_hi ?c = 0" "locals ?c = []"
    using assms(1) by (simp_all add: empty_env_def Let_def min_absorb1)
  have child: "cl_env_lookup_symbol_macro_p ?c s =
      (let i = band_lookup 0 0 ?P ?xs (length ?xs) in if i < 0 then None else Some (expansion (?xs ! nat i)))"
    unfolding lookup_symbol_macro_shadow c(1-3) locally_shadowed_def by (simp add: c(4) Let_def del: cl_env_create.simps)
  show ?thesis
  proof (cases rule: band_lookup_cases [of "hide_smacro_lo p" "hide_smacro_hi p" ?P ?sm "length ?sm"])
    case none
    then have "\<not> ?P (?sm ! k)" if "k < length ?sm" for k using that assms(3) visible_empty by metis
    then have "\<forall>m\<in>set ?xs. \<not> ?P m" by simp
    from band_lookup_none_set [OF this] show ?thesis using none(1) by (simp only: child lookup_symbol_macro_shadow [of p] Let_def) simp
  next
    case (some i)
    have last: "k \<le> i" if "k < length ?sm" "?P (?sm ! k)" for k
      using some(5) that assms(3) by (metis linorder_not_less visible_empty)
    have split: "?xs = map ((!) ?sm) (?keep [0..<i]) @ map ((!) ?sm) (?keep [i]) @ map ((!) ?sm) (?keep [Suc i..<length ?sm])"
      using upt_split [OF some(1)] by (simp del: upt_Suc)
    show ?thesis
    proof (cases "locally_shadowed p i")
      case True
      have "locally_shadowed p k" if "k < length ?sm" "?P (?sm ! k)" for k
        using True assms(2) [OF last [OF that] some(1)] that(2) some(4) by (simp add: locally_shadowed_iff)
      then have "\<forall>m\<in>set ?xs. \<not> ?P m" by auto
      from band_lookup_none_set [OF this] show ?thesis
        using some(2) True by (simp only: child lookup_symbol_macro_shadow [of p] Let_def) simp
    next
      case False
      let ?q = "length (?keep [0..<i])"
      have above: "\<not> ?P m" if "m \<in> set (map ((!) ?sm) (?keep [Suc i..<length ?sm]))" for m
        using that last by fastforce
      have "band_lookup 0 0 ?P ?xs (length ?xs) = int ?q"
      proof (rule band_lookup_some)
        show "?q < length ?xs" "?P (?xs ! ?q)" unfolding split using False some(4) by (simp_all add: nth_append)
        show "\<forall>j. ?q < j \<and> j < length ?xs \<and> visible 0 0 j \<longrightarrow> \<not> ?P (?xs ! j)"
        proof (intro allI impI)
          fix j assume j: "?q < j \<and> j < length ?xs \<and> visible 0 0 j"
          then have "?xs ! j = map ((!) ?sm) (?keep [Suc i..<length ?sm]) ! (j - ?q - 1)"
            and "j - ?q - 1 < length (map ((!) ?sm) (?keep [Suc i..<length ?sm]))"
            unfolding split using False by (auto simp: nth_append nth_Cons')
          then show "\<not> ?P (?xs ! j)" using above nth_mem by metis
        qed
      qed (simp add: visible_def)
      moreover have "?xs ! ?q = ?sm ! i" unfolding split using False by (simp add: nth_append)
      ultimately show ?thesis using some(2) False by (simp only: child lookup_symbol_macro_shadow [of p] Let_def) simp
    qed
  qed
qed

lemma create_lookup_macro:
  assumes "length (local_macros p) \<le> CL_MAX_LOCAL_MACROS" "hide_macro_lo p = hide_macro_hi p"
  shows "cl_env_lookup_local_macro (cl_env_create (p # ps)) s = cl_env_lookup_local_macro p s"
proof -
  have "band_lookup 0 0 (\<lambda>m. lm_name m = s) (local_macros p) (length (local_macros p)) =
      band_lookup (hide_macro_lo p) (hide_macro_hi p) (\<lambda>m. lm_name m = s) (local_macros p) (length (local_macros p))"
    by (rule band_lookup_cong) (simp add: assms(2) visible_empty)
  then show ?thesis using assms(1) by (simp add: cl_env_lookup_local_macro_def empty_env_def Let_def)
qed

text \<open>
  A nested function sees the macros and symbol-macros of the function around it.  For a
  parent without hidden bands whose own symbol-macros record growing counts of locals, as the
  nesting of scopes makes them, every name expands in the new environment exactly as in the
  parent, shadowing by the locals of the parent included; a local of the new environment then
  shadows the inherited symbol-macro of its name.
\<close>

theorem nested_function_inherits_macros:
  assumes "wf_env p" "no_bands p"
    and "\<forall>k i. inherited_symbol_macro_count p \<le> k \<and> k \<le> i \<and> i < length (symbol_macros p)
      \<longrightarrow> local_count_at_create (symbol_macros p ! k) \<le> local_count_at_create (symbol_macros p ! i)"
  shows "cl_env_lookup_symbol_macro_p (cl_env_create (p # ps)) s = cl_env_lookup_symbol_macro_p p s
    \<and> cl_env_lookup_local_macro (cl_env_create (p # ps)) s = cl_env_lookup_local_macro p s
    \<and> cl_env_lookup_symbol_macro_p (snd (cl_env_add_local (cl_env_create (p # ps)) s)) s = None"
proof (intro conjI)
  have mono: "shadow_from p k \<le> shadow_from p i" if "k \<le> i" "i < length (symbol_macros p)" for k i
    using assms(3) that by (auto simp: shadow_from_def)
  show "cl_env_lookup_symbol_macro_p (cl_env_create (p # ps)) s = cl_env_lookup_symbol_macro_p p s"
    using assms(1,2) mono by (intro create_lookup) (auto simp: wf_env_def no_bands_def)
  show "cl_env_lookup_local_macro (cl_env_create (p # ps)) s = cl_env_lookup_local_macro p s"
    using assms(1,2) by (intro create_lookup_macro) (auto simp: wf_env_def no_bands_def)
  let ?c = "snd (cl_env_add_local (cl_env_create (p # ps)) s)"
  have c: "locals ?c = [s]" "inherited_symbol_macro_count ?c = length (symbol_macros ?c)" "hide_local_lo ?c = 0" "hide_local_hi ?c = 0"
    by (simp_all add: cl_env_add_local_def empty_env_def Let_def CL_MAX_LOCALS_def)
  have "int (shadow_from ?c i) \<le> cl_env_lookup ?c s" if "i < length (symbol_macros ?c)" for i
    using that c by (simp add: shadow_from_def cl_env_lookup_def)
  then show "cl_env_lookup_symbol_macro_p ?c s = None"
    using band_lookup_nat [of "hide_smacro_lo ?c" "hide_smacro_hi ?c" "\<lambda>m. sm_name m = s" "symbol_macros ?c" "length (symbol_macros ?c)"]
    unfolding lookup_symbol_macro_shadow [of ?c] Let_def locally_shadowed_iff by (metis linorder_not_less)
qed

text \<open>The bands are not inherited: a function inside an inlined body sees the macros its body hides.\<close>

theorem closure_sees_hidden_macros:
  assumes "local_macros e = [m]" "hide_macro_lo e = 0" "hide_macro_hi e = 1"
  shows "cl_env_lookup_local_macro e (lm_name m) = CL_NIL
    \<and> cl_env_lookup_local_macro (cl_env_create (e # ps)) (lm_name m) = expander m"
  using assms by (simp add: cl_env_lookup_local_macro_def empty_env_def Let_def CL_MAX_LOCAL_MACROS_def)

section \<open>The environment given to macro expanders\<close>

lemma band_fold_visible: "band_fold lo hi step n acc = fold step (rev (filter (visible lo hi) [0..<n])) acc"
proof (induction lo hi step n acc rule: band_fold.induct)
  case (2 lo hi step i acc)
  show ?case
  proof (cases "i < hi \<and> i \<ge> lo")
    case True
    have "[0..<Suc i] = [0..<lo] @ [lo..<Suc i]" using True upt_add_eq_append [of 0 lo "Suc i - lo"] by simp
    moreover have "filter (visible lo hi) [lo..<Suc i] = []" using True by (auto simp: visible_def filter_empty_conv)
    ultimately have "filter (visible lo hi) [0..<Suc i] = filter (visible lo hi) [0..<lo]" by simp
    then show ?thesis using 2(1) [OF True] True by simp
  next
    case False
    then have "visible lo hi i" by (auto simp: visible_def)
    then show ?thesis using 2(2) [OF False] False by auto
  qed
qed simp

lemma fold_lex_macros:
  "fold (lex_add_macro S env) (rev is) acc = map (\<lambda>i. (S, Lex_Macro (lm_name (local_macros env ! i)) (expander (local_macros env ! i)))) is @ acc"
  by (induction "is" arbitrary: acc rule: rev_induct) (simp_all add: lex_add_macro_def Let_def)

lemma fold_lex_symbols:
  "\<forall>i\<in>set is. sm_name (symbol_macros env ! i) \<noteq> S \<Longrightarrow>
     \<exists>es. fold (lex_add_symbol env) is acc = es @ acc \<and> (\<forall>e\<in>set es. fst e \<noteq> S)"
proof (induction "is" arbitrary: acc)
  case (Cons i "is")
  have "\<exists>es. lex_add_symbol env i acc = es @ acc \<and> (\<forall>e\<in>set es. fst e \<noteq> S)"
    using Cons.prems by (auto simp: lex_add_symbol_def Let_def)
  then obtain es where es: "lex_add_symbol env i acc = es @ acc" "\<forall>e\<in>set es. fst e \<noteq> S" by blast
  obtain fs where "fold (lex_add_symbol env) is (es @ acc) = fs @ es @ acc" "\<forall>e\<in>set fs. fst e \<noteq> S"
    using Cons.IH [of "es @ acc"] Cons.prems by auto
  then show ?case using es by (intro exI [of _ "fs @ es"]) auto
qed simp

lemma lex_env_local_macro_skip: "\<forall>e\<in>set es. fst e \<noteq> S \<Longrightarrow> lex_env_local_macro S (es @ fs) s = lex_env_local_macro S fs s"
  by (induction es) auto

lemma lex_env_local_macro_first:
  "lex_env_local_macro S (map (\<lambda>m. (S, Lex_Macro (lm_name m) (expander m))) ms) s
     = (case find (\<lambda>m. lm_name m = s) ms of None \<Rightarrow> CL_NIL | Some m \<Rightarrow> expander m)"
  by (induction ms) auto

lemma build_lex_macros:
  assumes "\<forall>m\<in>set (symbol_macros env). sm_name m \<noteq> S"
  shows "lex_env_local_macro S (cl_build_lex_env S env) s =
    (case find (\<lambda>m. lm_name m = s) (map ((!) (local_macros env)) (filter (visible (hide_macro_lo env) (hide_macro_hi env)) [0..<length (local_macros env)]))
     of None \<Rightarrow> CL_NIL | Some m \<Rightarrow> expander m)"
proof -
  let ?vis = "filter (visible (hide_macro_lo env) (hide_macro_hi env)) [0..<length (local_macros env)]"
  let ?ms = "map ((!) (local_macros env)) ?vis"
  let ?sv = "rev (filter (visible (hide_smacro_lo env) (hide_smacro_hi env)) [0..<length (symbol_macros env)])"
  have macros: "band_fold (hide_macro_lo env) (hide_macro_hi env) (lex_add_macro S env) (length (local_macros env)) []
      = map (\<lambda>m. (S, Lex_Macro (lm_name m) (expander m))) ?ms"
    unfolding band_fold_visible fold_lex_macros by simp
  have "\<forall>i\<in>set ?sv. sm_name (symbol_macros env ! i) \<noteq> S" using assms by simp
  from fold_lex_symbols [OF this] obtain es where es: "\<forall>e\<in>set es. fst e \<noteq> S"
    "fold (lex_add_symbol env) ?sv (map (\<lambda>m. (S, Lex_Macro (lm_name m) (expander m))) ?ms)
      = es @ map (\<lambda>m. (S, Lex_Macro (lm_name m) (expander m))) ?ms" by blast
  have "\<exists>es. cl_build_lex_env S env = es @ map (\<lambda>m. (S, Lex_Macro (lm_name m) (expander m))) ?ms \<and> (\<forall>e\<in>set es. fst e \<noteq> S)"
  proof (cases "symbol_macros env = []")
    case True
    then have "cl_build_lex_env S env = map (\<lambda>m. (S, Lex_Macro (lm_name m) (expander m))) ?ms"
      unfolding cl_build_lex_env_def macros by simp
    then show ?thesis by simp
  next
    case False
    then show ?thesis unfolding cl_build_lex_env_def macros Let_def using es by (simp add: band_fold_visible)
  qed
  then obtain fs where fs: "cl_build_lex_env S env = fs @ map (\<lambda>m. (S, Lex_Macro (lm_name m) (expander m))) ?ms" "\<forall>e\<in>set fs. fst e \<noteq> S" by blast
  show ?thesis unfolding fs(1) lex_env_local_macro_skip [OF fs(2)] lex_env_local_macro_first ..
qed

lemma visible_all: "lo = hi \<Longrightarrow> map ((!) xs) (filter (visible lo hi) [0..<length xs]) = xs"
  by (simp add: visible_empty map_nth)

lemma find_unique:
  "distinct (map f ms) \<Longrightarrow> m \<in> set ms \<Longrightarrow> find (\<lambda>m'. f m' = f m) ms = Some m"
  by (induction ms) (auto simp: image_iff)

lemma find_append_left: "\<exists>x\<in>set xs. P x \<Longrightarrow> find P (xs @ ys) = find P xs"
  by (induction xs) auto

lemma build_lex_macros_all:
  assumes "no_bands env" "\<forall>m\<in>set (symbol_macros env). sm_name m \<noteq> S"
  shows "lex_env_local_macro S (cl_build_lex_env S env) s =
    (case find (\<lambda>m. lm_name m = s) (local_macros env) of None \<Rightarrow> CL_NIL | Some m \<Rightarrow> expander m)"
proof -
  have "hide_macro_lo env = hide_macro_hi env" using assms(1) by (simp add: no_bands_def)
  then show ?thesis using build_lex_macros [OF assms(2), of s] visible_all [of "hide_macro_lo env" "hide_macro_hi env" "local_macros env"] by metis
qed

lemma lookup_macro_none:
  assumes "s \<notin> lm_name ` set (local_macros env)"
  shows "cl_env_lookup_local_macro env s = CL_NIL"
proof -
  have "\<forall>m\<in>set (local_macros env). lm_name m \<noteq> s" using assms by auto
  from band_lookup_none_set [OF this] show ?thesis by (simp add: cl_env_lookup_local_macro_def)
qed

lemma lookup_macro_unique:
  assumes "no_bands env" "distinct (map lm_name (local_macros env))" "m \<in> set (local_macros env)"
  shows "cl_env_lookup_local_macro env (lm_name m) = expander m"
proof -
  obtain i where i: "i < length (local_macros env)" "local_macros env ! i = m" using assms(3) by (auto simp: in_set_conv_nth)
  have "lm_name (local_macros env ! j) \<noteq> lm_name m" if "i < j" "j < length (local_macros env)" for j
    using nth_eq_iff_index_eq [OF assms(2), of i j] that i by auto
  then have "band_lookup (hide_macro_lo env) (hide_macro_hi env) (\<lambda>m'. lm_name m' = lm_name m) (local_macros env) (length (local_macros env)) = int i"
    using i assms(1) by (intro band_lookup_some) (auto simp: no_bands_def visible_empty)
  then show ?thesis using i by (simp add: cl_env_lookup_local_macro_def)
qed

text \<open>
  C36: The environment given to macro expanders.  As long as no two macros in scope have the same
  name, it answers every macro name as the compiler does.  But the list is built so that the
  outermost macro comes first, and the reader takes the first: once a macro of some name is
  in scope, an inner \<open>macrolet\<close> of the same name takes effect for the compiler and is
  ignored by the expanders, which still find what they found before.
\<close>

theorem lex_env_macro_lookup:
  assumes "no_bands env" "\<forall>m\<in>set (symbol_macros env). sm_name m \<noteq> S"
  shows "(distinct (map lm_name (local_macros env)) \<longrightarrow> lex_env_local_macro S (cl_build_lex_env S env) s = cl_env_lookup_local_macro env s)
    \<and> (s \<in> lm_name ` set (local_macros env) \<and> length (local_macros env) < CL_MAX_LOCAL_MACROS \<longrightarrow>
        cl_env_lookup_local_macro (snd (cl_env_add_local_macro env s ex)) s = ex
        \<and> lex_env_local_macro S (cl_build_lex_env S (snd (cl_env_add_local_macro env s ex))) s
            = lex_env_local_macro S (cl_build_lex_env S env) s)"
proof (intro conjI impI)
  let ?e = "snd (cl_env_add_local_macro env s ex)"
  have B: "lex_env_local_macro S (cl_build_lex_env S env) t = (case find (\<lambda>m. lm_name m = t) (local_macros env) of None \<Rightarrow> CL_NIL | Some m \<Rightarrow> expander m)" for t
    by (rule build_lex_macros_all [OF assms])
  show "lex_env_local_macro S (cl_build_lex_env S env) s = cl_env_lookup_local_macro env s" if d: "distinct (map lm_name (local_macros env))"
  proof (cases "s \<in> lm_name ` set (local_macros env)")
    case True
    then show ?thesis using find_unique [OF d] lookup_macro_unique [OF assms(1) d] by (auto simp: B)
  next
    case False
    then have "find (\<lambda>m. lm_name m = s) (local_macros env) = None" by (auto simp: find_None_iff)
    then show ?thesis using lookup_macro_none [OF False] by (simp add: B)
  qed
  assume d: "s \<in> lm_name ` set (local_macros env) \<and> length (local_macros env) < CL_MAX_LOCAL_MACROS"
  then have e: "local_macros ?e = local_macros env @ [\<lparr> lm_name = s, expander = ex \<rparr>]" "no_bands ?e" "symbol_macros ?e = symbol_macros env"
    using assms(1) by (simp_all add: cl_env_add_local_macro_def no_bands_def)
  have "band_lookup (hide_macro_lo ?e) (hide_macro_hi ?e) (\<lambda>m. lm_name m = s) (local_macros ?e) (length (local_macros ?e)) = int (length (local_macros env))"
    using e(2) by (intro band_lookup_some) (auto simp: e(1) no_bands_def visible_empty)
  then show "cl_env_lookup_local_macro ?e s = ex" by (simp add: cl_env_lookup_local_macro_def e(1))
  have "lex_env_local_macro S (cl_build_lex_env S ?e) s = (case find (\<lambda>m. lm_name m = s) (local_macros ?e) of None \<Rightarrow> CL_NIL | Some m \<Rightarrow> expander m)"
    using build_lex_macros_all [OF e(2)] assms(2) e(3) by simp
  also have "find (\<lambda>m. lm_name m = s) (local_macros ?e) = find (\<lambda>m. lm_name m = s) (local_macros env)"
    unfolding e(1) using d by (intro find_append_left) auto
  finally show "lex_env_local_macro S (cl_build_lex_env S ?e) s = lex_env_local_macro S (cl_build_lex_env S env) s" by (simp add: B)
qed

theorem lex_env_macro_lookup_witness:
  "cl_env_lookup_local_macro (snd (cl_env_add_local_macro (snd (cl_env_add_local_macro (empty_env 0) 8 16)) 8 24)) 8 = 24
    \<and> lex_env_local_macro 32 (cl_build_lex_env 32 (snd (cl_env_add_local_macro (snd (cl_env_add_local_macro (empty_env 0) 8 16)) 8 24))) 8 = 16"
proof -
  let ?e = "snd (cl_env_add_local_macro (empty_env 0) 8 16)"
  have e: "no_bands ?e" "\<forall>m\<in>set (symbol_macros ?e). sm_name m \<noteq> 32" "8 \<in> lm_name ` set (local_macros ?e)"
    "length (local_macros ?e) < CL_MAX_LOCAL_MACROS" "distinct (map lm_name (local_macros ?e))" "cl_env_lookup_local_macro ?e 8 = 16"
    by (simp_all add: no_bands_def cl_env_add_local_macro_def empty_env_def CL_MAX_LOCAL_MACROS_def cl_env_lookup_local_macro_def)
  then show ?thesis using lex_env_macro_lookup [OF e(1,2), of 8 24] by simp
qed

text \<open>A symbol-macro that a later local shadows is still handed to the expanders.\<close>

theorem lex_env_keeps_shadowed_symbol_macro:
  assumes "x \<noteq> S"
  shows "let e = snd (cl_env_add_local (snd (cl_env_add_symbol_macro (empty_env 0) x form)) x)
    in cl_env_lookup_symbol_macro_p e x = None \<and> lex_env_lookup_symbol_macro S (cl_build_lex_env S e) x = Some (Lex_Form form)"
  using assms
  by (simp add: cl_env_add_local_def cl_env_add_symbol_macro_def empty_env_def CL_MAX_LOCALS_def CL_MAX_SYMBOL_MACROS_def
      cl_env_lookup_symbol_macro_p_def cl_env_lookup_def cl_build_lex_env_def lex_add_symbol_def)

end
