(* ===== verification/Arena.thy ===== *)
theory Arena
  imports Object
begin

unbundle bit_operations_syntax

text \<open>
  The arena of the classic collector: allocation at the front and from the free list, the
  sweep, and the block-start index (\<open>mem.c\<close>, \<open>mem.h\<close>, \<open>gc_backend.h\<close>, \<open>gc_classic.c\<close>,
  \<open>gc_jitscan.c\<close>).  The arena is a function from byte offsets, multiples of four, to 32-bit
  words.  The thread of control is the only one; marking, compaction and the finalisation of
  external resources are outside the model.  Offsets and sizes are natural numbers: an arena
  with one page more still fits 32 bits, so the sums the code forms do not wrap, except the two
  counters that are never reset.
\<close>

section \<open>State\<close>

definition CL_ALIGN :: nat where "CL_ALIGN = 8"
definition CL_MIN_ALLOC_SIZE :: nat where "CL_MIN_ALLOC_SIZE = 16"
definition CL_FREELIST_PROBE_LIMIT :: nat where "CL_FREELIST_PROBE_LIMIT = 32"
definition GC_HDR_PAGE :: nat where "GC_HDR_PAGE = 4096"
definition GC_HDR_NONE :: nat where "GC_HDR_NONE = 0xFFFFFFFF"

text \<open>The 23-bit limit of a block size as a number.\<close>

definition max_block :: nat where "max_block = 0x7FFFFF"

record cl_heap =
  arena :: "nat \<Rightarrow> u32"
  arena_size :: nat
  bump :: nat
  free_list :: nat
  total_allocated :: nat
  total_consed :: nat
  freelist_steps :: nat
  gc_hdr_page :: "nat list option"
  gc_hdr_bump_watch :: nat

text \<open>The size and the mark read from a header word.\<close>

definition hsize :: "u32 \<Rightarrow> nat" where
  "hsize w = unat (CL_HDR_SIZE w)"

section \<open>The block-start index\<close>

definition GC_HDR_CROSSES :: "nat \<Rightarrow> nat \<Rightarrow> bool" where
  "GC_HDR_CROSSES off sz \<longleftrightarrow> (off + GC_HDR_PAGE - 1) div GC_HDR_PAGE * GC_HDR_PAGE < off + sz"

definition gc_hdr_note :: "nat \<Rightarrow> nat \<Rightarrow> cl_heap \<Rightarrow> cl_heap" where
  "gc_hdr_note off sz h =
     (case gc_hdr_page h of None \<Rightarrow> h
      | Some pages \<Rightarrow>
          (let first = (off + GC_HDR_PAGE - 1) div GC_HDR_PAGE;
               last = min ((off + sz - 1) div GC_HDR_PAGE) (length pages - 1)
           in h \<lparr> gc_hdr_page := Some (map (\<lambda>p. if first \<le> p \<and> p \<le> last then off else pages ! p) [0..<length pages]) \<rparr>))"

definition gc_hdr_bump_reset :: "cl_heap \<Rightarrow> cl_heap" where
  "gc_hdr_bump_reset h =
     h \<lparr> gc_hdr_bump_watch := (if gc_hdr_page h \<noteq> None then (bump h + GC_HDR_PAGE - 1) div GC_HDR_PAGE * GC_HDR_PAGE else 0xFFFFFFFF) \<rparr>"

definition gc_hdr_note_bump :: "nat \<Rightarrow> nat \<Rightarrow> cl_heap \<Rightarrow> cl_heap" where
  "gc_hdr_note_bump old sz h = gc_hdr_bump_reset (gc_hdr_note old sz h)"

definition gc_hdr_note_crossing :: "nat \<Rightarrow> nat \<Rightarrow> cl_heap \<Rightarrow> cl_heap" where
  "gc_hdr_note_crossing off sz h = (if GC_HDR_CROSSES off sz then gc_hdr_note off sz h else h)"

text \<open>
  The index is sized for the arena, unless the environment switches it off (\<open>off\<close>) or its
  memory cannot be had (\<open>got\<close> is false).
\<close>

definition gc_hdr_index_clear :: "nat \<Rightarrow> nat list" where
  "gc_hdr_index_clear npages = replicate npages GC_HDR_NONE"

definition gc_hdr_index_release :: "cl_heap \<Rightarrow> cl_heap" where
  "gc_hdr_index_release h = h \<lparr> gc_hdr_page := None, gc_hdr_bump_watch := 0xFFFFFFFF \<rparr>"

definition gc_hdr_index_init :: "bool \<Rightarrow> bool \<Rightarrow> cl_heap \<Rightarrow> cl_heap" where
  "gc_hdr_index_init off got h =
     (let h = gc_hdr_index_release h;
          npages = (let n = (arena_size h + GC_HDR_PAGE - 1) div GC_HDR_PAGE in if n = 0 then 1 else n)
      in if off \<or> \<not> got then h else gc_hdr_bump_reset (h \<lparr> gc_hdr_page := Some (gc_hdr_index_clear npages) \<rparr>))"

text \<open>A fresh heap over the memory \<open>m\<close>.\<close>

definition CL_DEFAULT_HEAP_SIZE :: nat where "CL_DEFAULT_HEAP_SIZE = 4 * 1024 * 1024"

definition cl_mem_init :: "(nat \<Rightarrow> u32) \<Rightarrow> nat \<Rightarrow> bool \<Rightarrow> bool \<Rightarrow> cl_heap" where
  "cl_mem_init m heap_size off got =
     gc_hdr_index_init off got
       \<lparr> arena = m, arena_size = (if heap_size = 0 then CL_DEFAULT_HEAP_SIZE else heap_size), bump = CL_ALIGN, free_list = 0,
         total_allocated = 0, total_consed = 0, freelist_steps = 0, gc_hdr_page = None, gc_hdr_bump_watch = 0xFFFFFFFF \<rparr>"

text \<open>Finding a block by its offset: from the entry of the page along the headers.\<close>

fun gc_hdr_walk_start :: "nat list \<Rightarrow> nat \<Rightarrow> nat" where
  "gc_hdr_walk_start pages 0 = CL_ALIGN"
| "gc_hdr_walk_start pages (Suc p) =
     (if pages ! Suc p = GC_HDR_NONE then gc_hdr_walk_start pages p else pages ! Suc p)"

function block_walk :: "(nat \<Rightarrow> u32) \<Rightarrow> nat \<Rightarrow> nat \<Rightarrow> (nat \<times> nat) option" where
  "block_walk m off b =
     (let sz = hsize (m b) in
      if sz = 0 then None else if b + sz > off then Some (b, b + sz) else block_walk m off (b + sz))"
  by pat_completeness auto
termination by (relation "measure (\<lambda>(m, off, b). Suc off - b)") auto

declare block_walk.simps [simp del]

record GC_HdrCursor =
  blk :: nat
  nxt :: nat

definition gc_hdr_is_block_start :: "nat list \<Rightarrow> nat \<Rightarrow> GC_HdrCursor \<Rightarrow> cl_heap \<Rightarrow> bool \<times> GC_HdrCursor" where
  "gc_hdr_is_block_start pages off cur h =
     (if off < CL_ALIGN \<or> off \<ge> bump h then (False, cur)
      else if blk cur \<le> off \<and> off < nxt cur then (off = blk cur, cur)
      else let b = gc_hdr_walk_start pages (off div GC_HDR_PAGE);
               b = (if nxt cur \<noteq> 0 \<and> nxt cur \<le> off \<and> nxt cur > b then nxt cur else b)
           in case block_walk (arena h) off b of
                None \<Rightarrow> (False, \<lparr> blk = 0, nxt = 0 \<rparr>)
              | Some (b, e) \<Rightarrow> (b = off, \<lparr> blk = b, nxt = e \<rparr>))"

section \<open>Allocation\<close>

definition align_up :: "u32 \<Rightarrow> u32" where
  "align_up sz = (sz + of_nat CL_ALIGN - 1) AND NOT (of_nat CL_ALIGN - 1)"

definition cl_bump_fits :: "u32 \<Rightarrow> u32 \<Rightarrow> u32 \<Rightarrow> bool" where
  "cl_bump_fits b sz asize \<longleftrightarrow> sz \<le> asize \<and> b \<le> asize - sz"

definition alloc_from_bump :: "nat \<Rightarrow> cl_heap \<Rightarrow> (nat \<times> cl_heap) option" where
  "alloc_from_bump sz h =
     (if cl_bump_fits (of_nat (bump h)) (of_nat sz) (of_nat (arena_size h)) then
        (let old = bump h; h = h \<lparr> bump := old + sz \<rparr>
         in Some (old, if bump h > gc_hdr_bump_watch h then gc_hdr_note_bump old sz h else h))
      else None)"

definition zero_words :: "nat \<Rightarrow> nat \<Rightarrow> (nat \<Rightarrow> u32) \<Rightarrow> nat \<Rightarrow> u32" where
  "zero_words off sz m = (\<lambda>w. if off \<le> w \<and> w < off + sz then 0 else m w)"

text \<open>The cell that \<open>prev_off\<close> points to: the head of the list or the link of a block.\<close>

definition set_link :: "nat option \<Rightarrow> nat \<Rightarrow> cl_heap \<Rightarrow> cl_heap" where
  "set_link prev v h =
     (case prev of None \<Rightarrow> h \<lparr> free_list := v \<rparr> | Some b \<Rightarrow> h \<lparr> arena := (arena h)(b + 4 := of_nat v) \<rparr>)"

text \<open>Taking the block at \<open>cur\<close>: split when the rest is a block, the whole block otherwise.\<close>

definition take_block :: "nat option \<Rightarrow> nat \<Rightarrow> nat \<Rightarrow> cl_heap \<Rightarrow> nat \<times> nat \<times> cl_heap" where
  "take_block prev cur sz h =
     (let bsize = unat (arena h cur); next = unat (arena h (cur + 4)); rest = bsize - sz in
      if rest \<ge> CL_MIN_ALLOC_SIZE then
        (let new = cur + sz;
             h = h \<lparr> arena := (arena h)(new := of_nat rest, new + 4 := of_nat next) \<rparr>;
             h = set_link prev new h;
             h = gc_hdr_note_crossing new rest (gc_hdr_note_crossing cur sz h)
         in (cur, sz, h \<lparr> arena := zero_words cur sz (arena h) \<rparr>))
      else
        (let h = set_link prev next h in (cur, bsize, h \<lparr> arena := zero_words cur bsize (arena h) \<rparr>)))"

text \<open>
  The walk of the free list; \<open>None\<close> for a walk that runs out of fuel, which a list with a cycle
  would make endless.  \<open>max_steps = 0\<close> means no bound.
\<close>

fun free_list_loop :: "nat \<Rightarrow> nat option \<Rightarrow> nat \<Rightarrow> nat \<Rightarrow> nat \<Rightarrow> nat \<Rightarrow> cl_heap \<Rightarrow> ((nat \<times> nat) option \<times> cl_heap) option" where
  "free_list_loop 0 prev cur steps sz max_steps h = None"
| "free_list_loop (Suc fuel) prev cur steps sz max_steps h =
     (if cur = 0 then Some (None, h)
      else let h = h \<lparr> freelist_steps := (freelist_steps h + 1) mod 2 ^ 32 \<rparr>; steps = steps + 1 in
        if max_steps \<noteq> 0 \<and> steps > max_steps then Some (None, h)
        else if unat (arena h cur) \<ge> sz then
          (case take_block prev cur sz h of (off, sz', h) \<Rightarrow> Some (Some (off, sz'), h))
        else free_list_loop fuel (Some cur) (unat (arena h (cur + 4))) steps sz max_steps h)"

definition alloc_from_free_list :: "nat \<Rightarrow> nat \<Rightarrow> cl_heap \<Rightarrow> ((nat \<times> nat) option \<times> cl_heap) option" where
  "alloc_from_free_list sz max_steps h = free_list_loop (Suc (bump h)) None (free_list h) 0 sz max_steps h"

definition gcb_cursor_cut_front :: "nat \<Rightarrow> nat \<Rightarrow> cl_heap \<Rightarrow> nat \<times> nat \<times> cl_heap" where
  "gcb_cursor_cut_front sz rem h =
     (let sz = (if rem - sz < CL_MIN_ALLOC_SIZE then rem else sz);
          off = bump h; cur = bump h + sz;
          h = h \<lparr> bump := cur, total_allocated := (total_allocated h + sz) mod 2 ^ 32, total_consed := (total_consed h + sz) mod 2 ^ 32 \<rparr>
      in (off, sz, if cur > gc_hdr_bump_watch h then gc_hdr_note_bump (cur - sz) sz h else h))"

datatype alloc_outcome = Allocated nat cl_heap | Too_Large | Collect cl_heap | Lost

text \<open>
  \<open>alloc_zero\<close> and the header, then the whole of \<open>cl_alloc\<close> up to the point where a collection
  is needed.
\<close>

definition finish_alloc :: "u32 \<Rightarrow> nat \<Rightarrow> nat \<Rightarrow> cl_heap \<Rightarrow> alloc_outcome" where
  "finish_alloc type off sz h =
     Allocated off (h \<lparr> arena := (zero_words (off + 4) (sz - 4) (arena h))(off := CL_MAKE_HDR type (of_nat sz)) \<rparr>)"

definition alloc_slow :: "u32 \<Rightarrow> nat \<Rightarrow> cl_heap \<Rightarrow> alloc_outcome" where
  "alloc_slow type sz h =
     (let account = (\<lambda>off sz h. finish_alloc type off sz
        (h \<lparr> total_allocated := (total_allocated h + sz) mod 2 ^ 32, total_consed := (total_consed h + sz) mod 2 ^ 32 \<rparr>))
      in case alloc_from_bump sz h of
           Some (off, h) \<Rightarrow> account off sz h
         | None \<Rightarrow>
             (case alloc_from_free_list sz CL_FREELIST_PROBE_LIMIT h of
                None \<Rightarrow> Lost
              | Some (None, h) \<Rightarrow> Collect h
              | Some (Some (off, sz), h) \<Rightarrow> account off sz h))"

definition cl_alloc :: "u32 \<Rightarrow> u32 \<Rightarrow> cl_heap \<Rightarrow> alloc_outcome" where
  "cl_alloc type request h =
     (let sz = max (unat (align_up request)) CL_MIN_ALLOC_SIZE; rem = arena_size h - bump h in
      if sz > max_block then Too_Large
      else if sz \<le> rem then (case gcb_cursor_cut_front sz rem h of (off, sz, h) \<Rightarrow> finish_alloc type off sz h)
      else alloc_slow type sz h)"

text \<open>A sequence of allocations, each a type and a size, that all succeed without a collection.\<close>

fun alloc_run :: "(u32 \<times> u32) list \<Rightarrow> cl_heap \<Rightarrow> (nat list \<times> cl_heap) option" where
  "alloc_run [] h = Some ([], h)"
| "alloc_run ((type, request) # rs) h =
     (case cl_alloc type request h of
        Allocated off k \<Rightarrow> (case alloc_run rs k of Some (offs, k') \<Rightarrow> Some (off # offs, k') | None \<Rightarrow> None)
      | _ \<Rightarrow> None)"

section \<open>Sweep\<close>

function coalesce :: "(nat \<Rightarrow> u32) \<Rightarrow> nat \<Rightarrow> nat \<Rightarrow> nat \<Rightarrow> nat" where
  "coalesce m fin off tot =
     (if off + tot < fin then
        (let next = m (off + tot); next_size = hsize next in
         if next_size = 0 \<or> CL_HDR_MARKED next \<or> tot + next_size > max_block then tot
         else coalesce m fin off (tot + next_size))
      else tot)"
  by pat_completeness auto
termination by (relation "measure (\<lambda>(m, fin, off, tot). fin - (off + tot))") (auto simp: Let_def)

declare coalesce.simps [simp del]

lemma coalesce_ge: "tot \<le> coalesce m fin off tot"
proof (induction m fin off tot rule: coalesce.induct)
  case (1 m fin off tot)
  let ?w = "m (off + tot)"
  show ?case
  proof (cases "off + tot < fin \<and> hsize ?w \<noteq> 0 \<and> \<not> CL_HDR_MARKED ?w \<and> tot + hsize ?w \<le> max_block")
    case True
    then have "tot + hsize ?w \<le> coalesce m fin off (tot + hsize ?w)" by (intro 1) auto
    then show ?thesis using True by (subst coalesce.simps) (simp add: Let_def)
  qed (subst coalesce.simps, auto simp: Let_def)
qed

lemma note_bump [simp]: "bump (gc_hdr_note_crossing off sz h) = bump h"
  by (simp add: gc_hdr_note_crossing_def gc_hdr_note_def Let_def split: option.splits)

function sweep_loop :: "nat \<Rightarrow> cl_heap \<Rightarrow> cl_heap" where
  "sweep_loop off h =
     (if off \<ge> bump h then h
      else let hdr = arena h off; sz = hsize hdr in
        if sz = 0 then h
        else if CL_HDR_MARKED hdr then
          sweep_loop (off + sz) (gc_hdr_note_crossing off sz
            (h \<lparr> arena := (arena h)(off := CL_HDR_CLR_MARK hdr), total_allocated := (total_allocated h + sz) mod 2 ^ 32 \<rparr>))
        else
          (let tot = coalesce (arena h) (bump h) off sz in
           sweep_loop (off + tot) (gc_hdr_note_crossing off tot
             (h \<lparr> arena := (arena h)(off := of_nat tot, off + 4 := of_nat (free_list h)), free_list := off \<rparr>))))"
  by pat_completeness auto
termination
proof (relation "measure (\<lambda>(off, h). bump h - off)")
  fix off :: nat and h :: cl_heap and hdr sz tot
  assume "\<not> off \<ge> bump h" "hdr = arena h off" "sz = hsize hdr" "sz \<noteq> 0" "tot = coalesce (arena h) (bump h) off sz"
  then show "((off + tot, gc_hdr_note_crossing off tot
      (h \<lparr> arena := (arena h)(off := of_nat tot, off + 4 := of_nat (free_list h)), free_list := off \<rparr>)), off, h)
    \<in> measure (\<lambda>(off, h). bump h - off)"
    using coalesce_ge [of sz "arena h" "bump h" off] by simp
qed auto

declare sweep_loop.simps [simp del]

definition gc_sweep :: "cl_heap \<Rightarrow> cl_heap" where
  "gc_sweep h = gc_hdr_bump_reset (sweep_loop CL_ALIGN (h \<lparr> free_list := 0, total_allocated := 0 \<rparr>))"

end
