(* ===== verification/Arena_Sweep.thy ===== *)
theory Arena_Sweep
  imports Arena
begin

text \<open>
  The block-start index, the chain of block headers and what a sweep means: a function on the
  list of blocks, which the loop of \<open>gc_sweep\<close> is shown to refine.  The heap invariant
  \<open>heap_ok\<close> and the index invariant \<open>index_ok\<close> are defined here.
\<close>

section \<open>The block-start index\<close>

text \<open>The entry of a page, if the index covers the page.\<close>

definition hdr_at :: "cl_heap \<Rightarrow> nat \<Rightarrow> nat option" where
  "hdr_at h p = (case gc_hdr_page h of None \<Rightarrow> None | Some pages \<Rightarrow> if p < length pages then Some (pages ! p) else None)"

abbreviation covers :: "nat \<Rightarrow> nat \<Rightarrow> nat \<Rightarrow> bool" where
  "covers off sz p \<equiv> off \<le> p * GC_HDR_PAGE \<and> p * GC_HDR_PAGE < off + sz"

lemma page_range:
  assumes "0 < sz"
  shows "(off + GC_HDR_PAGE - 1) div GC_HDR_PAGE \<le> p \<longleftrightarrow> off \<le> p * GC_HDR_PAGE"
    and "p \<le> (off + sz - 1) div GC_HDR_PAGE \<longleftrightarrow> p * GC_HDR_PAGE < off + sz"
  using assms by (auto simp: GC_HDR_PAGE_def less_eq_div_iff_mult_less_eq)

lemma crosses_iff: "GC_HDR_CROSSES off sz \<longleftrightarrow> (\<exists>p. covers off sz p)"
proof -
  have "covers off sz p \<Longrightarrow> (off + GC_HDR_PAGE - 1) div GC_HDR_PAGE * GC_HDR_PAGE < off + sz" for p
    using page_range(1) [of 1 off p] by (meson le_less_trans mult_le_mono1 zero_less_one)
  moreover have "off \<le> (off + GC_HDR_PAGE - 1) div GC_HDR_PAGE * GC_HDR_PAGE" by (simp add: GC_HDR_PAGE_def)
  ultimately show ?thesis unfolding GC_HDR_CROSSES_def by blast
qed

lemma hdr_at_note:
  assumes "0 < sz"
  shows "hdr_at (gc_hdr_note off sz h) p = (if covers off sz p \<and> hdr_at h p \<noteq> None then Some off else hdr_at h p)"
proof (cases "gc_hdr_page h")
  case (Some pages)
  have "p \<le> min ((off + sz - 1) div GC_HDR_PAGE) (length pages - 1) \<longleftrightarrow> p * GC_HDR_PAGE < off + sz" if "p < length pages"
    using that page_range(2) [OF assms] by auto
  then show ?thesis using Some page_range(1) [OF assms] by (simp add: hdr_at_def gc_hdr_note_def Let_def)
qed (simp add: hdr_at_def gc_hdr_note_def)

lemma hdr_at_crossing:
  assumes "0 < sz"
  shows "hdr_at (gc_hdr_note_crossing off sz h) p = (if covers off sz p \<and> hdr_at h p \<noteq> None then Some off else hdr_at h p)"
  using hdr_at_note [OF assms] crosses_iff by (auto simp: gc_hdr_note_crossing_def)

lemma hdr_at_reset [simp]: "hdr_at (gc_hdr_bump_reset h) = hdr_at h"
  by (simp add: hdr_at_def gc_hdr_bump_reset_def fun_eq_iff)

lemma hdr_at_cong: "gc_hdr_page h = gc_hdr_page k \<Longrightarrow> hdr_at h = hdr_at k"
  by (simp add: hdr_at_def fun_eq_iff)

text \<open>The watch is the next page boundary at or above the front, while there is an index.\<close>

definition watch_ok :: "cl_heap \<Rightarrow> bool" where
  "watch_ok h \<longleftrightarrow> gc_hdr_page h \<noteq> None \<longrightarrow> gc_hdr_bump_watch h = (bump h + GC_HDR_PAGE - 1) div GC_HDR_PAGE * GC_HDR_PAGE"

lemma watch_ok_reset [simp]: "watch_ok (gc_hdr_bump_reset h)"
  by (simp add: watch_ok_def gc_hdr_bump_reset_def)

text \<open>A block placed at the front: noted exactly when it covers the start of a page.\<close>

lemma note_front:
  assumes h: "watch_ok h" "0 < sz" and k: "gc_hdr_page k = gc_hdr_page h" "gc_hdr_bump_watch k = gc_hdr_bump_watch h" "bump k = bump h + sz"
  defines k': "k' \<equiv> (if bump k > gc_hdr_bump_watch k then gc_hdr_note_bump (bump h) sz k else k)"
  shows "watch_ok k'" "hdr_at k' p = (if covers (bump h) sz p \<and> hdr_at h p \<noteq> None then Some (bump h) else hdr_at h p)"
proof -
  have same: "hdr_at k = hdr_at h" by (rule hdr_at_cong) (rule k(1))
  have noted: "hdr_at (gc_hdr_note (bump h) sz k) p = (if covers (bump h) sz p \<and> hdr_at h p \<noteq> None then Some (bump h) else hdr_at h p)"
    by (simp add: hdr_at_note h(2) same)
  show "hdr_at k' p = (if covers (bump h) sz p \<and> hdr_at h p \<noteq> None then Some (bump h) else hdr_at h p)"
  proof (cases "bump k > gc_hdr_bump_watch k")
    case True
    then show ?thesis using noted by (simp add: k' gc_hdr_note_bump_def)
  next
    case False
    have "\<not> covers (bump h) sz p \<or> hdr_at h p = None"
    proof (cases "gc_hdr_page h")
      case (Some pages)
      then have "bump h + sz \<le> (bump h + GC_HDR_PAGE - 1) div GC_HDR_PAGE * GC_HDR_PAGE" using False h(1) k by (simp add: watch_ok_def)
      then show ?thesis using GC_HDR_CROSSES_def crosses_iff by (meson leD)
    qed (simp add: hdr_at_def)
    then show ?thesis using False same by (auto simp: k')
  qed
  show "watch_ok k'"
  proof (cases "bump k > gc_hdr_bump_watch k")
    case True
    then show ?thesis by (simp add: k' gc_hdr_note_bump_def)
  next
    case False
    have "(bump h + sz + GC_HDR_PAGE - 1) div GC_HDR_PAGE = (bump h + GC_HDR_PAGE - 1) div GC_HDR_PAGE"
      if "bump h + sz \<le> (bump h + GC_HDR_PAGE - 1) div GC_HDR_PAGE * GC_HDR_PAGE"
      using that h(2) by (simp add: GC_HDR_PAGE_def)
    then show ?thesis using False h(1) k by (auto simp: k' watch_ok_def not_less)
  qed
qed

section \<open>Header words\<close>

lemma hsize_mod: "hsize w = unat w mod 2 ^ 23"
proof -
  have e: "CL_HDR_SIZE w = take_bit 23 w" by (simp add: CL_HDR_SIZE_def CL_HDR_SIZE_MASK_def take_bit_eq_mask mask_eq_exp_minus_1)
  show ?thesis unfolding hsize_def e unsigned_take_bit_eq by (rule take_bit_eq_mod)
qed

lemma marked_bit: "CL_HDR_MARKED w \<longleftrightarrow> bit w 23"
  using and_exp_eq_0_iff_not_bit [of w 23] by (simp add: CL_HDR_MARKED_def CL_HDR_MARK_BIT_def)

lemma free_word:
  assumes "t \<le> max_block"
  shows "unat (of_nat t :: u32) = t" "hsize (of_nat t) = t" "\<not> CL_HDR_MARKED (of_nat t)"
proof -
  have t: "t < 2 ^ 23" using assms by (simp add: max_block_def)
  show u: "unat (of_nat t :: u32) = t" using t by (simp add: unat_of_nat take_bit_eq_mod)
  show "hsize (of_nat t) = t" using t by (simp add: hsize_mod u)
  have "\<not> bit t 23" using t by (simp add: bit_iff_odd)
  then show "\<not> CL_HDR_MARKED (of_nat t)" by (simp add: marked_bit bit_of_nat_iff)
qed

lemma hsize_max: "hsize w \<le> max_block"
  using mod_less_divisor [of "2 ^ 23" "unat w"] by (simp add: hsize_mod max_block_def)

lemma clear_mark: "hsize (CL_HDR_CLR_MARK w) = hsize w" "\<not> CL_HDR_MARKED (CL_HDR_CLR_MARK w)"
  using hdr_laws by (simp_all add: hsize_def)

section \<open>The chain of blocks\<close>

fun chain :: "(nat \<Rightarrow> u32) \<Rightarrow> nat \<Rightarrow> nat list \<Rightarrow> nat \<Rightarrow> bool" where
  "chain m a [] e \<longleftrightarrow> a = e"
| "chain m a (b # bs) e \<longleftrightarrow> b = a \<and> 8 \<le> hsize (m a) \<and> chain m (a + hsize (m a)) bs e"

lemma chain_le: "chain m a bs e \<Longrightarrow> a \<le> e"
  by (induction bs arbitrary: a) force+

lemma chain_cong: "(\<And>x. a \<le> x \<Longrightarrow> m x = m' x) \<Longrightarrow> chain m a bs e \<longleftrightarrow> chain m' a bs e"
proof (induction bs arbitrary: a)
  case (Cons b bs)
  have "m a = m' a" using Cons.prems by simp
  moreover have "chain m (a + hsize (m' a)) bs e \<longleftrightarrow> chain m' (a + hsize (m' a)) bs e" using Cons.prems by (intro Cons.IH) simp
  ultimately show ?case by simp
qed simp

abbreviation blocks :: "(nat \<Rightarrow> u32) \<Rightarrow> nat list \<Rightarrow> (nat \<times> u32) list" where
  "blocks m bs \<equiv> map (\<lambda>b. (b, m b)) bs"

lemma blocks_cong: "chain m a bs e \<Longrightarrow> (\<And>x. a \<le> x \<Longrightarrow> m x = m' x) \<Longrightarrow> blocks m bs = blocks m' bs"
proof (induction bs arbitrary: a)
  case (Cons b bs)
  then have "blocks m bs = blocks m' bs" by (intro Cons.IH [of "a + hsize (m a)"]) simp_all
  then show ?case using Cons.prems by simp
qed simp

section \<open>What a sweep means\<close>

datatype seg = Live nat u32 | Free nat nat

text \<open>A dead block takes in the dead blocks after it while the sum fits a header.\<close>

fun absorb :: "nat \<Rightarrow> (nat \<times> u32) list \<Rightarrow> nat \<times> (nat \<times> u32) list" where
  "absorb tot [] = (tot, [])"
| "absorb tot ((b, w) # bs) =
     (if CL_HDR_MARKED w \<or> tot + hsize w > max_block then (tot, (b, w) # bs) else absorb (tot + hsize w) bs)"

lemma absorb_length: "length (snd (absorb tot bs)) \<le> length bs"
  by (induction tot bs rule: absorb.induct) auto

function sweep_spec :: "(nat \<times> u32) list \<Rightarrow> seg list" where
  "sweep_spec [] = []"
| "sweep_spec ((b, w) # bs) =
     (if CL_HDR_MARKED w then Live b w # sweep_spec bs
      else Free b (fst (absorb (hsize w) bs)) # sweep_spec (snd (absorb (hsize w) bs)))"
  by pat_completeness auto
termination by (relation "measure length") (auto simp: absorb_length less_Suc_eq_le)

fun seg_off :: "seg \<Rightarrow> nat" where
  "seg_off (Live b w) = b" | "seg_off (Free b t) = b"

fun seg_size :: "seg \<Rightarrow> nat" where
  "seg_size (Live b w) = hsize w" | "seg_size (Free b t) = t"

fun frees :: "seg list \<Rightarrow> nat list" where
  "frees [] = []" | "frees (Live b w # ss) = frees ss" | "frees (Free b t # ss) = b # frees ss"

fun lives :: "seg list \<Rightarrow> (nat \<times> u32) list" where
  "lives [] = []" | "lives (Live b w # ss) = (b, w) # lives ss" | "lives (Free b t # ss) = lives ss"

fun links :: "(nat \<Rightarrow> u32) \<Rightarrow> nat \<Rightarrow> nat list \<Rightarrow> bool" where
  "links m p [] \<longleftrightarrow> p = 0"
| "links m p (b # bs) \<longleftrightarrow> p = b \<and> b \<noteq> 0 \<and> links m (unat (m (b + 4))) bs"

text \<open>The arena \<open>m'\<close> holds the segments from \<open>a\<close> to \<open>e\<close>; live blocks keep the words of \<open>m\<close>.\<close>

fun holds :: "(nat \<Rightarrow> u32) \<Rightarrow> (nat \<Rightarrow> u32) \<Rightarrow> nat \<Rightarrow> seg list \<Rightarrow> nat \<Rightarrow> bool" where
  "holds m m' a [] e \<longleftrightarrow> a = e"
| "holds m m' a (Live b w # ss) e \<longleftrightarrow> b = a \<and> w = m a \<and> 8 \<le> hsize w \<and> m' a = CL_HDR_CLR_MARK w
     \<and> (\<forall>x. a < x \<and> x < a + hsize w \<longrightarrow> m' x = m x) \<and> holds m m' (a + hsize w) ss e"
| "holds m m' a (Free b t # ss) e \<longleftrightarrow> b = a \<and> 8 \<le> t \<and> t \<le> max_block \<and> m' a = of_nat t \<and> holds m m' (a + t) ss e"

lemma absorb_coalesce:
  assumes "chain m (a + tot) bs e" "tot \<le> max_block"
  shows "\<exists>bs'. snd (absorb tot (blocks m bs)) = blocks m bs' \<and> chain m (a + fst (absorb tot (blocks m bs))) bs' e
    \<and> coalesce m e a tot = fst (absorb tot (blocks m bs)) \<and> length bs' \<le> length bs \<and> fst (absorb tot (blocks m bs)) \<le> max_block"
  using assms
proof (induction bs arbitrary: tot)
  case Nil
  then show ?case by (subst coalesce.simps) (simp add: Let_def)
next
  case (Cons b bs)
  let ?w = "m (a + tot)"
  have b: "b = a + tot" "8 \<le> hsize ?w" "chain m (a + (tot + hsize ?w)) bs e" using Cons.prems(1) by (simp_all add: add.assoc)
  have lt: "a + tot < e" using chain_le [OF b(3)] b(2) by simp
  show ?case
  proof (cases "CL_HDR_MARKED ?w \<or> tot + hsize ?w > max_block")
    case True
    then have "coalesce m e a tot = tot" using b(2) by (subst coalesce.simps) (auto simp: Let_def)
    then show ?thesis using True b Cons.prems by (intro exI [of _ "b # bs"]) (auto simp: add.assoc)
  next
    case False
    then have "coalesce m e a tot = coalesce m e a (tot + hsize ?w)" using b(2) lt by (subst coalesce.simps) (auto simp: Let_def)
    then show ?thesis using Cons.IH [OF b(3)] False b(1) by (auto intro: le_SucI)
  qed
qed

section \<open>The sweep refines its meaning\<close>

lemma note_arena [simp]:
  "arena (gc_hdr_note_crossing off sz h) = arena h" "free_list (gc_hdr_note_crossing off sz h) = free_list h"
  "total_allocated (gc_hdr_note_crossing off sz h) = total_allocated h"
  by (simp_all add: gc_hdr_note_crossing_def gc_hdr_note_def Let_def split: option.splits)

lemma holds_cong: "(\<And>x. a \<le> x \<Longrightarrow> m x = k x) \<Longrightarrow> holds m m' a ss e \<longleftrightarrow> holds k m' a ss e"
proof (induction ss arbitrary: a)
  case (Cons s ss)
  show ?case
  proof (cases s)
    case (Live b w)
    have "holds m m' (a + hsize w) ss e \<longleftrightarrow> holds k m' (a + hsize w) ss e" using Cons.prems by (intro Cons.IH) simp
    then show ?thesis using Live Cons.prems by auto
  next
    case (Free b t)
    have "holds m m' (a + t) ss e \<longleftrightarrow> holds k m' (a + t) ss e" using Cons.prems by (intro Cons.IH) simp
    then show ?thesis using Free by simp
  qed
qed simp

lemma links_cong: "(\<And>b. b \<in> set bs \<Longrightarrow> m (b + 4) = m' (b + 4)) \<Longrightarrow> links m p bs \<longleftrightarrow> links m' p bs"
  by (induction bs arbitrary: p) auto

definition live_bytes :: "seg list \<Rightarrow> nat" where
  "live_bytes ss = sum_list (map (\<lambda>(b, w). hsize w) (lives ss))"

text \<open>The index once every segment has been noted, in the order of the addresses.\<close>

definition note_seg :: "nat \<Rightarrow> nat \<Rightarrow> (nat \<Rightarrow> nat option) \<Rightarrow> nat \<Rightarrow> nat option" where
  "note_seg off sz f p = (if covers off sz p \<and> f p \<noteq> None then Some off else f p)"

fun noted :: "seg list \<Rightarrow> (nat \<Rightarrow> nat option) \<Rightarrow> nat \<Rightarrow> nat option" where
  "noted [] f = f" | "noted (s # ss) f = noted ss (note_seg (seg_off s) (seg_size s) f)"

lemma hdr_at_seg: "0 < sz \<Longrightarrow> gc_hdr_page h = gc_hdr_page k \<Longrightarrow> hdr_at (gc_hdr_note_crossing off sz h) = note_seg off sz (hdr_at k)"
  using hdr_at_cong [of h k] by (simp add: fun_eq_iff hdr_at_crossing note_seg_def)

text \<open>A heap ready to be swept from a block on, and the result.\<close>

definition sweepable :: "nat \<Rightarrow> cl_heap \<Rightarrow> nat list \<Rightarrow> nat list \<Rightarrow> bool" where
  "sweepable off h bs fs \<longleftrightarrow> chain (arena h) off bs (bump h) \<and> 0 < off \<and> bump h < 2 ^ 32
     \<and> links (arena h) (free_list h) fs \<and> (\<forall>f\<in>set fs. f + 8 \<le> off) \<and> free_list h < 2 ^ 32 \<and> total_allocated h \<le> off"

definition swept :: "nat \<Rightarrow> cl_heap \<Rightarrow> cl_heap \<Rightarrow> seg list \<Rightarrow> nat list \<Rightarrow> bool" where
  "swept off h h' ss fs \<longleftrightarrow> holds (arena h) (arena h') off ss (bump h) \<and> (\<forall>x < off. arena h' x = arena h x)
     \<and> bump h' = bump h \<and> links (arena h') (free_list h') (rev (frees ss) @ fs)
     \<and> total_allocated h' = total_allocated h + live_bytes ss
     \<and> hdr_at h' = noted ss (hdr_at h)"

lemma sweepable_same:
  assumes "sweepable off h bs fs" "chain (arena h) a cs (bump h)" "off + 8 \<le> a"
    and "\<And>x. a \<le> x \<Longrightarrow> arena k x = arena h x" "\<And>x. x < off \<Longrightarrow> arena k x = arena h x" "bump k = bump h"
  shows "chain (arena k) a cs (bump k)" "blocks (arena k) cs = blocks (arena h) cs" "links (arena k) (free_list h) fs"
proof -
  show "chain (arena k) a cs (bump k)" using assms(2,4,6) chain_cong [of a "arena k" "arena h"] by simp
  show "blocks (arena k) cs = blocks (arena h) cs" using blocks_cong [OF assms(2)] assms(4) by metis
  have "arena k (f + 4) = arena h (f + 4)" if "f \<in> set fs" for f using that assms(1,5) by (force simp: sweepable_def)
  then show "links (arena k) (free_list h) fs" using assms(1) links_cong [of fs "arena k" "arena h"] by (simp add: sweepable_def)
qed

lemma sweep_live:
  assumes "sweepable off h (b # bs) fs" "CL_HDR_MARKED (arena h off)"
  defines "sz \<equiv> hsize (arena h off)"
  defines "k \<equiv> gc_hdr_note_crossing off sz (h \<lparr> arena := (arena h)(off := CL_HDR_CLR_MARK (arena h off)), total_allocated := (total_allocated h + sz) mod 2 ^ 32 \<rparr>)"
  shows "sweep_loop off h = sweep_loop (off + sz) k" "sweepable (off + sz) k bs fs"
    and "swept (off + sz) k h' (sweep_spec (blocks (arena k) bs)) fs \<Longrightarrow> swept off h h' (sweep_spec (blocks (arena h) (b # bs))) fs"
proof -
  have c: "b = off" "8 \<le> sz" "chain (arena h) (off + sz) bs (bump h)" using assms(1) by (simp_all add: sweepable_def sz_def)
  then have lt: "\<not> off \<ge> bump h" using chain_le [OF c(3)] by simp
  show "sweep_loop off h = sweep_loop (off + sz) k"
    using lt assms(2) c(2) unfolding sz_def k_def by (subst sweep_loop.simps) (simp add: Let_def)
  have same: "\<And>x. off + sz \<le> x \<Longrightarrow> arena k x = arena h x" "\<And>x. x < off \<Longrightarrow> arena k x = arena h x" "bump k = bump h"
    using c(2) by (simp_all add: k_def)
  note S = sweepable_same [OF assms(1) c(3) _ same]
  have tk: "total_allocated k = total_allocated h + sz" "free_list k = free_list h"
    using chain_le [OF c(3)] assms(1) by (simp_all add: k_def sweepable_def)
  show "sweepable (off + sz) k bs fs" using S(1,3) c(2) assms(1) tk same(3) unfolding sweepable_def by auto
  assume w: "swept (off + sz) k h' (sweep_spec (blocks (arena k) bs)) fs"
  have e: "blocks (arena k) bs = blocks (arena h) bs" by (rule S(2)) (use c(2) in simp)
  note w = w [unfolded e]
  have ak: "arena k = (arena h)(off := CL_HDR_CLR_MARK (arena h off))" by (simp add: k_def)
  have ix: "hdr_at k = note_seg off sz (hdr_at h)" using c(2) by (simp add: k_def hdr_at_seg)
  have at: "arena h' off = CL_HDR_CLR_MARK (arena h off)" using w c(2) by (simp add: swept_def ak)
  have inside: "arena h' x = arena h x" if "x \<noteq> off" "x < off + sz" for x using w that by (simp add: swept_def ak)
  have "holds (arena h) (arena h') (off + sz) (sweep_spec (blocks (arena h) bs)) (bump h)"
    using w c(2) holds_cong [of "off + sz" "arena k" "arena h"] same by (simp add: swept_def)
  then show "swept off h h' (sweep_spec (blocks (arena h) (b # bs))) fs"
    using w c assms(2) at inside tk same(3) ix unfolding swept_def live_bytes_def by (simp add: sz_def)
qed

lemma sweep_dead:
  assumes "sweepable off h (b # bs) fs" "\<not> CL_HDR_MARKED (arena h off)"
  defines "tot \<equiv> coalesce (arena h) (bump h) off (hsize (arena h off))"
  defines "k \<equiv> gc_hdr_note_crossing off tot (h \<lparr> arena := (arena h)(off := of_nat tot, off + 4 := of_nat (free_list h)), free_list := off \<rparr>)"
  obtains cs where "length cs \<le> length bs" "sweep_loop off h = sweep_loop (off + tot) k" "sweepable (off + tot) k cs (off # fs)"
    "\<And>h'. swept (off + tot) k h' (sweep_spec (blocks (arena k) cs)) (off # fs) \<Longrightarrow> swept off h h' (sweep_spec (blocks (arena h) (b # bs))) fs"
proof -
  let ?w = "arena h off" and ?A = "absorb (hsize (arena h off)) (blocks (arena h) bs)"
  have c: "b = off" "8 \<le> hsize ?w" "chain (arena h) (off + hsize ?w) bs (bump h)" using assms(1) by (simp_all add: sweepable_def)
  then have lt: "off < bump h" using chain_le [OF c(3)] by simp
  obtain cs where cs: "snd ?A = blocks (arena h) cs" "chain (arena h) (off + tot) cs (bump h)" "tot = fst ?A" "length cs \<le> length bs" "tot \<le> max_block"
    using absorb_coalesce [OF c(3) hsize_max] unfolding tot_def by metis
  have t8: "8 \<le> tot" using c(2) coalesce_ge [of "hsize ?w" "arena h" "bump h" off] by (simp add: tot_def)
  have same: "\<And>x. off + tot \<le> x \<Longrightarrow> arena k x = arena h x" "\<And>x. x < off \<Longrightarrow> arena k x = arena h x" "bump k = bump h"
    using t8 by (simp_all add: k_def)
  note S = sweepable_same [OF assms(1) cs(2) _ same]
  have fl: "unat (arena k (off + 4)) = free_list h" "free_list k = off"
    using assms(1) by (simp_all add: k_def sweepable_def unat_of_nat take_bit_eq_mod)
  have bound: "off < 2 ^ 32" "0 < off" "bump h < 2 ^ 32" "\<forall>f\<in>set fs. f + 8 \<le> off" using assms(1) lt by (auto simp: sweepable_def)
  show thesis
  proof (rule that)
    show "length cs \<le> length bs" by (rule cs(4))
    show "sweep_loop off h = sweep_loop (off + tot) k"
      using lt assms(2) c(2) unfolding tot_def k_def by (subst sweep_loop.simps) (simp add: Let_def)
    show "sweepable (off + tot) k cs (off # fs)"
      using S(1,3) fl bound t8 same(3) assms(1) unfolding sweepable_def by (auto simp: k_def)
    fix h' assume w: "swept (off + tot) k h' (sweep_spec (blocks (arena k) cs)) (off # fs)"
    have e: "blocks (arena k) cs = blocks (arena h) cs" by (rule S(2)) (use t8 in simp)
    note w = w [unfolded e]
    have ak: "arena k = (arena h)(off := of_nat tot, off + 4 := of_nat (free_list h))" "total_allocated k = total_allocated h" by (simp_all add: k_def)
    have ix: "hdr_at k = note_seg off tot (hdr_at h)" using t8 by (simp add: k_def hdr_at_seg)
    have "arena h' off = of_nat tot" "\<forall>x < off. arena h' x = arena h x" using w t8 by (simp_all add: swept_def ak(1))
    moreover have "holds (arena h) (arena h') (off + tot) (sweep_spec (blocks (arena h) cs)) (bump h)"
      using w t8 holds_cong [of "off + tot" "arena k" "arena h"] same by (simp add: swept_def)
    ultimately show "swept off h h' (sweep_spec (blocks (arena h) (b # bs))) fs"
      using w t8 c(1) assms(2) cs(1,3,5) ak(2) same(3) ix unfolding swept_def live_bytes_def by simp
  qed
qed

lemma sweep_loop_refines:
  "sweepable off h bs fs \<Longrightarrow> swept off h (sweep_loop off h) (sweep_spec (blocks (arena h) bs)) fs"
proof (induction bs arbitrary: off h fs rule: length_induct)
  case (1 bs)
  show ?case
  proof (cases bs)
    case Nil
    then have "sweep_loop off h = h" using 1(2) by (subst sweep_loop.simps) (simp add: sweepable_def)
    then show ?thesis using Nil 1(2) by (simp add: sweepable_def swept_def live_bytes_def)
  next
    case (Cons b bs')
    note P = 1(2) [unfolded Cons]
    have IH: "sweepable a k cs gs \<Longrightarrow> length cs \<le> length bs' \<Longrightarrow> swept a k (sweep_loop a k) (sweep_spec (blocks (arena k) cs)) gs" for a k cs gs
      using 1(1) Cons by simp
    show ?thesis
    proof (cases "CL_HDR_MARKED (arena h off)")
      case True
      show ?thesis unfolding Cons sweep_live(1) [OF P True] by (rule sweep_live(3) [OF P True IH [OF sweep_live(2) [OF P True]]]) simp
    next
      case False
      show ?thesis
      proof (rule sweep_dead [OF P False], goal_cases)
        case (1 cs)
        show ?case unfolding Cons 1(2) by (rule 1(4) [OF IH [OF 1(3,1)]])
      qed
    qed
  qed
qed

section \<open>The heap invariant\<close>

definition heap_walk :: "cl_heap \<Rightarrow> nat list \<Rightarrow> bool" where
  "heap_walk h bs \<longleftrightarrow> chain (arena h) CL_ALIGN bs (bump h) \<and> bump h \<le> arena_size h \<and> arena_size h + GC_HDR_PAGE \<le> 2 ^ 32
     \<and> (\<forall>b\<in>set bs. CL_ALIGN dvd b) \<and> (CL_ALIGN dvd bump h \<or> bump h = arena_size h)"

definition heap_ok :: "cl_heap \<Rightarrow> nat list \<Rightarrow> nat list \<Rightarrow> bool" where
  "heap_ok h bs fs \<longleftrightarrow> heap_walk h bs \<and> links (arena h) (free_list h) fs \<and> distinct fs \<and> set fs \<subseteq> set bs
     \<and> (\<forall>f\<in>set fs. unat (arena h f) = hsize (arena h f)) \<and> (\<forall>b\<in>set bs. \<not> CL_HDR_MARKED (arena h b))
     \<and> total_allocated h = (\<Sum>b\<in>set bs - set fs. hsize (arena h b))"

text \<open>The index names the block that covers the first byte of a page.\<close>

definition index_ok :: "cl_heap \<Rightarrow> nat list \<Rightarrow> bool" where
  "index_ok h bs \<longleftrightarrow> watch_ok h \<and> (\<forall>b\<in>set bs. \<forall>p. covers b (hsize (arena h b)) p \<and> hdr_at h p \<noteq> None \<longrightarrow> hdr_at h p = Some b)"

lemma index_okD: "index_ok h bs \<Longrightarrow> b \<in> set bs \<Longrightarrow> covers b (hsize (arena h b)) p \<Longrightarrow> hdr_at h p \<noteq> None \<Longrightarrow> hdr_at h p = Some b"
  by (simp add: index_ok_def)

lemma chain_ge: "chain m a bs e \<Longrightarrow> b \<in> set bs \<Longrightarrow> a \<le> b \<and> 8 \<le> hsize (m b) \<and> b + hsize (m b) \<le> e"
proof (induction bs arbitrary: a)
  case (Cons c bs)
  show ?case
  proof (cases "b = c")
    case True
    then show ?thesis using Cons.prems chain_le [of m "a + hsize (m a)" bs e] by simp
  next
    case False
    then have "a + hsize (m a) \<le> b \<and> 8 \<le> hsize (m b) \<and> b + hsize (m b) \<le> e" using Cons.prems by (intro Cons.IH) auto
    then show ?thesis by simp
  qed
qed simp

lemma chain_sorted: "chain m a bs e \<Longrightarrow> sorted bs \<and> distinct bs"
proof (induction bs arbitrary: a)
  case (Cons b bs)
  then have "sorted bs \<and> distinct bs" "\<forall>c\<in>set bs. b + hsize (m b) \<le> c" "8 \<le> hsize (m b)" using chain_ge by auto
  then show ?case by fastforce
qed simp

lemma chain_disjoint: "chain m a bs e \<Longrightarrow> b \<in> set bs \<Longrightarrow> c \<in> set bs \<Longrightarrow> b < c \<Longrightarrow> b + hsize (m b) \<le> c"
proof (induction bs arbitrary: a)
  case (Cons d bs)
  then have t: "d = a" "chain m (a + hsize (m a)) bs e" by simp_all
  have "c \<noteq> d" using Cons.prems chain_ge [OF Cons.prems(1), of b] t(1) by auto
  then have c: "c \<in> set bs" using Cons.prems(3) by simp
  show ?case
  proof (cases "b = d")
    case True
    then show ?thesis using chain_ge [OF t(2) c] t(1) by simp
  next
    case False
    then show ?thesis using Cons.IH [OF t(2) _ c Cons.prems(4)] Cons.prems(2) by simp
  qed
qed simp

lemma chain_heads: "(\<And>b. b \<in> set bs \<Longrightarrow> m b = m' b) \<Longrightarrow> chain m a bs e \<longleftrightarrow> chain m' a bs e"
  by (induction bs arbitrary: a) auto

lemma chain_append: "chain m a (xs @ ys) e \<longleftrightarrow> (\<exists>c. chain m a xs c \<and> chain m c ys e)"
  by (induction xs arbitrary: a) auto

section \<open>Sweeping a heap\<close>

lemma absorb_keeps: "filter (\<lambda>(b, w). CL_HDR_MARKED w) (snd (absorb t bs)) = filter (\<lambda>(b, w). CL_HDR_MARKED w) bs"
  "set (snd (absorb t bs)) \<subseteq> set bs"
  by (induction t bs rule: absorb.induct) auto

lemma sweep_spec_lives: "lives (sweep_spec bs) = filter (\<lambda>(b, w). CL_HDR_MARKED w) bs"
  by (induction bs rule: sweep_spec.induct) (auto simp: absorb_keeps)

lemma sweep_spec_offs: "seg_off ` set (sweep_spec bs) \<subseteq> fst ` set bs"
proof (induction bs rule: sweep_spec.induct)
  case (2 b w bs)
  then show ?case using image_mono [OF absorb_keeps(2) [of "hsize w" bs], of fst] by (cases "CL_HDR_MARKED w") (simp_all, blast+)
qed simp

lemma seg_split: "set (map seg_off ss) = fst ` set (lives ss) \<union> set (frees ss)"
  by (induction ss rule: frees.induct) auto

lemma frees_sub: "set (frees ss) \<subseteq> set (map seg_off ss)"
  by (simp only: seg_split) simp

lemma holds_chain: "holds m m' a ss e \<Longrightarrow> chain m' a (map seg_off ss) e"
  by (induction ss arbitrary: a rule: frees.induct) (auto simp: clear_mark free_word)

lemma holds_frees: "holds m m' a ss e \<Longrightarrow> f \<in> set (frees ss) \<Longrightarrow> unat (m' f) = hsize (m' f) \<and> \<not> CL_HDR_MARKED (m' f)"
  by (induction ss arbitrary: a rule: frees.induct) (auto simp: free_word)

lemma holds_lives: "holds m m' a ss e \<Longrightarrow> (b, w) \<in> set (lives ss) \<Longrightarrow>
  w = m b \<and> m' b = CL_HDR_CLR_MARK (m b) \<and> (\<forall>x. b < x \<and> x < b + hsize (m b) \<longrightarrow> m' x = m x)"
  by (induction ss arbitrary: a rule: frees.induct) auto

lemma lives_frees: "distinct (map seg_off ss) \<Longrightarrow> distinct (frees ss) \<and> distinct (map fst (lives ss)) \<and> fst ` set (lives ss) \<inter> set (frees ss) = {}"
proof (induction ss rule: frees.induct)
  case (2 b w ss)
  then show ?case using seg_split [of ss] by auto
next
  case (3 b t ss)
  then show ?case using seg_split [of ss] by auto
qed simp

lemma holds_sizes: "holds m m' a ss e \<Longrightarrow> s \<in> set ss \<Longrightarrow> a \<le> seg_off s \<and> seg_size s = hsize (m' (seg_off s))"
  by (induction ss arbitrary: a rule: frees.induct) (force simp: clear_mark free_word)+

lemma noted_other: "(\<And>s. s \<in> set ss \<Longrightarrow> \<not> covers (seg_off s) (seg_size s) p) \<Longrightarrow> noted ss f p = f p"
  by (induction ss arbitrary: f) (auto simp: note_seg_def)

lemma noted_none: "noted ss f p = None \<longleftrightarrow> f p = None"
  by (induction ss arbitrary: f) (auto simp: note_seg_def)

lemma noted_covered:
  "holds m m' a ss e \<Longrightarrow> s \<in> set ss \<Longrightarrow> covers (seg_off s) (seg_size s) p \<Longrightarrow> f p \<noteq> None \<Longrightarrow> noted ss f p = Some (seg_off s)"
proof (induction ss arbitrary: a f)
  case (Cons t ss)
  have tail: "holds m m' (seg_off t + seg_size t) ss e" using Cons.prems(1) by (cases t) auto
  show ?case
  proof (cases "s \<in> set ss")
    case True
    then show ?thesis using Cons.IH [OF tail True Cons.prems(3)] Cons.prems(4) by (simp add: note_seg_def)
  next
    case False
    then have s: "s = t" using Cons.prems(2) by simp
    have "\<not> covers (seg_off u) (seg_size u) p" if "u \<in> set ss" for u
      using holds_sizes [OF tail that] Cons.prems(3) s by simp
    then show ?thesis using noted_other [of ss p] Cons.prems(3,4) s by (simp add: note_seg_def)
  qed
qed simp

text \<open>What a swept heap is, for any heap whose blocks can be walked.\<close>

text \<open>Segments, links, byte count and index make a well-formed heap.\<close>

lemma holds_heap:
  assumes H: "holds v (arena k) CL_ALIGN ss (bump k)" and l: "links (arena k) (free_list k) (rev (frees ss))"
    and t: "total_allocated k = live_bytes ss"
    and al: "\<forall>s\<in>set ss. CL_ALIGN dvd seg_off s" "bump k \<le> arena_size k" "arena_size k + GC_HDR_PAGE \<le> 2 ^ 32" "CL_ALIGN dvd bump k \<or> bump k = arena_size k"
  shows "heap_ok k (map seg_off ss) (rev (frees ss))" "set (map seg_off ss) - set (frees ss) = fst ` set (lives ss)"
    and "watch_ok k \<Longrightarrow> hdr_at k = noted ss f \<Longrightarrow> index_ok k (map seg_off ss)"
proof -
  note c = holds_chain [OF H]
  note D = lives_frees [OF chain_sorted [OF c, THEN conjunct2]]
  show diff: "set (map seg_off ss) - set (frees ss) = fst ` set (lives ss)" unfolding seg_split using D by auto
  show "index_ok k (map seg_off ss)" if "watch_ok k" and ix: "hdr_at k = noted ss f"
    unfolding index_ok_def
  proof (intro conjI ballI allI impI that(1))
    fix b p assume b: "b \<in> set (map seg_off ss)" and c: "covers b (hsize (arena k b)) p \<and> hdr_at k p \<noteq> None"
    obtain s where s: "s \<in> set ss" "b = seg_off s" using b by auto
    then have cv: "covers (seg_off s) (seg_size s) p" using c holds_sizes [OF H s(1)] by simp
    have "f p \<noteq> None" using c noted_none [of ss f p] ix by metis
    then show "hdr_at k p = Some b" unfolding ix using noted_covered [OF H s(1) cv] s(2) by blast
  qed
  have keep: "hsize (arena k b) = hsize w \<and> \<not> CL_HDR_MARKED (arena k b)" if "(b, w) \<in> set (lives ss)" for b w
    using holds_lives [OF H that] by (simp add: clear_mark)
  have un: "\<not> CL_HDR_MARKED (arena k b)" if "b \<in> set (map seg_off ss)" for b
  proof (cases "b \<in> set (frees ss)")
    case False
    then have "b \<in> fst ` set (lives ss)" using that diff by blast
    then obtain w where "(b, w) \<in> set (lives ss)" by auto
    then show ?thesis using keep by simp
  qed (use holds_frees [OF H] in blast)
  have "live_bytes ss = sum_list (map (\<lambda>b. hsize (arena k b)) (map fst (lives ss)))"
    unfolding live_bytes_def map_map comp_def using keep by (intro arg_cong [where f = sum_list] map_cong) auto
  also have "\<dots> = (\<Sum>b\<in>fst ` set (lives ss). hsize (arena k b))" using D sum_list_distinct_conv_sum_set [of "map fst (lives ss)"] by simp
  finally have tot: "total_allocated k = (\<Sum>b\<in>set (map seg_off ss) - set (rev (frees ss)). hsize (arena k b))" using t diff by simp
  have hw: "heap_walk k (map seg_off ss)" using al c unfolding heap_walk_def by auto
  show "heap_ok k (map seg_off ss) (rev (frees ss))"
    unfolding heap_ok_def
  proof (intro conjI ballI hw l tot)
    show "distinct (rev (frees ss))" "set (rev (frees ss)) \<subseteq> set (map seg_off ss)" using D frees_sub [of ss] by simp_all
    show "unat (arena k f) = hsize (arena k f)" if "f \<in> set (rev (frees ss))" for f using that holds_frees [OF H] by simp
  qed (rule un)
qed

lemma swept_heap:
  assumes walk: "heap_walk h bs"
    and w: "swept CL_ALIGN (h \<lparr> free_list := 0, total_allocated := 0 \<rparr>) k (sweep_spec (blocks (arena h) bs)) []"
    and size: "arena_size k = arena_size h"
  defines "ss \<equiv> sweep_spec (blocks (arena h) bs)"
  shows "heap_ok k (map seg_off ss) (rev (frees ss))"
    and "watch_ok k \<Longrightarrow> index_ok k (map seg_off ss)" "\<forall>p. hdr_at k p = None \<longleftrightarrow> hdr_at h p = None"
    and "set (map seg_off ss) - set (frees ss) = {b \<in> set bs. CL_HDR_MARKED (arena h b)}"
    and "\<forall>b\<in>set bs. CL_HDR_MARKED (arena h b) \<longrightarrow> arena k b = CL_HDR_CLR_MARK (arena h b)
           \<and> (\<forall>x. b < x \<and> x < b + hsize (arena h b) \<longrightarrow> arena k x = arena h x)"
proof -
  have H: "holds (arena h) (arena k) CL_ALIGN ss (bump k)" and b: "bump k = bump h"
    and ix: "hdr_at k = noted ss (hdr_at h)"
    and l: "links (arena k) (free_list k) (rev (frees ss))" and t: "total_allocated k = live_bytes ss"
    using w [folded ss_def] by (simp_all add: swept_def hdr_at_cong [of "h \<lparr> free_list := 0, total_allocated := 0 \<rparr>" h])
  have lv: "lives ss = filter (\<lambda>(b, w). CL_HDR_MARKED w) (blocks (arena h) bs)" unfolding ss_def by (rule sweep_spec_lives)
  then have fl: "fst ` set (lives ss) = {b \<in> set bs. CL_HDR_MARKED (arena h b)}" by force
  have "seg_off ` set ss \<subseteq> set bs" using sweep_spec_offs [of "blocks (arena h) bs"] by (force simp: ss_def)
  then have al: "\<forall>s\<in>set ss. CL_ALIGN dvd seg_off s" using walk by (auto simp: heap_walk_def)
  note G = holds_heap [OF H l t al]
  show "heap_ok k (map seg_off ss) (rev (frees ss))" using walk b size by (intro G(1)) (simp_all add: heap_walk_def)
  show "set (map seg_off ss) - set (frees ss) = {b \<in> set bs. CL_HDR_MARKED (arena h b)}"
    unfolding fl [symmetric] using walk b size by (intro G(2)) (simp_all add: heap_walk_def)
  show "index_ok k (map seg_off ss)" if "watch_ok k" using walk b size by (intro G(3) [OF _ _ _ that ix]) (simp_all add: heap_walk_def)
  show "\<forall>p. hdr_at k p = None \<longleftrightarrow> hdr_at h p = None" by (simp add: ix noted_none)
  show "\<forall>b\<in>set bs. CL_HDR_MARKED (arena h b) \<longrightarrow> arena k b = CL_HDR_CLR_MARK (arena h b)
           \<and> (\<forall>x. b < x \<and> x < b + hsize (arena h b) \<longrightarrow> arena k x = arena h x)"
  proof (intro ballI impI)
    fix b assume "b \<in> set bs" "CL_HDR_MARKED (arena h b)"
    then show "arena k b = CL_HDR_CLR_MARK (arena h b) \<and> (\<forall>x. b < x \<and> x < b + hsize (arena h b) \<longrightarrow> arena k x = arena h x)"
      using holds_lives [OF H, of b "arena h b"] lv by auto
  qed
qed

lemma note_frame [simp]: "arena_size (gc_hdr_note_crossing off sz h) = arena_size h"
  by (simp add: gc_hdr_note_crossing_def gc_hdr_note_def Let_def split: option.splits)

lemma reset_frame [simp]:
  "arena (gc_hdr_bump_reset h) = arena h" "arena_size (gc_hdr_bump_reset h) = arena_size h" "bump (gc_hdr_bump_reset h) = bump h"
  "free_list (gc_hdr_bump_reset h) = free_list h" "total_allocated (gc_hdr_bump_reset h) = total_allocated h"
  by (simp_all add: gc_hdr_bump_reset_def)

lemma sweep_loop_frame: "arena_size (sweep_loop off h) = arena_size h"
proof (induction off h rule: sweep_loop.induct)
  case (1 off h)
  then show ?case by (subst sweep_loop.simps) (simp add: Let_def)
qed

lemma gc_sweep_swept:
  assumes "heap_walk h bs"
  shows "swept CL_ALIGN (h \<lparr> free_list := 0, total_allocated := 0 \<rparr>) (gc_sweep h) (sweep_spec (blocks (arena h) bs)) []"
    and "arena_size (gc_sweep h) = arena_size h"
proof -
  have "sweepable CL_ALIGN (h \<lparr> free_list := 0, total_allocated := 0 \<rparr>) bs []"
    using assms by (auto simp: heap_walk_def sweepable_def CL_ALIGN_def GC_HDR_PAGE_def)
  from sweep_loop_refines [OF this] sweep_loop_frame [of CL_ALIGN "h \<lparr> free_list := 0, total_allocated := 0 \<rparr>"]
  show "swept CL_ALIGN (h \<lparr> free_list := 0, total_allocated := 0 \<rparr>) (gc_sweep h) (sweep_spec (blocks (arena h) bs)) []"
    and "arena_size (gc_sweep h) = arena_size h"
    by (simp_all add: gc_sweep_def swept_def)
qed

lemma gc_sweep_watch: "watch_ok (gc_sweep h)"
  by (simp add: gc_sweep_def)

lemma gc_sweep_heap:
  assumes walk: "heap_walk h bs"
  defines "ss \<equiv> sweep_spec (blocks (arena h) bs)"
  shows "heap_ok (gc_sweep h) (map seg_off ss) (rev (frees ss))" "index_ok (gc_sweep h) (map seg_off ss)"
    and "\<forall>p. hdr_at (gc_sweep h) p = None \<longleftrightarrow> hdr_at h p = None"
    and "set (map seg_off ss) - set (frees ss) = {b \<in> set bs. CL_HDR_MARKED (arena h b)}"
    and "\<forall>b\<in>set bs. CL_HDR_MARKED (arena h b) \<longrightarrow> arena (gc_sweep h) b = CL_HDR_CLR_MARK (arena h b)
           \<and> (\<forall>x. b < x \<and> x < b + hsize (arena h b) \<longrightarrow> arena (gc_sweep h) x = arena h x)"
    and "bump (gc_sweep h) = bump h"
proof -
  note S = swept_heap [OF walk gc_sweep_swept(1) [OF walk] gc_sweep_swept(2) [OF walk], folded ss_def]
  show "heap_ok (gc_sweep h) (map seg_off ss) (rev (frees ss))" "index_ok (gc_sweep h) (map seg_off ss)"
    "\<forall>p. hdr_at (gc_sweep h) p = None \<longleftrightarrow> hdr_at h p = None"
    "set (map seg_off ss) - set (frees ss) = {b \<in> set bs. CL_HDR_MARKED (arena h b)}"
    "\<forall>b\<in>set bs. CL_HDR_MARKED (arena h b) \<longrightarrow> arena (gc_sweep h) b = CL_HDR_CLR_MARK (arena h b)
           \<and> (\<forall>x. b < x \<and> x < b + hsize (arena h b) \<longrightarrow> arena (gc_sweep h) x = arena h x)"
    by (fact S(1) S(2) [OF gc_sweep_watch] S(3-5))+
  show "bump (gc_sweep h) = bump h" using gc_sweep_swept(1) [OF walk] by (simp add: swept_def)
qed

end
