(* ===== verification/Arena_Alloc.thy ===== *)
theory Arena_Alloc
  imports Arena_Sweep
begin

text \<open>
  The allocator: a block placed at the front, a whole free block, and the front part of a free
  block each leave a well-formed heap; the walk of the free list is a bounded first fit.  The
  locale \<open>block_allocator\<close> states what a client needs of an allocator.
\<close>

section \<open>Placing a block\<close>

lemma chain_sum: "chain m a bs e \<Longrightarrow> (\<Sum>b\<in>set bs. hsize (m b)) = e - a"
proof (induction bs arbitrary: a)
  case (Cons b bs)
  then have "b \<notin> set bs" using chain_sorted by fastforce
  then show ?case using Cons chain_le by fastforce
qed simp

text \<open>The outcome of an allocation: the heap is well formed again, the new block is fresh, zeroed and
  headed by its type and size, and no word of an allocated block has changed.\<close>

definition placed :: "u32 \<Rightarrow> nat \<Rightarrow> nat \<Rightarrow> cl_heap \<Rightarrow> nat list \<Rightarrow> nat list \<Rightarrow> cl_heap \<Rightarrow> nat list \<Rightarrow> nat list \<Rightarrow> bool" where
  "placed type off sz h bs fs h' bs' fs' \<longleftrightarrow> heap_ok h' bs' fs' \<and> arena_size h' = arena_size h
     \<and> off \<notin> set bs - set fs \<and> set bs' - set fs' = insert off (set bs - set fs)
     \<and> arena h' off = CL_MAKE_HDR type (of_nat sz) \<and> hsize (arena h' off) = sz
     \<and> (\<forall>x. off + 4 \<le> x \<and> x < off + sz \<longrightarrow> arena h' x = 0)
     \<and> (\<forall>b\<in>set bs - set fs. \<forall>x. b \<le> x \<and> x < b + hsize (arena h b) \<longrightarrow> arena h' x = arena h x)
     \<and> (index_ok h bs \<longrightarrow> index_ok h' bs' \<and> (\<forall>p. hdr_at h' p = None \<longleftrightarrow> hdr_at h p = None))"

lemma make_hdr_size: "sz \<le> max_block \<Longrightarrow> hsize (CL_MAKE_HDR type (of_nat sz)) = sz"
  and make_hdr_unmarked: "\<not> CL_HDR_MARKED (CL_MAKE_HDR type s)"
proof -
  assume sz: "sz \<le> max_block"
  have "hsize (CL_MAKE_HDR type (of_nat sz)) = unat (of_nat sz AND mask 23 :: u32)" by (simp add: hsize_def hdr_size_make)
  also have "\<dots> = unat (of_nat sz :: u32) mod 2 ^ 23" unfolding take_bit_eq_mask [symmetric] unsigned_take_bit_eq by (rule take_bit_eq_mod)
  also have "\<dots> = sz" using sz by (simp add: free_word(1) max_block_def)
  finally show "hsize (CL_MAKE_HDR type (of_nat sz)) = sz" .
next
  show "\<not> CL_HDR_MARKED (CL_MAKE_HDR type s)" by (auto simp: marked_bit CL_MAKE_HDR_def CL_HDR_SIZE_MASK_def bit_simps)
qed

lemma placedI:
  assumes old: "heap_ok h bs fs" and walk: "heap_walk h' bs'" and ln: "links (arena h') (free_list h') fs'" "distinct fs'" "set fs' \<subseteq> set bs'"
    and fr: "\<forall>f\<in>set fs'. unat (arena h' f) = hsize (arena h' f) \<and> \<not> CL_HDR_MARKED (arena h' f)"
    and new: "set bs' - set fs' = insert off (set bs - set fs)" "off \<notin> set bs - set fs"
    and hdr: "arena h' off = CL_MAKE_HDR type (of_nat sz)" "sz \<le> max_block" "\<forall>x. off + 4 \<le> x \<and> x < off + sz \<longrightarrow> arena h' x = 0"
    and keep: "\<forall>b\<in>set bs - set fs. \<forall>x. b \<le> x \<and> x < b + hsize (arena h b) \<longrightarrow> arena h' x = arena h x"
    and tot: "total_allocated h' = (total_allocated h + sz) mod 2 ^ 32" "arena_size h' = arena_size h"
    and ix: "index_ok h bs \<longrightarrow> index_ok h' bs' \<and> (\<forall>p. hdr_at h' p = None \<longleftrightarrow> hdr_at h p = None)"
  shows "placed type off sz h bs fs h' bs' fs'"
proof -
  have hd: "arena h' b = arena h b \<and> \<not> CL_HDR_MARKED (arena h b)" if "b \<in> set bs - set fs" for b
    using that keep old chain_ge [of "arena h" CL_ALIGN bs "bump h" b] by (force simp: heap_ok_def heap_walk_def)
  have sz: "hsize (arena h' off) = sz" by (simp add: hdr make_hdr_size)
  have "(\<Sum>b\<in>set bs' - set fs'. hsize (arena h' b)) = sz + (\<Sum>b\<in>set bs - set fs. hsize (arena h' b))"
    using new sz by simp
  also have "\<dots> = total_allocated h + sz" using old hd by (simp add: heap_ok_def)
  finally have s: "(\<Sum>b\<in>set bs' - set fs'. hsize (arena h' b)) = total_allocated h + sz" .
  have "(\<Sum>b\<in>set bs' - set fs'. hsize (arena h' b)) \<le> (\<Sum>b\<in>set bs'. hsize (arena h' b))" by (intro sum_mono2) auto
  also have "\<dots> < 2 ^ 32" using walk chain_sum [of "arena h'" CL_ALIGN bs' "bump h'"] by (auto simp: heap_walk_def GC_HDR_PAGE_def CL_ALIGN_def)
  finally have "total_allocated h' = (\<Sum>b\<in>set bs' - set fs'. hsize (arena h' b))" using s tot(1) by simp
  moreover have "\<not> CL_HDR_MARKED (arena h' b)" if "b \<in> set bs'" for b
    using that fr new(1) hd [of b] hdr(1) make_hdr_unmarked by (cases "b \<in> set fs'"; cases "b = off") auto
  ultimately show ?thesis using assms sz unfolding placed_def heap_ok_def by simp
qed

section \<open>The bump front\<close>

lemma zero_words_simps [simp]:
  "off \<le> x \<Longrightarrow> x < off + sz \<Longrightarrow> zero_words off sz m x = 0" "x < off \<Longrightarrow> zero_words off sz m x = m x"
  "off + sz \<le> x \<Longrightarrow> zero_words off sz m x = m x"
  by (simp_all add: zero_words_def)

lemma place_front:
  assumes ok: "heap_ok h bs fs" and sz: "CL_MIN_ALLOC_SIZE \<le> sz" "sz \<le> max_block" "bump h + sz \<le> arena_size h"
    and al: "CL_ALIGN dvd sz \<or> bump h + sz = arena_size h"
    and k: "arena k = (zero_words (bump h + 4) (sz - 4) (arena h))(bump h := CL_MAKE_HDR type (of_nat sz))"
      "bump k = bump h + sz" "free_list k = free_list h" "arena_size k = arena_size h" "total_allocated k = (total_allocated h + sz) mod 2 ^ 32"
    and ix: "watch_ok h \<longrightarrow> watch_ok k" "\<forall>p. watch_ok h \<longrightarrow> hdr_at k p = (if covers (bump h) sz p \<and> hdr_at h p \<noteq> None then Some (bump h) else hdr_at h p)"
  shows "placed type (bump h) sz h bs fs k (bs @ [bump h]) fs" "CL_ALIGN dvd bump h"
proof -
  note W = ok [unfolded heap_ok_def heap_walk_def]
  have c: "chain (arena h) CL_ALIGN bs (bump h)" using W by blast
  note G = chain_ge [OF c]
  have low: "arena k x = arena h x" if "x < bump h" for x using that by (simp add: k(1))
  have hd: "arena k b = arena h b" "b < bump h" if "b \<in> set bs" for b using G [OF that] low by auto
  show d: "CL_ALIGN dvd bump h" using W sz by (auto simp: CL_MIN_ALLOC_SIZE_def)
  have at: "hsize (arena k (bump h)) = sz" by (simp add: k(1) make_hdr_size sz(2))
  have "chain (arena k) CL_ALIGN bs (bump h)" using c chain_heads [of bs "arena k" "arena h"] hd by blast
  then have "chain (arena k) CL_ALIGN (bs @ [bump h]) (bump k)"
    using at k(2) sz(1) by (auto simp: chain_append CL_MIN_ALLOC_SIZE_def intro!: exI [of _ "bump h"])
  then have walk: "heap_walk k (bs @ [bump h])" using W d sz al k by (auto simp: heap_walk_def)
  have fs: "arena k f = arena h f" "arena k (f + 4) = arena h (f + 4)" "f \<in> set bs" if "f \<in> set fs" for f
    using G [of f] that W low by auto
  show "placed type (bump h) sz h bs fs k (bs @ [bump h]) fs"
  proof (rule placedI [OF ok walk])
    show "links (arena k) (free_list k) fs" using W k(3) links_cong [of fs "arena k" "arena h"] fs by simp
    show "\<forall>f\<in>set fs. unat (arena k f) = hsize (arena k f) \<and> \<not> CL_HDR_MARKED (arena k f)" using W fs by auto
    show "set (bs @ [bump h]) - set fs = insert (bump h) (set bs - set fs)" "bump h \<notin> set bs - set fs" using W hd(2) by auto
    show "\<forall>b\<in>set bs - set fs. \<forall>x. b \<le> x \<and> x < b + hsize (arena h b) \<longrightarrow> arena k x = arena h x"
      using G low by (meson DiffD1 less_le_trans)
    show "index_ok h bs \<longrightarrow> index_ok k (bs @ [bump h]) \<and> (\<forall>p. hdr_at k p = None \<longleftrightarrow> hdr_at h p = None)"
    proof (intro impI conjI)
      assume i: "index_ok h bs"
      have "hdr_at k p = Some b" if "b \<in> set (bs @ [bump h])" "covers b (hsize (arena k b)) p" "hdr_at k p \<noteq> None" for b p
      proof (cases "b = bump h")
        case True
        then show ?thesis using that(2,3) at ix(2) [rule_format, of p] i by (auto simp: index_ok_def split: if_splits)
      next
        case False
        then have b: "b \<in> set bs" "covers b (hsize (arena h b)) p" using that hd by auto
        then have "\<not> covers (bump h) sz p" using G [OF b(1)] by linarith
        then have "hdr_at k p = hdr_at h p" using ix(2) [rule_format, of p] i by (auto simp: index_ok_def)
        then show ?thesis using index_okD [OF i b] that(3) by simp
      qed
      then show "index_ok k (bs @ [bump h])" using i ix(1) by (simp add: index_ok_def)
      show "\<forall>p. hdr_at k p = None \<longleftrightarrow> hdr_at h p = None" using i ix(2) by (simp add: index_ok_def)
    qed
  qed (use W k sz in \<open>auto simp: CL_MIN_ALLOC_SIZE_def\<close>)
qed

section \<open>The free list\<close>

lemma links_replace:
  assumes "links m p (us @ c # vs)" "distinct (us @ c # vs)" "unat (of_nat q :: u32) = q" "links m' q vs'"
    and "us \<noteq> [] \<Longrightarrow> m' (last us + 4) = of_nat q" "\<And>f. f \<in> set us \<Longrightarrow> f \<noteq> last us \<Longrightarrow> m' (f + 4) = m (f + 4)"
  shows "links m' (if us = [] then q else p) (us @ vs')"
  using assms
proof (induction us arbitrary: p)
  case (Cons u us)
  show ?case
  proof (cases "us = []")
    case True
    then show ?thesis using Cons.prems by simp
  next
    case False
    have "last us \<in> set us" using False by simp
    then have "u \<noteq> last us" using Cons.prems(2) by auto
    then have "m' (u + 4) = m (u + 4)" using Cons.prems(6) [of u] False by simp
    moreover have "links m' (unat (m (u + 4))) (us @ vs')"
      using Cons.IH [of "unat (m (u + 4))"] Cons.prems False by simp
    ultimately show ?thesis using Cons.prems(1) by simp
  qed
qed simp

abbreviation prev_of :: "nat list \<Rightarrow> nat option" where
  "prev_of us \<equiv> (if us = [] then None else Some (last us))"

lemma set_link_simps [simp]:
  "arena (set_link None v h) = arena h" "free_list (set_link None v h) = v"
  "arena (set_link (Some b) v h) = (arena h)(b + 4 := of_nat v)" "free_list (set_link (Some b) v h) = free_list h"
  "bump (set_link p v h) = bump h" "arena_size (set_link p v h) = arena_size h" "total_allocated (set_link p v h) = total_allocated h"
  by (simp_all add: set_link_def split: option.splits)

lemma chain_sizes: "(\<And>b. b \<in> set bs \<Longrightarrow> hsize (m b) = hsize (m' b)) \<Longrightarrow> chain m a bs e \<longleftrightarrow> chain m' a bs e"
  by (induction bs arbitrary: a) auto

text \<open>The blocks around a free block, and what the taken block leaves of the arena.\<close>

lemma free_block:
  assumes ok: "heap_ok h bs (us @ cur # vs)"
  defines "n \<equiv> hsize (arena h cur)"
  shows "unat (arena h cur) = n" "cur \<in> set bs" "0 < cur" "cur + n \<le> bump h" "8 \<le> n" "n \<le> max_block" "bump h < 2 ^ 32"
    and "\<And>b. b \<in> set bs \<Longrightarrow> b \<noteq> cur \<Longrightarrow> b + hsize (arena h b) \<le> cur \<or> cur + n \<le> b"
    and "\<And>b. b \<in> set bs \<Longrightarrow> 8 \<le> hsize (arena h b)"
    and "\<And>f. f \<in> set us \<union> set vs \<Longrightarrow> f \<in> set bs \<and> f \<noteq> cur"
    and "links (arena h) (unat (arena h (cur + 4))) vs"
proof -
  note W = ok [unfolded heap_ok_def heap_walk_def]
  have c: "chain (arena h) CL_ALIGN bs (bump h)" using W by blast
  show cur: "cur \<in> set bs" "unat (arena h cur) = n" using W by (auto simp: n_def)
  note G = chain_ge [OF c]
  show "0 < cur" "cur + n \<le> bump h" "8 \<le> n" using G [OF cur(1)] by (auto simp: n_def CL_ALIGN_def)
  show "n \<le> max_block" by (simp add: n_def hsize_max)
  show "bump h < 2 ^ 32" using W by (auto simp: GC_HDR_PAGE_def)
  show "b + hsize (arena h b) \<le> cur \<or> cur + n \<le> b" if "b \<in> set bs" "b \<noteq> cur" for b
    using chain_disjoint [OF c] that cur(1) by (metis n_def nat_neq_iff)
  show "8 \<le> hsize (arena h b)" if "b \<in> set bs" for b using G [OF that] by blast
  show "f \<in> set bs \<and> f \<noteq> cur" if "f \<in> set us \<union> set vs" for f using W that by auto
  have "links (arena h) p (us @ cur # vs) \<Longrightarrow> links (arena h) (unat (arena h (cur + 4))) vs" for p by (induction us arbitrary: p) auto
  then show "links (arena h) (unat (arena h (cur + 4))) vs" using W by blast
qed

lemma links_head: "links m p bs \<Longrightarrow> (\<And>b. b \<in> set bs \<Longrightarrow> b < e) \<Longrightarrow> 0 < e \<Longrightarrow> p < e"
  by (cases bs) auto

text \<open>What holds of an arena that differs from the old one only inside the block at \<open>cur\<close> and in
  the link that led to it.\<close>

lemma taken:
  assumes ok: "heap_ok h bs (us @ cur # vs)"
  defines "n \<equiv> hsize (arena h cur)"
  assumes out: "\<forall>x. (x < cur \<or> cur + n \<le> x) \<and> (us = [] \<or> x \<noteq> last us + 4) \<longrightarrow> m x = arena h x"
    and q: "us \<noteq> [] \<longrightarrow> m (last us + 4) = of_nat q" "q < 2 ^ 32"
  shows "\<And>b. b \<in> set bs \<Longrightarrow> b \<noteq> cur \<Longrightarrow> m b = arena h b"
    and "links m (unat (arena h (cur + 4))) vs"
    and "\<And>vs'. links m q vs' \<Longrightarrow> links m (if us = [] then q else free_list h) (us @ vs')"
    and "\<forall>b\<in>set bs - set (us @ cur # vs). \<forall>x. b \<le> x \<and> x < b + hsize (arena h b) \<longrightarrow> m x = arena h x"
proof -
  note F = free_block [OF ok, folded n_def]
  note W = ok [unfolded heap_ok_def heap_walk_def]
  have lu: "us \<noteq> [] \<Longrightarrow> last us \<in> set us" by simp
  have apart: "us = [] \<or> x \<noteq> last us + 4" if "b \<in> set bs" "b \<noteq> last us" "b \<le> x" "x < b + hsize (arena h b)" for b x
    using W chain_disjoint [of "arena h" CL_ALIGN bs "bump h" "last us" b] chain_disjoint [of "arena h" CL_ALIGN bs "bump h" b "last us"]
      that lu F(9,10) [of "last us"] by fastforce
  have whole: "m x = arena h x" if "b \<in> set bs" "b \<noteq> cur" "us = [] \<or> x \<noteq> last us + 4" "b \<le> x" "x < b + hsize (arena h b)" for b x
    using F(8) [of b] that out by (metis leI le_trans less_le_trans)
  show "m b = arena h b" if "b \<in> set bs" "b \<noteq> cur" for b
    using whole [OF that, of b] apart [OF that(1), of b] F(9) [OF that(1)] by fastforce
  have lk: "m (f + 4) = arena h (f + 4)" if "f \<in> set us \<union> set vs" "us = [] \<or> f \<noteq> last us" for f
    using whole [of f "f + 4"] F(9) [of f] F(10) [OF that(1)] that(2) by fastforce
  have dst: "distinct (us @ cur # vs)" and l0: "links (arena h) (free_list h) (us @ cur # vs)" using W by blast+
  have "f \<noteq> last us" if "f \<in> set vs" "us \<noteq> []" for f using dst lu that by (simp only: distinct_append list.set) blast
  then show "links m (unat (arena h (cur + 4))) vs" using F(11) links_cong [of vs m "arena h"] lk by blast
  show "links m (if us = [] then q else free_list h) (us @ vs')" if "links m q vs'" for vs'
    using l0 dst q lk that by (intro links_replace [of "arena h" _ us cur vs]) (auto simp: unat_of_nat take_bit_eq_mod)
  show "\<forall>b\<in>set bs - set (us @ cur # vs). \<forall>x. b \<le> x \<and> x < b + hsize (arena h b) \<longrightarrow> m x = arena h x"
  proof (intro ballI allI impI)
    fix b x assume b: "b \<in> set bs - set (us @ cur # vs)" and x: "b \<le> x \<and> x < b + hsize (arena h b)"
    have "us = [] \<or> x \<noteq> last us + 4" using apart [of b x] b x lu by fastforce
    then show "m x = arena h x" using whole [of b x] b x by auto
  qed
qed

text \<open>The whole block is taken.\<close>

lemma place_whole:
  assumes ok: "heap_ok h bs (us @ cur # vs)"
  defines "n \<equiv> hsize (arena h cur)" and "q \<equiv> unat (arena h (cur + 4))"
  assumes k: "arena k = (zero_words (cur + 4) (n - 4) (zero_words cur n (arena (set_link (prev_of us) q h))))(cur := CL_MAKE_HDR type (of_nat n))"
      "free_list k = free_list (set_link (prev_of us) q h)" "bump k = bump h" "arena_size k = arena_size h"
      "total_allocated k = (total_allocated h + n) mod 2 ^ 32"
    and ix: "watch_ok h \<Longrightarrow> watch_ok k" "hdr_at k = hdr_at h"
  shows "placed type cur n h bs (us @ cur # vs) k bs (us @ vs)"
proof -
  note F = free_block [OF ok, folded n_def q_def]
  note W = ok [unfolded heap_ok_def heap_walk_def]
  have out: "\<forall>x. (x < cur \<or> cur + n \<le> x) \<and> (us = [] \<or> x \<noteq> last us + 4) \<longrightarrow> arena k x = arena h x"
    using F(5) by (auto simp: k(1) zero_words_def)
  have ql: "us \<noteq> [] \<longrightarrow> arena k (last us + 4) = of_nat q"
    using F(8,9,10) [of "last us"] by (force simp: k(1) zero_words_def)
  have q: "q < 2 ^ 32" unfolding q_def using unsigned_less [of "arena h (cur + 4)"] by simp
  note T = taken [OF ok, folded n_def, OF out ql q, folded q_def]
  have links: "links (arena k) (free_list k) (us @ vs)" using T(3) [OF T(2)] by (simp add: k(2) split: if_splits)
  have at: "arena k cur = CL_MAKE_HDR type (of_nat n)" "hsize (arena k cur) = n" by (simp_all add: k(1) make_hdr_size F(6))
  have "chain (arena k) CL_ALIGN bs (bump h) \<longleftrightarrow> chain (arena h) CL_ALIGN bs (bump h)"
    by (rule chain_sizes) (metis at(2) T(1) n_def)
  then have walk: "heap_walk k bs" using W k(3,4) by (simp add: heap_walk_def)
  show ?thesis
  proof (rule placedI [OF ok walk links])
    show "\<forall>f\<in>set (us @ vs). unat (arena k f) = hsize (arena k f) \<and> \<not> CL_HDR_MARKED (arena k f)" using W T(1) F(10) by auto
    show "\<forall>x. cur + 4 \<le> x \<and> x < cur + n \<longrightarrow> arena k x = 0" by (simp add: k(1))
    have "hsize (arena k b) = hsize (arena h b)" if "b \<in> set bs" for b using at(2) T(1) [OF that] by (cases "b = cur") (simp_all add: n_def)
    then show "index_ok h bs \<longrightarrow> index_ok k bs \<and> (\<forall>p. hdr_at k p = None \<longleftrightarrow> hdr_at h p = None)" using ix by (simp add: index_ok_def)
    show "set bs - set (us @ vs) = insert cur (set bs - set (us @ cur # vs))" using W F(2) by auto
  qed (use W at F(6) T(4) k in auto)
qed

text \<open>The front of the block is taken, the rest stays free.\<close>

lemma place_split:
  assumes ok: "heap_ok h bs (us @ cur # vs)" and sz: "CL_MIN_ALLOC_SIZE \<le> sz" "CL_ALIGN dvd sz"
  defines "n \<equiv> hsize (arena h cur)" and "new \<equiv> cur + sz"
  assumes rest: "sz + CL_MIN_ALLOC_SIZE \<le> n" 
    and k: "arena k = (zero_words (cur + 4) (sz - 4) (zero_words cur sz (arena (set_link (prev_of us) new
        (h \<lparr> arena := (arena h)(new := of_nat (n - sz), new + 4 := arena h (cur + 4)) \<rparr>)))))(cur := CL_MAKE_HDR type (of_nat sz))"
      "free_list k = free_list (set_link (prev_of us) new h)" "bump k = bump h" "arena_size k = arena_size h"
      "total_allocated k = (total_allocated h + sz) mod 2 ^ 32"
    and ix: "watch_ok h \<Longrightarrow> watch_ok k" "hdr_at k = note_seg new (n - sz) (note_seg cur sz (hdr_at h))"
  shows "\<exists>bs'. placed type cur sz h bs (us @ cur # vs) k bs' (us @ new # vs)"
proof -
  note F = free_block [OF ok, folded n_def]
  note W = ok [unfolded heap_ok_def heap_walk_def]
  have r: "16 \<le> n - sz" "16 \<le> sz" "sz < n" "n - sz \<le> max_block" "sz \<le> max_block" using rest sz F(6) by (simp_all add: CL_MIN_ALLOC_SIZE_def)
  have lu: "us \<noteq> [] \<Longrightarrow> last us \<in> set bs \<and> last us \<noteq> cur" using F(10) [of "last us"] by simp
  have away: "us \<noteq> [] \<Longrightarrow> last us + 8 \<le> cur \<or> cur + n \<le> last us" using F(8,9) [of "last us"] lu by fastforce
  have out: "\<forall>x. (x < cur \<or> cur + n \<le> x) \<and> (us = [] \<or> x \<noteq> last us + 4) \<longrightarrow> arena k x = arena h x"
    using r by (auto simp: k(1) zero_words_def new_def)
  have ql: "us \<noteq> [] \<longrightarrow> arena k (last us + 4) = of_nat new" using away r by (auto simp: k(1) zero_words_def new_def)
  have q: "new < 2 ^ 32" using F(4,7) r(3) by (simp add: new_def)
  note T = taken [OF ok, folded n_def, OF out ql q]
  have rem: "arena k new = of_nat (n - sz)" "arena k (new + 4) = arena h (cur + 4)"
    using r away by (auto simp: k(1) zero_words_def new_def)
  have fw: "unat (arena k new) = n - sz" "hsize (arena k new) = n - sz" "\<not> CL_HDR_MARKED (arena k new)" unfolding rem(1) by (intro free_word r(4))+
  have "links (arena k) new (new # vs)" using T(2) rem(2) F(3) by (simp add: new_def)
  from T(3) [OF this] have links: "links (arena k) (free_list k) (us @ new # vs)" by (simp add: k(2) split: if_splits)
  have at: "arena k cur = CL_MAKE_HDR type (of_nat sz)" "hsize (arena k cur) = sz" by (simp_all add: k(1) make_hdr_size r(5))
  obtain xs ys where bs: "bs = xs @ cur # ys" using F(2) by (meson split_list)
  have fresh: "new \<notin> set bs" using F(8,9) [of new] r by (fastforce simp: new_def)
  have dst: "distinct bs" using W chain_sorted by blast
  have "chain (arena h) CL_ALIGN xs cur" "chain (arena h) (cur + n) ys (bump h)"
    using W by (auto simp: bs chain_append n_def)
  moreover have "arena k b = arena h b" if "b \<in> set xs \<union> set ys" for b using T(1) [of b] bs dst that by auto
  ultimately have "chain (arena k) CL_ALIGN xs cur" "chain (arena k) (cur + n) ys (bump h)"
    using chain_heads [of xs "arena k" "arena h"] chain_heads [of ys "arena k" "arena h"] by blast+
  then have "chain (arena k) CL_ALIGN (xs @ cur # new # ys) (bump h)"
    using at(2) fw(2) r by (auto simp: chain_append new_def intro!: exI [of _ cur])
  then have walk: "heap_walk k (xs @ cur # new # ys)" using W k(3,4) sz(2) by (auto simp: heap_walk_def bs new_def)
  have "placed type cur sz h bs (us @ cur # vs) k (xs @ cur # new # ys) (us @ new # vs)"
  proof (rule placedI [OF ok walk links])
    show "\<forall>f\<in>set (us @ new # vs). unat (arena k f) = hsize (arena k f) \<and> \<not> CL_HDR_MARKED (arena k f)" using W T(1) F(10) fw by auto
    show "\<forall>x. cur + 4 \<le> x \<and> x < cur + sz \<longrightarrow> arena k x = 0" by (simp add: k(1))
    show "index_ok h bs \<longrightarrow> index_ok k (xs @ cur # new # ys) \<and> (\<forall>p. hdr_at k p = None \<longleftrightarrow> hdr_at h p = None)"
    proof (intro impI conjI)
      assume i: "index_ok h bs"
      have "hdr_at k p = Some b" if b: "b \<in> set (xs @ cur # new # ys)" and p: "covers b (hsize (arena k b)) p" "hdr_at k p \<noteq> None" for b p
      proof (cases "b = cur \<or> b = new")
        case True
        then show ?thesis using p at(2) fw(2) unfolding ix(2) note_seg_def new_def by (auto split: if_splits)
      next
        case False
        then have o: "b \<in> set bs" "b \<noteq> cur" using b bs by auto
        then have c: "covers b (hsize (arena h b)) p" using p T(1) by simp
        then have "\<not> covers cur sz p" "\<not> covers new (n - sz) p" using F(8) [OF o] r(3) by (auto simp: new_def)
        then have "hdr_at k p = hdr_at h p" unfolding ix(2) note_seg_def by auto
        then show ?thesis using index_okD [OF i o(1) c] p(2) by simp
      qed
      then show "index_ok k (xs @ cur # new # ys)" using i ix(1) by (simp add: index_ok_def)
      show "\<forall>p. hdr_at k p = None \<longleftrightarrow> hdr_at h p = None" by (simp add: ix(2) note_seg_def)
    qed
    show "distinct (us @ new # vs)" "set (us @ new # vs) \<subseteq> set (xs @ cur # new # ys)" using W fresh bs by auto
    show "set (xs @ cur # new # ys) - set (us @ new # vs) = insert cur (set bs - set (us @ cur # vs))" using W fresh bs F(10) r by (auto simp: new_def)
  qed (use at r T(4) k in auto)
  then show ?thesis by blast
qed

lemma hdr_note_frame [simp]:
  "arena (gc_hdr_note o' s h) = arena h" "free_list (gc_hdr_note o' s h) = free_list h" "bump (gc_hdr_note o' s h) = bump h"
  "arena_size (gc_hdr_note o' s h) = arena_size h" "total_allocated (gc_hdr_note o' s h) = total_allocated h"
  by (simp_all add: gc_hdr_note_def Let_def split: option.splits)

lemma hdr_note_bump_frame [simp]:
  "arena (gc_hdr_note_bump o' s h) = arena h" "free_list (gc_hdr_note_bump o' s h) = free_list h" "bump (gc_hdr_note_bump o' s h) = bump h"
  "arena_size (gc_hdr_note_bump o' s h) = arena_size h" "total_allocated (gc_hdr_note_bump o' s h) = total_allocated h"
  by (simp_all add: gc_hdr_note_bump_def gc_hdr_bump_reset_def)

lemma watch_ok_cong: "gc_hdr_page h = gc_hdr_page k \<Longrightarrow> gc_hdr_bump_watch h = gc_hdr_bump_watch k \<Longrightarrow> bump h = bump k \<Longrightarrow> watch_ok h = watch_ok k"
  by (simp add: watch_ok_def)

lemma index_frame:
  "gc_hdr_page (set_link p v h) = gc_hdr_page h" "gc_hdr_bump_watch (set_link p v h) = gc_hdr_bump_watch h"
  "gc_hdr_bump_watch (gc_hdr_note_crossing o' s h) = gc_hdr_bump_watch h"
  "(gc_hdr_page (gc_hdr_note_crossing o' s h) = None) = (gc_hdr_page h = None)"
  by (simp_all add: set_link_def gc_hdr_note_crossing_def gc_hdr_note_def Let_def split: option.splits)

text \<open>The heap once the block is accounted and headed.\<close>

definition headed :: "u32 \<Rightarrow> nat \<Rightarrow> nat \<Rightarrow> cl_heap \<Rightarrow> cl_heap" where
  "headed type off sz h = h \<lparr> total_allocated := (total_allocated h + sz) mod 2 ^ 32, total_consed := (total_consed h + sz) mod 2 ^ 32,
     arena := (zero_words (off + 4) (sz - 4) (arena h))(off := CL_MAKE_HDR type (of_nat sz)) \<rparr>"

lemma headed_index [simp]: "hdr_at (headed type off sz h) = hdr_at h" "watch_ok (headed type off sz h) = watch_ok h"
  by (simp_all add: headed_def hdr_at_def watch_ok_def fun_eq_iff)

lemma take_block_index:
  fixes prev cur sz h
  defines "n \<equiv> unat (arena h cur)" and "k \<equiv> snd (snd (take_block prev cur sz h))"
  assumes "0 < sz"
  shows "hdr_at k = (if n - sz \<ge> CL_MIN_ALLOC_SIZE then note_seg (cur + sz) (n - sz) (note_seg cur sz (hdr_at h)) else hdr_at h)"
    and "watch_ok k = watch_ok h"
proof -
  have r: "CL_MIN_ALLOC_SIZE \<le> r \<Longrightarrow> 0 < r" for r by (simp add: CL_MIN_ALLOC_SIZE_def)
  show "hdr_at k = (if n - sz \<ge> CL_MIN_ALLOC_SIZE then note_seg (cur + sz) (n - sz) (note_seg cur sz (hdr_at h)) else hdr_at h)"
  proof (cases "n - sz \<ge> CL_MIN_ALLOC_SIZE")
    case True
    let ?g = "set_link prev (cur + sz) (h \<lparr> arena := (arena h)(cur + sz := of_nat (n - sz), cur + sz + 4 := of_nat (unat (arena h (cur + 4)))) \<rparr>)"
    let ?a = "gc_hdr_note_crossing cur sz ?g"
    have "hdr_at k = hdr_at (gc_hdr_note_crossing (cur + sz) (n - sz) ?a)"
      using True by (intro hdr_at_cong) (simp add: k_def n_def take_block_def Let_def)
    also have "\<dots> = note_seg (cur + sz) (n - sz) (hdr_at ?a)" by (rule hdr_at_seg [OF r [OF True] refl])
    also have "hdr_at ?a = note_seg cur sz (hdr_at h)" by (rule hdr_at_seg [OF assms(3)]) (simp add: index_frame)
    finally show ?thesis using True by simp
  next
    case False
    then have "hdr_at k = hdr_at h" by (intro hdr_at_cong) (simp add: k_def n_def take_block_def Let_def index_frame)
    then show ?thesis using False by simp
  qed
  show "watch_ok k = watch_ok h" by (simp add: k_def take_block_def Let_def watch_ok_def index_frame del: not_None_eq)
qed

lemma steps_irrelevant [simp]:
  "heap_ok (h \<lparr> freelist_steps := n \<rparr>) bs fs = heap_ok h bs fs" "index_ok (h \<lparr> freelist_steps := n \<rparr>) bs = index_ok h bs"
  "placed type off sz (h \<lparr> freelist_steps := n \<rparr>) bs fs = placed type off sz h bs fs"
  by (intro ext | simp add: heap_ok_def heap_walk_def placed_def index_ok_def watch_ok_def hdr_at_def)+

lemma take_block_placed:
  assumes ok: "heap_ok h bs (us @ cur # vs)" and sz: "CL_MIN_ALLOC_SIZE \<le> sz" "CL_ALIGN dvd sz" "sz \<le> unat (arena h cur)"
  obtains sz' k bs' fs' where "take_block (prev_of us) cur sz h = (cur, sz', k)" "sz \<le> sz'"
    "placed type cur sz' h bs (us @ cur # vs) (headed type cur sz' k) bs' fs'"
proof (cases "unat (arena h cur) - sz \<ge> CL_MIN_ALLOC_SIZE")
  case True
  have pos: "0 < sz" using sz(1) by (simp add: CL_MIN_ALLOC_SIZE_def)
  let ?k = "snd (snd (take_block (prev_of us) cur sz h))"
  have n: "unat (arena h cur) = hsize (arena h cur)" by (rule free_block(1) [OF ok])
  have t: "take_block (prev_of us) cur sz h = (cur, sz, ?k)" using True by (simp add: take_block_def Let_def)
  have "\<exists>bs'. placed type cur sz h bs (us @ cur # vs) (headed type cur sz ?k) bs' (us @ (cur + sz) # vs)"
  proof (rule place_split [OF ok sz(1,2)])
    show "hdr_at (headed type cur sz ?k) = note_seg (cur + sz) (hsize (arena h cur) - sz) (note_seg cur sz (hdr_at h))"
      using True pos by (simp add: take_block_index n)
    show "watch_ok h \<Longrightarrow> watch_ok (headed type cur sz ?k)" using pos by (simp add: take_block_index)
  qed (use True in \<open>simp_all add: headed_def take_block_def Let_def n CL_MIN_ALLOC_SIZE_def\<close>)
  then show ?thesis using that [OF t order_refl] by blast
next
  case False
  have pos: "0 < sz" using sz(1) by (simp add: CL_MIN_ALLOC_SIZE_def)
  let ?n = "unat (arena h cur)" and ?k = "snd (snd (take_block (prev_of us) cur sz h))"
  have n: "hsize (arena h cur) = ?n" using free_block(1) [OF ok] by simp
  have t: "take_block (prev_of us) cur sz h = (cur, ?n, ?k)" using False by (simp add: take_block_def Let_def)
  have "placed type cur (hsize (arena h cur)) h bs (us @ cur # vs) (headed type cur (hsize (arena h cur)) ?k) bs (us @ vs)"
  proof (rule place_whole [OF ok])
    show "hdr_at (headed type cur (hsize (arena h cur)) ?k) = hdr_at h" using False pos by (simp add: take_block_index)
    show "watch_ok h \<Longrightarrow> watch_ok (headed type cur (hsize (arena h cur)) ?k)" using pos by (simp add: take_block_index)
  qed (use False n in \<open>simp_all add: headed_def take_block_def Let_def\<close>)
  then show ?thesis unfolding n by (rule that [OF t sz(3)])
qed

text \<open>The walk is a first fit, cut off after \<open>max_steps\<close> blocks.\<close>

abbreviation too_small :: "cl_heap \<Rightarrow> nat \<Rightarrow> nat list \<Rightarrow> nat list" where
  "too_small h sz fs \<equiv> takeWhile (\<lambda>f. unat (arena h f) < sz) fs"

lemma free_list_loop_first_fit:
  assumes "links (arena h) cur ys" "length ys < fuel"
  shows "\<exists>n. free_list_loop fuel prev cur steps sz mx h =
    (let us = too_small h sz ys in if length us < length ys \<and> (mx = 0 \<or> steps + length us < mx)
     then case take_block (if us = [] then prev else Some (last us)) (ys ! length us) sz (h \<lparr> freelist_steps := n \<rparr>)
            of (off, sz', k) \<Rightarrow> Some (Some (off, sz'), k)
     else Some (None, h \<lparr> freelist_steps := n \<rparr>))"
  using assms
proof (induction ys arbitrary: fuel prev cur steps h)
  case Nil
  then obtain f where "fuel = Suc f" by (auto simp: less_Suc_eq_0_disj gr0_conv_Suc)
  then show ?case using Nil by (intro exI [of _ "freelist_steps h"]) simp
next
  case (Cons y ys)
  then obtain f where f: "fuel = Suc f" "length ys < f" by (cases fuel) auto
  have y: "cur = y" "y \<noteq> 0" "links (arena h) (unat (arena h (y + 4))) ys" using Cons.prems(1) by auto
  let ?h = "h \<lparr> freelist_steps := (freelist_steps h + 1) mod 2 ^ 32 \<rparr>"
  show ?case
  proof (cases "mx \<noteq> 0 \<and> steps + 1 > mx")
    case True
    then show ?thesis using f y by (auto simp: Let_def)
  next
    case False
    show ?thesis
    proof (cases "unat (arena h y) \<ge> sz")
      case True
      then show ?thesis using f y False by (auto simp: Let_def)
    next
      case small: False
      have two: "h \<lparr> freelist_steps := a, freelist_steps := b \<rparr> = h \<lparr> freelist_steps := b \<rparr>" for a b by simp
      have step: "free_list_loop fuel prev cur steps sz mx h = free_list_loop f (Some y) (unat (arena h (y + 4))) (steps + 1) sz mx ?h"
        using f(1) y(1,2) False small by (auto simp: Let_def)
      obtain n where n: "free_list_loop f (Some y) (unat (arena h (y + 4))) (steps + 1) sz mx ?h =
        (let us = too_small h sz ys in
         if length us < length ys \<and> (mx = 0 \<or> steps + 1 + length us < mx)
         then case take_block (if us = [] then Some y else Some (last us)) (ys ! length us) sz (h \<lparr> freelist_steps := n \<rparr>)
                of (off, sz', k) \<Rightarrow> Some (Some (off, sz'), k)
         else Some (None, h \<lparr> freelist_steps := n \<rparr>))"
        using Cons.IH [of ?h "unat (arena h (y + 4))" f "Some y" "steps + 1"] y(3) f(2) unfolding two by auto
      have ts: "too_small h sz (y # ys) = y # too_small h sz ys" using small by simp
      show ?thesis unfolding step n ts by (intro exI [of _ n]) (auto simp: Let_def)
    qed
  qed
qed

section \<open>Allocation\<close>

lemma alloc_from_free_list_placed:
  assumes ok: "heap_ok h bs fs" and sz: "CL_MIN_ALLOC_SIZE \<le> sz" "CL_ALIGN dvd sz"
  obtains (missed) n where "alloc_from_free_list sz mx h = Some (None, h \<lparr> freelist_steps := n \<rparr>)"
      "\<forall>f\<in>set (if mx = 0 then fs else take mx fs). unat (arena h f) < sz"
  | (found) off sz' k bs' fs' where "alloc_from_free_list sz mx h = Some (Some (off, sz'), k)" "sz \<le> sz'"
      "off \<in> set fs" "placed type off sz' h bs fs (headed type off sz' k) bs' fs'"
proof -
  let ?us = "too_small h sz fs"
  have W: "links (arena h) (free_list h) fs" "distinct fs" "set fs \<subseteq> set bs" "chain (arena h) CL_ALIGN bs (bump h)"
    using ok by (simp_all add: heap_ok_def heap_walk_def)
  have "f < bump h" if "f \<in> set fs" for f using chain_ge [OF W(4), of f] W(3) that by fastforce
  then have "set fs \<subseteq> {..<bump h}" by blast
  then have "length fs \<le> card {..<bump h}" using W(2) by (metis distinct_card card_mono finite_lessThan)
  then obtain n where n: "alloc_from_free_list sz mx h = (let us = ?us in if length us < length fs \<and> (mx = 0 \<or> length us < mx)
     then case take_block (prev_of us) (fs ! length us) sz (h \<lparr> freelist_steps := n \<rparr>) of (off, sz', k) \<Rightarrow> Some (Some (off, sz'), k)
     else Some (None, h \<lparr> freelist_steps := n \<rparr>))"
    using free_list_loop_first_fit [OF W(1), of "Suc (bump h)" None 0 sz mx] by (auto simp: alloc_from_free_list_def)
  show thesis
  proof (cases "length ?us < length fs \<and> (mx = 0 \<or> length ?us < mx)")
    case True
    then have l: "length ?us < length fs" by blast
    have fs: "fs = ?us @ fs ! length ?us # drop (Suc (length ?us)) fs"
      using l by (metis append_take_drop_id Cons_nth_drop_Suc takeWhile_eq_take)
    have "\<not> unat (arena h (fs ! length ?us)) < sz" using l by (rule nth_length_takeWhile)
    then have "sz \<le> unat (arena (h \<lparr> freelist_steps := n \<rparr>) (fs ! length ?us))" by simp
    moreover have "heap_ok (h \<lparr> freelist_steps := n \<rparr>) bs (?us @ fs ! length ?us # drop (Suc (length ?us)) fs)"
      unfolding fs [symmetric] using ok by simp
    ultimately obtain sz' k bs' fs' where
      "take_block (prev_of ?us) (fs ! length ?us) sz (h \<lparr> freelist_steps := n \<rparr>) = (fs ! length ?us, sz', k)" "sz \<le> sz'"
      "placed type (fs ! length ?us) sz' h bs fs (headed type (fs ! length ?us) sz' k) bs' fs'"
      using take_block_placed [OF _ sz, of "h \<lparr> freelist_steps := n \<rparr>" bs ?us "fs ! length ?us" _ type] fs
      by (metis steps_irrelevant(3))
    then show thesis using found n True nth_mem [OF l] by (simp add: Let_def)
  next
    case False
    have pre: "unat (arena h f) < sz" if "f \<in> set ?us" for f using that by (rule set_takeWhileD [THEN conjunct2])
    have "set (if mx = 0 then fs else take mx fs) \<subseteq> set ?us"
    proof (cases "length ?us < length fs")
      case True
      then have mx: "mx \<noteq> 0" "mx \<le> length ?us" using False by auto
      have "set (take mx fs) \<subseteq> set ?us" using set_take_subset_set_take [OF mx(2), of fs] unfolding takeWhile_eq_take [symmetric] .
      then show ?thesis using mx(1) by simp
    next
      case False
      then have e: "?us = fs" by (metis length_takeWhile_le not_less take_all takeWhile_eq_take)
      show ?thesis unfolding e by (auto dest: in_set_takeD)
    qed
    then show thesis using missed [of n] n False pre by (auto simp: Let_def)
  qed
qed

lemma bump_fits: "cl_bump_fits b s a \<longleftrightarrow> unat b + unat s \<le> unat a"
proof (cases "s \<le> a")
  case True
  then have "unat (a - s) = unat a - unat s" by (rule unat_sub)
  then show ?thesis using True by (auto simp: cl_bump_fits_def word_le_nat_alt)
qed (auto simp: cl_bump_fits_def word_le_nat_alt)

lemma align_up_exact:
  assumes "unat r + 7 < 2 ^ 32"
  shows "unat (align_up r) = (unat r + 7) div 8 * 8"
proof -
  have m: "of_nat CL_ALIGN - 1 = (mask 3 :: u32)" by (simp add: CL_ALIGN_def mask_eq_exp_minus_1)
  have p: "r + of_nat CL_ALIGN - 1 = r + 7" by (simp add: CL_ALIGN_def)
  have "x AND NOT (mask 3) = push_bit 3 (drop_bit 3 x)" for x :: u32 by (rule bit_eqI) (auto simp: bit_simps)
  then have e: "align_up r = push_bit 3 (drop_bit 3 (r + 7))" unfolding align_up_def m p .
  have s: "unat (r + 7) = unat r + 7" using assms by (simp add: unat_add_lem [symmetric] unat_word_ariths)
  have d: "unat (drop_bit 3 (r + 7)) = (unat r + 7) div 8" by (simp only: unat_drop_bit_eq s) (simp add: drop_bit_eq_div)
  have "(unat r + 7) div 8 * 8 < 2 ^ 32" using assms by (meson div_times_less_eq_dividend le_less_trans)
  then show ?thesis unfolding e by (simp only: unsigned_push_bit_eq d) (simp add: push_bit_eq_mult take_bit_eq_mod mult.commute)
qed

text \<open>The size that is looked for, and the outcome of \<open>cl_alloc\<close>.\<close>

definition block_size :: "u32 \<Rightarrow> nat" where
  "block_size r = max (unat (align_up r)) CL_MIN_ALLOC_SIZE"

lemma block_size_laws:
  assumes "unat r \<le> max_block - 15"
  shows "CL_MIN_ALLOC_SIZE \<le> block_size r" "CL_ALIGN dvd block_size r" "unat r \<le> block_size r" "block_size r + 15 \<le> max_block"
proof -
  have "unat (align_up r) = (unat r + 7) div 8 * 8" using assms by (intro align_up_exact) (simp add: max_block_def)
  then show "CL_MIN_ALLOC_SIZE \<le> block_size r" "CL_ALIGN dvd block_size r" "unat r \<le> block_size r" "block_size r + 15 \<le> max_block"
    using assms by (auto simp: block_size_def CL_MIN_ALLOC_SIZE_def CL_ALIGN_def max_def max_block_def)
qed

lemma front_fields:
  assumes "CL_MIN_ALLOC_SIZE \<le> sz" "sz \<le> arena_size h - bump h"
  defines "rem \<equiv> arena_size h - bump h"
  defines "n \<equiv> (if rem - sz < CL_MIN_ALLOC_SIZE then rem else sz)"
  obtains k where "(case gcb_cursor_cut_front sz rem h of (off, sz, h) \<Rightarrow> finish_alloc type off sz h) = Allocated (bump h) k"
    "arena k = (zero_words (bump h + 4) (n - 4) (arena h))(bump h := CL_MAKE_HDR type (of_nat n))"
    "bump k = bump h + n" "free_list k = free_list h" "arena_size k = arena_size h" "total_allocated k = (total_allocated h + n) mod 2 ^ 32"
    "watch_ok h \<longrightarrow> watch_ok k" "\<forall>p. watch_ok h \<longrightarrow> hdr_at k p = (if covers (bump h) n p \<and> hdr_at h p \<noteq> None then Some (bump h) else hdr_at h p)"
proof -
  let ?g = "h \<lparr> bump := bump h + n, total_allocated := (total_allocated h + n) mod 2 ^ 32, total_consed := (total_consed h + n) mod 2 ^ 32 \<rparr>"
  let ?c = "if bump ?g > gc_hdr_bump_watch ?g then gc_hdr_note_bump (bump h) n ?g else ?g"
  let ?k = "?c \<lparr> arena := (zero_words (bump h + 4) (n - 4) (arena h))(bump h := CL_MAKE_HDR type (of_nat n)) \<rparr>"
  have cut: "gcb_cursor_cut_front sz rem h = (bump h, n, ?c)" by (simp add: gcb_cursor_cut_front_def Let_def n_def)
  have pos: "0 < n" using assms(1,2) by (auto simp: n_def rem_def CL_MIN_ALLOC_SIZE_def)
  have k: "hdr_at ?k = hdr_at ?c" "watch_ok ?k = watch_ok ?c" by (simp_all add: hdr_at_def watch_ok_def fun_eq_iff)
  show thesis
  proof (rule that [of ?k])
    show "watch_ok h \<longrightarrow> watch_ok ?k" unfolding k by (intro impI note_front(1) [OF _ pos]) simp_all
    show "\<forall>p. watch_ok h \<longrightarrow> hdr_at ?k p = (if covers (bump h) n p \<and> hdr_at h p \<noteq> None then Some (bump h) else hdr_at h p)"
      unfolding k by (intro allI impI note_front(2) [OF _ pos]) simp_all
  qed (simp_all add: cut finish_alloc_def)
qed

lemma alloc_front:
  assumes ok: "heap_ok h bs fs" and sz: "CL_MIN_ALLOC_SIZE \<le> sz" "CL_ALIGN dvd sz" "sz + 15 \<le> max_block" "sz \<le> arena_size h - bump h"
  obtains sz' k where "(case gcb_cursor_cut_front sz (arena_size h - bump h) h of (off, sz, h) \<Rightarrow> finish_alloc type off sz h) = Allocated (bump h) k"
    "sz \<le> sz'" "placed type (bump h) sz' h bs fs k (bs @ [bump h]) fs"
proof -
  let ?rem = "arena_size h - bump h"
  let ?sz = "if ?rem - sz < CL_MIN_ALLOC_SIZE then ?rem else sz"
  obtain k where k: "(case gcb_cursor_cut_front sz ?rem h of (off, sz, h) \<Rightarrow> finish_alloc type off sz h) = Allocated (bump h) k"
    "arena k = (zero_words (bump h + 4) (?sz - 4) (arena h))(bump h := CL_MAKE_HDR type (of_nat ?sz))"
    "bump k = bump h + ?sz" "free_list k = free_list h" "arena_size k = arena_size h" "total_allocated k = (total_allocated h + ?sz) mod 2 ^ 32"
    "watch_ok h \<longrightarrow> watch_ok k"
    "\<forall>p. watch_ok h \<longrightarrow> hdr_at k p = (if covers (bump h) ?sz p \<and> hdr_at h p \<noteq> None then Some (bump h) else hdr_at h p)"
    by (rule front_fields [OF sz(1,4)])
  have "placed type (bump h) ?sz h bs fs k (bs @ [bump h]) fs"
  proof (rule place_front(1) [OF ok _ _ _ _ k(2-8)])
    show "bump h + ?sz \<le> arena_size h" using ok sz(1,4) by (auto simp: heap_ok_def heap_walk_def CL_MIN_ALLOC_SIZE_def)
  qed (use sz ok in \<open>auto simp: CL_MIN_ALLOC_SIZE_def heap_ok_def heap_walk_def\<close>)
  then show thesis using k(1) sz(4) by (intro that [of k ?sz]) auto
qed

lemma placed_aligned: "placed type off sz h bs fs k bs' fs' \<Longrightarrow> CL_ALIGN dvd off"
proof -
  assume p: "placed type off sz h bs fs k bs' fs'"
  then have "off \<in> set bs'" unfolding placed_def by (metis Diff_iff insertI1)
  moreover have "heap_walk k bs'" using p unfolding placed_def heap_ok_def by blast
  ultimately show ?thesis unfolding heap_walk_def by blast
qed

lemma alloc_correct:
  assumes ok: "heap_ok h bs fs" and r: "unat r \<le> max_block - 15"
  obtains (placed) off sz k bs' fs' where "cl_alloc type r h = Allocated off k" "unat r \<le> sz" "CL_ALIGN dvd off"
      "off \<in> insert (bump h) (set fs)" "placed type off sz h bs fs k bs' fs'"
  | (full) n where "cl_alloc type r h = Collect (h \<lparr> freelist_steps := n \<rparr>)" "arena_size h < bump h + block_size r"
      "\<forall>f\<in>set (take CL_FREELIST_PROBE_LIMIT fs). unat (arena h f) < block_size r"
proof -
  note B = block_size_laws [OF r]
  note al = placed_aligned
  show thesis
  proof (cases "block_size r \<le> arena_size h - bump h")
    case True
    obtain sz' k where k: "(case gcb_cursor_cut_front (block_size r) (arena_size h - bump h) h of (off, sz, h) \<Rightarrow> finish_alloc type off sz h)
        = Allocated (bump h) k" "block_size r \<le> sz'" "placed type (bump h) sz' h bs fs k (bs @ [bump h]) fs"
      by (rule alloc_front [OF ok B(1,2,4) True])
    have "cl_alloc type r h = Allocated (bump h) k" using k(1) True B(4) by (simp add: cl_alloc_def Let_def block_size_def [symmetric])
    then show thesis using placed [OF _ _ al [OF k(3)] _ k(3)] k(2) B(3) by auto
  next
    case False
    have w: "bump h \<le> arena_size h" "arena_size h < 2 ^ 32" "bump h < 2 ^ 32" "block_size r < 2 ^ 32"
      using ok B(4) by (auto simp: heap_ok_def heap_walk_def GC_HDR_PAGE_def max_block_def)
    then have "\<not> cl_bump_fits (of_nat (bump h)) (of_nat (block_size r)) (of_nat (arena_size h))"
      using False by (simp add: bump_fits unat_of_nat take_bit_eq_mod)
    then have slow: "cl_alloc type r h = (case alloc_from_free_list (block_size r) CL_FREELIST_PROBE_LIMIT h of
         None \<Rightarrow> Lost | Some (None, h) \<Rightarrow> Collect h | Some (Some (off, sz), h) \<Rightarrow> Allocated off (headed type off sz h))"
      using False B(4) by (simp add: cl_alloc_def alloc_slow_def alloc_from_bump_def Let_def finish_alloc_def headed_def block_size_def [symmetric] split: option.splits prod.splits)
    show thesis
    proof (rule alloc_from_free_list_placed [OF ok B(1,2), where mx = CL_FREELIST_PROBE_LIMIT and type = type], goal_cases)
      case (1 n)
      then show thesis using slow False w by (intro full [of n]) (auto simp: CL_FREELIST_PROBE_LIMIT_def)
    next
      case (2 off sz' k bs' fs')
      then show thesis using slow al B(3) by (intro placed [of off "headed type off sz' k" sz' bs' fs']) auto
    qed
  qed
qed

section \<open>Finding a block\<close>

definition cursor_ok :: "cl_heap \<Rightarrow> nat list \<Rightarrow> GC_HdrCursor \<Rightarrow> bool" where
  "cursor_ok h bs cur \<longleftrightarrow> nxt cur = 0 \<or> (blk cur \<in> set bs \<and> nxt cur = blk cur + hsize (arena h (blk cur)))"

lemma chain_covers: "chain m a bs e \<Longrightarrow> a \<le> x \<Longrightarrow> x < e \<Longrightarrow> \<exists>b\<in>set bs. b \<le> x \<and> x < b + hsize (m b)"
proof (induction bs arbitrary: a)
  case (Cons b bs)
  then show ?case by (cases "x < a + hsize (m a)") force+
qed simp

lemma chain_next: "chain m a bs e \<Longrightarrow> b \<in> set bs \<Longrightarrow> b + hsize (m b) < e \<Longrightarrow> b + hsize (m b) \<in> set bs"
proof (induction bs arbitrary: a)
  case (Cons c bs)
  then have t: "c = a" "chain m (a + hsize (m a)) bs e" by simp_all
  show ?case
  proof (cases "b = c")
    case True
    then show ?thesis using t Cons.prems(3) by (cases bs) auto
  next
    case False
    then show ?thesis using Cons.IH [OF t(2)] Cons.prems by simp
  qed
qed simp

lemma block_walk_covers:
  "chain m a bs e \<Longrightarrow> b \<in> set bs \<Longrightarrow> b \<le> off \<Longrightarrow> off < e \<Longrightarrow>
    \<exists>c\<in>set bs. block_walk m off b = Some (c, c + hsize (m c)) \<and> c \<le> off \<and> off < c + hsize (m c)"
proof (induction m off b rule: block_walk.induct)
  case (1 m off b)
  have sz: "8 \<le> hsize (m b)" "b + hsize (m b) \<le> e" using chain_ge [OF 1(2,3)] by blast+
  show ?case
  proof (cases "b + hsize (m b) > off")
    case True
    then have "block_walk m off b = Some (b, b + hsize (m b))" using sz by (subst block_walk.simps) (simp add: Let_def)
    then show ?thesis using True 1(3,4) by blast
  next
    case False
    have "block_walk m off b = block_walk m off (b + hsize (m b))" using False sz by (subst block_walk.simps) (simp add: Let_def)
    moreover have "b + hsize (m b) \<in> set bs" using chain_next [OF 1(2,3)] False 1(5) by simp
    ultimately show ?thesis using 1(1) [OF refl _ False 1(2)] sz 1(5) False by simp
  qed
qed

lemma first_block: "chain m a bs e \<Longrightarrow> a < e \<Longrightarrow> a \<in> set bs"
  by (cases bs) auto

text \<open>The entry from which the walk starts is a block at or below the offset.\<close>

lemma walk_start_block:
  assumes walk: "heap_walk h bs" and ix: "index_ok h bs" "gc_hdr_page h = Some pages" "bump h \<le> length pages * GC_HDR_PAGE"
    and p: "p * GC_HDR_PAGE \<le> off" "CL_ALIGN \<le> off" "off < bump h"
  shows "gc_hdr_walk_start pages p \<in> set bs \<and> gc_hdr_walk_start pages p \<le> off"
proof -
  have c: "chain (arena h) CL_ALIGN bs (bump h)" using walk by (simp add: heap_walk_def)
  show ?thesis
  proof (cases p)
    case 0
    then show ?thesis using first_block [OF c] p by simp
  next
    case (Suc q)
    have "CL_ALIGN \<le> p * GC_HDR_PAGE" using Suc by (simp add: CL_ALIGN_def GC_HDR_PAGE_def)
    then obtain b where b: "b \<in> set bs" "covers b (hsize (arena h b)) p" using chain_covers [OF c, of "p * GC_HDR_PAGE"] p by auto
    have l: "p < length pages" using p ix(3) by (simp add: GC_HDR_PAGE_def)
    have at: "hdr_at h p = Some (pages ! p)" using ix(2) l by (simp add: hdr_at_def)
    then have "pages ! p = b" using index_okD [OF ix(1) b] by simp
    moreover have "b \<noteq> GC_HDR_NONE" using walk p(1,3) b(2) by (auto simp: heap_walk_def GC_HDR_NONE_def GC_HDR_PAGE_def)
    ultimately show ?thesis using Suc b p(1) by simp
  qed
qed

lemma is_block_start_correct:
  assumes walk: "heap_walk h bs" and ix: "index_ok h bs" "gc_hdr_page h = Some pages" "bump h \<le> length pages * GC_HDR_PAGE"
    and cur: "cursor_ok h bs cur"
  shows "fst (gc_hdr_is_block_start pages off cur h) \<longleftrightarrow> off \<in> set bs" "cursor_ok h bs (snd (gc_hdr_is_block_start pages off cur h))"
proof -
  have c: "chain (arena h) CL_ALIGN bs (bump h)" using walk by (simp add: heap_walk_def)
  have uniq: "off \<in> set bs \<longleftrightarrow> b = off" if "b \<in> set bs" "b \<le> off" "off < b + hsize (arena h b)" for b
    using chain_disjoint [OF c that(1)] that by (metis leD le_neq_implies_less)
  have out: "off \<notin> set bs" if "off < CL_ALIGN \<or> off \<ge> bump h" using chain_ge [OF c, of off] that by auto
  let ?s = "gc_hdr_walk_start pages (off div GC_HDR_PAGE)"
  let ?b = "if nxt cur \<noteq> 0 \<and> nxt cur \<le> off \<and> nxt cur > ?s then nxt cur else ?s"
  have "fst (gc_hdr_is_block_start pages off cur h) = (off \<in> set bs) \<and> cursor_ok h bs (snd (gc_hdr_is_block_start pages off cur h))"
  proof (cases "off < CL_ALIGN \<or> off \<ge> bump h \<or> (blk cur \<le> off \<and> off < nxt cur)")
    case True
    then show ?thesis using out uniq [of "blk cur"] cur by (auto simp: gc_hdr_is_block_start_def cursor_ok_def)
  next
    case False
    have "off div GC_HDR_PAGE * GC_HDR_PAGE \<le> off" by simp
    from walk_start_block [OF walk ix this] have "?s \<in> set bs" "?s \<le> off" using False by auto
    moreover have "nxt cur \<in> set bs" if "nxt cur \<noteq> 0" "nxt cur \<le> off" using chain_next [OF c] cur False that by (auto simp: cursor_ok_def)
    ultimately have b: "?b \<in> set bs" "?b \<le> off" by auto
    have "off < bump h" using False by simp
    from block_walk_covers [OF c b this] obtain d where d: "d \<in> set bs" "block_walk (arena h) off ?b = Some (d, d + hsize (arena h d))" "d \<le> off" "off < d + hsize (arena h d)"
      by blast
    then show ?thesis using False uniq [OF d(1,3,4)] by (auto simp: gc_hdr_is_block_start_def cursor_ok_def Let_def)
  qed
  then show "fst (gc_hdr_is_block_start pages off cur h) \<longleftrightarrow> off \<in> set bs" "cursor_ok h bs (snd (gc_hdr_is_block_start pages off cur h))"
    by blast+
qed

section \<open>Sequences of allocations\<close>

text \<open>
  What a client of an allocator relies on: an allocation extends the set of allocated blocks by
  a block outside it and leaves the bytes of the others, and the blocks never overlap.
\<close>

locale block_allocator =
  fixes alloc :: "'r \<Rightarrow> 'h \<Rightarrow> (nat \<times> 'h) option" and fine :: "'r \<Rightarrow> bool" and inv :: "'h \<Rightarrow> nat set \<Rightarrow> bool"
    and bytes :: "'h \<Rightarrow> nat \<Rightarrow> nat set" and content :: "'h \<Rightarrow> nat \<Rightarrow> 'w"
    and run :: "'r list \<Rightarrow> 'h \<Rightarrow> (nat list \<times> 'h) option"
  assumes step: "inv h A \<Longrightarrow> fine r \<Longrightarrow> alloc r h = Some (off, k) \<Longrightarrow>
      inv k (insert off A) \<and> off \<notin> A \<and> (\<forall>b\<in>A. bytes k b = bytes h b \<and> (\<forall>x\<in>bytes h b. content k x = content h x))"
    and apart: "inv h A \<Longrightarrow> b \<in> A \<Longrightarrow> c \<in> A \<Longrightarrow> b \<noteq> c \<Longrightarrow> bytes h b \<inter> bytes h c = {}"
    and run_Nil: "run [] h = Some ([], h)"
    and run_Cons: "run (r # rs) h = Some (offs, k) \<Longrightarrow>
      \<exists>off g offs'. alloc r h = Some (off, g) \<and> run rs g = Some (offs', k) \<and> offs = off # offs'"
begin

lemma run_keeps:
  "inv h A \<Longrightarrow> \<forall>r\<in>set rs. fine r \<Longrightarrow> run rs h = Some (offs, k) \<Longrightarrow>
     inv k (A \<union> set offs) \<and> distinct offs \<and> A \<inter> set offs = {}
     \<and> (\<forall>b\<in>A. bytes k b = bytes h b \<and> (\<forall>x\<in>bytes h b. content k x = content h x))"
proof (induction rs arbitrary: h A offs)
  case Nil
  then show ?case by (simp add: run_Nil)
next
  case (Cons r rs)
  obtain off g offs' where s: "alloc r h = Some (off, g)" "run rs g = Some (offs', k)" "offs = off # offs'"
    using run_Cons [OF Cons.prems(3)] by blast
  have one: "inv g (insert off A)" "off \<notin> A" "\<forall>b\<in>A. bytes g b = bytes h b \<and> (\<forall>x\<in>bytes h b. content g x = content h x)"
    using step [OF Cons.prems(1) _ s(1)] Cons.prems(2) by auto
  have rest: "inv k (insert off A \<union> set offs')" "distinct offs'" "insert off A \<inter> set offs' = {}"
      "\<forall>b\<in>insert off A. bytes k b = bytes g b \<and> (\<forall>x\<in>bytes g b. content k x = content g x)"
    using Cons.IH [OF one(1) _ s(2)] Cons.prems(2) by auto
  have "insert off A \<union> set offs' = A \<union> set offs" by (auto simp: s(3))
  then show ?case using rest one s(3) by auto
qed

lemma run_apart:
  assumes "inv h A" "\<forall>r\<in>set rs. fine r" "run rs h = Some (offs, k)" "b \<in> A \<union> set offs" "c \<in> A \<union> set offs" "b \<noteq> c"
  shows "bytes k b \<inter> bytes k c = {}"
  using run_keeps [OF assms(1-3)] apart [of k "A \<union> set offs"] assms(4-6) by blast

end

text \<open>The interface of the heap.\<close>

definition alloc_step :: "u32 \<times> u32 \<Rightarrow> cl_heap \<Rightarrow> (nat \<times> cl_heap) option" where
  "alloc_step r h = (case cl_alloc (fst r) (snd r) h of Allocated off k \<Rightarrow> Some (off, k) | _ \<Rightarrow> None)"

definition heap_inv :: "cl_heap \<Rightarrow> nat set \<Rightarrow> bool" where
  "heap_inv h A \<longleftrightarrow> (\<exists>bs fs. heap_ok h bs fs \<and> A = set bs - set fs)"

definition block_bytes :: "cl_heap \<Rightarrow> nat \<Rightarrow> nat set" where
  "block_bytes h b = {b..<b + hsize (arena h b)}"

lemma block_bytes_placed:
  assumes ok: "heap_ok h bs fs" and p: "placed type off sz h bs fs k bs' fs'" and b: "b \<in> set bs - set fs"
  shows "block_bytes k b = block_bytes h b \<and> (\<forall>x\<in>block_bytes h b. arena k x = arena h x)"
proof -
  have same: "\<forall>x. b \<le> x \<and> x < b + hsize (arena h b) \<longrightarrow> arena k x = arena h x" using p b unfolding placed_def by blast
  have "8 \<le> hsize (arena h b)" using ok b chain_ge [of "arena h" CL_ALIGN bs "bump h" b] unfolding heap_ok_def heap_walk_def by blast
  then have "arena k b = arena h b" using same by simp
  then show ?thesis using same by (simp add: block_bytes_def)
qed

interpretation heap: block_allocator alloc_step "\<lambda>r. unat (snd r) \<le> max_block - 15" heap_inv block_bytes arena alloc_run
proof (unfold_locales, goal_cases)
  case (1 h A r off k)
  obtain bs fs where ok: "heap_ok h bs fs" and A: "A = set bs - set fs" using 1(1) by (auto simp: heap_inv_def)
  have al: "cl_alloc (fst r) (snd r) h = Allocated off k" using 1(3) by (simp add: alloc_step_def split: alloc_outcome.splits)
  obtain sz bs' fs' where p: "placed (fst r) off sz h bs fs k bs' fs'"
    using alloc_correct [OF ok 1(2), of "fst r" thesis] al by (metis alloc_outcome.distinct(3) alloc_outcome.inject(1))
  then have "heap_ok k bs' fs'" "insert off A = set bs' - set fs'" "off \<notin> A" unfolding placed_def A by blast+
  then show ?case using block_bytes_placed [OF ok p] A by (auto simp: heap_inv_def)
next
  case (2 h A b c)
  then obtain bs fs where "chain (arena h) CL_ALIGN bs (bump h)" "b \<in> set bs" "c \<in> set bs" by (auto simp: heap_inv_def heap_ok_def heap_walk_def)
  then have "b + hsize (arena h b) \<le> c \<or> c + hsize (arena h c) \<le> b" using 2(4) chain_disjoint by (metis nat_neq_iff)
  then show ?case by (auto simp: block_bytes_def)
next
  case (4 r rs h offs k)
  then show ?case by (cases r) (auto simp: alloc_step_def split: alloc_outcome.splits option.splits)
qed simp

end
