(* ===== verification/Compact.thy ===== *)
theory Compact
  imports Arena_Alloc
begin

unbundle bit_operations_syntax

text \<open>
  The sliding compactor (\<open>gc_compact.c\<close>): the forwarding tables (a bitmap of live granules, the
  slide cursor of every page, the hole below every pinned object), the lookup \<open>gc_forward\<close>, and
  the slide.  The pinned offsets, found by the conservative scan of native stacks, are a
  parameter; marking and the update of references are outside this theory.
\<close>

section \<open>Forwarding tables\<close>

definition GC_FWD_ALIGN_SHIFT :: nat where "GC_FWD_ALIGN_SHIFT = 3"
definition GC_FWD_WORDS_PER_PAGE :: nat where "GC_FWD_WORDS_PER_PAGE = 2"
definition GC_FWD_PAGE_SHIFT :: nat where "GC_FWD_PAGE_SHIFT = GC_FWD_ALIGN_SHIFT + 5 + 1"
definition GC_FWD_PAGE :: nat where "GC_FWD_PAGE = 2 ^ GC_FWD_PAGE_SHIFT"

record gc_fwd =
  gc_fwd_bits :: "nat \<Rightarrow> u32"
  gc_fwd_page :: "nat \<Rightarrow> nat"
  gc_fwd_gap :: "nat \<Rightarrow> nat"

text \<open>The block is zeroed when it is allocated.\<close>

definition gc_fwd_alloc :: gc_fwd where
  "gc_fwd_alloc = \<lparr> gc_fwd_bits = (\<lambda>_. 0), gc_fwd_page = (\<lambda>_. 0), gc_fwd_gap = (\<lambda>_. 0) \<rparr>"

text \<open>The portable population count.\<close>

definition gc_popcount32 :: "u32 \<Rightarrow> u32" where
  "gc_popcount32 x =
     (let x = x - (drop_bit 1 x AND 0x55555555);
          x = (x AND 0x33333333) + (drop_bit 2 x AND 0x33333333);
          x = (x + drop_bit 4 x) AND 0x0F0F0F0F;
          x = x + drop_bit 8 x;
          x = x + drop_bit 16 x
      in x AND 0x3F)"

definition gc_fwd_set_range :: "nat \<Rightarrow> nat \<Rightarrow> (nat \<Rightarrow> u32) \<Rightarrow> nat \<Rightarrow> u32" where
  "gc_fwd_set_range g0 g1 bits =
     (let w0 = g0 div 32; w1 = (g1 - 1) div 32;
          m0 = push_bit (g0 mod 32) 0xFFFFFFFF;
          m1 = drop_bit (31 - (g1 - 1) mod 32) 0xFFFFFFFF
      in if w0 = w1 then bits(w0 := bits w0 OR (m0 AND m1))
         else (\<lambda>w. if w = w0 then bits w OR m0 else if w0 < w \<and> w < w1 then 0xFFFFFFFF
                else if w = w1 then bits w OR m1 else bits w))"

function pin_search :: "nat list \<Rightarrow> nat \<Rightarrow> nat \<Rightarrow> nat \<Rightarrow> nat" where
  "pin_search pins lo a b =
     (if a < b then
        (let mid = (a + b) div 2 in if pins ! mid < lo then pin_search pins lo (mid + 1) b else pin_search pins lo a mid)
      else a)"
  by pat_completeness auto
termination by (relation "measure (\<lambda>(pins, lo, a, b). b - a)") auto

function gap_sum :: "nat list \<Rightarrow> (nat \<Rightarrow> nat) \<Rightarrow> nat \<Rightarrow> nat \<Rightarrow> nat" where
  "gap_sum pins gap hi a = (if a < length pins \<and> pins ! a \<le> hi then gap a + gap_sum pins gap hi (a + 1) else 0)"
  by pat_completeness auto
termination by (relation "measure (\<lambda>(pins, gap, hi, a). length pins - a)") auto

declare pin_search.simps [simp del] gap_sum.simps [simp del]

definition gc_fwd_pin_gaps :: "nat list \<Rightarrow> (nat \<Rightarrow> nat) \<Rightarrow> nat \<Rightarrow> nat \<Rightarrow> nat" where
  "gc_fwd_pin_gaps pins gap lo hi = gap_sum pins gap hi (pin_search pins lo 0 (length pins))"

text \<open>The slide cursor.\<close>

record GcPlace =
  cur :: nat
  pin_i :: nat

function skip_pins :: "(nat \<Rightarrow> bool) \<Rightarrow> nat list \<Rightarrow> nat \<Rightarrow> nat" where
  "skip_pins P pins i = (if i < length pins \<and> P (pins ! i) then skip_pins P pins (i + 1) else i)"
  by pat_completeness auto
termination by (relation "measure (\<lambda>(P, pins, i). length pins - i)") auto

declare skip_pins.simps [simp del]

definition gc_place :: "nat list \<Rightarrow> nat \<Rightarrow> nat \<Rightarrow> bool \<Rightarrow> GcPlace \<times> (nat \<Rightarrow> nat) \<Rightarrow> nat \<times> GcPlace \<times> (nat \<Rightarrow> nat)" where
  "gc_place pins off sz record_gap = (\<lambda>(pl, gap).
     (let i = skip_pins (\<lambda>p. p < off) pins (pin_i pl) in
      if i < length pins \<and> pins ! i = off then
        (let gap = (if record_gap then gap(i := off - cur pl) else gap);
             i = skip_pins (\<lambda>p. p = off) pins (i + 1)
         in (off, \<lparr> cur = off + sz, pin_i = i \<rparr>, gap))
      else (cur pl, \<lparr> cur = cur pl + sz, pin_i = i \<rparr>, gap)))"

text \<open>
  The loops over the page table: entries are written while a condition holds of the page.  Pages up
  to an offset take the cursor as it stands, pages inside an object move with it.
\<close>

function page_loop :: "nat \<Rightarrow> (nat \<Rightarrow> bool) \<Rightarrow> (nat \<Rightarrow> nat) \<Rightarrow> nat \<times> (nat \<Rightarrow> nat) \<Rightarrow> nat \<times> (nat \<Rightarrow> nat)" where
  "page_loop npages P v (np, page) =
     (if np < npages \<and> P np then page_loop npages P v (np + 1, page(np := v np)) else (np, page))"
  by pat_completeness auto
termination by (relation "measure (\<lambda>(npages, P, v, np, page). npages - np)") auto

declare page_loop.simps [simp del]

definition forward_step :: "nat list \<Rightarrow> nat \<Rightarrow> nat \<Rightarrow> nat \<Rightarrow> nat \<times> GcPlace \<times> gc_fwd \<Rightarrow> nat \<times> GcPlace \<times> gc_fwd" where
  "forward_step pins npages off sz = (\<lambda>(np, pl, f).
     (let (np, page) = page_loop npages (\<lambda>p. p * GC_FWD_PAGE \<le> off) (\<lambda>_. cur pl) (np, gc_fwd_page f);
          (new_off, pl, gap) = gc_place pins off sz True (pl, gc_fwd_gap f);
          (np, page) = page_loop npages (\<lambda>p. p * GC_FWD_PAGE < off + sz) (\<lambda>p. new_off + (p * GC_FWD_PAGE - off)) (np, page);
          bits = gc_fwd_set_range (off div 8) ((off + sz) div 8) (gc_fwd_bits f)
      in (np, pl, \<lparr> gc_fwd_bits = bits, gc_fwd_page = page, gc_fwd_gap = gap \<rparr>)))"

function forward_loop :: "nat list \<Rightarrow> nat \<Rightarrow> cl_heap \<Rightarrow> nat \<Rightarrow> nat \<times> GcPlace \<times> gc_fwd \<Rightarrow> nat \<times> GcPlace \<times> gc_fwd" where
  "forward_loop pins npages h off s =
     (if off \<ge> bump h then s
      else let hdr = arena h off; sz = hsize hdr in
        if sz = 0 then s
        else forward_loop pins npages h (off + sz) (if CL_HDR_MARKED hdr then forward_step pins npages off sz s else s))"
  by pat_completeness auto
termination by (relation "measure (\<lambda>(pins, npages, h, off, s). bump h - off)") auto

declare forward_loop.simps [simp del]

text \<open>The pins are sorted first; the sorted array is what the later passes use.\<close>

definition gc_compute_forwarding :: "nat list \<Rightarrow> cl_heap \<Rightarrow> nat list \<times> gc_fwd" where
  "gc_compute_forwarding jit_pinned h =
     (let pins = sort jit_pinned;
          npages = (bump h + GC_FWD_PAGE - 1) div GC_FWD_PAGE;
          (np, pl, f) = forward_loop pins npages h CL_ALIGN (0, \<lparr> cur = CL_ALIGN, pin_i = 0 \<rparr>, gc_fwd_alloc)
      in (pins, f \<lparr> gc_fwd_page := snd (page_loop npages (\<lambda>_. True) (\<lambda>_. cur pl) (np, gc_fwd_page f)) \<rparr>))"

section \<open>The lookup\<close>

function live_loop :: "(nat \<Rightarrow> u32) \<Rightarrow> nat \<Rightarrow> nat \<Rightarrow> nat \<Rightarrow> nat \<times> nat" where
  "live_loop bits e w live =
     (if w < e then live_loop bits e (w + 1) (live + unat (gc_popcount32 (bits w))) else (w, live))"
  by pat_completeness auto
termination by (relation "measure (\<lambda>(bits, e, w, live). e - w)") auto

declare live_loop.simps [simp del]

definition gc_forward :: "nat list \<Rightarrow> gc_fwd \<Rightarrow> cl_heap \<Rightarrow> u32 \<Rightarrow> u32" where
  "gc_forward pins f h obj =
     (if obj = CL_NIL \<or> CL_FIXNUM_P obj \<or> CL_CHAR_P obj then obj
      else if obj = CL_UNBOUND then obj
      else if unat obj \<ge> bump h then obj
      else let g = unat obj div 8 in
        if \<not> bit (gc_fwd_bits f (g div 32)) (g mod 32) then obj
        else (let (w, live) = live_loop (gc_fwd_bits f) (g div 32) (unat obj div GC_FWD_PAGE * GC_FWD_WORDS_PER_PAGE) 0;
                  live = live + unat (gc_popcount32 (gc_fwd_bits f w AND (push_bit (g mod 32) 1 - 1)));
                  fwd = gc_fwd_page f (unat obj div GC_FWD_PAGE) + live * 8
              in of_nat (if length pins > 0 then fwd + gc_fwd_pin_gaps pins (gc_fwd_gap f) (unat obj div GC_FWD_PAGE * GC_FWD_PAGE) (unat obj)
                         else fwd)))"

section \<open>The slide\<close>

definition gc_free_gap_chunk :: "nat \<Rightarrow> nat" where
  "gc_free_gap_chunk tot =
     (if tot > max_block then
        (let chunk = max_block div CL_ALIGN * CL_ALIGN in if tot - chunk < 8 then chunk - CL_MIN_ALLOC_SIZE else chunk)
      else tot)"

definition CL_TYPE_DEAD :: u32 where "CL_TYPE_DEAD = 0xFF"

function gc_make_free_gap :: "nat \<Rightarrow> nat \<Rightarrow> cl_heap \<Rightarrow> cl_heap" where
  "gc_make_free_gap off tot h =
     (if tot = 0 then h
      else let chunk = gc_free_gap_chunk tot in
        if chunk < 8 then
          gc_hdr_note_crossing off chunk (h \<lparr> arena := (arena h)(off := push_bit 24 CL_TYPE_DEAD OR of_nat chunk) \<rparr>)
        else gc_make_free_gap (off + chunk) (tot - chunk)
          (gc_hdr_note_crossing off chunk
            (h \<lparr> arena := (arena h)(off := of_nat chunk, off + 4 := of_nat (free_list h)), free_list := off \<rparr>)))"
  by pat_completeness auto
termination by (relation "measure (\<lambda>(off, tot, h). tot)") auto

declare gc_make_free_gap.simps [simp del]

definition move_words :: "nat \<Rightarrow> nat \<Rightarrow> nat \<Rightarrow> (nat \<Rightarrow> u32) \<Rightarrow> nat \<Rightarrow> u32" where
  "move_words dst src sz m = (\<lambda>x. if dst \<le> x \<and> x < dst + sz then m (x - dst + src) else m x)"

text \<open>One live object: its mark is cleared, the hole before it becomes free, it moves.\<close>

definition slide_step :: "nat list \<Rightarrow> nat \<Rightarrow> nat \<Rightarrow> GcPlace \<times> nat \<times> nat \<times> cl_heap \<Rightarrow> GcPlace \<times> nat \<times> nat \<times> cl_heap" where
  "slide_step pins off sz = (\<lambda>(pl, fill, live_total, h).
     (let (new_off, pl, _) = gc_place pins off sz False (pl, \<lambda>_. 0);
          h = h \<lparr> arena := (arena h)(off := CL_HDR_CLR_MARK (arena h off)) \<rparr>;
          h = (if new_off > fill then gc_make_free_gap fill (new_off - fill) h else h);
          h = (if new_off \<noteq> off then h \<lparr> arena := move_words new_off off sz (arena h) \<rparr> else h);
          h = gc_hdr_note_crossing new_off sz h
      in (pl, new_off + sz, (live_total + sz) mod 2 ^ 32, h)))"

text \<open>The end of the walk is the front at its beginning; the body leaves the front alone.\<close>

function slide_loop :: "nat list \<Rightarrow> nat \<Rightarrow> nat \<Rightarrow> GcPlace \<times> nat \<times> nat \<times> cl_heap \<Rightarrow> GcPlace \<times> nat \<times> nat \<times> cl_heap" where
  "slide_loop pins fin off s =
     (if off \<ge> fin then s
      else let hdr = arena (snd (snd (snd s))) off; sz = hsize hdr in
        if sz = 0 then s
        else slide_loop pins fin (off + sz) (if CL_HDR_MARKED hdr then slide_step pins off sz s else s))"
  by pat_completeness auto
termination by (relation "measure (\<lambda>(pins, fin, off, s). fin - off)") auto

declare slide_loop.simps [simp del]

definition gc_slide :: "nat list \<Rightarrow> cl_heap \<Rightarrow> cl_heap" where
  "gc_slide pins h =
     (let (pl, fill, live_total, h) =
            slide_loop pins (bump h) CL_ALIGN (\<lparr> cur = CL_ALIGN, pin_i = 0 \<rparr>, CL_ALIGN, 0, h \<lparr> free_list := 0 \<rparr>)
      in gc_hdr_bump_reset (h \<lparr> bump := fill \<rparr>) \<lparr> total_allocated := live_total \<rparr>)"

end
