(* ===== verification/Compact_Tables.thy ===== *)
theory Compact_Tables
  imports Compact
begin

unbundle bit_operations_syntax

text \<open>
  The forwarding tables: the population count returns the number of bits set, a range of bits
  is set exactly, the sums over pins are sums over a set of them, and the pass that fills the
  tables keeps an invariant (\<open>fwd_inv\<close>) that gives the slide cursor of every offset as a
  function of the bitmap and the gaps.
\<close>

section \<open>The population count\<close>

text \<open>A number as \<open>k\<close> fields of \<open>s\<close> bits.\<close>

fun enc :: "nat \<Rightarrow> nat \<Rightarrow> (nat \<Rightarrow> nat) \<Rightarrow> nat" where
  "enc s 0 f = 0" | "enc s (Suc k) f = f 0 + 2 ^ s * enc s k (\<lambda>i. f (Suc i))"

definition digit :: "nat \<Rightarrow> nat \<Rightarrow> nat \<Rightarrow> nat" where
  "digit s x i = x div 2 ^ (s * i) mod 2 ^ s"

lemma enc_digits: "x < 2 ^ (s * k) \<Longrightarrow> enc s k (digit s x) = x"
proof (induction k arbitrary: x)
  case (Suc k)
  have "x div 2 ^ s < 2 ^ (s * k)" using Suc.prems by (simp add: less_mult_imp_div_less power_add mult.commute)
  moreover have "digit s x (Suc i) = digit s (x div 2 ^ s) i" for i by (simp add: digit_def power_add div_mult2_eq)
  ultimately have "enc s k (\<lambda>i. digit s x (Suc i)) = x div 2 ^ s" using Suc.IH [of "x div 2 ^ s"] by simp
  then show ?case by (simp add: digit_def)
qed simp

lemma enc_bound: "(\<And>i. i < k \<Longrightarrow> f i < 2 ^ s) \<Longrightarrow> enc s k f < 2 ^ (s * k)"
proof (induction k arbitrary: f)
  case (Suc k)
  have "f 0 < 2 ^ s" "enc s k (\<lambda>i. f (Suc i)) < 2 ^ (s * k)" using Suc.prems Suc.IH [of "\<lambda>i. f (Suc i)"] by auto
  then have "f 0 + 2 ^ s * enc s k (\<lambda>i. f (Suc i)) < 2 ^ s * (enc s k (\<lambda>i. f (Suc i)) + 1)" "enc s k (\<lambda>i. f (Suc i)) + 1 \<le> 2 ^ (s * k)" by simp_all
  then have "f 0 + 2 ^ s * enc s k (\<lambda>i. f (Suc i)) < 2 ^ s * 2 ^ (s * k)" by (meson less_le_trans mult_le_mono2)
  then show ?case by (simp add: power_add)
qed simp

lemma enc_cong: "(\<And>i. i < k \<Longrightarrow> f i = g i) \<Longrightarrow> enc s k f = enc s k g"
proof (induction k arbitrary: f g)
  case (Suc k)
  have "enc s k (\<lambda>i. f (Suc i)) = enc s k (\<lambda>i. g (Suc i))" by (rule Suc.IH) (simp add: Suc.prems)
  then show ?case using Suc.prems [of 0] by simp
qed simp

lemma enc_add: "enc s k f + enc s k g = enc s k (\<lambda>i. f i + g i)"
proof (induction k arbitrary: f g)
  case (Suc k)
  show ?case using Suc [of "\<lambda>i. f (Suc i)" "\<lambda>i. g (Suc i)"] by (simp add: distrib_left [symmetric])
qed simp

lemma enc_diff: "(\<And>i. i < k \<Longrightarrow> g i \<le> f i) \<Longrightarrow> enc s k f - enc s k g = enc s k (\<lambda>i. f i - g i)"
proof -
  assume "\<And>i. i < k \<Longrightarrow> g i \<le> f i"
  then have "enc s k (\<lambda>i. f i - g i) + enc s k g = enc s k f" unfolding enc_add by (intro enc_cong) simp
  then show ?thesis by linarith
qed

text \<open>Masking is done field by field, also after a shift that stays within the field.\<close>

lemma and_field:
  fixes a b c d :: nat
  assumes "a < 2 ^ s" "c < 2 ^ s"
  shows "(a + 2 ^ s * b) AND (c + 2 ^ s * d) = (a AND c) + 2 ^ s * (b AND d)"
proof -
  have "take_bit s (a AND c) = a AND c" using assms by (simp add: take_bit_nat_eq_self)
  then have "a AND c < 2 ^ s" by (metis take_bit_nat_less_exp)
  then show ?thesis by (intro bit_eqI) (simp add: bit_split_nat assms bit_and_iff)
qed

lemma enc_mask: "(\<And>i. i < k \<Longrightarrow> f i < 2 ^ s) \<Longrightarrow> (\<And>i. i < k \<Longrightarrow> c i < 2 ^ s) \<Longrightarrow> enc s k f AND enc s k c = enc s k (\<lambda>i. f i AND c i)"
proof (induction k arbitrary: f c)
  case (Suc k)
  have "enc s k (\<lambda>i. f (Suc i)) AND enc s k (\<lambda>i. c (Suc i)) = enc s k (\<lambda>i. f (Suc i) AND c (Suc i))" using Suc by (intro Suc.IH) simp_all
  then show ?case using Suc.prems by (simp add: and_field)
qed simp

lemma enc_shift_mask:
  assumes t: "t \<le> s"
  shows "(\<And>i. i < k \<Longrightarrow> f i < 2 ^ s) \<Longrightarrow> c < 2 ^ (s - t) \<Longrightarrow>
    enc s k f div 2 ^ t AND enc s k (\<lambda>_. c) = enc s k (\<lambda>i. f i div 2 ^ t AND c)"
proof (induction k arbitrary: f)
  case (Suc k)
  let ?r = "enc s k (\<lambda>i. f (Suc i))"
  have s: "(2 :: nat) ^ s = 2 ^ t * 2 ^ (s - t)" using t by (simp flip: power_add)
  have f0: "f 0 div 2 ^ t < 2 ^ (s - t)" using Suc.prems(1) [of 0] s by (simp add: less_mult_imp_div_less mult.commute)
  have "(f 0 + 2 ^ s * ?r) div 2 ^ t = f 0 div 2 ^ t + 2 ^ (s - t) * ?r" unfolding s by (simp add: mult.assoc)
  also have "\<dots> AND (c + 2 ^ s * enc s k (\<lambda>_. c)) = (f 0 div 2 ^ t AND c) + 2 ^ (s - t) * (?r AND 2 ^ t * enc s k (\<lambda>_. c))"
    using and_field [OF f0 Suc.prems(2), of ?r "2 ^ t * enc s k (\<lambda>_. c)"] by (simp add: s mult.left_commute mult.assoc)
  also have "?r AND 2 ^ t * enc s k (\<lambda>_. c) = 2 ^ t * (?r div 2 ^ t AND enc s k (\<lambda>_. c))"
    using and_field [of "?r mod 2 ^ t" t 0 "?r div 2 ^ t" "enc s k (\<lambda>_. c)"] by simp
  also have "?r div 2 ^ t AND enc s k (\<lambda>_. c) = enc s k (\<lambda>i. f (Suc i) div 2 ^ t AND c)" using Suc by simp
  finally show ?case by (simp add: s mult.left_commute mult.assoc)
qed simp

lemma enc_pair: "enc s (2 * k) f = enc (2 * s) k (\<lambda>i. f (2 * i) + 2 ^ s * f (2 * i + 1))"
proof (induction k arbitrary: f)
  case (Suc k)
  have "enc s (2 * Suc k) f = f 0 + 2 ^ s * (f 1 + 2 ^ s * enc s (2 * k) (\<lambda>i. f (Suc (Suc i))))" by simp
  also have "enc s (2 * k) (\<lambda>i. f (Suc (Suc i))) = enc (2 * s) k (\<lambda>i. f (2 * Suc i) + 2 ^ s * f (2 * Suc i + 1))"
    using Suc [of "\<lambda>i. f (Suc (Suc i))"] by simp
  finally show ?case by (simp add: algebra_simps) (simp add: power_add [symmetric] mult_2_right)
qed simp

lemma enc_field_shift: "(\<And>i. i < Suc k \<Longrightarrow> f i < 2 ^ s) \<Longrightarrow> enc s (Suc k) f div 2 ^ s = enc s k (\<lambda>i. f (Suc i))"
  by simp

lemma enc_pad: "enc s k f = enc s (Suc k) (\<lambda>i. if i < k then f i else 0)"
proof (induction k arbitrary: f)
  case (Suc k)
  have "enc s k (\<lambda>i. f (Suc i)) = enc s (Suc k) (\<lambda>i. if Suc i < Suc k then f (Suc i) else 0)" using Suc [of "\<lambda>i. f (Suc i)"] by simp
  then show ?case by simp
qed simp

lemma enc_numeral: "enc s (numeral k) f = f 0 + 2 ^ s * enc s (pred_numeral k) (\<lambda>i. f (Suc i))"
  by (simp add: numeral_eq_Suc)

lemma enc_mono: "(\<And>i. i < k \<Longrightarrow> f i \<le> g i) \<Longrightarrow> enc s k f \<le> enc s k g"
proof (induction k arbitrary: f g)
  case (Suc k)
  have "enc s k (\<lambda>i. f (Suc i)) \<le> enc s k (\<lambda>i. g (Suc i))" by (rule Suc.IH) (simp add: Suc.prems)
  then show ?case using Suc.prems [of 0] by (simp add: add_mono)
qed simp

lemma masks:
  "(0x55555555 :: nat) = enc 2 16 (\<lambda>_. 1)" "(0x33333333 :: nat) = enc 4 8 (\<lambda>_. 3)"
  "(0x0F0F0F0F :: nat) = enc 4 8 (\<lambda>i. if even i then 15 else 0)"
  by (simp_all add: enc_numeral)

lemma swar_pairs:
  assumes x: "x < 2 ^ 32"
  defines "p \<equiv> \<lambda>i. of_bool (bit x (2 * i)) + of_bool (bit x (2 * i + 1)) :: nat"
  shows "x - (x div 2 AND 0x55555555) = enc 2 16 p" "x div 2 AND 0x55555555 \<le> x"
proof -
  let ?d = "digit 2 x"
  have e: "enc 2 16 ?d = x" using x by (intro enc_digits) simp
  have d: "?d i < 2 ^ 2" for i by (simp add: digit_def)
  have m: "x div 2 AND 0x55555555 = enc 2 16 (\<lambda>i. ?d i div 2 AND 1)"
    using enc_shift_mask [of 1 2 16 ?d 1] d e unfolding masks by simp
  have "?d i div 2 < 2" for i using d [of i] by simp
  then have r: "(\<lambda>i. ?d i div 2 AND 1) = (\<lambda>i. ?d i div 2)" by (simp add: fun_eq_iff and_one_eq)
  have "enc 2 16 ?d - enc 2 16 (\<lambda>i. ?d i div 2) = enc 2 16 (\<lambda>i. ?d i - ?d i div 2)" by (intro enc_diff) simp
  moreover have "?d i - ?d i div 2 = p i" for i
  proof -
    have b: "?d i = of_bool (bit x (2 * i)) + 2 * of_bool (bit x (2 * i + 1))"
    proof -
      have "?d i = (x div 2 ^ (2 * i)) mod 2 + 2 * ((x div 2 ^ (2 * i)) div 2 mod 2)" 
        unfolding digit_def using mod_mult2_eq [of "x div 2 ^ (2 * i)" 2 2] by simp
      then show ?thesis by (simp add: bit_iff_odd div_mult2_eq [symmetric] mult.commute mod2_eq_if)
    qed
    show ?thesis unfolding b p_def by auto
  qed
  ultimately show "x - (x div 2 AND 0x55555555) = enc 2 16 p" unfolding m r e by simp
  have "enc 2 16 (\<lambda>i. ?d i - ?d i div 2) + enc 2 16 (\<lambda>i. ?d i div 2) = x" unfolding enc_add by (simp add: e)
  then show "x div 2 AND 0x55555555 \<le> x" unfolding m r by simp
qed

lemma swar_nibbles:
  assumes p: "\<And>i. p i \<le> 2"
  defines "x \<equiv> enc 2 16 p"
  shows "(x AND 0x33333333) + (x div 4 AND 0x33333333) = enc 4 8 (\<lambda>i. p (2 * i) + p (2 * i + 1))"
proof -
  let ?g = "\<lambda>i. p (2 * i) + 2 ^ 2 * p (2 * i + 1)"
  have x: "x = enc 4 8 ?g" using enc_pair [of 2 8 p] by (simp add: x_def)
  have g: "?g i < 2 ^ 4" for i using p [of "2 * i"] p [of "2 * i + 1"] by simp
  have low: "?g i AND 3 = p (2 * i)" for i
    using and_field [of "p (2 * i)" 2 3 "p (2 * i + 1)" 0] p [of "2 * i"] take_bit_nat_eq_self [of "p (2 * i)" 2]
    by (simp add: take_bit_eq_mask mask_eq_exp_minus_1)
  have high: "?g i div 2 ^ 2 AND 3 = p (2 * i + 1)" for i
    using p [of "2 * i"] p [of "2 * i + 1"] take_bit_nat_eq_self [of "p (2 * i + 1)" 2]
    by (simp add: take_bit_eq_mask mask_eq_exp_minus_1)
  have "x AND 0x33333333 = enc 4 8 (\<lambda>i. p (2 * i))" unfolding x masks using enc_mask [of 8 ?g 4 "\<lambda>_. 3"] g low by simp
  moreover have "x div 4 AND 0x33333333 = enc 4 8 (\<lambda>i. p (2 * i + 1))"
    unfolding x masks using enc_shift_mask [of 2 4 8 ?g 3] g high by simp
  ultimately show ?thesis by (simp add: enc_add)
qed

lemma enc_add_shift:
  assumes "\<And>i. i < Suc k \<Longrightarrow> f i < 2 ^ s"
  shows "enc s (Suc k) f + enc s (Suc k) f div 2 ^ s = enc s (Suc k) (\<lambda>i. f i + (if i < k then f (Suc i) else 0))"
proof -
  have "enc s (Suc k) f div 2 ^ s = enc s k (\<lambda>i. f (Suc i))" by (rule enc_field_shift) (rule assms)
  also have "\<dots> = enc s (Suc k) (\<lambda>i. if i < k then f (Suc i) else 0)" by (rule enc_pad)
  finally show ?thesis by (simp only: enc_add)
qed

lemma swar_bytes:
  assumes q: "\<And>i. q i \<le> 4"
  defines "x \<equiv> enc 4 8 q"
  shows "(x + x div 16) AND 0x0F0F0F0F = enc 8 4 (\<lambda>i. q (2 * i) + q (2 * i + 1))"
proof -
  let ?s = "\<lambda>i. q i + (if i < 7 then q (Suc i) else 0)"
  have q16: "q i < 2 ^ 4" for i using q [of i] by simp
  have "x + x div 16 = enc 4 8 ?s" using enc_add_shift [of 7 q 4] q16 by (simp add: x_def)
  moreover have s: "?s i < 2 ^ 4" for i using q [of i] q [of "Suc i"] by simp
  ultimately have "(x + x div 16) AND 0x0F0F0F0F = enc 4 8 (\<lambda>i. ?s i AND (if even i then 15 else 0))"
    unfolding masks using enc_mask [of 8 ?s 4 "\<lambda>i. if even i then 15 else 0"] by simp
  also have "\<dots> = enc 4 8 (\<lambda>i. if even i then q i + q (Suc i) else 0)"
  proof (rule enc_cong)
    fix i :: nat assume i: "i < 8"
    have "even i \<Longrightarrow> i < 7" using i by (cases "i = 7") auto
    then show "?s i AND (if even i then 15 else 0) = (if even i then q i + q (Suc i) else 0)"
      using take_bit_nat_eq_self [of "?s i" 4] s [of i] by (auto simp: take_bit_eq_mask mask_eq_exp_minus_1)
  qed
  also have "\<dots> = enc 8 4 (\<lambda>i. q (2 * i) + q (2 * i + 1))" using enc_pair [of 4 4 "\<lambda>i. if even i then q i + q (Suc i) else 0"] by simp
  finally show ?thesis .
qed

lemma swar_sum:
  assumes r: "\<And>i. r i \<le> 8"
  defines "x \<equiv> enc 8 4 r"
  shows "(x + x div 256 + (x + x div 256) div 65536) mod 64 = r 0 + r 1 + r 2 + r 3"
proof -
  let ?s = "\<lambda>i. r i + (if i < 3 then r (Suc i) else 0)"
  have n [simp]: "r (Suc (Suc 0)) = r 2" "r (Suc (Suc (Suc 0))) = r 3" "r (Suc 2) = r 3" by (simp_all add: numeral_2_eq_2 numeral_3_eq_3)
  have "x + x div 256 = enc 8 4 ?s" using enc_add_shift [of 3 r 8] r by (simp add: x_def le_less_trans [OF r])
  also have "\<dots> = ?s 0 + 256 * (?s 1 + 256 * (?s 2 + 256 * ?s 3))" by (simp add: enc_numeral)
  finally have y: "x + x div 256 = ?s 0 + 256 * (?s 1 + 256 * (?s 2 + 256 * ?s 3))" .
  have b: "?s i < 256" for i using r [of i] r [of "Suc i"] by simp
  have "?s 0 + 256 * (?s 1 + 256 * (?s 2 + 256 * ?s 3)) = (?s 0 + 256 * ?s 1) + 65536 * (?s 2 + 256 * ?s 3)" by simp
  moreover have "?s 0 + 256 * ?s 1 < 65536" using r [of 0] r [of 1] r [of 2] by simp
  ultimately have z: "(x + x div 256) div 65536 = ?s 2 + 256 * ?s 3" unfolding y by simp
  have "x + x div 256 + (x + x div 256) div 65536 = (?s 0 + ?s 2) + 64 * (4 * (?s 1 + 256 * (?s 2 + 256 * ?s 3)) + 4 * ?s 3)"
    unfolding z unfolding y by simp
  then have "(x + x div 256 + (x + x div 256) div 65536) mod 64 = (?s 0 + ?s 2) mod 64" by (metis mod_mult_self2)
  also have "\<dots> = ?s 0 + ?s 2" using r [of 0] r [of 1] r [of 2] r [of 3] by simp
  finally show ?thesis by simp
qed


lemma popcount_nat:
  fixes x :: nat
  assumes x: "x < 2 ^ 32"
  shows "(\<Sum>i<16. of_bool (bit x (2 * i)) + of_bool (bit x (2 * i + 1))) = card {n. bit x n}"
proof -
  have "\<not> bit x n" if "32 \<le> n" for n
  proof -
    have "x < 2 ^ n" using x power_increasing [OF that, of "2 :: nat"] by simp
    then show ?thesis by (simp add: bit_iff_odd)
  qed
  then have fin: "{n. bit x n} \<subseteq> {..<32}" by (auto simp: not_less [symmetric])
  have "card {n. bit x n} = (\<Sum>n<32. of_bool (bit x n))" using Int_absorb1 [OF fin] by simp
  also have "{..<32 :: nat} = {..<2 * 16}" by simp
  also have "(\<Sum>n<2 * k. of_bool (bit x n) :: nat) = (\<Sum>i<k. of_bool (bit x (2 * i)) + of_bool (bit x (2 * i + 1)))" for k
    by (induction k) simp_all
  finally show ?thesis by simp
qed

theorem popcount32_exact: "unat (gc_popcount32 x) = card {n. bit x n}"
proof -
  define p where "p = (\<lambda>i. of_bool (bit x (2 * i)) + of_bool (bit x (2 * i + 1)) :: nat)"
  define q where "q = (\<lambda>i. p (2 * i) + p (2 * i + 1))" 
  define r where "r = (\<lambda>i. q (2 * i) + q (2 * i + 1))"
  have p2: "p i \<le> 2" for i by (simp add: p_def)
  have q4: "q i \<le> 4" for i using p2 [of "2 * i"] p2 [of "2 * i + 1"] by (simp add: q_def)
  have r8: "r i \<le> 8" for i using q4 [of "2 * i"] q4 [of "2 * i + 1"] by (simp add: r_def)
  have b: "bit (unat x) n = bit x n" for n by (simp add: bit_unsigned_iff)
  have lt: "unat x < 2 ^ 32" using unsigned_less [of x] by simp
  have u: "unat (a AND c) = unat a AND unat c" for a c :: u32 by (rule unsigned_and_eq)
  have d: "unat (drop_bit n w) = unat w div 2 ^ n" for n and w :: u32 unfolding unat_drop_bit_eq by (rule drop_bit_eq_div)
  define x1 where "x1 = x - (drop_bit 1 x AND 0x55555555)"
  have x1: "unat x1 = enc 2 16 p"
    using swar_pairs [OF lt] by (simp add: x1_def unat_sub word_le_nat_alt u d b p_def)
  define x2 where "x2 = (x1 AND 0x33333333) + (drop_bit 2 x1 AND 0x33333333)"
  have x2: "unat x2 = enc 4 8 q"
  proof -
    have e: "unat (x1 AND 0x33333333) + unat (drop_bit 2 x1 AND 0x33333333) = enc 4 8 q"
      using swar_nibbles [of p, OF p2] by (simp add: u d x1 q_def)
    have "enc 4 8 q < 2 ^ (4 * 8)" by (rule enc_bound) (use q4 in \<open>simp add: le_less_trans [OF q4]\<close>)
    then show ?thesis unfolding x2_def using e by (subst unat_add_small) simp_all
  qed
  define x3 where "x3 = (x2 + drop_bit 4 x2) AND 0x0F0F0F0F"
  have x3: "unat x3 = enc 8 4 r"
  proof -
    have "enc 4 8 q + enc 4 8 q div 2 ^ 4 = enc 4 8 (\<lambda>i. q i + (if i < 7 then q (Suc i) else 0))" 
      using enc_add_shift [of 7 q 4] by (simp add: le_less_trans [OF q4])
    also have "\<dots> < 2 ^ (4 * 8)" by (rule enc_bound) (use q4 in \<open>simp add: le_less_trans [OF add_le_mono [OF q4 q4]] le_less_trans [OF q4]\<close>)
    finally have "unat (x2 + drop_bit 4 x2) = unat x2 + unat x2 div 16" by (subst unat_add_small) (simp_all add: d x2)
    then show ?thesis using swar_bytes [of q, OF q4] by (simp add: x3_def u x2 r_def)
  qed
  define x4 where "x4 = x3 + drop_bit 8 x3"
  have x4: "unat x4 = enc 8 4 r + enc 8 4 r div 2 ^ 8" "enc 8 4 r + enc 8 4 r div 2 ^ 8 < 2 ^ 32 - 2 ^ 16"
  proof -
    have "enc 8 4 r + enc 8 4 r div 2 ^ 8 = enc 8 4 (\<lambda>i. r i + (if i < 3 then r (Suc i) else 0))"
      using enc_add_shift [of 3 r 8] r8 by (simp add: le_less_trans [OF r8])
    also have "\<dots> \<le> enc 8 4 (\<lambda>_. 16)" by (rule enc_mono) (use r8 in \<open>simp add: add_le_mono [of _ 8 _ 8, simplified]\<close>)
    also have "\<dots> = 16 * 0x1010101" by (simp add: enc_numeral)
    finally show l: "enc 8 4 r + enc 8 4 r div 2 ^ 8 < 2 ^ 32 - 2 ^ 16" by simp
    then show "unat x4 = enc 8 4 r + enc 8 4 r div 2 ^ 8" unfolding x4_def by (subst unat_add_small) (simp_all add: d x3)
  qed
  define x5 where "x5 = x4 + drop_bit 16 x4"
  have x5: "unat x5 = unat x4 + unat x4 div 2 ^ 16"
  proof -
    have "unat x4 div 2 ^ 16 < 2 ^ 16" using unsigned_less [of x4, where 'a = nat] by (simp add: less_mult_imp_div_less)
    then show ?thesis unfolding x5_def using x4 by (subst unat_add_small) (simp_all add: d)
  qed
  have "gc_popcount32 x = x5 AND 0x3F" by (simp add: gc_popcount32_def Let_def x5_def x4_def x3_def x2_def x1_def)
  moreover have "unat (x5 AND 0x3F) = unat x5 mod 64"
    using take_bit_eq_mask [of 6 "unat x5"] by (simp add: u take_bit_eq_mod mask_eq_exp_minus_1)
  moreover have "unat x5 mod 64 = r 0 + r 1 + r 2 + r 3" using swar_sum [OF r8] by (simp add: x5 x4(1))
  moreover have "r 0 + r 1 + r 2 + r 3 = (\<Sum>i<16. p i)" by (simp add: r_def q_def numeral_eq_Suc)
  ultimately show ?thesis using popcount_nat [OF lt] by (simp add: b p_def)
qed

section \<open>The tables\<close>

abbreviation bit_at :: "(nat \<Rightarrow> u32) \<Rightarrow> nat \<Rightarrow> bool" where
  "bit_at bits g \<equiv> bit (bits (g div 32)) (g mod 32)"

lemma ones: "(0xFFFFFFFF :: u32) = - 1"
  by simp

lemma le_div_mod: "a \<le> b \<longleftrightarrow> a div n < b div n \<or> a div n = b div n \<and> a mod n \<le> b mod n" for a b n :: nat
proof (cases "a div n" "b div n" rule: linorder_cases)
  case less
  then have "\<not> b \<le> a" using div_le_mono [of b a n] by auto
  then show ?thesis using less by simp
next
  case equal
  then show ?thesis using div_mult_mod_eq [of a n] div_mult_mod_eq [of b n] by (metis add_le_cancel_left less_irrefl)
next
  case greater
  then show ?thesis using div_le_mono [of a b n] by auto
qed

lemma set_range_bits:
  assumes "g0 < g1"
  shows "bit_at (gc_fwd_set_range g0 g1 bits) g \<longleftrightarrow> bit_at bits g \<or> g0 \<le> g \<and> g < g1"
proof -
  obtain e where e: "g1 = Suc e" using assms by (cases g1) auto
  have i: "g mod 32 < 32" by simp
  have m0: "bit (push_bit (g0 mod 32) (0xFFFFFFFF :: u32)) (g mod 32) \<longleftrightarrow> g0 mod 32 \<le> g mod 32"
    using i by (simp only: ones) (auto simp: bit_simps)
  have m1: "bit (drop_bit (31 - e mod 32) (0xFFFFFFFF :: u32)) (g mod 32) \<longleftrightarrow> g mod 32 \<le> e mod 32"
    using mod_less_divisor [of 32 e] by (simp only: ones) (auto simp: bit_simps)
  have full: "bit (0xFFFFFFFF :: u32) (g mod 32)" using i by (simp only: ones) simp
  have below: "g0 \<le> g \<longleftrightarrow> g0 div 32 < g div 32 \<or> g0 div 32 = g div 32 \<and> g0 mod 32 \<le> g mod 32" by (rule le_div_mod)
  have above: "g < g1 \<longleftrightarrow> g div 32 < e div 32 \<or> g div 32 = e div 32 \<and> g mod 32 \<le> e mod 32"
    using le_div_mod [of g e 32] by (auto simp: e)
  have le: "g0 div 32 \<le> e div 32" using assms by (intro div_le_mono) (simp add: e)
  show ?thesis
  proof (cases "g0 div 32 = e div 32")
    case True
    then show ?thesis unfolding below above by (auto simp: gc_fwd_set_range_def Let_def e bit_or_iff bit_and_iff m0 m1)
  next
    case False
    then have "g0 div 32 < e div 32" using le by simp
    then show ?thesis unfolding below above using False full
      by (auto simp: gc_fwd_set_range_def Let_def e bit_or_iff m0 m1 full)
  qed
qed

lemma popcount_shift:
  assumes "e \<le> 32"
  shows "card {n. n < e \<and> bit (bits w) n} = card {g. 32 * w \<le> g \<and> g < 32 * w + e \<and> bit_at bits g}"
proof (rule bij_betw_same_card)
  show "bij_betw (\<lambda>n. 32 * w + n) {n. n < e \<and> bit (bits w) n} {g. 32 * w \<le> g \<and> g < 32 * w + e \<and> bit_at bits g}"
  proof (rule bij_betw_byWitness [where f' = "\<lambda>g. g - 32 * w"])
    show "(\<lambda>n. 32 * w + n) ` {n. n < e \<and> bit (bits w) n} \<subseteq> {g. 32 * w \<le> g \<and> g < 32 * w + e \<and> bit_at bits g}" using assms by auto
    show "(\<lambda>g. g - 32 * w) ` {g. 32 * w \<le> g \<and> g < 32 * w + e \<and> bit_at bits g} \<subseteq> {n. n < e \<and> bit (bits w) n}"
    proof
      fix n assume "n \<in> (\<lambda>g. g - 32 * w) ` {g. 32 * w \<le> g \<and> g < 32 * w + e \<and> bit_at bits g}"
      then obtain g where g: "n = g - 32 * w" "32 * w \<le> g" "g < 32 * w + e" "bit_at bits g" by auto
      then have d: "g div 32 = w" using assms by (intro div_nat_eqI) auto
      then have "g mod 32 = g - 32 * w" by (simp add: minus_mult_div_eq_mod [symmetric])
      then show "n \<in> {n. n < e \<and> bit (bits w) n}" using g d by auto
    qed
  qed auto
qed

lemma bit_word_bound: "bit (x :: u32) n \<Longrightarrow> n < 32"
  using bit_imp_le_length [of x n] by simp

lemma popcount_word: "unat (gc_popcount32 (bits w)) = card {g. 32 * w \<le> g \<and> g < 32 * w + 32 \<and> bit_at bits g}"
proof -
  have "{n. bit (bits w) n} = {n. n < 32 \<and> bit (bits w) n}" by (auto dest: bit_word_bound)
  then show ?thesis using popcount_shift [of 32 bits w] by (simp add: popcount32_exact)
qed

lemma popcount_part:
  assumes "i < 32"
  shows "unat (gc_popcount32 (bits w AND (push_bit i 1 - 1))) = card {g. 32 * w \<le> g \<and> g < 32 * w + i \<and> bit_at bits g}"
proof -
  have "push_bit i 1 - 1 = (mask i :: u32)" by (simp add: mask_eq_exp_minus_1 push_bit_eq_mult)
  then have "{n. bit (bits w AND (push_bit i 1 - 1)) n} = {n. n < i \<and> bit (bits w) n}" using assms by (auto simp: bit_and_iff bit_mask_iff)
  then show ?thesis using popcount_shift [of i bits w] assms by (simp add: popcount32_exact)
qed

lemma card_split: "a \<le> b \<Longrightarrow> b \<le> c \<Longrightarrow> card {g. a \<le> g \<and> g < b \<and> P g} + card {g. b \<le> g \<and> g < c \<and> P g} = card {g :: nat. a \<le> g \<and> g < c \<and> P g}"
proof -
  assume ab: "a \<le> b" "b \<le> c"
  have "{g. a \<le> g \<and> g < c \<and> P g} = {g. a \<le> g \<and> g < b \<and> P g} \<union> {g. b \<le> g \<and> g < c \<and> P g}" using ab by auto
  moreover have "card ({g. a \<le> g \<and> g < b \<and> P g} \<union> {g. b \<le> g \<and> g < c \<and> P g}) = card {g. a \<le> g \<and> g < b \<and> P g} + card {g. b \<le> g \<and> g < c \<and> P g}"
    by (rule card_Un_disjoint) auto
  ultimately show ?thesis by simp
qed

lemma live_loop_card: "w \<le> e \<Longrightarrow> live_loop bits e w live = (e, live + card {g. 32 * w \<le> g \<and> g < 32 * e \<and> bit_at bits g})"
proof (induction bits e w live rule: live_loop.induct)
  case (1 bits e w live)
  show ?case
  proof (cases "w < e")
    case True
    have "live_loop bits e w live = (e, live + unat (gc_popcount32 (bits w)) + card {g. 32 * (w + 1) \<le> g \<and> g < 32 * e \<and> bit_at bits g})"
      using True 1(1) [OF True] by (subst live_loop.simps) simp
    moreover have "unat (gc_popcount32 (bits w)) + card {g. 32 * (w + 1) \<le> g \<and> g < 32 * e \<and> bit_at bits g}
        = card {g. 32 * w \<le> g \<and> g < 32 * e \<and> bit_at bits g}"
      unfolding popcount_word using card_split [of "32 * w" "32 * w + 32" "32 * e" "bit_at bits"] True by (simp add: add.commute)
    ultimately show ?thesis by simp
  next
    case False
    then have "{g. 32 * w \<le> g \<and> g < 32 * e \<and> bit_at bits g} = {}" by auto
    then show ?thesis using False 1(2) by (subst live_loop.simps) simp
  qed
qed

section \<open>Pins\<close>

lemma pin_search_split:
  assumes "sorted pins"
  shows "a \<le> b \<Longrightarrow> b \<le> length pins \<Longrightarrow> \<forall>i<a. pins ! i < lo \<Longrightarrow> \<forall>i. b \<le> i \<and> i < length pins \<longrightarrow> lo \<le> pins ! i \<Longrightarrow>
    pin_search pins lo a b \<le> length pins \<and> (\<forall>i<length pins. pins ! i < lo \<longleftrightarrow> i < pin_search pins lo a b)"
  using assms
proof (induction pins lo a b rule: pin_search.induct)
  case (1 pins lo a b)
  show ?case
  proof (cases "a < b")
    case True
    let ?m = "(a + b) div 2"
    have m: "a \<le> ?m" "?m < b" using True by auto
    show ?thesis
    proof (cases "pins ! ?m < lo")
      case True
      have "\<forall>i<?m + 1. pins ! i < lo"
      proof (intro allI impI)
        fix i assume "i < ?m + 1"
        then have "pins ! i \<le> pins ! ?m" using m 1(4) by (intro sorted_nth_mono [OF 1(7)]) auto
        then show "pins ! i < lo" using True by simp
      qed
      moreover have e: "pin_search pins lo a b = pin_search pins lo (?m + 1) b" using \<open>a < b\<close> True by (subst pin_search.simps) (simp add: Let_def)
      ultimately show ?thesis unfolding e using m by (intro 1(1) [OF \<open>a < b\<close> refl True _ 1(4) _ 1(6,7)]) auto
    next
      case False
      then have "\<forall>i. ?m \<le> i \<and> i < length pins \<longrightarrow> lo \<le> pins ! i" using 1(7) by (meson leI le_trans sorted_nth_mono)
      moreover have e: "pin_search pins lo a b = pin_search pins lo a ?m" using \<open>a < b\<close> False by (subst pin_search.simps) (simp add: Let_def)
      ultimately show ?thesis unfolding e using m 1(4) by (intro 1(2) [OF \<open>a < b\<close> refl False _ _ 1(5) _ 1(7)]) auto
    qed
  next
    case False
    then have "a = b" "pin_search pins lo a b = a" using 1(3) by (simp, subst pin_search.simps) simp
    then show ?thesis using 1(4-6) by (auto simp: not_less)
  qed
qed

lemma gap_sum_set:
  assumes "sorted pins"
  shows "gap_sum pins gap hi a = (\<Sum>i | a \<le> i \<and> i < length pins \<and> pins ! i \<le> hi. gap i)"
  using assms
proof (induction pins gap hi a rule: gap_sum.induct)
  case (1 pins gap hi a)
  show ?case
  proof (cases "a < length pins \<and> pins ! a \<le> hi")
    case True
    have "{i. a \<le> i \<and> i < length pins \<and> pins ! i \<le> hi} = insert a {i. a + 1 \<le> i \<and> i < length pins \<and> pins ! i \<le> hi}" using True by auto
    then show ?thesis using True 1 by (subst gap_sum.simps) simp
  next
    case False
    then have "{i. a \<le> i \<and> i < length pins \<and> pins ! i \<le> hi} = {}" using 1(2) by (auto dest: sorted_nth_mono [of pins a])
    then show ?thesis using False by (subst gap_sum.simps) auto
  qed
qed

lemma pin_gaps_sum:
  assumes "sorted pins"
  shows "gc_fwd_pin_gaps pins gap lo hi = (\<Sum>i | i < length pins \<and> lo \<le> pins ! i \<and> pins ! i \<le> hi. gap i)"
proof -
  have "\<forall>i<length pins. pins ! i < lo \<longleftrightarrow> i < pin_search pins lo 0 (length pins)" using pin_search_split [OF assms, of 0 "length pins" lo] by simp
  then have "{i. pin_search pins lo 0 (length pins) \<le> i \<and> i < length pins \<and> pins ! i \<le> hi} = {i. i < length pins \<and> lo \<le> pins ! i \<and> pins ! i \<le> hi}"
    by (auto simp: not_less [symmetric])
  then show ?thesis unfolding gc_fwd_pin_gaps_def gap_sum_set [OF assms] by simp
qed

section \<open>Placement\<close>

lemma skip_pins_spec:
  "i \<le> length pins \<Longrightarrow> i \<le> skip_pins P pins i \<and> skip_pins P pins i \<le> length pins
     \<and> (\<forall>k. i \<le> k \<and> k < skip_pins P pins i \<longrightarrow> P (pins ! k)) \<and> (skip_pins P pins i < length pins \<longrightarrow> \<not> P (pins ! skip_pins P pins i))"
proof (induction P pins i rule: skip_pins.induct)
  case (1 P pins i)
  show ?case
  proof (cases "i < length pins \<and> P (pins ! i)")
    case True
    then have e: "skip_pins P pins i = skip_pins P pins (i + 1)" by (subst skip_pins.simps) simp
    have "P (pins ! k)" if "i \<le> k" "i + 1 \<le> k \<longrightarrow> P (pins ! k)" for k using True that by (cases "k = i") auto
    then show ?thesis unfolding e using 1(1) [OF True] True by auto
  next
    case False
    then have "skip_pins P pins i = i" by (subst skip_pins.simps) auto
    then show ?thesis using False 1(2) by auto
  qed
qed

text \<open>Where a live object goes.\<close>

definition target :: "nat list \<Rightarrow> nat \<Rightarrow> nat \<Rightarrow> nat" where
  "target pins c off = (if off \<in> set pins then off else c)"

lemma place_spec:
  assumes s: "sorted pins" and pl: "pin_i pl \<le> length pins" "\<forall>k<pin_i pl. pins ! k < off"
  obtains j i' where "gc_place pins off sz r (pl, gap) = (target pins (cur pl) off, \<lparr> cur = target pins (cur pl) off + sz, pin_i = i' \<rparr>,
      if r \<and> off \<in> set pins then gap(j := off - cur pl) else gap)"
    "off \<in> set pins \<longrightarrow> j < length pins \<and> pins ! j = off" "i' \<le> length pins" "\<forall>k<i'. pins ! k \<le> off"
proof -
  let ?j = "skip_pins (\<lambda>p. p < off) pins (pin_i pl)"
  note J = skip_pins_spec [OF pl(1), of "\<lambda>p. p < off"]
  have lt: "pins ! k < off" if "k < ?j" for k using J pl(2) that by (cases "k < pin_i pl") auto
  have iff: "?j < length pins \<and> pins ! ?j = off \<longleftrightarrow> off \<in> set pins"
  proof
    assume "off \<in> set pins"
    then obtain k where k: "k < length pins" "pins ! k = off" by (auto simp: in_set_conv_nth)
    then have "?j \<le> k" using lt [of k] by (meson leI less_irrefl)
    then have l: "?j < length pins" "pins ! ?j \<le> off" using k sorted_nth_mono [OF s, of ?j k] by auto
    then show "?j < length pins \<and> pins ! ?j = off" using J by auto
  qed (metis nth_mem)
  show thesis
  proof (cases "off \<in> set pins")
    case True
    then have l: "?j + 1 \<le> length pins" "pins ! ?j = off" using iff by auto
    let ?i = "skip_pins (\<lambda>p. p = off) pins (?j + 1)"
    note I = skip_pins_spec [OF l(1), of "\<lambda>p. p = off"]
    have le: "pins ! k \<le> off" if "k < ?i" for k
    proof (cases "k < ?j")
      case False
      then show ?thesis using I l(2) that by (cases "k = ?j") auto
    qed (use lt in \<open>simp add: less_imp_le\<close>)
    have "?j < length pins \<and> pins ! ?j = off" using True iff by blast
    then have e: "gc_place pins off sz r (pl, gap) = (target pins (cur pl) off, \<lparr> cur = target pins (cur pl) off + sz, pin_i = ?i \<rparr>,
        if r \<and> off \<in> set pins then gap(?j := off - cur pl) else gap)"
      using True by (simp add: gc_place_def Let_def target_def)
    show thesis by (rule that [OF e]) (use iff I le in blast)+
  next
    case False
    then have "\<not> (?j < length pins \<and> pins ! ?j = off)" using iff by blast
    then have e: "gc_place pins off sz r (pl, gap) = (target pins (cur pl) off, \<lparr> cur = target pins (cur pl) off + sz, pin_i = ?j \<rparr>,
        if r \<and> off \<in> set pins then gap(?j := off - cur pl) else gap)"
      using False by (auto simp: gc_place_def Let_def target_def)
    show thesis by (rule that [OF e]) (use False J lt in \<open>auto simp: less_imp_le\<close>)
  qed
qed

lemma page_loop_spec:
  assumes "\<forall>i j. i \<le> j \<longrightarrow> P j \<longrightarrow> P i"
  obtains np' where "page_loop npages P v (np, page) = (np', \<lambda>j. if np \<le> j \<and> j < np' then v j else page j)"
    "np \<le> np'" "\<forall>j\<ge>np. j < np' \<longleftrightarrow> j < npages \<and> P j"
proof -
  have "\<exists>np'. page_loop npages P v (np, page) = (np', \<lambda>j. if np \<le> j \<and> j < np' then v j else page j)
    \<and> np \<le> np' \<and> (\<forall>j\<ge>np. j < np' \<longleftrightarrow> j < npages \<and> P j)"
    using assms
  proof (induction npages P v "(np, page)" arbitrary: np page rule: page_loop.induct)
    case (1 npages P v np page)
    show ?case
    proof (cases "np < npages \<and> P np")
      case True
      then obtain np' where n: "page_loop npages P v (np + 1, page(np := v np)) = (np', \<lambda>j. if np + 1 \<le> j \<and> j < np' then v j else (page(np := v np)) j)"
        "np + 1 \<le> np'" "\<forall>j\<ge>np + 1. j < np' \<longleftrightarrow> j < npages \<and> P j" using 1(1) [OF True 1(2)] by blast
      have "page_loop npages P v (np, page) = (np', \<lambda>j. if np \<le> j \<and> j < np' then v j else page j)"
        using True n(1,2) by (subst page_loop.simps) (auto simp: fun_eq_iff)
      moreover have "\<forall>j\<ge>np. j < np' \<longleftrightarrow> j < npages \<and> P j" using n(2,3) True by (metis Suc_eq_plus1 Suc_leI le_neq_implies_less less_le_trans lessI)
      ultimately show ?thesis using n(2) by auto
    next
      case False
      have "\<not> (j < npages \<and> P j)" if "np \<le> j" for j using False that 1(2) by (meson le_less_trans)
      then show ?thesis using False by (intro exI [of _ np]) (subst page_loop.simps, auto simp: fun_eq_iff)
    qed
  qed
  then show thesis using that by blast
qed

section \<open>The cursor as a function of the tables\<close>

text \<open>The slide cursor on reaching an offset, and the new place of an object there.\<close>

definition Dcur :: "nat list \<Rightarrow> (nat \<Rightarrow> u32) \<Rightarrow> (nat \<Rightarrow> nat) \<Rightarrow> nat \<Rightarrow> nat" where
  "Dcur pins bits gap x = 8 + 8 * card {g. 8 * g < x \<and> bit_at bits g} + (\<Sum>i | i < length pins \<and> pins ! i < x. gap i)"

definition Fcur :: "nat list \<Rightarrow> (nat \<Rightarrow> u32) \<Rightarrow> (nat \<Rightarrow> nat) \<Rightarrow> nat \<Rightarrow> nat" where
  "Fcur pins bits gap x = 8 + 8 * card {g. 8 * g < x \<and> bit_at bits g} + (\<Sum>i | i < length pins \<and> pins ! i \<le> x. gap i)"

text \<open>The tables after the objects with starts in \<open>S\<close>, all below \<open>E\<close>, with the cursor \<open>c\<close>.\<close>

definition tab_inv :: "nat list \<Rightarrow> nat \<Rightarrow> nat set \<Rightarrow> (nat \<Rightarrow> u32) \<Rightarrow> (nat \<Rightarrow> nat) \<Rightarrow> nat \<Rightarrow> bool" where
  "tab_inv pins E S bits gap c \<longleftrightarrow> (\<forall>g. bit_at bits g \<longrightarrow> 8 * g < E) \<and> (\<forall>i<length pins. gap i \<noteq> 0 \<longrightarrow> pins ! i \<in> S)
     \<and> (\<forall>b\<in>S. b < E) \<and> c = Dcur pins bits gap E"

lemma tab_beyond:
  assumes "tab_inv pins E S bits gap c" "E \<le> x"
  shows "Dcur pins bits gap x = c"
proof -
  have "{g. 8 * g < x \<and> bit_at bits g} = {g. 8 * g < E \<and> bit_at bits g}" using assms by (auto simp: tab_inv_def)
  moreover have "(\<Sum>i | i < length pins \<and> pins ! i < x. gap i) = (\<Sum>i | i < length pins \<and> pins ! i < E. gap i)"
    using assms by (intro sum.mono_neutral_right) (auto simp: tab_inv_def)
  ultimately show ?thesis using assms by (simp add: tab_inv_def Dcur_def)
qed

lemma sum_upd:
  assumes "finite A" "gap j = 0"
  shows "(\<Sum>i\<in>A. (gap(j := d)) i) = (\<Sum>i\<in>A. gap i) + (if j \<in> A then d else (0 :: nat))"
proof (cases "j \<in> A")
  case True
  then have "(\<Sum>i\<in>A. (gap(j := d)) i) = d + (\<Sum>i\<in>A - {j}. gap i)" using assms(1) by (subst sum.remove [of _ j]) simp_all
  moreover have "(\<Sum>i\<in>A. gap i) = (\<Sum>i\<in>A - {j}. gap i)" using True assms by (subst sum.remove [of _ j]) simp_all
  ultimately show ?thesis using True by simp
next
  case False
  then show ?thesis by (auto intro!: sum.cong)
qed

lemma card_grow:
  assumes old: "\<And>g. bit_at bits g \<Longrightarrow> 8 * g < off" and new: "\<And>g. bit_at bits' g \<longleftrightarrow> bit_at bits g \<or> off \<le> 8 * g \<and> 8 * g < off + sz"
    and al: "8 dvd off" "8 dvd x" "off \<le> x" "x \<le> off + sz"
  shows "8 * card {g. 8 * g < x \<and> bit_at bits' g} = 8 * card {g. 8 * g < off \<and> bit_at bits g} + (x - off)"
proof -
  obtain o' y where xy: "off = 8 * o'" "x = 8 * y" using al by (auto elim!: dvdE)
  have "{g. 8 * g < x \<and> bit_at bits' g} = {g. 8 * g < off \<and> bit_at bits g} \<union> {o'..<y}" using old new al xy by fastforce
  moreover have "finite {g. 8 * g < off \<and> bit_at bits g}" by (rule finite_subset [of _ "{..<off}"]) auto
  moreover have "{g. 8 * g < off \<and> bit_at bits g} \<inter> {o'..<y} = {}" using xy by auto
  ultimately have "card {g. 8 * g < x \<and> bit_at bits' g} = card {g. 8 * g < off \<and> bit_at bits g} + (y - o')" by (simp add: card_Un_disjoint)
  moreover have "o' \<le> y" using xy al(3) by simp
  ultimately show ?thesis unfolding xy by (simp add: diff_mult_distrib2 [symmetric] distrib_left [symmetric] del: distrib_left_numeral)
qed

text \<open>One more object.\<close>

lemma tab_step:
  fixes pins j c off sz
  defines "gap' \<equiv> \<lambda>gap. if off \<in> set pins then gap(j := off - c) else gap"
  assumes inv: "tab_inv pins E S bits gap c" and E: "E \<le> off" "c \<le> off" and al: "8 dvd off" "8 dvd sz" "0 < sz"
    and j: "off \<in> set pins \<longrightarrow> j < length pins \<and> pins ! j = off"
    and new: "\<And>g. bit_at bits' g \<longleftrightarrow> bit_at bits g \<or> off \<le> 8 * g \<and> 8 * g < off + sz"
  shows "\<And>x. x \<le> off \<Longrightarrow> Dcur pins bits' (gap' gap) x = Dcur pins bits gap x"
    and "\<And>x. x < off \<Longrightarrow> Fcur pins bits' (gap' gap) x = Fcur pins bits gap x"
    and "\<And>x. 8 dvd x \<Longrightarrow> off < x \<Longrightarrow> x \<le> off + sz \<Longrightarrow> Dcur pins bits' (gap' gap) x = target pins c off + (x - off)"
    and "\<And>x. 8 dvd x \<Longrightarrow> off \<le> x \<Longrightarrow> x < off + sz \<Longrightarrow> Fcur pins bits' (gap' gap) x = target pins c off + (x - off)"
    and "tab_inv pins (off + sz) (insert off S) bits' (gap' gap) (target pins c off + sz)"
proof -
  let ?G = "gap' gap"
  have below: "8 * g < off" if "bit_at bits g" for g using inv that E(1) by (auto simp: tab_inv_def intro: less_le_trans)
  have gj: "off \<in> set pins \<Longrightarrow> gap j = 0" using inv j E(1) by (fastforce simp: tab_inv_def)
  have low: "{g. 8 * g < x \<and> bit_at bits' g} = {g. 8 * g < x \<and> bit_at bits g}" if "x \<le> off" for x using new that by auto
  have sums: "(\<Sum>i\<in>A. ?G i) = (\<Sum>i\<in>A. gap i) + (if off \<in> set pins \<and> j \<in> A then off - c else 0)" if "finite A" for A
    using sum_upd [of A gap j "off - c"] that gj by (auto simp: gap'_def)
  show "Dcur pins bits' ?G x = Dcur pins bits gap x" if "x \<le> off" for x
    using low [OF that] sums [of "{i. i < length pins \<and> pins ! i < x}"] j that by (auto simp: Dcur_def)
  show "Fcur pins bits' ?G x = Fcur pins bits gap x" if "x < off" for x
    using low [of x] sums [of "{i. i < length pins \<and> pins ! i \<le> x}"] j that by (auto simp: Fcur_def)
  have nz: "pins ! i < off" if "i < length pins" "gap i \<noteq> 0" for i using inv that E(1) by (fastforce simp: tab_inv_def)
  have c: "c = 8 + 8 * card {g. 8 * g < off \<and> bit_at bits g} + (\<Sum>i | i < length pins \<and> pins ! i < off. gap i)"
    using tab_beyond [OF inv E(1)] by (simp add: Dcur_def)
  have t: "target pins c off = c + (if off \<in> set pins then off - c else 0)" using E(2) by (simp add: target_def)
  have all: "(\<Sum>i\<in>A. ?G i) = (\<Sum>i | i < length pins \<and> pins ! i < off. gap i) + (if off \<in> set pins then off - c else 0)"
    if A: "A \<subseteq> {..<length pins}" "\<And>i. i < length pins \<Longrightarrow> pins ! i \<le> off \<Longrightarrow> i \<in> A" for A
  proof -
    have fin: "finite A" using A(1) finite_subset by blast
    have "(\<Sum>i\<in>A. gap i) = (\<Sum>i | i < length pins \<and> pins ! i < off. gap i)"
    proof (rule sum.mono_neutral_right [OF fin])
      show "{i. i < length pins \<and> pins ! i < off} \<subseteq> A" using A(2) less_imp_le by blast
      show "\<forall>i\<in>A - {i. i < length pins \<and> pins ! i < off}. gap i = 0"
      proof
        fix i assume i: "i \<in> A - {i. i < length pins \<and> pins ! i < off}"
        then have "i < length pins" using A(1) by auto
        then show "gap i = 0" using i nz [of i] by (cases "gap i = 0") auto
      qed
    qed
    moreover have "off \<in> set pins \<Longrightarrow> j \<in> A" using j A(2) by simp
    ultimately show ?thesis using sums [OF fin] by simp
  qed
  have card: "8 * card {g. 8 * g < x \<and> bit_at bits' g} = 8 * card {g. 8 * g < off \<and> bit_at bits g} + (x - off)"
    if "8 dvd x" "off \<le> x" "x \<le> off + sz" for x by (rule card_grow [OF _ new al(1) that]) (rule below)
  show D: "Dcur pins bits' ?G x = target pins c off + (x - off)" if x: "8 dvd x" "off < x" "x \<le> off + sz" for x
  proof -
    have "(\<Sum>i | i < length pins \<and> pins ! i < x. ?G i) = (\<Sum>i | i < length pins \<and> pins ! i < off. gap i) + (if off \<in> set pins then off - c else 0)"
      by (rule all) (use x(2) in auto)
    then show ?thesis unfolding Dcur_def t using card [OF x(1) less_imp_le [OF x(2)] x(3)] c by linarith
  qed
  show "Fcur pins bits' ?G x = target pins c off + (x - off)" if x: "8 dvd x" "off \<le> x" "x < off + sz" for x
  proof -
    have "(\<Sum>i | i < length pins \<and> pins ! i \<le> x. ?G i) = (\<Sum>i | i < length pins \<and> pins ! i < off. gap i) + (if off \<in> set pins then off - c else 0)"
      by (rule all) (use x(2) in auto)
    then show ?thesis unfolding Fcur_def t using card [OF x(1,2) less_imp_le [OF x(3)]] c by linarith
  qed
  have "8 dvd off + sz" using al by simp
  from D [OF this] have "target pins c off + sz = Dcur pins bits' ?G (off + sz)" using al(3) by simp
  moreover have "\<forall>i<length pins. ?G i \<noteq> 0 \<longrightarrow> pins ! i \<in> insert off S" using inv j by (auto simp: tab_inv_def gap'_def)
  moreover have "\<forall>b\<in>insert off S. b < off + sz" using inv E(1) al(3) by (auto simp: tab_inv_def)
  moreover have "\<forall>g. bit_at bits' g \<longrightarrow> 8 * g < off + sz" using new below by (auto intro: less_le_trans trans_less_add1)
  ultimately show "tab_inv pins (off + sz) (insert off S) bits' ?G (target pins c off + sz)" by (simp add: tab_inv_def)
qed

section \<open>The forwarding pass\<close>

lemma page512: "GC_FWD_PAGE = 512"
  by (simp add: GC_FWD_PAGE_def GC_FWD_PAGE_SHIFT_def GC_FWD_ALIGN_SHIFT_def)

definition fwd_inv :: "nat list \<Rightarrow> nat \<Rightarrow> nat \<Rightarrow> nat \<Rightarrow> nat set \<Rightarrow> nat \<times> GcPlace \<times> gc_fwd \<Rightarrow> bool" where
  "fwd_inv pins npages off E S = (\<lambda>(np, pl, f). tab_inv pins E S (gc_fwd_bits f) (gc_fwd_gap f) (cur pl) \<and> E \<le> off \<and> cur pl \<le> off
     \<and> pin_i pl \<le> length pins \<and> (\<forall>k<pin_i pl. pins ! k < E) \<and> (\<forall>j. j < np \<longleftrightarrow> j < npages \<and> j * 512 < E)
     \<and> (\<forall>j<np. gc_fwd_page f j = Dcur pins (gc_fwd_bits f) (gc_fwd_gap f) (j * 512)))"

abbreviation fwd_at :: "nat list \<Rightarrow> nat \<times> GcPlace \<times> gc_fwd \<Rightarrow> nat \<Rightarrow> nat" where
  "fwd_at pins s x \<equiv> Fcur pins (gc_fwd_bits (snd (snd s))) (gc_fwd_gap (snd (snd s))) x"

abbreviation live_at :: "nat \<times> GcPlace \<times> gc_fwd \<Rightarrow> nat \<Rightarrow> bool" where
  "live_at s g \<equiv> bit_at (gc_fwd_bits (snd (snd s))) g"

lemma forward_step_inv:
  assumes s: "sorted pins" and inv: "fwd_inv pins npages off E S st" and al: "8 dvd off" "8 dvd sz" "0 < sz"
  defines "st' \<equiv> forward_step pins npages off sz st" and "n \<equiv> target pins (cur (fst (snd st))) off"
  shows "fwd_inv pins npages (off + sz) (off + sz) (insert off S) st'" "cur (fst (snd st')) = n + sz"
    and "\<And>g. live_at st' g \<longleftrightarrow> live_at st g \<or> off \<le> 8 * g \<and> 8 * g < off + sz"
    and "\<And>x. x < off \<Longrightarrow> fwd_at pins st' x = fwd_at pins st x"
    and "\<And>x. 8 dvd x \<Longrightarrow> off \<le> x \<Longrightarrow> x < off + sz \<Longrightarrow> fwd_at pins st' x = n + (x - off)"
proof -
  obtain np pl f where st: "st = (np, pl, f)" by (metis surj_pair)
  have I: "tab_inv pins E S (gc_fwd_bits f) (gc_fwd_gap f) (cur pl)" "E \<le> off" "cur pl \<le> off" "pin_i pl \<le> length pins"
    "\<forall>k<pin_i pl. pins ! k < E" "\<forall>j. j < np \<longleftrightarrow> j < npages \<and> j * 512 < E"
    "\<forall>j<np. gc_fwd_page f j = Dcur pins (gc_fwd_bits f) (gc_fwd_gap f) (j * 512)"
    using inv by (simp_all add: st fwd_inv_def)
  have n: "n = target pins (cur pl) off" by (simp add: n_def st)
  obtain np1 where p1: "page_loop npages (\<lambda>p. p * GC_FWD_PAGE \<le> off) (\<lambda>_. cur pl) (np, gc_fwd_page f) =
      (np1, \<lambda>j. if np \<le> j \<and> j < np1 then cur pl else gc_fwd_page f j)" "np \<le> np1" "\<forall>j\<ge>np. j < np1 \<longleftrightarrow> j < npages \<and> j * GC_FWD_PAGE \<le> off"
    by (rule page_loop_spec [of "\<lambda>p. p * GC_FWD_PAGE \<le> off" npages "\<lambda>_. cur pl" np "gc_fwd_page f"]) (auto simp: page512)
  have below: "\<forall>k<pin_i pl. pins ! k < off" using I(2,5) by (meson less_le_trans)
  obtain j i' where pl: "gc_place pins off sz True (pl, gc_fwd_gap f) = (n, \<lparr> cur = n + sz, pin_i = i' \<rparr>,
        if True \<and> off \<in> set pins then (gc_fwd_gap f)(j := off - cur pl) else gc_fwd_gap f)"
      "off \<in> set pins \<longrightarrow> j < length pins \<and> pins ! j = off" "i' \<le> length pins" "\<forall>k<i'. pins ! k \<le> off"
    unfolding n by (rule place_spec [OF s I(4) below])
  obtain np2 where p2: "page_loop npages (\<lambda>p. p * GC_FWD_PAGE < off + sz) (\<lambda>p. n + (p * GC_FWD_PAGE - off)) (np1, \<lambda>j. if np \<le> j \<and> j < np1 then cur pl else gc_fwd_page f j) =
      (np2, \<lambda>j. if np1 \<le> j \<and> j < np2 then n + (j * GC_FWD_PAGE - off) else if np \<le> j \<and> j < np1 then cur pl else gc_fwd_page f j)"
      "np1 \<le> np2" "\<forall>j\<ge>np1. j < np2 \<longleftrightarrow> j < npages \<and> j * GC_FWD_PAGE < off + sz"
    by (rule page_loop_spec [of "\<lambda>p. p * GC_FWD_PAGE < off + sz" npages "\<lambda>p. n + (p * GC_FWD_PAGE - off)" np1
          "\<lambda>j. if np \<le> j \<and> j < np1 then cur pl else gc_fwd_page f j"]) (auto simp: page512)
  let ?bits = "gc_fwd_set_range (off div 8) ((off + sz) div 8) (gc_fwd_bits f)"
  let ?gap = "if off \<in> set pins then (gc_fwd_gap f)(j := off - cur pl) else gc_fwd_gap f"
  let ?page = "\<lambda>j. if np1 \<le> j \<and> j < np2 then n + (j * GC_FWD_PAGE - off) else if np \<le> j \<and> j < np1 then cur pl else gc_fwd_page f j"
  have st': "st' = (np2, \<lparr> cur = n + sz, pin_i = i' \<rparr>, \<lparr> gc_fwd_bits = ?bits, gc_fwd_page = ?page, gc_fwd_gap = ?gap \<rparr>)"
    unfolding st'_def st forward_step_def using p1(1) pl(1) p2(1) by (simp add: Let_def)
  have bits: "bit_at ?bits g \<longleftrightarrow> bit_at (gc_fwd_bits f) g \<or> off \<le> 8 * g \<and> 8 * g < off + sz" for g
  proof -
    have "off div 8 < (off + sz) div 8" "(off div 8 \<le> g) = (off \<le> 8 * g)" "(g < (off + sz) div 8) = (8 * g < off + sz)" using al by (auto elim!: dvdE)
    then show ?thesis using set_range_bits [of "off div 8" "(off + sz) div 8"] by simp
  qed
  note T = tab_step [OF I(1-3) al pl(2) bits, folded n]
  show "cur (fst (snd st')) = n + sz" by (simp add: st')
  show "live_at st' g \<longleftrightarrow> live_at st g \<or> off \<le> 8 * g \<and> 8 * g < off + sz" for g using bits by (simp add: st st')
  show "fwd_at pins st' x = fwd_at pins st x" if "x < off" for x using T(2) [OF that] by (simp add: st st')
  show "fwd_at pins st' x = n + (x - off)" if "8 dvd x" "off \<le> x" "x < off + sz" for x using T(4) [OF that] by (simp add: st')
  have np2: "j < np2 \<longleftrightarrow> j < npages \<and> j * 512 < off + sz" for j
  proof -
    consider "j < np" | "np \<le> j" "j < np1" | "np1 \<le> j" by linarith
    then show ?thesis
    proof cases
      case 1
      then have "j < npages" "j * 512 < E" using I(6) by auto
      then show ?thesis using 1 p1(2) p2(2) I(2) by linarith
    next
      case 2
      then have "j < npages" "j * 512 \<le> off" using p1(3) by (auto simp: page512)
      then show ?thesis using 2 p2(2) al(3) by linarith
    next
      case 3
      then show ?thesis using p2(3) by (simp add: page512)
    qed
  qed
  have pages: "?page j = Dcur pins ?bits ?gap (j * 512)" if "j < np2" for j
  proof -
    consider "j < np" | "np \<le> j" "j < np1" | "np1 \<le> j" by linarith
    then show ?thesis
    proof cases
      case 1
      then have "j * 512 < E" using I(6) by blast
      then have "j * 512 \<le> off" using I(2) by linarith
      then show ?thesis using T(1) I(7) 1 p1(2) by simp
    next
      case 2
      then have b: "j < npages" "j * 512 \<le> off" using p1(3) by (auto simp: page512)
      then have "E \<le> j * 512" using I(6) 2(1) by (meson not_less)
      then show ?thesis using T(1) [OF b(2)] tab_beyond [OF I(1)] 2 by simp
    next
      case 3
      have "j < npages" "j * 512 < off + sz" using np2 that by blast+
      moreover from this have "off < j * 512" using p1(2,3) 3 by (metis leD le_trans not_le page512)
      ultimately show ?thesis using T(3) [of "j * 512"] 3 that by (simp add: page512)
    qed
  qed
  show "fwd_inv pins npages (off + sz) (off + sz) (insert off S) st'"
    unfolding st' fwd_inv_def prod.case
  proof (intro conjI allI impI)
    show "tab_inv pins (off + sz) (insert off S) (gc_fwd_bits \<lparr>gc_fwd_bits = ?bits, gc_fwd_page = ?page, gc_fwd_gap = ?gap\<rparr>)
      (gc_fwd_gap \<lparr>gc_fwd_bits = ?bits, gc_fwd_page = ?page, gc_fwd_gap = ?gap\<rparr>) (cur \<lparr>cur = n + sz, pin_i = i'\<rparr>)" using T(5) by simp
    show "cur \<lparr>cur = n + sz, pin_i = i'\<rparr> \<le> off + sz" using I(3) by (simp add: n target_def)
    show "pin_i \<lparr>cur = n + sz, pin_i = i'\<rparr> \<le> length pins" using pl(3) by simp
    show "pins ! k < off + sz" if "k < pin_i \<lparr>cur = n + sz, pin_i = i'\<rparr>" for k
    proof -
      have "pins ! k \<le> off" using pl(4) that by simp
      then show ?thesis using al(3) by linarith
    qed
  qed (use np2 pages in simp_all)
qed

end
