(* ===== verification/Compact_Forward.thy ===== *)
theory Compact_Forward
  imports Compact_Tables
begin

unbundle bit_operations_syntax

text \<open>
  The new layout (\<open>layout\<close>) and the lookup: the filled tables give for every granule of a live
  block its place in the layout.
\<close>

text \<open>
  The new layout: every live block with its header and its new place.  \<open>c\<close> is the cursor.
\<close>

fun layout :: "nat list \<Rightarrow> nat \<Rightarrow> (nat \<times> u32) list \<Rightarrow> (nat \<times> u32 \<times> nat) list" where
  "layout pins c [] = []"
| "layout pins c ((b, w) # bs) = (b, w, target pins c b) # layout pins (target pins c b + hsize w) bs"

abbreviation marked_blocks :: "(nat \<Rightarrow> u32) \<Rightarrow> nat list \<Rightarrow> (nat \<times> u32) list" where
  "marked_blocks m bs \<equiv> filter (\<lambda>(b, w). CL_HDR_MARKED w) (blocks m bs)"

lemma chain_aligned_size: "chain m a (b # bs) e \<Longrightarrow> 8 dvd e \<Longrightarrow> \<forall>d\<in>set (b # bs). 8 dvd d \<Longrightarrow> 8 dvd hsize (m a)"
proof -
  assume c: "chain m a (b # bs) e" and e: "8 dvd e" and al: "\<forall>d\<in>set (b # bs). 8 dvd d"
  have "8 dvd a + hsize (m a)" using c e al by (cases bs) auto
  then show ?thesis using c al by (simp add: dvd_add_right_iff)
qed

lemma fwd_inv_mono: "fwd_inv pins npages off E S st \<Longrightarrow> off \<le> off' \<Longrightarrow> fwd_inv pins npages off' E S st"
  by (auto simp: fwd_inv_def)

lemma forward_loop_inv:
  assumes s: "sorted pins" and fin: "8 dvd bump h"
  shows "chain (arena h) off bs (bump h) \<Longrightarrow> \<forall>b\<in>set bs. 8 dvd b \<Longrightarrow> fwd_inv pins npages off E S st \<Longrightarrow>
    (\<exists>E S. fwd_inv pins npages (bump h) E S (forward_loop pins npages h off st))
    \<and> (\<forall>x<off. fwd_at pins (forward_loop pins npages h off st) x = fwd_at pins st x)
    \<and> (\<forall>g. live_at (forward_loop pins npages h off st) g \<longleftrightarrow> live_at st g
         \<or> (\<exists>(b, w)\<in>set (marked_blocks (arena h) bs). b \<le> 8 * g \<and> 8 * g < b + hsize w))
    \<and> (\<forall>(b, w, n)\<in>set (layout pins (cur (fst (snd st))) (marked_blocks (arena h) bs)).
         \<forall>x. 8 dvd x \<and> b \<le> x \<and> x < b + hsize w \<longrightarrow> fwd_at pins (forward_loop pins npages h off st) x = n + (x - b))"
proof (induction bs arbitrary: off E S st)
  case Nil
  then show ?case by (subst (1 2 3 4) forward_loop.simps) auto
next
  case (Cons b bs)
  let ?sz = "hsize (arena h off)"
  have c: "b = off" "8 \<le> ?sz" "chain (arena h) (off + ?sz) bs (bump h)" using Cons.prems(1) by simp_all
  have lt: "off < bump h" using chain_le [OF c(3)] c(2) by simp
  have al: "8 dvd off" using Cons.prems(2) c(1) by simp
  have sz: "8 dvd ?sz" "0 < ?sz" using chain_aligned_size [OF Cons.prems(1) fin] Cons.prems(2) c(1,2) by simp_all
  let ?st = "if CL_HDR_MARKED (arena h off) then forward_step pins npages off ?sz st else st"
  have e: "forward_loop pins npages h off st = forward_loop pins npages h (off + ?sz) ?st"
    using lt c(2) by (subst forward_loop.simps) (simp add: Let_def)
  have al': "\<forall>d\<in>set bs. 8 dvd d" using Cons.prems(2) by simp
  have beyond: "off + ?sz \<le> d" if "d \<in> set bs" for d using chain_ge [OF c(3) that] by simp
  show ?case
  proof (cases "CL_HDR_MARKED (arena h off)")
    case True
    note F = forward_step_inv [OF s Cons.prems(3) al sz]
    let ?k = "forward_loop pins npages h (off + ?sz) (forward_step pins npages off ?sz st)"
    note I = Cons.IH [OF c(3) al' F(1)]
    note I1 = I [THEN conjunct1] and I2 = I [THEN conjunct2, THEN conjunct1]
      and I3 = I [THEN conjunct2, THEN conjunct2, THEN conjunct1] and I4 = I [THEN conjunct2, THEN conjunct2, THEN conjunct2]
    have k: "forward_loop pins npages h off st = ?k" using e True by simp
    have here: "fwd_at pins ?k x = target pins (cur (fst (snd st))) off + (x - off)" if "8 dvd x" "off \<le> x" "x < off + ?sz" for x
      using I2 F(5) [OF that] that(3) by simp
    have live: "live_at ?k g \<longleftrightarrow> live_at st g \<or> (\<exists>(d, w)\<in>set (marked_blocks (arena h) (b # bs)). d \<le> 8 * g \<and> 8 * g < d + hsize w)" for g
      using I3 F(3) True by (auto simp: c(1))
    show ?thesis unfolding k
    proof (intro conjI I1 allI impI live)
      show "fwd_at pins ?k x = fwd_at pins st x" if "x < off" for x using I2 F(4) [OF that] that by simp
      show "\<forall>(b, w, n)\<in>set (layout pins (cur (fst (snd st))) (marked_blocks (arena h) (b # bs))).
         \<forall>x. 8 dvd x \<and> b \<le> x \<and> x < b + hsize w \<longrightarrow> fwd_at pins ?k x = n + (x - b)"
        using I4 F(2) True here by (simp add: c(1))
    qed
  next
    case False
    from Cons.IH [OF c(3) al' fwd_inv_mono [OF Cons.prems(3)]] show ?thesis unfolding e using False by (simp add: c(1))
  qed
qed

section \<open>The lookup\<close>

text \<open>The tables are complete: the cursor of every page is recorded.\<close>

definition fwd_full :: "nat list \<Rightarrow> nat \<Rightarrow> gc_fwd \<Rightarrow> bool" where
  "fwd_full pins e f \<longleftrightarrow> (\<forall>j. j * 512 < e \<longrightarrow> gc_fwd_page f j = Dcur pins (gc_fwd_bits f) (gc_fwd_gap f) (j * 512))"

lemma compute_forwarding_full:
  assumes walk: "heap_walk h bs" and al: "CL_ALIGN dvd bump h"
  obtains f where "gc_compute_forwarding jit_pinned h = (sort jit_pinned, f)" "fwd_full (sort jit_pinned) (bump h) f"
    "\<forall>g. bit_at (gc_fwd_bits f) g \<longleftrightarrow> (\<exists>(b, w)\<in>set (marked_blocks (arena h) bs). b \<le> 8 * g \<and> 8 * g < b + hsize w)"
    "\<forall>(b, w, n)\<in>set (layout (sort jit_pinned) CL_ALIGN (marked_blocks (arena h) bs)).
       \<forall>x. 8 dvd x \<and> b \<le> x \<and> x < b + hsize w \<longrightarrow> Fcur (sort jit_pinned) (gc_fwd_bits f) (gc_fwd_gap f) x = n + (x - b)"
proof -
  let ?p = "sort jit_pinned"
  let ?np = "(bump h + GC_FWD_PAGE - 1) div GC_FWD_PAGE"
  let ?i = "(0, \<lparr> cur = CL_ALIGN, pin_i = 0 \<rparr>, gc_fwd_alloc) :: nat \<times> GcPlace \<times> gc_fwd"
  have c: "chain (arena h) CL_ALIGN bs (bump h)" "\<forall>b\<in>set bs. 8 dvd b" "8 dvd bump h" using walk al by (simp_all add: heap_walk_def CL_ALIGN_def)
  have i: "fwd_inv ?p ?np CL_ALIGN 0 {} ?i"
    by (simp add: fwd_inv_def tab_inv_def gc_fwd_alloc_def Dcur_def CL_ALIGN_def)
  note I = forward_loop_inv [OF sorted_sort c(3,1,2) i]
  obtain np pl f where st: "forward_loop ?p ?np h CL_ALIGN ?i = (np, pl, f)" by (metis surj_pair)
  from I obtain E S where inv: "fwd_inv ?p ?np (bump h) E S (np, pl, f)" unfolding st by blast
  have T: "tab_inv ?p E S (gc_fwd_bits f) (gc_fwd_gap f) (cur pl)" "\<forall>j. j < np \<longleftrightarrow> j < ?np \<and> j * 512 < E"
    "\<forall>j<np. gc_fwd_page f j = Dcur ?p (gc_fwd_bits f) (gc_fwd_gap f) (j * 512)" using inv by (simp_all add: fwd_inv_def)
  obtain np' where l: "page_loop ?np (\<lambda>_. True) (\<lambda>_. cur pl) (np, gc_fwd_page f) = (np', \<lambda>j. if np \<le> j \<and> j < np' then cur pl else gc_fwd_page f j)"
    "\<forall>j\<ge>np. j < np' \<longleftrightarrow> j < ?np \<and> True" by (rule page_loop_spec [of "\<lambda>_. True" ?np "\<lambda>_. cur pl" np "gc_fwd_page f"]) auto
  let ?f = "f \<lparr> gc_fwd_page := \<lambda>j. if np \<le> j \<and> j < np' then cur pl else gc_fwd_page f j \<rparr>"
  have "gc_compute_forwarding jit_pinned h = (?p, ?f)" by (simp only: gc_compute_forwarding_def Let_def st prod.case l(1) snd_conv)
  moreover have "fwd_full ?p (bump h) ?f"
    unfolding fwd_full_def
  proof (intro allI impI)
    fix j assume j: "j * 512 < bump h"
    then have n: "j < ?np" by (simp add: page512 less_eq_div_iff_mult_less_eq Suc_le_eq [symmetric])
    show "gc_fwd_page ?f j = Dcur ?p (gc_fwd_bits ?f) (gc_fwd_gap ?f) (j * 512)"
    proof (cases "j < np")
      case False
      then have "E \<le> j * 512" using T(2) n by (meson not_less)
      then show ?thesis using False n l(2) tab_beyond [OF T(1)] by simp
    qed (use T(3) in simp)
  qed
  moreover have "\<forall>g. bit_at (gc_fwd_bits ?f) g \<longleftrightarrow> (\<exists>(b, w)\<in>set (marked_blocks (arena h) bs). b \<le> 8 * g \<and> 8 * g < b + hsize w)"
    using I [THEN conjunct2, THEN conjunct2, THEN conjunct1] unfolding st by (simp add: gc_fwd_alloc_def)
  moreover have "\<forall>(b, w, n)\<in>set (layout ?p CL_ALIGN (marked_blocks (arena h) bs)).
       \<forall>x. 8 dvd x \<and> b \<le> x \<and> x < b + hsize w \<longrightarrow> Fcur ?p (gc_fwd_bits ?f) (gc_fwd_gap ?f) x = n + (x - b)"
    using I [THEN conjunct2, THEN conjunct2, THEN conjunct2] unfolding st by simp
  ultimately show thesis by (rule that)
qed

lemma Fcur_split:
  assumes "p = x div 512 * 512"
  shows "Fcur pins bits gap x = Dcur pins bits gap p + 8 * card {g. p \<le> 8 * g \<and> 8 * g < x \<and> bit_at bits g}
    + (\<Sum>i | i < length pins \<and> p \<le> pins ! i \<and> pins ! i \<le> x. gap i)"
proof -
  have p: "p \<le> x" by (simp add: assms)
  have fin: "finite {g. 8 * g < y \<and> Q g}" for y and Q :: "nat \<Rightarrow> bool" by (rule finite_subset [of _ "{..<y}"]) auto
  have "{g. 8 * g < x \<and> bit_at bits g} = {g. 8 * g < p \<and> bit_at bits g} \<union> {g. p \<le> 8 * g \<and> 8 * g < x \<and> bit_at bits g}" using p by auto
  moreover have "finite {g. p \<le> 8 * g \<and> 8 * g < x \<and> bit_at bits g}" by (rule finite_subset [OF _ fin [of x "\<lambda>_. True"]]) auto
  ultimately have c: "card {g. 8 * g < x \<and> bit_at bits g} = card {g. 8 * g < p \<and> bit_at bits g} + card {g. p \<le> 8 * g \<and> 8 * g < x \<and> bit_at bits g}"
    using fin [of p "bit_at bits"] by (simp add: card_Un_disjoint disjoint_iff)
  have "{i. i < length pins \<and> pins ! i \<le> x} = {i. i < length pins \<and> pins ! i < p} \<union> {i. i < length pins \<and> p \<le> pins ! i \<and> pins ! i \<le> x}" using p by auto
  moreover have "(\<Sum>i\<in>{i. i < length pins \<and> pins ! i < p} \<union> {i. i < length pins \<and> p \<le> pins ! i \<and> pins ! i \<le> x}. gap i)
    = (\<Sum>i | i < length pins \<and> pins ! i < p. gap i) + (\<Sum>i | i < length pins \<and> p \<le> pins ! i \<and> pins ! i \<le> x. gap i)"
    by (rule sum.union_disjoint) auto
  ultimately show ?thesis unfolding Fcur_def Dcur_def c by simp
qed

lemma aligned_pointer:
  assumes "8 dvd x" "0 < x" "x < 2 ^ 32"
  defines "obj \<equiv> of_nat x :: u32"
  shows "unat obj = x" "obj \<noteq> CL_NIL" "\<not> CL_FIXNUM_P obj" "\<not> CL_CHAR_P obj" "obj \<noteq> CL_UNBOUND"
proof -
  show u: "unat obj = x" using assms by (simp add: obj_def unat_of_nat)
  have al: "take_bit 3 obj = 0"
  proof -
    have "unat (take_bit 3 obj) = 0" unfolding unsigned_take_bit_eq u using assms(1) by (simp add: take_bit_eq_mod)
    then show ?thesis by (simp only: unat_eq_0)
  qed
  then have b: "\<not> bit obj 0" "\<not> bit obj 1"
    by (metis bit_0_eq bit_take_bit_iff bot_apply bot_bool_def numeral_less_iff zero_less_numeral semiring_norm(75,77,81) one_less_numeral_iff)+
  show "obj \<noteq> CL_NIL" using u assms(2) by (auto simp: CL_NIL_def)
  show "\<not> CL_FIXNUM_P obj" using b(1) by (simp add: CL_FIXNUM_P_def and_one_eq bit_0 odd_iff_mod_2_eq_one)
  show "\<not> CL_CHAR_P obj"
  proof
    assume "CL_CHAR_P obj"
    then have "bit (obj AND 0xFF) 1" by (simp add: CL_CHAR_P_def)
    then show False using b(2) by (simp add: bit_and_iff)
  qed
  show "obj \<noteq> CL_UNBOUND" using b(2) by (auto simp: CL_UNBOUND_def)
qed

lemma forward_live:
  assumes s: "sorted pins" and f: "fwd_full pins (bump h) f" and x: "8 dvd x" "0 < x" "x < bump h" "bump h < 2 ^ 32"
    and live: "bit_at (gc_fwd_bits f) (x div 8)"
  shows "gc_forward pins f h (of_nat x) = of_nat (Fcur pins (gc_fwd_bits f) (gc_fwd_gap f) x)"
proof -
  let ?g = "x div 8" and ?p = "x div 512 * 512" and ?b = "gc_fwd_bits f"
  have x32: "x < 2 ^ 32" using x by simp
  note P = aligned_pointer [OF x(1,2) x32]
  have g: "8 * ?g = x" using x(1) by simp
  have w: "x div 512 * 2 \<le> ?g div 32"
  proof -
    have "?g div 32 = x div 256" by (simp add: div_mult2_eq [symmetric])
    moreover have "x div 512 = x div 256 div 2" by (simp add: div_mult2_eq [symmetric])
    ultimately show ?thesis by simp
  qed
  have "card {g. 32 * (x div 512 * 2) \<le> g \<and> g < 32 * (?g div 32) \<and> bit_at ?b g} + card {g. 32 * (?g div 32) \<le> g \<and> g < 32 * (?g div 32) + ?g mod 32 \<and> bit_at ?b g}
    = card {g. 32 * (x div 512 * 2) \<le> g \<and> g < 32 * (?g div 32) + ?g mod 32 \<and> bit_at ?b g}" using w by (intro card_split) auto
  also have "{g. 32 * (x div 512 * 2) \<le> g \<and> g < 32 * (?g div 32) + ?g mod 32 \<and> bit_at ?b g} = {g. ?p \<le> 8 * g \<and> 8 * g < x \<and> bit_at ?b g}"
    using g by auto
  finally have c: "card {g. 32 * (x div 512 * 2) \<le> g \<and> g < 32 * (?g div 32) \<and> bit_at ?b g} + card {g. 32 * (?g div 32) \<le> g \<and> g < 32 * (?g div 32) + ?g mod 32 \<and> bit_at ?b g}
    = card {g. ?p \<le> 8 * g \<and> 8 * g < x \<and> bit_at ?b g}" .
  have "?p < bump h" using x(3) by (meson div_times_less_eq_dividend le_less_trans)
  then have page: "gc_fwd_page f (x div 512) = Dcur pins ?b (gc_fwd_gap f) ?p" using f by (simp add: fwd_full_def)
  let ?live = "card {g. 32 * (x div 512 * 2) \<le> g \<and> g < 32 * (?g div 32) \<and> bit_at ?b g} + unat (gc_popcount32 (?b (?g div 32) AND (push_bit (?g mod 32) 1 - 1)))"
  have live8: "?live = card {g. ?p \<le> 8 * g \<and> 8 * g < x \<and> bit_at ?b g}" unfolding c [symmetric] by (subst popcount_part) simp_all
  have "gc_forward pins f h (of_nat x) = of_nat (if length pins > 0
      then Dcur pins ?b (gc_fwd_gap f) ?p + ?live * 8 + gc_fwd_pin_gaps pins (gc_fwd_gap f) ?p x else Dcur pins ?b (gc_fwd_gap f) ?p + ?live * 8)"
    unfolding gc_forward_def P(1) page512 GC_FWD_WORDS_PER_PAGE_def Let_def live_loop_card [OF w] prod.case page add_0
    using P(2-5) x(3) live by (simp only: if_False not_le [symmetric] de_Morgan_disj not_True_eq_False simp_thms)
  also have "\<dots> = of_nat (Fcur pins ?b (gc_fwd_gap f) x)"
    unfolding Fcur_split [OF refl] live8 pin_gaps_sum [OF s] by (cases "pins = []") simp_all
  finally show ?thesis .
qed

lemma forward_dead:
  assumes "8 dvd x" "0 < x" "x < 2 ^ 32" "\<not> bit_at (gc_fwd_bits f) (x div 8)"
  shows "gc_forward pins f h (of_nat x) = of_nat x"
  using aligned_pointer [OF assms(1-3)] assms(4) by (simp add: gc_forward_def Let_def)

lemma forward_immediate:
  "CL_FIXNUM_P v \<or> CL_CHAR_P v \<or> v = CL_NIL \<or> v = CL_UNBOUND \<Longrightarrow> gc_forward pins f h v = v"
  by (auto simp: gc_forward_def)

end
