(* ===== verification/Compact_Slide.thy ===== *)
theory Compact_Slide
  imports Compact_Forward
begin

unbundle bit_operations_syntax

text \<open>
  The slide refines \<open>slide_spec\<close>, which lists the blocks of the new heap: moved blocks in order,
  and free blocks in the holes below pinned ones.
\<close>

section \<open>The layout after the slide\<close>

text \<open>A live block moved to a new place, or a free block of a hole.\<close>

datatype piece = Moved nat nat u32 | Hole nat nat

fun piece_seg :: "piece \<Rightarrow> seg" where
  "piece_seg (Moved n b w) = Live n w" | "piece_seg (Hole n t) = Free n t"

fun moves :: "piece list \<Rightarrow> (nat \<times> u32 \<times> nat) list" where
  "moves [] = []" | "moves (Moved n b w # ps) = (b, w, n) # moves ps" | "moves (Hole n t # ps) = moves ps"

lemma chunk_bounds:
  assumes "8 dvd t" "0 < t"
  shows "8 dvd gc_free_gap_chunk t" "8 \<le> gc_free_gap_chunk t" "gc_free_gap_chunk t \<le> t" "gc_free_gap_chunk t \<le> max_block"
proof -
  obtain k where k: "t = 8 * k" "0 < k" using assms by (auto elim!: dvdE)
  show "8 dvd gc_free_gap_chunk t" "8 \<le> gc_free_gap_chunk t" "gc_free_gap_chunk t \<le> t" "gc_free_gap_chunk t \<le> max_block"
    using k by (auto simp: gc_free_gap_chunk_def max_block_def CL_ALIGN_def CL_MIN_ALLOC_SIZE_def Let_def)
qed

function holes :: "nat \<Rightarrow> nat \<Rightarrow> piece list" where
  "holes n t = (if t = 0 \<or> \<not> 8 dvd t then [] else Hole n (gc_free_gap_chunk t) # holes (n + gc_free_gap_chunk t) (t - gc_free_gap_chunk t))"
  by pat_completeness auto
termination
proof (relation "measure snd")
  fix n t :: nat assume "\<not> (t = 0 \<or> \<not> 8 dvd t)"
  then have "8 \<le> gc_free_gap_chunk t" "0 < t" using chunk_bounds [of t] by auto
  then show "((n + gc_free_gap_chunk t, t - gc_free_gap_chunk t), n, t) \<in> measure snd" by simp
qed simp

declare holes.simps [simp del]

fun slide_spec :: "nat list \<Rightarrow> nat \<Rightarrow> (nat \<times> u32) list \<Rightarrow> piece list" where
  "slide_spec pins c [] = []"
| "slide_spec pins c ((b, w) # bs) =
     holes c (target pins c b - c) @ Moved (target pins c b) b w # slide_spec pins (target pins c b + hsize w) bs"

lemma moves_holes [simp]: "moves (holes n t @ ps) = moves ps"
proof (induction n t rule: holes.induct)
  case (1 n t)
  then show ?case by (subst holes.simps) auto
qed

lemma moves_spec: "moves (slide_spec pins c bs) = layout pins c bs"
  by (induction pins c bs rule: slide_spec.induct) simp_all

fun slid :: "(nat \<Rightarrow> u32) \<Rightarrow> (nat \<Rightarrow> u32) \<Rightarrow> nat \<Rightarrow> piece list \<Rightarrow> nat \<Rightarrow> bool" where
  "slid m m' a [] e \<longleftrightarrow> a = e"
| "slid m m' a (Moved n b w # ps) e \<longleftrightarrow> n = a \<and> 8 dvd a \<and> 8 \<le> hsize w \<and> w = m b \<and> m' a = CL_HDR_CLR_MARK w
     \<and> (\<forall>d. 0 < d \<and> d < hsize w \<longrightarrow> m' (a + d) = m (b + d)) \<and> slid m m' (a + hsize w) ps e"
| "slid m m' a (Hole n t # ps) e \<longleftrightarrow> n = a \<and> 8 dvd a \<and> 8 \<le> t \<and> t \<le> max_block \<and> m' a = of_nat t \<and> slid m m' (a + t) ps e"

lemma slid_le: "slid m m' a ps e \<Longrightarrow> a \<le> e"
  by (induction m m' a ps e rule: slid.induct) auto

lemma slid_append: "slid m m' a (ps @ qs) e \<longleftrightarrow> (\<exists>c. slid m m' a ps c \<and> slid m m' c qs e)"
  by (induction m m' a ps e rule: slid.induct) auto

lemma slid_cong: "slid m m' a ps e \<Longrightarrow> (\<And>x. a \<le> x \<Longrightarrow> x < e \<Longrightarrow> m'' x = m' x) \<Longrightarrow> slid m m'' a ps e"
proof (induction m m' a ps e rule: slid.induct)
  case (2 m m' a n b w ps e)
  have le: "a + hsize w \<le> e" using 2(2) slid_le by fastforce
  then have "slid m m'' (a + hsize w) ps e" using 2(2,3) by (intro 2(1)) auto
  moreover have "m'' (a + d) = m' (a + d)" if "d < hsize w" for d using le that by (intro 2(3)) auto
  moreover from this [of 0] have "m'' a = m' a" using 2(2) by auto
  ultimately show ?case using 2(2) by auto
next
  case (3 m m' a n t ps e)
  have le: "a + t \<le> e" using 3(2) slid_le by fastforce
  then have "slid m m'' (a + t) ps e" using 3(2,3) by (intro 3(1)) auto
  moreover have "m'' a = m' a" using 3(2) le by (intro 3(3)) auto
  ultimately show ?case using 3(2) by auto
qed simp

lemma slid_moves: "slid m m' a ps e \<Longrightarrow> (b, w, n) \<in> set (moves ps) \<Longrightarrow>
  8 dvd n \<and> m' n = CL_HDR_CLR_MARK (m b) \<and> w = m b \<and> (\<forall>d. 0 < d \<and> d < hsize w \<longrightarrow> m' (n + d) = m (b + d))"
  by (induction m m' a ps e rule: slid.induct) auto

lemma slid_aligned: "slid m m' a ps e \<Longrightarrow> p \<in> set ps \<Longrightarrow> 8 dvd seg_off (piece_seg p)"
  by (induction m m' a ps e rule: slid.induct) auto

lemma slid_holds: "slid m m' a ps e \<Longrightarrow> \<exists>v. holds v m' a (map piece_seg ps) e"
proof (induction m m' a ps e rule: slid.induct)
  case (2 m m' a n b w ps e)
  then obtain v where v: "holds v m' (a + hsize w) (map piece_seg ps) e" by auto
  let ?v = "\<lambda>x. if a + hsize w \<le> x then v x else if x = a then w else m' x"
  have "holds ?v m' (a + hsize w) (map piece_seg ps) e" using v holds_cong [of "a + hsize w" ?v v] by simp
  then show ?case using 2(2) by (intro exI [of _ ?v]) auto
qed auto

lemma piece_frees: "f \<in> set (frees (map piece_seg ps)) \<Longrightarrow> slid m m' a ps e \<Longrightarrow> a \<le> f \<and> f + 8 \<le> e"
proof (induction m m' a ps e rule: slid.induct)
  case (3 m m' a n t ps e)
  then show ?case using slid_le [of m m' "a + t" ps e] by auto
qed auto

lemma piece_bytes: "slid m m' a ps e \<Longrightarrow> a + live_bytes (map piece_seg ps) \<le> e"
  by (induction m m' a ps e rule: slid.induct) (auto simp: live_bytes_def)

lemma live_bytes_append [simp]: "live_bytes (xs @ ys) = live_bytes xs + live_bytes ys"
  by (induction xs rule: frees.induct) (auto simp: live_bytes_def)

lemma frees_append [simp]: "frees (xs @ ys) = frees xs @ frees ys"
  by (induction xs rule: frees.induct) auto

lemma noted_append [simp]: "noted (xs @ ys) f = noted ys (noted xs f)"
  by (induction xs arbitrary: f) auto

lemma holes_bytes [simp]: "live_bytes (map piece_seg (holes n t)) = 0"
proof (induction n t rule: holes.induct)
  case (1 n t)
  then show ?case by (subst holes.simps) (auto simp: live_bytes_def)
qed

section \<open>The slide\<close>

text \<open>
  The new layout \<open>ps\<close> has been built up to the cursor \<open>c\<close>; from \<open>lim\<close> on the arena is as it was.
\<close>

definition built :: "(nat \<Rightarrow> u32) \<Rightarrow> (nat \<Rightarrow> nat option) \<Rightarrow> piece list \<Rightarrow> nat \<Rightarrow> nat \<Rightarrow> cl_heap \<Rightarrow> bool" where
  "built m f ps c lim k \<longleftrightarrow> slid m (arena k) 8 ps c \<and> 8 dvd c \<and> c \<le> lim \<and> lim < 2 ^ 32 \<and> (\<forall>x\<ge>lim. arena k x = m x)
     \<and> links (arena k) (free_list k) (rev (frees (map piece_seg ps))) \<and> free_list k < 2 ^ 32
     \<and> hdr_at k = noted (map piece_seg ps) f"

lemma built_hole:
  assumes b: "built m f ps c lim k" and t: "8 dvd t" "8 \<le> t" "t \<le> max_block" "c + t \<le> lim"
  defines "k' \<equiv> gc_hdr_note_crossing c t (k \<lparr> arena := (arena k)(c := of_nat t, c + 4 := of_nat (free_list k)), free_list := c \<rparr>)"
  shows "built m f (ps @ [Hole c t]) (c + t) lim k'"
proof -
  have B: "slid m (arena k) 8 ps c" "8 dvd c" "c \<le> lim" "lim < 2 ^ 32" "\<forall>x\<ge>lim. arena k x = m x"
    "links (arena k) (free_list k) (rev (frees (map piece_seg ps)))" "free_list k < 2 ^ 32" "hdr_at k = noted (map piece_seg ps) f"
    using b by (simp_all add: built_def)
  have a: "arena k' = (arena k)(c := of_nat t, c + 4 := of_nat (free_list k))" by (simp add: k'_def)
  have c8: "8 \<le> c" using slid_le [OF B(1)] .
  have "slid m (arena k') 8 ps c" by (rule slid_cong [OF B(1)]) (simp add: a)
  then have s: "slid m (arena k') 8 (ps @ [Hole c t]) (c + t)" using B(2) t(2,3) by (auto simp: slid_append a)
  have "links (arena k') (free_list k) (rev (frees (map piece_seg ps)))"
  proof (subst links_cong)
    fix b assume "b \<in> set (rev (frees (map piece_seg ps)))"
    then have "b + 8 \<le> c" using piece_frees [OF _ B(1)] by simp
    then show "arena k' (b + 4) = arena k (b + 4)" by (simp add: a)
  qed (rule B(6))
  moreover have "unat (of_nat (free_list k) :: u32) = free_list k" using B(7) by (simp add: unat_of_nat)
  ultimately have l: "links (arena k') (free_list k') (rev (frees (map piece_seg (ps @ [Hole c t]))))"
    using c8 by (simp add: a) (simp add: k'_def)
  have h: "hdr_at k' = noted (map piece_seg (ps @ [Hole c t])) f"
    unfolding k'_def using t(2) B(8) by (simp add: hdr_at_seg [where k = k])
  show ?thesis unfolding built_def
  proof (intro conjI)
    show "8 dvd c + t" using B(2) t(1) by simp
    show "\<forall>x\<ge>lim. arena k' x = m x" using B(5) t by (auto simp: a)
    show "free_list k' < 2 ^ 32" using B(3,4) t by (simp add: k'_def)
  qed (use s l h t B in auto)
qed

lemma built_gap:
  "built m f ps c lim k \<Longrightarrow> 8 dvd t \<Longrightarrow> c + t \<le> lim \<Longrightarrow> built m f (ps @ holes c t) (c + t) lim (gc_make_free_gap c t k)"
proof (induction c t k arbitrary: ps rule: gc_make_free_gap.induct)
  case (1 c t k)
  let ?z = "gc_free_gap_chunk t"
  show ?case
  proof (cases "t = 0")
    case True
    then show ?thesis using 1(2) by (subst gc_make_free_gap.simps, subst holes.simps) simp
  next
    case False
    note z = chunk_bounds [OF 1(3)]
    have nl: "\<not> ?z < 8" using z False by simp
    have d: "8 dvd t - ?z" using z(1) 1(3) False by (simp add: dvd_diff_nat)
    have le: "c + ?z \<le> lim" "c + ?z + (t - ?z) = c + t" using z(3) False 1(4) by auto
    let ?k = "gc_hdr_note_crossing c ?z (k \<lparr> arena := (arena k)(c := of_nat ?z, c + 4 := of_nat (free_list k)), free_list := c \<rparr>)"
    have "built m f (ps @ [Hole c ?z]) (c + ?z) lim ?k" using z False le by (intro built_hole [OF 1(2)]) auto
    from 1(1) [OF False refl nl this d] have "built m f ((ps @ [Hole c ?z]) @ holes (c + ?z) (t - ?z)) (c + t) lim (gc_make_free_gap (c + ?z) (t - ?z) ?k)"
      using le 1(4) by simp
    moreover have "gc_make_free_gap c t k = gc_make_free_gap (c + ?z) (t - ?z) ?k" using False nl by (subst gc_make_free_gap.simps) (simp add: Let_def)
    moreover have "ps @ holes c t = (ps @ [Hole c ?z]) @ holes (c + ?z) (t - ?z)" using False 1(3) by (subst holes.simps) simp
    ultimately show ?thesis by simp
  qed
qed

text \<open>The block from \<open>b\<close> has been copied to the cursor.\<close>

lemma built_move:
  assumes b: "built m f ps c lim k" and w: "CL_HDR_MARKED (m b)" "8 \<le> hsize (m b)" "8 dvd hsize (m b)" "c + hsize (m b) \<le> lim'" "lim \<le> lim'" "lim' < 2 ^ 32"
    and a: "\<And>x. x < c \<Longrightarrow> arena k' x = arena k x" "\<And>x. lim' \<le> x \<Longrightarrow> arena k' x = arena k x"
      "arena k' c = CL_HDR_CLR_MARK (m b)" "\<And>d. 0 < d \<Longrightarrow> d < hsize (m b) \<Longrightarrow> arena k' (c + d) = m (b + d)"
    and k: "free_list k' = free_list k" "gc_hdr_page k' = gc_hdr_page k"
  shows "built m f (ps @ [Moved c b (m b)]) (c + hsize (m b)) lim' (gc_hdr_note_crossing c (hsize (m b)) k')"
proof -
  have B: "slid m (arena k) 8 ps c" "8 dvd c" "\<forall>x\<ge>lim. arena k x = m x"
    "links (arena k) (free_list k) (rev (frees (map piece_seg ps)))" "free_list k < 2 ^ 32" "hdr_at k = noted (map piece_seg ps) f"
    using b by (simp_all add: built_def)
  have "slid m (arena k') 8 ps c" by (rule slid_cong [OF B(1)]) (simp add: a)
  then have s: "slid m (arena k') 8 (ps @ [Moved c b (m b)]) (c + hsize (m b))" using B(2) w a(3,4) by (auto simp: slid_append)
  have l: "links (arena k') (free_list k) (rev (frees (map piece_seg ps)))"
  proof (subst links_cong)
    fix b assume "b \<in> set (rev (frees (map piece_seg ps)))"
    then have "b + 8 \<le> c" using piece_frees [OF _ B(1)] by simp
    then show "arena k' (b + 4) = arena k (b + 4)" by (simp add: a(1))
  qed (rule B(4))
  have h: "hdr_at (gc_hdr_note_crossing c (hsize (m b)) k') = noted (map piece_seg (ps @ [Moved c b (m b)])) f"
    using w(2) k(2) B(6) by (simp add: hdr_at_seg [where k = k])
  show ?thesis unfolding built_def using s l h B w a(2) k by simp
qed

lemma gap_frame:
  "8 dvd t \<Longrightarrow> x < c \<or> c + t \<le> x \<Longrightarrow> arena (gc_make_free_gap c t k) x = arena k x"
proof (induction c t k rule: gc_make_free_gap.induct)
  case (1 c t k)
  let ?z = "gc_free_gap_chunk t"
  let ?k = "gc_hdr_note_crossing c ?z (k \<lparr> arena := (arena k)(c := of_nat ?z, c + 4 := of_nat (free_list k)), free_list := c \<rparr>)"
  show ?case
  proof (cases "t = 0")
    case False
    note z = chunk_bounds [OF 1(2)]
    have nl: "\<not> ?z < 8" using z False by simp
    have "gc_make_free_gap c t k = gc_make_free_gap (c + ?z) (t - ?z) ?k" using False nl by (subst gc_make_free_gap.simps) (simp add: Let_def)
    moreover have "arena (gc_make_free_gap (c + ?z) (t - ?z) ?k) x = arena ?k x"
      using z False 1(2,3) by (intro 1(1) [OF False refl nl]) (auto simp: dvd_diff_nat)
    moreover have "arena ?k x = arena k x" using 1(3) z(2,3) False by auto
    ultimately show ?thesis by simp
  qed (subst gc_make_free_gap.simps, simp)
qed

lemma gap_frame_fields:
  "gc_hdr_page (k \<lparr> arena := a \<rparr>) = gc_hdr_page k" "arena_size (gc_make_free_gap c t k) = arena_size k"
proof -
  show "arena_size (gc_make_free_gap c t k) = arena_size k"
  proof (induction c t k rule: gc_make_free_gap.induct)
    case (1 c t k)
    then show ?case by (subst gc_make_free_gap.simps) (simp add: Let_def)
  qed
qed simp

fun slide_inv :: "nat list \<Rightarrow> (nat \<Rightarrow> u32) \<Rightarrow> (nat \<Rightarrow> nat option) \<Rightarrow> nat \<Rightarrow> piece list \<Rightarrow> GcPlace \<times> nat \<times> nat \<times> cl_heap \<Rightarrow> bool" where
  "slide_inv pins m f off ps (pl, fill, live, k) \<longleftrightarrow> built m f ps (cur pl) off k \<and> fill = cur pl \<and> pin_i pl \<le> length pins
     \<and> (\<forall>i<pin_i pl. pins ! i < off) \<and> live = live_bytes (map piece_seg ps)"

lemma slide_step_inv:
  assumes s: "sorted pins" and inv: "slide_inv pins m f off ps (pl, fill, live, k)"
    and w: "CL_HDR_MARKED (m off)" "8 \<le> hsize (m off)" "8 dvd hsize (m off)" "8 dvd off" "off + hsize (m off) < 2 ^ 32"
  defines "n \<equiv> target pins (cur pl) off"
  shows "slide_inv pins m f (off + hsize (m off)) (ps @ holes (cur pl) (n - cur pl) @ [Moved n off (m off)]) (slide_step pins off (hsize (m off)) (pl, fill, live, k))"
    and "cur (fst (slide_step pins off (hsize (m off)) (pl, fill, live, k))) = n + hsize (m off)"
proof -
  let ?c = "cur pl" and ?sz = "hsize (m off)"
  have I: "built m f ps ?c off k" "fill = ?c" "pin_i pl \<le> length pins" "\<forall>i<pin_i pl. pins ! i < off" "live = live_bytes (map piece_seg ps)"
    using inv by simp_all
  obtain j i' where pl: "gc_place pins off ?sz False (pl, \<lambda>_. 0) = (n, \<lparr> cur = n + ?sz, pin_i = i' \<rparr>,
      if False \<and> off \<in> set pins then (\<lambda>_. 0)(j := off - ?c) else (\<lambda>_. 0))" "i' \<le> length pins" "\<forall>k<i'. pins ! k \<le> off"
    unfolding n_def by (rule place_spec [OF s I(3,4)])
  have c: "?c \<le> off" "8 dvd ?c" "slid m (arena k) 8 ps ?c" using I(1) by (simp_all add: built_def)
  have n: "?c \<le> n" "n \<le> off" "8 dvd n" "n \<noteq> off \<Longrightarrow> n = ?c" using c w(4) by (auto simp: n_def target_def)
  have m_off: "arena k off = m off" using I(1) by (simp add: built_def)
  let ?k1 = "k \<lparr> arena := (arena k)(off := CL_HDR_CLR_MARK (m off)) \<rparr>"
  let ?k2 = "gc_make_free_gap ?c (n - ?c) ?k1"
  let ?k3 = "if n \<noteq> off then ?k2 \<lparr> arena := move_words n off ?sz (arena ?k2) \<rparr> else ?k2"
  have g: "(if n > fill then gc_make_free_gap fill (n - fill) ?k1 else ?k1) = ?k2"
    using I(2) n(1) by (simp, subst gc_make_free_gap.simps) simp
  have "built m f ps ?c (off + 1) ?k1"
  proof -
    have "slid m (arena ?k1) 8 ps ?c" by (rule slid_cong [OF c(3)]) (use c(1) in simp)
    moreover have "links (arena ?k1) (free_list k) (rev (frees (map piece_seg ps)))"
    proof (subst links_cong)
      fix b assume "b \<in> set (rev (frees (map piece_seg ps)))"
      then have "b + 8 \<le> ?c" using piece_frees [OF _ c(3)] by simp
      then show "arena ?k1 (b + 4) = arena k (b + 4)" using c(1) by simp
    qed (use I(1) in \<open>simp add: built_def\<close>)
    ultimately show ?thesis using I(1) w(2,5) by (auto simp: built_def hdr_at_cong [of ?k1 k])
  qed
  then have b2: "built m f (ps @ holes ?c (n - ?c)) n (off + 1) ?k2"
    using built_gap [of m f ps ?c "off + 1" ?k1 "n - ?c"] n c(2) by (simp add: dvd_diff_nat)
  have k2: "arena ?k2 off = CL_HDR_CLR_MARK (m off)" using gap_frame [of "n - ?c" off ?c ?k1] n c(2) by (simp add: dvd_diff_nat)
  have tail: "arena ?k2 x = m x" if "off < x" for x using b2 that by (simp add: built_def)
  have b3: "built m f ((ps @ holes ?c (n - ?c)) @ [Moved n off (m off)]) (n + ?sz) (off + ?sz) (gc_hdr_note_crossing n ?sz ?k3)"
  proof (rule built_move [OF b2 w(1-3)])
    show "arena ?k3 x = arena ?k2 x" if "off + ?sz \<le> x" for x using that n(2) by (simp add: move_words_def)
    show "arena ?k3 n = CL_HDR_CLR_MARK (m off)" using k2 w(2) by (auto simp: move_words_def)
    show "arena ?k3 (n + d) = m (off + d)" if "0 < d" "d < ?sz" for d using tail [of "off + d"] that by (auto simp: move_words_def add.commute)
  qed (use n w in \<open>simp_all add: move_words_def\<close>)
  have "8 + live_bytes (map piece_seg ps) \<le> ?c" using piece_bytes [OF c(3)] .
  moreover have "live_bytes [Live n (m off)] = ?sz" by (simp add: live_bytes_def)
  ultimately have lv: "(live + ?sz) mod 2 ^ 32 = live_bytes (map piece_seg ((ps @ holes ?c (n - ?c)) @ [Moved n off (m off)]))"
    using I(5) c(1) w(5) by simp
  have st: "slide_step pins off ?sz (pl, fill, live, k) = (\<lparr> cur = n + ?sz, pin_i = i' \<rparr>, n + ?sz, (live + ?sz) mod 2 ^ 32, gc_hdr_note_crossing n ?sz ?k3)"
    unfolding slide_step_def prod.case pl(1) Let_def m_off g ..
  have "pins ! i < off + ?sz" if "i < i'" for i using pl(3) that w(2) by (meson add_pos_nonneg le_less_trans less_add_same_cancel1 less_le_trans zero_less_numeral)
  then show "slide_inv pins m f (off + ?sz) (ps @ holes ?c (n - ?c) @ [Moved n off (m off)]) (slide_step pins off ?sz (pl, fill, live, k))"
    unfolding st using b3 pl(2) lv by simp
  show "cur (fst (slide_step pins off ?sz (pl, fill, live, k))) = n + ?sz" by (simp add: st)
qed

lemma slide_loop_inv:
  assumes s: "sorted pins" and fin: "8 dvd fin" "fin < 2 ^ 32"
  shows "chain m off bs fin \<Longrightarrow> \<forall>b\<in>set bs. 8 dvd b \<Longrightarrow> slide_inv pins m f off ps st \<Longrightarrow>
    slide_inv pins m f fin (ps @ slide_spec pins (cur (fst st)) (marked_blocks m bs)) (slide_loop pins fin off st)"
proof (induction bs arbitrary: off ps st)
  case Nil
  then show ?case by (subst slide_loop.simps) simp
next
  case (Cons b bs)
  let ?sz = "hsize (m off)"
  have c: "b = off" "8 \<le> ?sz" "chain m (off + ?sz) bs fin" using Cons.prems(1) by simp_all
  have lt: "off + ?sz \<le> fin" "off < fin" using chain_le [OF c(3)] c(2) by simp_all
  have al: "8 dvd off" using Cons.prems(2) c(1) by simp
  have sz: "8 dvd ?sz" using chain_aligned_size [OF Cons.prems(1) fin(1)] Cons.prems(2) c(1) by simp
  have al': "\<forall>d\<in>set bs. 8 dvd d" using Cons.prems(2) by simp
  obtain pl fill live k where st: "st = (pl, fill, live, k)" by (metis surj_pair)
  have k: "arena k off = m off" using Cons.prems(3) by (simp add: st built_def)
  have e: "slide_loop pins fin off st = slide_loop pins fin (off + ?sz) (if CL_HDR_MARKED (m off) then slide_step pins off ?sz st else st)"
    using lt c(2) k by (subst slide_loop.simps) (simp add: Let_def st)
  show ?case
  proof (cases "CL_HDR_MARKED (m off)")
    case True
    note F = slide_step_inv [OF s Cons.prems(3) [unfolded st] True c(2) sz al le_less_trans [OF lt(1) fin(2)]]
    from Cons.IH [OF c(3) al' F(1)] F(2) show ?thesis unfolding e using True by (simp add: c(1) st)
  next
    case False
    have "slide_inv pins m f (off + ?sz) ps st" using Cons.prems(3) c(2) lt fin(2) by (auto simp: st built_def)
    from Cons.IH [OF c(3) al' this] show ?thesis unfolding e using False by (simp add: c(1))
  qed
qed

lemma slide_loop_size: "arena_size (snd (snd (snd (slide_loop pins fin off st)))) = arena_size (snd (snd (snd st)))"
proof (induction pins fin off st rule: slide_loop.induct)
  case (1 pins fin off st)
  have "arena_size (snd (snd (snd (slide_step pins off sz st)))) = arena_size (snd (snd (snd st)))" for sz
    by (cases st) (simp add: slide_step_def Let_def gap_frame_fields split: prod.splits)
  then show ?case using 1 by (subst slide_loop.simps) (simp add: Let_def)
qed

section \<open>Compaction as a whole\<close>

lemma piece_moves: "lives (map piece_seg ps) = map (\<lambda>(b, w, n). (n, w)) (moves ps)"
  by (induction ps rule: moves.induct) auto

lemma gc_slide_heap:
  assumes walk: "heap_walk h bs" and al: "CL_ALIGN dvd bump h" and s: "sorted pins"
  defines "ss \<equiv> map piece_seg (slide_spec pins CL_ALIGN (marked_blocks (arena h) bs))" and "k \<equiv> gc_slide pins h"
  shows "heap_ok k (map seg_off ss) (rev (frees ss))" "index_ok k (map seg_off ss)" "\<forall>p. hdr_at k p = None \<longleftrightarrow> hdr_at h p = None"
    and "set (map seg_off ss) - set (frees ss) = (\<lambda>(b, w, n). n) ` set (layout pins CL_ALIGN (marked_blocks (arena h) bs))"
    and "\<forall>(b, w, n)\<in>set (layout pins CL_ALIGN (marked_blocks (arena h) bs)).
      arena k n = CL_HDR_CLR_MARK (arena h b) \<and> (\<forall>d. 0 < d \<and> d < hsize (arena h b) \<longrightarrow> arena k (n + d) = arena h (b + d))"
    and "bump k \<le> bump h"
proof -
  let ?ps = "slide_spec pins CL_ALIGN (marked_blocks (arena h) bs)"
  let ?h = "h \<lparr> free_list := 0 \<rparr>"
  have W: "chain (arena h) CL_ALIGN bs (bump h)" "\<forall>b\<in>set bs. 8 dvd b" "8 dvd bump h" "bump h < 2 ^ 32" "8 \<le> bump h"
    using walk al chain_le [of "arena h" CL_ALIGN bs "bump h"] by (auto simp: heap_walk_def CL_ALIGN_def GC_HDR_PAGE_def)
  have i: "slide_inv pins (arena h) (hdr_at h) CL_ALIGN [] (\<lparr> cur = CL_ALIGN, pin_i = 0 \<rparr>, CL_ALIGN, 0, ?h)"
    by (simp add: built_def CL_ALIGN_def live_bytes_def hdr_at_cong [of ?h h])
  obtain pl fill live k' where st: "slide_loop pins (bump h) CL_ALIGN (\<lparr> cur = CL_ALIGN, pin_i = 0 \<rparr>, CL_ALIGN, 0, ?h) = (pl, fill, live, k')" by (metis surj_pair)
  have "slide_inv pins (arena h) (hdr_at h) (bump h) ?ps (pl, fill, live, k')"
    using slide_loop_inv [OF s W(3,4,1,2) i] unfolding st by simp
  then have B: "built (arena h) (hdr_at h) ?ps fill (bump h) k'" "live = live_bytes ss" by (simp_all add: ss_def)
  have k: "k = gc_hdr_bump_reset (k' \<lparr> bump := fill \<rparr>) \<lparr> total_allocated := live \<rparr>" unfolding k_def gc_slide_def st Let_def prod.case ..
  have hk: "hdr_at k = hdr_at k'"
  proof -
    have "hdr_at k = hdr_at (gc_hdr_bump_reset (k' \<lparr> bump := fill \<rparr>))" unfolding k by (rule hdr_at_cong) simp
    also have "\<dots> = hdr_at k'" unfolding hdr_at_reset by (rule hdr_at_cong) simp
    finally show ?thesis .
  qed
  have f: "arena k = arena k'" "free_list k = free_list k'" "bump k = fill" "total_allocated k = live_bytes ss" "hdr_at k = noted ss (hdr_at h)"
    using B hk by (simp_all add: k built_def ss_def)
  have as: "arena_size k = arena_size h" using slide_loop_size [of pins "bump h" CL_ALIGN "(\<lparr> cur = CL_ALIGN, pin_i = 0 \<rparr>, CL_ALIGN, 0, ?h)"] by (simp add: st k)
  have S: "slid (arena h) (arena k) CL_ALIGN ?ps (bump k)" "8 dvd bump k" using B(1) by (simp_all add: f built_def CL_ALIGN_def)
  show le: "bump k \<le> bump h" using B(1) by (simp add: f built_def)
  obtain v where H: "holds v (arena k) CL_ALIGN ss (bump k)" using slid_holds [OF S(1)] by (auto simp: ss_def)
  have l: "links (arena k) (free_list k) (rev (frees ss))" using B(1) by (simp add: f built_def ss_def)
  have "\<forall>s\<in>set ss. CL_ALIGN dvd seg_off s" using slid_aligned [OF S(1)] by (auto simp: ss_def CL_ALIGN_def)
  note G = holds_heap [OF H l f(4) this]
  have w: "watch_ok k" unfolding k by (simp add: watch_ok_def gc_hdr_bump_reset_def)
  have side: "bump k \<le> arena_size k" "arena_size k + GC_HDR_PAGE \<le> 2 ^ 32" "CL_ALIGN dvd bump k \<or> bump k = arena_size k"
    using walk le as S(2) by (auto simp: heap_walk_def CL_ALIGN_def)
  show "heap_ok k (map seg_off ss) (rev (frees ss))" "index_ok k (map seg_off ss)" by (rule G(1) [OF side] G(3) [OF side w f(5)])+
  show "\<forall>p. hdr_at k p = None \<longleftrightarrow> hdr_at h p = None" by (simp add: f(5) noted_none)
  have m: "moves ?ps = layout pins CL_ALIGN (marked_blocks (arena h) bs)" by (rule moves_spec)
  show "set (map seg_off ss) - set (frees ss) = (\<lambda>(b, w, n). n) ` set (layout pins CL_ALIGN (marked_blocks (arena h) bs))"
  proof -
    have "fst ` set (lives ss) = (\<lambda>(b, w, n). n) ` set (moves ?ps)" unfolding ss_def piece_moves by force
    then show ?thesis using G(2) [OF side] m by simp
  qed
  show "\<forall>(b, w, n)\<in>set (layout pins CL_ALIGN (marked_blocks (arena h) bs)).
      arena k n = CL_HDR_CLR_MARK (arena h b) \<and> (\<forall>d. 0 < d \<and> d < hsize (arena h b) \<longrightarrow> arena k (n + d) = arena h (b + d))"
  proof (intro ballI, clarify)
    fix b w n assume "(b, w, n) \<in> set (layout pins CL_ALIGN (marked_blocks (arena h) bs))"
    then have "(b, w, n) \<in> set (moves ?ps)" unfolding m .
    from slid_moves [OF S(1) this]
    show "arena k n = CL_HDR_CLR_MARK (arena h b) \<and> (\<forall>d. 0 < d \<and> d < hsize (arena h b) \<longrightarrow> arena k (n + d) = arena h (b + d))" by simp
  qed
qed

end
