(* ===== verification/Trace.thy ===== *)
theory Trace
  imports Arena_Alloc
begin

unbundle bit_operations_syntax

text \<open>
  The fields of heap objects that hold references (\<open>GC_WALK_OBJ_CHILDREN\<close> of
  \<open>gc_internal.h\<close>, with the layouts of \<open>types.h\<close> on a 64-bit little-endian host), and the mark phase
  (\<open>gc_trace.c\<close>): the visit of a reference, the mark stack with its growth and overflow, the
  drain and the re-scan.  The values of the root slots, and the candidates that the scan of native
  stacks accepts, are arguments.
\<close>

section \<open>Object types\<close>

definition TYPE_CONS :: u32 where "TYPE_CONS = 0"
definition TYPE_SYMBOL :: u32 where "TYPE_SYMBOL = 1"
definition TYPE_STRING :: u32 where "TYPE_STRING = 2"
definition TYPE_FUNCTION :: u32 where "TYPE_FUNCTION = 3"
definition TYPE_CLOSURE :: u32 where "TYPE_CLOSURE = 4"
definition TYPE_BYTECODE :: u32 where "TYPE_BYTECODE = 5"
definition TYPE_VECTOR :: u32 where "TYPE_VECTOR = 6"
definition TYPE_PACKAGE :: u32 where "TYPE_PACKAGE = 7"
definition TYPE_HASHTABLE :: u32 where "TYPE_HASHTABLE = 8"
definition TYPE_CONDITION :: u32 where "TYPE_CONDITION = 9"
definition TYPE_STRUCT :: u32 where "TYPE_STRUCT = 10"
definition TYPE_BIGNUM :: u32 where "TYPE_BIGNUM = 11"
definition TYPE_SINGLE_FLOAT :: u32 where "TYPE_SINGLE_FLOAT = 12"
definition TYPE_DOUBLE_FLOAT :: u32 where "TYPE_DOUBLE_FLOAT = 13"
definition TYPE_RATIO :: u32 where "TYPE_RATIO = 14"
definition TYPE_COMPLEX :: u32 where "TYPE_COMPLEX = 15"
definition TYPE_STREAM :: u32 where "TYPE_STREAM = 16"
definition TYPE_RANDOM_STATE :: u32 where "TYPE_RANDOM_STATE = 17"
definition TYPE_BIT_VECTOR :: u32 where "TYPE_BIT_VECTOR = 18"
definition TYPE_PATHNAME :: u32 where "TYPE_PATHNAME = 19"
definition TYPE_CELL :: u32 where "TYPE_CELL = 20"
definition TYPE_THREAD :: u32 where "TYPE_THREAD = 21"
definition TYPE_LOCK :: u32 where "TYPE_LOCK = 22"
definition TYPE_CONDVAR :: u32 where "TYPE_CONDVAR = 23"
definition TYPE_FOREIGN_POINTER :: u32 where "TYPE_FOREIGN_POINTER = 24"
definition TYPE_RESTART :: u32 where "TYPE_RESTART = 25"
definition TYPE_BYTE_VECTOR :: u32 where "TYPE_BYTE_VECTOR = 26"
definition TYPE_FFI_STUB :: u32 where "TYPE_FFI_STUB = 27"
definition TYPE_WIDE_STRING :: u32 where "TYPE_WIDE_STRING = 28"

lemmas type_tags = TYPE_CONS_def TYPE_SYMBOL_def TYPE_STRING_def TYPE_FUNCTION_def TYPE_CLOSURE_def TYPE_BYTECODE_def TYPE_VECTOR_def
  TYPE_PACKAGE_def TYPE_HASHTABLE_def TYPE_CONDITION_def TYPE_STRUCT_def TYPE_BIGNUM_def TYPE_SINGLE_FLOAT_def TYPE_DOUBLE_FLOAT_def
  TYPE_RATIO_def TYPE_COMPLEX_def TYPE_STREAM_def TYPE_RANDOM_STATE_def TYPE_BIT_VECTOR_def TYPE_PATHNAME_def TYPE_CELL_def
  TYPE_THREAD_def TYPE_LOCK_def TYPE_CONDVAR_def TYPE_FOREIGN_POINTER_def TYPE_RESTART_def TYPE_BYTE_VECTOR_def TYPE_FFI_STUB_def
  TYPE_WIDE_STRING_def

text \<open>The types without references, as a bit set; a tag of 32 or more is taken modulo 32.\<close>

definition GC_LEAF_TYPE_MASK :: u32 where
  "GC_LEAF_TYPE_MASK =
     push_bit (unat TYPE_STRING) 1 OR push_bit (unat TYPE_BIGNUM) 1 OR push_bit (unat TYPE_SINGLE_FLOAT) 1 OR
     push_bit (unat TYPE_DOUBLE_FLOAT) 1 OR push_bit (unat TYPE_RANDOM_STATE) 1 OR push_bit (unat TYPE_BIT_VECTOR) 1 OR
     push_bit (unat TYPE_BYTE_VECTOR) 1 OR push_bit (unat TYPE_FOREIGN_POINTER) 1 OR push_bit (unat TYPE_WIDE_STRING) 1"

definition GC_TYPE_HAS_CHILDREN :: "u32 \<Rightarrow> bool" where
  "GC_TYPE_HAS_CHILDREN type \<longleftrightarrow> drop_bit (unat (type AND 31)) GC_LEAF_TYPE_MASK AND 1 = 0"

section \<open>The reference fields of an object\<close>

text \<open>
  A field is at an offset inside the object, or in an array outside the arena.  The object is
  given by its words, as a function of the offset from its header.  Halves and bytes of a word and
  pointers, which take two words, are read with the least significant part first.
\<close>

datatype slot = Field nat | Outer u64

definition half_at :: "(nat \<Rightarrow> u32) \<Rightarrow> nat \<Rightarrow> nat" where
  "half_at rd off = unat (rd (off div 4 * 4)) div 2 ^ (8 * (off mod 4)) mod 2 ^ 16"

definition byte_at :: "(nat \<Rightarrow> u32) \<Rightarrow> nat \<Rightarrow> nat" where
  "byte_at rd off = unat (rd (off div 4 * 4)) div 2 ^ (8 * (off mod 4)) mod 2 ^ 8"

definition pointer_at :: "(nat \<Rightarrow> u32) \<Rightarrow> nat \<Rightarrow> u64" where
  "pointer_at rd off = ucast (rd off) OR push_bit 32 (ucast (rd (off + 4)))"

definition field_run :: "nat \<Rightarrow> nat \<Rightarrow> slot list" where
  "field_run off n = map (\<lambda>i. Field (off + 4 * i)) [0..<n]"

definition outer_run :: "u64 \<Rightarrow> nat \<Rightarrow> slot list" where
  "outer_run p n = map (\<lambda>i. Outer (p + 4 * of_nat i)) [0..<n]"

definition symbol_slots :: "(nat \<Rightarrow> u32) \<Rightarrow> slot list" where
  "symbol_slots rd =
     [Field 4] @ (if rd 8 \<noteq> CL_UNBOUND then [Field 8] else []) @ (if rd 12 \<noteq> CL_UNBOUND then [Field 12] else [])
     @ [Field 16, Field 20]"

definition closure_slots :: "(nat \<Rightarrow> u32) \<Rightarrow> slot list" where
  "closure_slots rd = Field 4 # field_run 8 (unat (ucast ((ucast (CL_HDR_SIZE (rd 0)) - 8 :: u64) div 4) :: u32))"

definition bytecode_slots :: "(nat \<Rightarrow> u32) \<Rightarrow> slot list" where
  "bytecode_slots rd =
     [Field 36, Field 124] @ outer_run (pointer_at rd 16) (half_at rd 28)
     @ (if pointer_at rd 48 \<noteq> 0 then outer_run (pointer_at rd 48) (byte_at rd 42) else [])"

definition CL_VEC_FLAG_DISPLACED :: nat where "CL_VEC_FLAG_DISPLACED = 8"

definition vector_slots :: "(nat \<Rightarrow> u32) \<Rightarrow> slot list" where
  "vector_slots rd =
     (let flags = byte_at rd 12; rank = byte_at rd 13 in
      if flags AND CL_VEC_FLAG_DISPLACED \<noteq> 0 then [Field (16 + 4 * (if rank > 1 then rank else 0))]
      else field_run 16 (unat (if rank > 1 then of_nat rank + rd 4 else rd 4)))"

definition hashtable_slots :: "(nat \<Rightarrow> u32) \<Rightarrow> slot list" where
  "hashtable_slots rd = Field 20 # (if rd 20 \<noteq> CL_NIL then [] else field_run 24 (unat (rd 12)))"

definition struct_slots :: "(nat \<Rightarrow> u32) \<Rightarrow> slot list" where
  "struct_slots rd = Field 4 # field_run 12 (unat (rd 8))"

definition obj_slots :: "(nat \<Rightarrow> u32) \<Rightarrow> slot list" where
  "obj_slots rd =
     (let type = CL_HDR_TYPE (rd 0) in
      if type = TYPE_CONS then [Field 4, Field 8]
      else if type = TYPE_SYMBOL then symbol_slots rd
      else if type = TYPE_FUNCTION then [Field 16]
      else if type = TYPE_CLOSURE then closure_slots rd
      else if type = TYPE_BYTECODE then bytecode_slots rd
      else if type = TYPE_VECTOR then vector_slots rd
      else if type = TYPE_PACKAGE then field_run 4 8
      else if type = TYPE_HASHTABLE then hashtable_slots rd
      else if type = TYPE_CONDITION then field_run 4 3
      else if type = TYPE_RESTART then field_run 4 6
      else if type = TYPE_FFI_STUB then [Field 4, Field 8]
      else if type = TYPE_STRUCT then struct_slots rd
      else if type = TYPE_STREAM then [Field 20, Field 44]
      else if type = TYPE_RATIO then [Field 4, Field 8]
      else if type = TYPE_COMPLEX then [Field 4, Field 8]
      else if type = TYPE_PATHNAME then field_run 4 6
      else if type = TYPE_CELL then [Field 4]
      else if type = TYPE_THREAD then [Field 12, Field 16]
      else if type = TYPE_LOCK then [Field 16]
      else if type = TYPE_CONDVAR then [Field 8]
      else [])"

text \<open>Memory is the arena and the arrays outside it.\<close>

fun slot_value :: "(u64 \<Rightarrow> u32) \<Rightarrow> (nat \<Rightarrow> u32) \<Rightarrow> nat \<Rightarrow> slot \<Rightarrow> u32" where
  "slot_value ext m b (Field d) = m (b + d)"
| "slot_value ext m b (Outer p) = ext p"

abbreviation words_of :: "(nat \<Rightarrow> u32) \<Rightarrow> nat \<Rightarrow> nat \<Rightarrow> u32" where
  "words_of m b \<equiv> \<lambda>d. m (b + d)"

section \<open>The mark phase\<close>

definition CL_TAG_MASK_LO2 :: u32 where "CL_TAG_MASK_LO2 = 3"
definition CL_GC_MARK_STACK_SIZE :: nat where "CL_GC_MARK_STACK_SIZE = 4096"

text \<open>The stack is a list with its top first.\<close>

record mark_state =
  mheap :: cl_heap
  gc_mark_stack :: "u32 list"
  gc_mark_stack_cap :: nat
  gc_mark_overflow :: bool
  gc_mark_grow_failed :: bool
  gc_mark_stack_grows :: nat
  gc_mark_rescan_passes :: nat

text \<open>
  Growth asks the platform for a buffer of the new capacity; \<open>got\<close> says for which it is given.  A
  capacity is asked for at most once in a cycle, since a refusal is remembered.
\<close>

definition gc_mark_stack_grow :: "(nat \<Rightarrow> bool) \<Rightarrow> mark_state \<Rightarrow> bool \<times> mark_state" where
  "gc_mark_stack_grow got k =
     (let max_cap = max (arena_size (mheap k) div 128) CL_GC_MARK_STACK_SIZE; new_cap = min (gc_mark_stack_cap k * 2) max_cap in
      if gc_mark_grow_failed k then (False, k)
      else if gc_mark_stack_cap k \<ge> max_cap \<or> \<not> got new_cap then (False, k \<lparr> gc_mark_grow_failed := True \<rparr>)
      else (True, k \<lparr> gc_mark_stack_cap := new_cap, gc_mark_stack_grows := (gc_mark_stack_grows k + 1) mod 2 ^ 32 \<rparr>))"

definition gc_mark_grow_or_drop :: "(nat \<Rightarrow> bool) \<Rightarrow> mark_state \<Rightarrow> bool \<times> mark_state" where
  "gc_mark_grow_or_drop got k =
     (case gc_mark_stack_grow got k of (True, k) \<Rightarrow> (True, k) | (False, k) \<Rightarrow> (False, k \<lparr> gc_mark_overflow := True \<rparr>))"

definition mark_push :: "(nat \<Rightarrow> bool) \<Rightarrow> u32 \<Rightarrow> mark_state \<Rightarrow> mark_state" where
  "mark_push got obj k =
     (if length (gc_mark_stack k) < gc_mark_stack_cap k then k \<lparr> gc_mark_stack := obj # gc_mark_stack k \<rparr>
      else case gc_mark_grow_or_drop got k of (True, k) \<Rightarrow> k \<lparr> gc_mark_stack := obj # gc_mark_stack k \<rparr> | (False, k) \<Rightarrow> k)"

definition gc_mark_visit :: "(nat \<Rightarrow> bool) \<Rightarrow> u32 \<Rightarrow> mark_state \<Rightarrow> mark_state" where
  "gc_mark_visit got obj k =
     (if obj AND CL_TAG_MASK_LO2 \<noteq> 0 \<or> obj = CL_NIL then k
      else if unat obj \<ge> arena_size (mheap k) then k
      else let hdr = arena (mheap k) (unat obj) in
        if CL_HDR_MARKED hdr then k
        else let k = k \<lparr> mheap := mheap k \<lparr> arena := (arena (mheap k))(unat obj := CL_HDR_SET_MARK hdr) \<rparr> \<rparr> in
          if \<not> GC_TYPE_HAS_CHILDREN (CL_HDR_TYPE hdr) then k else mark_push got obj k)"

definition gc_mark_children :: "(u64 \<Rightarrow> u32) \<Rightarrow> (nat \<Rightarrow> bool) \<Rightarrow> nat \<Rightarrow> mark_state \<Rightarrow> mark_state" where
  "gc_mark_children ext got b k =
     fold (\<lambda>s k. gc_mark_visit got (slot_value ext (arena (mheap k)) b s) k) (obj_slots (words_of (arena (mheap k)) b)) k"

text \<open>
  Marks only grow.  The number of words without a mark, of which each visit that queues an object
  or drops one takes one, bounds the work.
\<close>

definition unmarked :: "mark_state \<Rightarrow> nat" where
  "unmarked k = card {a. a < arena_size (mheap k) \<and> \<not> CL_HDR_MARKED (arena (mheap k) a)}"

definition mark_less :: "mark_state \<Rightarrow> mark_state \<Rightarrow> bool" where
  "mark_less k k' \<longleftrightarrow> arena_size (mheap k') = arena_size (mheap k) \<and> bump (mheap k') = bump (mheap k)
     \<and> (unmarked k' < unmarked k \<or> unmarked k' = unmarked k \<and> gc_mark_stack k' = gc_mark_stack k \<and> gc_mark_overflow k' = gc_mark_overflow k)"

lemma mark_less_refl [simp]: "mark_less k k"
  by (simp add: mark_less_def)

lemma mark_less_trans [trans]: "mark_less a b \<Longrightarrow> mark_less b c \<Longrightarrow> mark_less a c"
  by (auto simp: mark_less_def)

lemma set_mark_marked [simp]: "CL_HDR_MARKED (CL_HDR_SET_MARK w)"
  using hdr_laws by simp

lemma mark_push_heap [simp]: "mheap (mark_push got obj k) = mheap k"
  by (auto simp: mark_push_def gc_mark_grow_or_drop_def gc_mark_stack_grow_def Let_def split: prod.splits bool.splits)

lemma visit_less: "mark_less k (gc_mark_visit got obj k)"
proof -
  let ?o = "unat obj" and ?h = "mheap k"
  let ?k = "k \<lparr> mheap := ?h \<lparr> arena := (arena ?h)(?o := CL_HDR_SET_MARK (arena ?h ?o)) \<rparr> \<rparr>"
  show ?thesis
  proof (cases "obj AND CL_TAG_MASK_LO2 \<noteq> 0 \<or> obj = CL_NIL \<or> ?o \<ge> arena_size ?h \<or> CL_HDR_MARKED (arena ?h ?o)")
    case True
    then have "gc_mark_visit got obj k = k" by (auto simp: gc_mark_visit_def Let_def)
    then show ?thesis by simp
  next
    case False
    then have e: "gc_mark_visit got obj k = (if \<not> GC_TYPE_HAS_CHILDREN (CL_HDR_TYPE (arena ?h ?o)) then ?k else mark_push got obj ?k)"
      by (simp add: gc_mark_visit_def Let_def)
    then have h: "mheap (gc_mark_visit got obj k) = mheap ?k" by simp
    let ?U = "{a. a < arena_size ?h \<and> \<not> CL_HDR_MARKED (arena ?h a)}"
    have u: "{a. a < arena_size (mheap ?k) \<and> \<not> CL_HDR_MARKED (arena (mheap ?k) a)} = ?U - {?o}" by auto
    have "card (?U - {?o}) < card ?U" using False by (intro card_Diff1_less) auto
    then have "unmarked (gc_mark_visit got obj k) < unmarked k" unfolding unmarked_def h u .
    then show ?thesis using h by (simp add: mark_less_def)
  qed
qed

lemma children_less: "mark_less k (gc_mark_children ext got b k)"
proof -
  have "mark_less k (fold (\<lambda>s k. gc_mark_visit got (slot_value ext (arena (mheap k)) b s) k) ss k)" for ss
    by (induction ss arbitrary: k) (auto intro: mark_less_trans [OF visit_less])
  then show ?thesis by (simp add: gc_mark_children_def)
qed

function gc_mark_drain :: "(u64 \<Rightarrow> u32) \<Rightarrow> (nat \<Rightarrow> bool) \<Rightarrow> mark_state \<Rightarrow> mark_state" where
  "gc_mark_drain ext got k =
     (case gc_mark_stack k of [] \<Rightarrow> k
      | obj # rest \<Rightarrow> gc_mark_drain ext got (gc_mark_children ext got (unat obj) (k \<lparr> gc_mark_stack := rest \<rparr>)))"
  by pat_completeness auto
termination
proof (relation "measures [\<lambda>(ext, got, k). unmarked k, \<lambda>(ext, got, k). length (gc_mark_stack k)]")
  fix ext got and k :: mark_state and obj rest
  assume "gc_mark_stack k = obj # rest"
  then show "((ext, got, gc_mark_children ext got (unat obj) (k \<lparr> gc_mark_stack := rest \<rparr>)), ext, got, k)
    \<in> measures [\<lambda>(ext, got, k). unmarked k, \<lambda>(ext, got, k). length (gc_mark_stack k)]"
    using children_less [of "k \<lparr> gc_mark_stack := rest \<rparr>" ext got "unat obj"] by (auto simp: mark_less_def unmarked_def)
qed simp

declare gc_mark_drain.simps [simp del]

text \<open>One pass of the re-scan over the headers; dead gaps are stepped over.\<close>

function rescan_walk :: "(u64 \<Rightarrow> u32) \<Rightarrow> (nat \<Rightarrow> bool) \<Rightarrow> nat \<Rightarrow> mark_state \<Rightarrow> mark_state" where
  "rescan_walk ext got off k =
     (if off \<ge> bump (mheap k) then k
      else let hdr = arena (mheap k) off; sz = hsize hdr in
        if sz = 0 then k
        else rescan_walk ext got (off + sz)
          (if CL_HDR_TYPE hdr \<noteq> 0xFF \<and> CL_HDR_MARKED hdr then gc_mark_children ext got off k else k))"
  by pat_completeness auto
termination
proof (relation "measure (\<lambda>(ext, got, off, k). bump (mheap k) - off)")
  fix ext got off and k :: mark_state and hdr sz
  assume "\<not> bump (mheap k) \<le> off" "hdr = arena (mheap k) off" "sz = hsize hdr" "sz \<noteq> 0"
  then show "((ext, got, off + sz, if CL_HDR_TYPE hdr \<noteq> 0xFF \<and> CL_HDR_MARKED hdr then gc_mark_children ext got off k else k), ext, got, off, k)
    \<in> measure (\<lambda>(ext, got, off, k). bump (mheap k) - off)"
    using children_less [of k ext got off] by (auto simp: mark_less_def)
qed simp

declare rescan_walk.simps [simp del]

definition rescan_pass :: "(u64 \<Rightarrow> u32) \<Rightarrow> (nat \<Rightarrow> bool) \<Rightarrow> mark_state \<Rightarrow> mark_state" where
  "rescan_pass ext got k =
     gc_mark_drain ext got (rescan_walk ext got CL_ALIGN
       (k \<lparr> gc_mark_overflow := False, gc_mark_rescan_passes := (gc_mark_rescan_passes k + 1) mod 2 ^ 32 \<rparr>))"

definition mark_le :: "mark_state \<Rightarrow> mark_state \<Rightarrow> bool" where
  "mark_le k k' \<longleftrightarrow> arena_size (mheap k') = arena_size (mheap k) \<and> bump (mheap k') = bump (mheap k)
     \<and> (unmarked k' < unmarked k \<or> unmarked k' = unmarked k \<and> gc_mark_overflow k' = gc_mark_overflow k)"

lemma mark_le_trans: "mark_le a b \<Longrightarrow> mark_le b c \<Longrightarrow> mark_le a c"
  by (auto simp: mark_le_def)

lemma less_le: "mark_less a b \<Longrightarrow> mark_le a b"
  by (auto simp: mark_le_def mark_less_def)

lemma drain_le: "mark_le k (gc_mark_drain ext got k)"
proof (induction ext got k rule: gc_mark_drain.induct)
  case (1 ext got k)
  show ?case
  proof (cases "gc_mark_stack k")
    case Nil
    then show ?thesis by (subst gc_mark_drain.simps) (simp add: mark_le_def)
  next
    case (Cons obj rest)
    let ?k = "k \<lparr> gc_mark_stack := rest \<rparr>"
    have "mark_le k ?k" by (simp add: mark_le_def unmarked_def)
    also have "mark_le ?k (gc_mark_children ext got (unat obj) ?k)" by (rule less_le [OF children_less])
    finally (mark_le_trans) have "mark_le k (gc_mark_children ext got (unat obj) ?k)" .
    from mark_le_trans [OF this 1(1) [OF Cons]] show ?thesis using Cons by (subst gc_mark_drain.simps) simp
  qed
qed

lemma rescan_walk_le: "mark_le k (rescan_walk ext got off k)"
proof (induction ext got off k rule: rescan_walk.induct)
  case (1 ext got off k)
  show ?case
  proof (cases "off \<ge> bump (mheap k) \<or> hsize (arena (mheap k) off) = 0")
    case True
    then show ?thesis by (subst rescan_walk.simps) (auto simp: Let_def mark_le_def)
  next
    case False
    let ?k = "if CL_HDR_TYPE (arena (mheap k) off) \<noteq> 0xFF \<and> CL_HDR_MARKED (arena (mheap k) off) then gc_mark_children ext got off k else k"
    have a: "mark_le k ?k" using less_le [OF children_less, of k ext got off] by (simp add: mark_le_def)
    have b: "mark_le ?k (rescan_walk ext got (off + hsize (arena (mheap k) off)) ?k)" by (rule 1(1)) (use False in auto)
    have "rescan_walk ext got off k = rescan_walk ext got (off + hsize (arena (mheap k) off)) ?k" using False by (subst rescan_walk.simps) (simp add: Let_def)
    then show ?thesis using mark_le_trans [OF a b] by simp
  qed
qed

text \<open>The pass repeats while it drops objects; each object dropped is one more marked.\<close>

function rescan_loop :: "(u64 \<Rightarrow> u32) \<Rightarrow> (nat \<Rightarrow> bool) \<Rightarrow> mark_state \<Rightarrow> mark_state" where
  "rescan_loop ext got k = (if gc_mark_overflow k then rescan_loop ext got (rescan_pass ext got k) else k)"
  by pat_completeness auto
termination
proof (relation "measures [\<lambda>(ext, got, k). unmarked k, \<lambda>(ext, got, k). of_bool (gc_mark_overflow k)]")
  fix ext got and k :: mark_state
  assume o: "gc_mark_overflow k"
  let ?k = "k \<lparr> gc_mark_overflow := False, gc_mark_rescan_passes := (gc_mark_rescan_passes k + 1) mod 2 ^ 32 \<rparr>"
  have "mark_le ?k (rescan_pass ext got k)" unfolding rescan_pass_def by (rule mark_le_trans [OF rescan_walk_le drain_le])
  then show "((ext, got, rescan_pass ext got k), ext, got, k)
    \<in> measures [\<lambda>(ext, got, k). unmarked k, \<lambda>(ext, got, k). of_bool (gc_mark_overflow k)]"
    using o by (auto simp: mark_le_def unmarked_def)
qed simp

declare rescan_loop.simps [simp del]

definition gc_mark :: "(u64 \<Rightarrow> u32) \<Rightarrow> (nat \<Rightarrow> bool) \<Rightarrow> u32 list \<Rightarrow> u32 list \<Rightarrow> mark_state \<Rightarrow> mark_state" where
  "gc_mark ext got roots candidates k =
     (let k = k \<lparr> gc_mark_overflow := False, gc_mark_grow_failed := False \<rparr>;
          k = gc_mark_drain ext got (fold (gc_mark_visit got) roots k);
          k = gc_mark_drain ext got (fold (gc_mark_visit got) candidates k)
      in rescan_loop ext got k)"

text \<open>A collection that sweeps, with the world stopped.\<close>

definition cl_gc_stopped :: "(u64 \<Rightarrow> u32) \<Rightarrow> (nat \<Rightarrow> bool) \<Rightarrow> u32 list \<Rightarrow> u32 list \<Rightarrow> mark_state \<Rightarrow> mark_state" where
  "cl_gc_stopped ext got roots candidates k =
     (let k = gc_mark ext got roots candidates k in k \<lparr> mheap := gc_sweep (mheap k) \<rparr>)"

end
