(* ===== verification/Trace_Mark.thy ===== *)
theory Trace_Mark
  imports Trace
begin

unbundle bit_operations_syntax

text \<open>
  The mark phase marks what is reachable.  \<open>reachable\<close> is the closure of the roots under the
  references of objects; \<open>tracing\<close> is the invariant, which holds also while objects are dropped
  from a full stack.
\<close>

section \<open>Marks do not change what an object refers to\<close>

text \<open>A heap with marks on a set of blocks.\<close>

definition set_marks :: "nat set \<Rightarrow> cl_heap \<Rightarrow> cl_heap" where
  "set_marks S h = h \<lparr> arena := (\<lambda>x. if x \<in> S then CL_HDR_SET_MARK (arena h x) else arena h x) \<rparr>"

text \<open>The part of a structure that is read to find its fields.\<close>

definition fixed_part :: "u32 \<Rightarrow> nat" where
  "fixed_part type = (if type = TYPE_SYMBOL then 32 else if type = TYPE_BYTECODE then 128 else if type = TYPE_VECTOR then 16
     else if type = TYPE_HASHTABLE then 24 else if type = TYPE_STRUCT then 12 else 8)"

definition obj_ok :: "(nat \<Rightarrow> u32) \<Rightarrow> bool" where
  "obj_ok rd \<longleftrightarrow> fixed_part (CL_HDR_TYPE (rd 0)) \<le> hsize (rd 0) \<and> (\<forall>d. Field d \<in> set (obj_slots rd) \<longrightarrow> 0 < d \<and> d + 4 \<le> hsize (rd 0))"

lemma slots_frame:
  assumes hdr: "CL_HDR_TYPE (rd' 0) = CL_HDR_TYPE (rd 0)" "CL_HDR_SIZE (rd' 0) = CL_HDR_SIZE (rd 0)"
    and fx: "fixed_part (CL_HDR_TYPE (rd 0)) \<le> hsize (rd 0)" and body: "\<And>d. 0 < d \<Longrightarrow> d < hsize (rd 0) \<Longrightarrow> rd' d = rd d"
  shows "obj_slots rd' = obj_slots rd"
proof -
  have rd: "0 < d \<Longrightarrow> d < fixed_part (CL_HDR_TYPE (rd 0)) \<Longrightarrow> rd' d = rd d" for d using fx by (intro body) auto
  have 1: "CL_HDR_TYPE (rd 0) = TYPE_SYMBOL \<Longrightarrow> symbol_slots rd' = symbol_slots rd"
    using rd [of 8] rd [of 12] by (simp add: symbol_slots_def fixed_part_def)
  have 2: "CL_HDR_TYPE (rd 0) = TYPE_BYTECODE \<Longrightarrow> bytecode_slots rd' = bytecode_slots rd"
    using rd [of 16] rd [of 20] rd [of 28] rd [of 48] rd [of 52] rd [of 40]
    by (simp add: bytecode_slots_def fixed_part_def pointer_at_def half_at_def byte_at_def type_tags)
  have 3: "CL_HDR_TYPE (rd 0) = TYPE_VECTOR \<Longrightarrow> vector_slots rd' = vector_slots rd"
    using rd [of 4] rd [of 12] by (simp add: vector_slots_def fixed_part_def byte_at_def type_tags Let_def)
  have 4: "CL_HDR_TYPE (rd 0) = TYPE_HASHTABLE \<Longrightarrow> hashtable_slots rd' = hashtable_slots rd"
    using rd [of 12] rd [of 20] by (simp add: hashtable_slots_def fixed_part_def type_tags)
  have 5: "CL_HDR_TYPE (rd 0) = TYPE_STRUCT \<Longrightarrow> struct_slots rd' = struct_slots rd"
    using rd [of 8] by (simp add: struct_slots_def fixed_part_def type_tags)
  have 6: "closure_slots rd' = closure_slots rd" by (simp add: closure_slots_def hdr(2))
  show ?thesis unfolding obj_slots_def Let_def hdr(1) 6 by (simp only: 1 2 3 4 5 cong: if_cong)
qed

lemma leaf_slots: "\<not> GC_TYPE_HAS_CHILDREN (CL_HDR_TYPE (rd 0)) \<Longrightarrow> obj_slots rd = []"
proof -
  have t: "GC_TYPE_HAS_CHILDREN TYPE_CONS" "GC_TYPE_HAS_CHILDREN TYPE_SYMBOL" "GC_TYPE_HAS_CHILDREN TYPE_FUNCTION" "GC_TYPE_HAS_CHILDREN TYPE_CLOSURE"
    "GC_TYPE_HAS_CHILDREN TYPE_BYTECODE" "GC_TYPE_HAS_CHILDREN TYPE_VECTOR" "GC_TYPE_HAS_CHILDREN TYPE_PACKAGE" "GC_TYPE_HAS_CHILDREN TYPE_HASHTABLE"
    "GC_TYPE_HAS_CHILDREN TYPE_CONDITION" "GC_TYPE_HAS_CHILDREN TYPE_RESTART" "GC_TYPE_HAS_CHILDREN TYPE_FFI_STUB" "GC_TYPE_HAS_CHILDREN TYPE_STRUCT"
    "GC_TYPE_HAS_CHILDREN TYPE_STREAM" "GC_TYPE_HAS_CHILDREN TYPE_RATIO" "GC_TYPE_HAS_CHILDREN TYPE_COMPLEX" "GC_TYPE_HAS_CHILDREN TYPE_PATHNAME"
    "GC_TYPE_HAS_CHILDREN TYPE_CELL" "GC_TYPE_HAS_CHILDREN TYPE_THREAD" "GC_TYPE_HAS_CHILDREN TYPE_LOCK" "GC_TYPE_HAS_CHILDREN TYPE_CONDVAR"
    by (simp_all add: GC_TYPE_HAS_CHILDREN_def GC_LEAF_TYPE_MASK_def type_tags)
  assume n: "\<not> GC_TYPE_HAS_CHILDREN (CL_HDR_TYPE (rd 0))"
  have "CL_HDR_TYPE (rd 0) \<noteq> c" if "GC_TYPE_HAS_CHILDREN c" for c using n that by auto
  note ne = t [THEN this]
  show ?thesis unfolding obj_slots_def Let_def by (simp only: ne if_False)
qed

lemma dead_slots: "CL_HDR_TYPE (rd 0) = 0xFF \<Longrightarrow> obj_slots rd = []"
  by (simp add: obj_slots_def Let_def type_tags)

section \<open>Reachability\<close>

definition is_ref :: "cl_heap \<Rightarrow> u32 \<Rightarrow> bool" where
  "is_ref h v \<longleftrightarrow> v AND CL_TAG_MASK_LO2 = 0 \<and> v \<noteq> CL_NIL \<and> unat v < arena_size h"

definition refs :: "(u64 \<Rightarrow> u32) \<Rightarrow> cl_heap \<Rightarrow> nat \<Rightarrow> nat set" where
  "refs ext h b = {unat v | v s. s \<in> set (obj_slots (words_of (arena h) b)) \<and> v = slot_value ext (arena h) b s \<and> is_ref h v}"

inductive reachable :: "(u64 \<Rightarrow> u32) \<Rightarrow> cl_heap \<Rightarrow> u32 set \<Rightarrow> nat \<Rightarrow> bool" for ext h roots where
  root: "v \<in> roots \<Longrightarrow> is_ref h v \<Longrightarrow> reachable ext h roots (unat v)"
| field: "reachable ext h roots b \<Longrightarrow> c \<in> refs ext h b \<Longrightarrow> reachable ext h roots c"

text \<open>
  The heap a collection starts from: the blocks can be walked and none is marked, what is reachable
  is a block, and the fields of a reachable object lie inside it.
\<close>

definition traceable :: "(u64 \<Rightarrow> u32) \<Rightarrow> cl_heap \<Rightarrow> u32 set \<Rightarrow> nat list \<Rightarrow> bool" where
  "traceable ext h roots bs \<longleftrightarrow> heap_walk h bs \<and> (\<forall>b\<in>set bs. \<not> CL_HDR_MARKED (arena h b))
     \<and> (\<forall>b. reachable ext h roots b \<longrightarrow> b \<in> set bs \<and> obj_ok (words_of (arena h) b))"

lemma marks_word: "CL_HDR_TYPE (arena (set_marks S h) x) = CL_HDR_TYPE (arena h x)" "CL_HDR_SIZE (arena (set_marks S h) x) = CL_HDR_SIZE (arena h x)"
  "hsize (arena (set_marks S h) x) = hsize (arena h x)"
  by (simp_all add: set_marks_def hdr_laws hsize_def)

lemma marks_frame [simp]: "arena_size (set_marks S h) = arena_size h" "bump (set_marks S h) = bump h"
  by (simp_all add: set_marks_def)

lemma marks_marked: "\<not> CL_HDR_MARKED (arena h x) \<Longrightarrow> CL_HDR_MARKED (arena (set_marks S h) x) \<longleftrightarrow> x \<in> S"
  by (simp add: set_marks_def)

lemma marks_insert: "x \<notin> S \<Longrightarrow> (set_marks S h) \<lparr> arena := (arena (set_marks S h))(x := CL_HDR_SET_MARK (arena (set_marks S h) x)) \<rparr> = set_marks (insert x S) h"
  by (auto simp: set_marks_def fun_eq_iff)

lemma marks_body:
  assumes "heap_walk h bs" "S \<subseteq> set bs" "b \<in> set bs" "0 < d" "d < hsize (arena h b)"
  shows "arena (set_marks S h) (b + d) = arena h (b + d)"
proof -
  have c: "chain (arena h) CL_ALIGN bs (bump h)" using assms(1) by (simp add: heap_walk_def)
  have "b + d \<notin> set bs" using chain_disjoint [OF c assms(3), of "b + d"] assms(4,5) by auto
  then show ?thesis using assms(2) by (auto simp: set_marks_def)
qed

lemma marks_slots:
  assumes "heap_walk h bs" "S \<subseteq> set bs" "b \<in> set bs" "obj_ok (words_of (arena h) b)"
  shows "obj_slots (words_of (arena (set_marks S h)) b) = obj_slots (words_of (arena h) b)"
    and "s \<in> set (obj_slots (words_of (arena h) b)) \<Longrightarrow> slot_value ext (arena (set_marks S h)) b s = slot_value ext (arena h) b s"
proof -
  show "obj_slots (words_of (arena (set_marks S h)) b) = obj_slots (words_of (arena h) b)"
    using assms(4) marks_word marks_body [OF assms(1-3)] by (intro slots_frame) (simp_all add: obj_ok_def)
  show "slot_value ext (arena (set_marks S h)) b s = slot_value ext (arena h) b s" if "s \<in> set (obj_slots (words_of (arena h) b))"
  proof (cases s)
    case (Field d)
    then have "0 < d" "d < hsize (arena h b)" using that assms(4) by (auto simp: obj_ok_def)
    then show ?thesis using marks_body [OF assms(1-3)] Field by simp
  qed simp
qed

section \<open>The invariant of the trace\<close>

text \<open>
  \<open>S\<close> is what has been marked.  Unless an object has been dropped, the references of a marked object are
  marked, or it is on the stack, or its turn is still to come (\<open>P\<close>).
\<close>

definition tracing :: "(u64 \<Rightarrow> u32) \<Rightarrow> cl_heap \<Rightarrow> nat set \<Rightarrow> nat set \<Rightarrow> nat set \<Rightarrow> mark_state \<Rightarrow> bool" where
  "tracing ext h R P S k \<longleftrightarrow> S \<subseteq> R \<and> mheap k = set_marks S h \<and> unat ` set (gc_mark_stack k) \<subseteq> S
     \<and> (\<not> gc_mark_overflow k \<longrightarrow> (\<forall>b\<in>S. b \<in> unat ` set (gc_mark_stack k) \<or> b \<in> P \<or> refs ext h b \<subseteq> S))"

lemma mark_push_cases:
  obtains c g where "mark_push got obj k = k \<lparr> gc_mark_stack := obj # gc_mark_stack k, gc_mark_stack_cap := c, gc_mark_stack_grows := g \<rparr>"
  | "mark_push got obj k = k \<lparr> gc_mark_grow_failed := True, gc_mark_overflow := True \<rparr>"
proof (cases "length (gc_mark_stack k) < gc_mark_stack_cap k")
  case True
  then have "mark_push got obj k = k \<lparr> gc_mark_stack := obj # gc_mark_stack k, gc_mark_stack_cap := gc_mark_stack_cap k, gc_mark_stack_grows := gc_mark_stack_grows k \<rparr>"
    by (simp add: mark_push_def)
  then show thesis by (rule that(1))
next
  case False
  note D = mark_push_def gc_mark_grow_or_drop_def gc_mark_stack_grow_def
  let ?m = "max (arena_size (mheap k) div 128) CL_GC_MARK_STACK_SIZE"
  let ?n = "min (gc_mark_stack_cap k * 2) ?m"
  consider "gc_mark_grow_failed k" | "\<not> gc_mark_grow_failed k" "gc_mark_stack_cap k \<ge> ?m \<or> \<not> got ?n"
    | "\<not> gc_mark_grow_failed k" "\<not> (gc_mark_stack_cap k \<ge> ?m \<or> \<not> got ?n)" by blast
  then show thesis
  proof cases
    case 1
    then have "mark_push got obj k = k \<lparr> gc_mark_overflow := True \<rparr>" using False by (simp add: D Let_def)
    also have "\<dots> = k \<lparr> gc_mark_grow_failed := True, gc_mark_overflow := True \<rparr>" using 1 by (cases k) simp
    finally show thesis by (rule that(2))
  next
    case 2
    then have "mark_push got obj k = k \<lparr> gc_mark_grow_failed := True, gc_mark_overflow := True \<rparr>"
      unfolding D Let_def using False by (simp only: if_True if_False prod.case bool.case simp_thms)
    then show thesis by (rule that(2))
  next
    case 3
    then have "mark_push got obj k = k \<lparr> gc_mark_stack_cap := ?n, gc_mark_stack_grows := (gc_mark_stack_grows k + 1) mod 2 ^ 32, gc_mark_stack := obj # gc_mark_stack k \<rparr>"
      unfolding D Let_def using False by (simp only: if_True if_False prod.case bool.case simp_thms) simp
    also have "\<dots> = k \<lparr> gc_mark_stack := obj # gc_mark_stack k, gc_mark_stack_cap := ?n, gc_mark_stack_grows := (gc_mark_stack_grows k + 1) mod 2 ^ 32 \<rparr>" by simp
    finally show thesis by (rule that(1))
  qed
qed

lemma tracing_visit:
  assumes t: "traceable ext h roots bs" and R: "R = {b. reachable ext h roots b}"
    and i: "tracing ext h R P S k" and v: "is_ref h v \<Longrightarrow> unat v \<in> R"
  obtains S' where "S \<subseteq> S'" "tracing ext h R P S' (gc_mark_visit got v k)" "is_ref h v \<longrightarrow> unat v \<in> S'"
proof -
  have I: "S \<subseteq> R" "mheap k = set_marks S h" "unat ` set (gc_mark_stack k) \<subseteq> S"
    "\<not> gc_mark_overflow k \<longrightarrow> (\<forall>b\<in>S. b \<in> unat ` set (gc_mark_stack k) \<or> b \<in> P \<or> refs ext h b \<subseteq> S)" using i by (simp_all add: tracing_def)
  have un: "\<not> CL_HDR_MARKED (arena h b)" if "b \<in> R" for b using t that by (auto simp: traceable_def R)
  let ?o = "unat v"
  consider "\<not> is_ref h v" | "is_ref h v" "?o \<in> S" | "is_ref h v" "?o \<notin> S" by blast
  then show thesis
  proof cases
    case 1
    then have "gc_mark_visit got v k = k" using I(2) by (auto simp: gc_mark_visit_def is_ref_def)
    then show thesis using that i 1 by auto
  next
    case 2
    then have "CL_HDR_MARKED (arena (mheap k) ?o)" using I(2) marks_marked [OF un [OF v], of S] by simp
    then have "gc_mark_visit got v k = k" by (simp add: gc_mark_visit_def Let_def)
    then show thesis using that i 2 by auto
  next
    case 3
    let ?S = "insert ?o S" and ?k = "k \<lparr> mheap := set_marks (insert ?o S) h \<rparr>"
    have nm: "\<not> CL_HDR_MARKED (arena (mheap k) ?o)" using I(2) 3 marks_marked [OF un [OF v], of S] by simp
    have e: "gc_mark_visit got v k = (if \<not> GC_TYPE_HAS_CHILDREN (CL_HDR_TYPE (arena h ?o)) then ?k else mark_push got v ?k)"
      using 3 nm I(2) marks_insert [OF 3(2), of h] by (simp add: gc_mark_visit_def is_ref_def Let_def marks_word)
    have sub: "?S \<subseteq> R" using I(1) v 3(1) by simp
    have "tracing ext h R P ?S (gc_mark_visit got v k)"
    proof (cases "GC_TYPE_HAS_CHILDREN (CL_HDR_TYPE (arena h ?o))")
      case False
      then have "refs ext h ?o = {}" using leaf_slots [of "words_of (arena h) ?o"] by (simp add: refs_def)
      then show ?thesis using e False sub I(3,4) by (auto simp: tracing_def)
    next
      case True
      then have "gc_mark_visit got v k = mark_push got v ?k" using e by simp
      then show ?thesis using sub I(3,4) by (cases rule: mark_push_cases [of got v ?k]) (auto simp: tracing_def)
    qed
    then show thesis using that [of ?S] by auto
  qed
qed

lemma tracing_roots:
  assumes t: "traceable ext h roots bs" and R: "R = {b. reachable ext h roots b}"
  shows "tracing ext h R P S k \<Longrightarrow> set vs \<subseteq> roots \<Longrightarrow>
    \<exists>S'. S \<subseteq> S' \<and> tracing ext h R P S' (fold (gc_mark_visit got) vs k) \<and> (\<forall>v\<in>set vs. is_ref h v \<longrightarrow> unat v \<in> S')"
proof (induction vs arbitrary: S k)
  case (Cons v vs)
  obtain S1 where 1: "S \<subseteq> S1" "tracing ext h R P S1 (gc_mark_visit got v k)" "is_ref h v \<longrightarrow> unat v \<in> S1"
    by (rule tracing_visit [OF t R Cons.prems(1), of v got]) (use Cons.prems(2) in \<open>auto simp: R intro: reachable.root\<close>)
  obtain S2 where 2: "S1 \<subseteq> S2" "tracing ext h R P S2 (fold (gc_mark_visit got) vs (gc_mark_visit got v k))" "\<forall>v\<in>set vs. is_ref h v \<longrightarrow> unat v \<in> S2"
    using Cons.IH [OF 1(2)] Cons.prems(2) by auto
  then show ?case using 1 by (intro exI [of _ S2]) auto
qed auto

lemma tracing_children:
  assumes t: "traceable ext h roots bs" and R: "R = {b. reachable ext h roots b}"
    and i: "tracing ext h R (insert b P) S k" and b: "b \<in> S"
  obtains S' where "S \<subseteq> S'" "tracing ext h R P S' (gc_mark_children ext got b k)"
proof -
  let ?ss = "obj_slots (words_of (arena h) b)"
  have SR: "S \<subseteq> R" "mheap k = set_marks S h" using i by (simp_all add: tracing_def)
  have bR: "reachable ext h roots b" using SR(1) b by (auto simp: R)
  have W: "heap_walk h bs" "b \<in> set bs" "obj_ok (words_of (arena h) b)" "R \<subseteq> set bs" using t bR by (auto simp: traceable_def R)
  have fold: "\<exists>S'. S \<subseteq> S' \<and> tracing ext h R (insert b P) S' (fold (\<lambda>s k. gc_mark_visit got (slot_value ext (arena (mheap k)) b s) k) ss k)
      \<and> (\<forall>s\<in>set ss. is_ref h (slot_value ext (arena h) b s) \<longrightarrow> unat (slot_value ext (arena h) b s) \<in> S')"
    if "tracing ext h R (insert b P) S k" "set ss \<subseteq> set ?ss" for ss S k
    using that
  proof (induction ss arbitrary: S k)
    case (Cons s ss)
    let ?v = "slot_value ext (arena h) b s"
    have "S \<subseteq> set bs" "mheap k = set_marks S h" using Cons.prems(1) W(4) by (auto simp: tracing_def)
    then have v: "slot_value ext (arena (mheap k)) b s = ?v" using marks_slots(2) [OF W(1) _ W(2,3)] Cons.prems(2) by simp
    have "unat ?v \<in> R" if "is_ref h ?v"
    proof -
      have "unat ?v \<in> refs ext h b" using that Cons.prems(2) by (auto simp: refs_def)
      then show ?thesis using reachable.field [OF bR] by (simp add: R)
    qed
    then obtain S1 where 1: "S \<subseteq> S1" "tracing ext h R (insert b P) S1 (gc_mark_visit got ?v k)" "is_ref h ?v \<longrightarrow> unat ?v \<in> S1"
      by (rule tracing_visit [OF t R Cons.prems(1), of ?v got])
    obtain S2 where 2: "S1 \<subseteq> S2" "tracing ext h R (insert b P) S2 (fold (\<lambda>s k. gc_mark_visit got (slot_value ext (arena (mheap k)) b s) k) ss (gc_mark_visit got ?v k))"
      "\<forall>s\<in>set ss. is_ref h (slot_value ext (arena h) b s) \<longrightarrow> unat (slot_value ext (arena h) b s) \<in> S2"
      using Cons.IH [OF 1(2)] Cons.prems(2) by auto
    then show ?case using 1 v by (intro exI [of _ S2]) auto
  qed auto
  have e: "obj_slots (words_of (arena (mheap k)) b) = ?ss" unfolding SR(2) by (rule marks_slots(1) [OF W(1) _ W(2,3)]) (use SR(1) W(4) in auto)
  obtain S' where S: "S \<subseteq> S'" "tracing ext h R (insert b P) S' (gc_mark_children ext got b k)"
    "\<forall>s\<in>set ?ss. is_ref h (slot_value ext (arena h) b s) \<longrightarrow> unat (slot_value ext (arena h) b s) \<in> S'"
    using fold [OF i order_refl] unfolding gc_mark_children_def e by blast
  have "refs ext h b \<subseteq> S'" using S(3) by (auto simp: refs_def)
  then have "tracing ext h R P S' (gc_mark_children ext got b k)" using S(2) by (auto simp: tracing_def)
  then show thesis using that S(1) by blast
qed

lemma tracing_drain:
  assumes t: "traceable ext h roots bs" and R: "R = {b. reachable ext h roots b}"
  shows "tracing ext h R P S k \<Longrightarrow> \<exists>S'. S \<subseteq> S' \<and> tracing ext h R P S' (gc_mark_drain ext got k) \<and> gc_mark_stack (gc_mark_drain ext got k) = []"
  using t R
proof (induction ext got k arbitrary: S rule: gc_mark_drain.induct)
  case (1 ext got k)
  show ?case
  proof (cases "gc_mark_stack k")
    case Nil
    then have "gc_mark_drain ext got k = k" by (subst gc_mark_drain.simps) simp
    then show ?thesis using 1(2) Nil by auto
  next
    case (Cons v rest)
    let ?k = "k \<lparr> gc_mark_stack := rest \<rparr>"
    have v: "unat v \<in> S" "tracing ext h R (insert (unat v) P) S ?k" using 1(2) Cons by (auto simp: tracing_def)
    obtain S1 where S1: "S \<subseteq> S1" "tracing ext h R P S1 (gc_mark_children ext got (unat v) ?k)"
      by (rule tracing_children [OF 1(3,4) v(2,1), of got])
    have e: "gc_mark_drain ext got k = gc_mark_drain ext got (gc_mark_children ext got (unat v) ?k)" using Cons by (subst gc_mark_drain.simps) simp
    show ?thesis unfolding e using 1(1) [OF Cons S1(2) 1(3,4)] S1(1) by blast
  qed
qed

lemma tracing_rescan:
  assumes t: "traceable ext h roots bs" and R: "R = {b. reachable ext h roots b}"
  shows "chain (arena h) off cs (bump h) \<Longrightarrow> set cs \<subseteq> set bs \<Longrightarrow> tracing ext h R (set cs) S k \<Longrightarrow>
    \<exists>S'. S \<subseteq> S' \<and> tracing ext h R {} S' (rescan_walk ext got off k)"
proof (induction cs arbitrary: off S k)
  case Nil
  then have "bump (mheap k) = bump h" by (simp add: tracing_def)
  then show ?case using Nil by (subst rescan_walk.simps) auto
next
  case (Cons b cs)
  let ?sz = "hsize (arena h off)"
  have c: "b = off" "8 \<le> ?sz" "chain (arena h) (off + ?sz) cs (bump h)" using Cons.prems(1) by simp_all
  have lt: "off < bump h" using chain_le [OF c(3)] c(2) by simp
  have k: "mheap k = set_marks S h" "S \<subseteq> R" using Cons.prems(3) by (simp_all add: tracing_def)
  have un: "\<not> CL_HDR_MARKED (arena h off)" using t Cons.prems(2) c(1) by (auto simp: traceable_def)
  let ?k = "if CL_HDR_TYPE (arena h off) \<noteq> 0xFF \<and> off \<in> S then gc_mark_children ext got off k else k"
  have e: "rescan_walk ext got off k = rescan_walk ext got (off + ?sz) ?k"
    using lt c(2) k(1) marks_marked [OF un, of S] by (subst rescan_walk.simps) (simp add: Let_def marks_word)
  have "\<exists>S'. S \<subseteq> S' \<and> tracing ext h R (set cs) S' ?k"
  proof (cases "CL_HDR_TYPE (arena h off) \<noteq> 0xFF \<and> off \<in> S")
    case True
    have "tracing ext h R (insert off (set cs)) S k" using Cons.prems(3) c(1) by simp
    from tracing_children [OF t R this, of got] True show ?thesis by auto
  next
    case False
    have "refs ext h off = {}" if "CL_HDR_TYPE (arena h off) = 0xFF" using dead_slots [of "words_of (arena h) off"] that by (simp add: refs_def)
    then have "tracing ext h R (set cs) S k" using False Cons.prems(3) c(1) by (auto simp: tracing_def)
    then show ?thesis using False by auto
  qed
  then obtain S1 where S1: "S \<subseteq> S1" "tracing ext h R (set cs) S1 ?k" by blast
  obtain S2 where "S1 \<subseteq> S2" "tracing ext h R {} S2 (rescan_walk ext got (off + ?sz) ?k)" using Cons.IH [OF c(3) _ S1(2)] Cons.prems(2) by auto
  then show ?case unfolding e using S1(1) by blast
qed

lemma tracing_loop:
  assumes t: "traceable ext h roots bs" and R: "R = {b. reachable ext h roots b}"
  shows "tracing ext h R {} S k \<Longrightarrow> gc_mark_stack k = [] \<Longrightarrow> \<exists>S'. S \<subseteq> S' \<and> tracing ext h R {} S' (rescan_loop ext got k)
    \<and> gc_mark_stack (rescan_loop ext got k) = [] \<and> \<not> gc_mark_overflow (rescan_loop ext got k)"
  using t R
proof (induction ext got k arbitrary: S rule: rescan_loop.induct)
  case (1 ext got k)
  show ?case
  proof (cases "gc_mark_overflow k")
    case False
    then have "rescan_loop ext got k = k" by (subst rescan_loop.simps) simp
    then show ?thesis using 1(2,3) False by auto
  next
    case True
    let ?k = "k \<lparr> gc_mark_overflow := False, gc_mark_rescan_passes := (gc_mark_rescan_passes k + 1) mod 2 ^ 32 \<rparr>"
    have W: "chain (arena h) CL_ALIGN bs (bump h)" "R \<subseteq> set bs" using 1(4,5) by (auto simp: traceable_def heap_walk_def)
    have "tracing ext h R (set bs) S ?k" using 1(2) W(2) by (auto simp: tracing_def)
    then obtain S1 where S1: "S \<subseteq> S1" "tracing ext h R {} S1 (rescan_walk ext got CL_ALIGN ?k)" using tracing_rescan [OF 1(4,5) W(1) order_refl] by blast
    obtain S2 where S2: "S1 \<subseteq> S2" "tracing ext h R {} S2 (rescan_pass ext got k)" "gc_mark_stack (rescan_pass ext got k) = []"
      using tracing_drain [OF 1(4,5) S1(2), of got] unfolding rescan_pass_def by blast
    have e: "rescan_loop ext got k = rescan_loop ext got (rescan_pass ext got k)" using True by (subst rescan_loop.simps) simp
    show ?thesis unfolding e using 1(1) [OF True S2(2,3) 1(4,5)] S1(1) S2(1) by blast
  qed
qed

lemma gc_mark_reachable:
  fixes got
  assumes t: "traceable ext (mheap k) (set roots \<union> set cands) bs" and k: "gc_mark_stack k = []"
  defines "k' \<equiv> gc_mark ext got roots cands k" and "R \<equiv> {b. reachable ext (mheap k) (set roots \<union> set cands) b}"
  shows "mheap k' = set_marks R (mheap k)" "gc_mark_stack k' = []" "\<not> gc_mark_overflow k'"
proof -
  let ?h = "mheap k"
  let ?k = "k \<lparr> gc_mark_overflow := False, gc_mark_grow_failed := False \<rparr>"
  have R: "R = {b. reachable ext ?h (set roots \<union> set cands) b}" by (simp add: R_def)
  have "set_marks {} ?h = ?h" by (simp add: set_marks_def)
  then have "tracing ext ?h R {} {} ?k" using k by (simp add: tracing_def)
  from tracing_roots [OF t R this, of roots got] obtain S1 where S1: "tracing ext ?h R {} S1 (fold (gc_mark_visit got) roots ?k)"
    "\<forall>v\<in>set roots. is_ref ?h v \<longrightarrow> unat v \<in> S1" by auto
  from tracing_drain [OF t R S1(1), of got] obtain S2 where S2: "S1 \<subseteq> S2" "tracing ext ?h R {} S2 (gc_mark_drain ext got (fold (gc_mark_visit got) roots ?k))" by blast
  let ?k2 = "fold (gc_mark_visit got) cands (gc_mark_drain ext got (fold (gc_mark_visit got) roots ?k))"
  from tracing_roots [OF t R S2(2), of cands got] obtain S3 where S3: "S2 \<subseteq> S3" "tracing ext ?h R {} S3 ?k2" "\<forall>v\<in>set cands. is_ref ?h v \<longrightarrow> unat v \<in> S3" by auto
  from tracing_drain [OF t R S3(2), of got] obtain S4 where S4: "S3 \<subseteq> S4" "tracing ext ?h R {} S4 (gc_mark_drain ext got ?k2)" "gc_mark_stack (gc_mark_drain ext got ?k2) = []" by blast
  have k': "k' = rescan_loop ext got (gc_mark_drain ext got ?k2)" by (simp add: k'_def gc_mark_def Let_def)
  from tracing_loop [OF t R S4(2,3), of got] obtain S5 where S5: "S4 \<subseteq> S5" "tracing ext ?h R {} S5 k'" "gc_mark_stack k' = []" "\<not> gc_mark_overflow k'"
    unfolding k' by blast
  have closed: "\<forall>b\<in>S5. refs ext ?h b \<subseteq> S5" "S5 \<subseteq> R" using S5(2-4) by (auto simp: tracing_def)
  have "b \<in> S5" if "reachable ext ?h (set roots \<union> set cands) b" for b using that
  proof induction
    case (root v)
    then show ?case using S1(2) S2(1) S3(1,3) S4(1) S5(1) by blast
  qed (use closed in blast)
  then have "S5 = R" using closed(2) R by auto
  then show "mheap k' = set_marks R ?h" using S5(2) by (simp add: tracing_def)
  show "gc_mark_stack k' = []" "\<not> gc_mark_overflow k'" by (fact S5(3,4))+
qed

lemma marks_walk: "heap_walk (set_marks S h) bs = heap_walk h bs"
  using chain_sizes [of bs "arena (set_marks S h)" "arena h" CL_ALIGN "bump h"] by (simp add: heap_walk_def marks_word)

lemma clear_set_mark: "\<not> CL_HDR_MARKED w \<Longrightarrow> CL_HDR_CLR_MARK (CL_HDR_SET_MARK w) = w"
  using hdr_clr_set by simp

end
