(* ===== verification/Arena_Laws.thy ===== *)
theory Arena_Laws
  imports Compact_Slide Trace_Mark
begin

text \<open>
  Heaps reachable by allocations, stores and collections, and the properties of the allocator,
  the sweep and the block-start index.
\<close>

section \<open>Reachable heaps\<close>

text \<open>
  The heap between collections: allocations, stores of the mutator into the body of an allocated
  block, and collections that mark some of the blocks and sweep or slide.
\<close>

inductive heap_reach :: "cl_heap \<Rightarrow> bool" where
  init: "CL_ALIGN \<le> n \<Longrightarrow> n + GC_HDR_PAGE \<le> 2 ^ 32 \<Longrightarrow> heap_reach (cl_mem_init m n off got)"
| alloc: "heap_reach h \<Longrightarrow> unat r \<le> max_block - 15 \<Longrightarrow> cl_alloc type r h = Allocated off k \<Longrightarrow> heap_reach k"
| full: "heap_reach h \<Longrightarrow> unat r \<le> max_block - 15 \<Longrightarrow> cl_alloc type r h = Collect k \<Longrightarrow> heap_reach k"
| store: "heap_reach h \<Longrightarrow> heap_ok h bs fs \<Longrightarrow> b \<in> set bs - set fs \<Longrightarrow> b + 4 \<le> x \<Longrightarrow> x < b + hsize (arena h b) \<Longrightarrow>
    heap_reach (h \<lparr> arena := (arena h)(x := v) \<rparr>)"
| collect: "heap_reach h \<Longrightarrow> heap_walk h bs \<Longrightarrow> S \<subseteq> set bs \<Longrightarrow> heap_reach (gc_sweep (set_marks S h))"
| compact: "heap_reach h \<Longrightarrow> heap_walk h bs \<Longrightarrow> S \<subseteq> set bs \<Longrightarrow> CL_ALIGN dvd bump h \<Longrightarrow> sorted pins \<Longrightarrow> heap_reach (gc_slide pins (set_marks S h))"

definition heap_good :: "cl_heap \<Rightarrow> bool" where
  "heap_good h \<longleftrightarrow> (\<exists>bs fs. heap_ok h bs fs \<and> index_ok h bs)"

lemma good_init:
  assumes "CL_ALIGN \<le> n" "n + GC_HDR_PAGE \<le> 2 ^ 32"
  shows "heap_good (cl_mem_init m n off got)"
proof -
  let ?h = "cl_mem_init m n off got"
  have f: "arena_size ?h = n" "bump ?h = CL_ALIGN" "free_list ?h = 0" "total_allocated ?h = 0" "arena ?h = m"
    using assms(1) by (simp_all add: cl_mem_init_def gc_hdr_index_init_def gc_hdr_index_release_def gc_hdr_bump_reset_def Let_def CL_ALIGN_def)
  have w: "watch_ok ?h" by (simp add: cl_mem_init_def gc_hdr_index_init_def gc_hdr_index_release_def Let_def) (simp add: watch_ok_def)
  have "heap_ok ?h [] []" using assms by (simp add: heap_ok_def heap_walk_def f)
  moreover have "index_ok ?h []" using w by (simp add: index_ok_def)
  ultimately show ?thesis unfolding heap_good_def by blast
qed

lemma good_alloc:
  assumes "heap_good h" "unat r \<le> max_block - 15"
  shows "cl_alloc type r h = Allocated off k \<Longrightarrow> heap_good k" "cl_alloc type r h = Collect k \<Longrightarrow> heap_good k"
proof -
  obtain bs fs where ok: "heap_ok h bs fs" "index_ok h bs" using assms(1) by (auto simp: heap_good_def)
  note C = alloc_correct [OF ok(1) assms(2), of type]
  show "heap_good k" if "cl_alloc type r h = Allocated off k"
  proof (rule C)
    fix off' sz k' bs' fs' assume "cl_alloc type r h = Allocated off' k'" "placed type off' sz h bs fs k' bs' fs'"
    then show ?thesis using that ok(2) unfolding placed_def heap_good_def by auto
  qed (use that in simp)
  show "heap_good k" if "cl_alloc type r h = Collect k"
  proof (rule C)
    fix n assume "cl_alloc type r h = Collect (h \<lparr> freelist_steps := n \<rparr>)"
    then have k: "k = h \<lparr> freelist_steps := n \<rparr>" using that by simp
    show ?thesis unfolding k heap_good_def steps_irrelevant using ok by blast
  qed (use that in simp)
qed

lemma chain_unique: "chain m a bs e \<Longrightarrow> chain m a cs e \<Longrightarrow> bs = cs"
proof (induction bs arbitrary: a cs)
  case Nil
  then show ?case using chain_le [of m "a + hsize (m a)" _ e] by (cases cs) force+
next
  case (Cons b bs)
  then obtain cs' where "cs = a # cs'" using chain_le [of m "a + hsize (m a)" bs e] by (cases cs) auto
  then show ?case using Cons by auto
qed

lemma good_store:
  assumes ok: "heap_ok h bs fs" and b: "b \<in> set bs - set fs" and x: "b + 4 \<le> x" "x < b + hsize (arena h b)" and g: "heap_good h"
  shows "heap_good (h \<lparr> arena := (arena h)(x := v) \<rparr>)"
proof -
  let ?k = "h \<lparr> arena := (arena h)(x := v) \<rparr>"
  have c: "chain (arena h) CL_ALIGN bs (bump h)" using ok by (simp add: heap_ok_def heap_walk_def)
  have ix: "index_ok h bs" using g chain_unique [OF c] by (auto simp: heap_good_def heap_ok_def heap_walk_def)
  have apart: "x < d \<or> d + hsize (arena h d) \<le> x" if "d \<in> set bs" "d \<noteq> b" for d
    using chain_disjoint [OF c, of b d] chain_disjoint [OF c, of d b] that b x by (cases "b < d") auto
  have hd: "arena ?k d = arena h d" if "d \<in> set bs" for d
    using apart [OF that] x chain_ge [OF c that] by (cases "d = b") auto
  have lk: "arena ?k (f + 4) = arena h (f + 4)" if "f \<in> set fs" for f
  proof -
    have "f \<in> set bs" "f \<noteq> b" using that b ok by (auto simp: heap_ok_def)
    then show ?thesis using apart [of f] chain_ge [OF c, of f] by auto
  qed
  have walk: "heap_walk ?k bs" using ok chain_heads [of bs "arena ?k" "arena h"] hd by (simp add: heap_ok_def heap_walk_def)
  have fs: "set fs \<subseteq> set bs" using ok by (simp add: heap_ok_def)
  have "links (arena ?k) (free_list h) fs" using ok links_cong [of fs "arena ?k" "arena h"] lk by (simp add: heap_ok_def)
  then have "heap_ok ?k bs fs" using ok walk hd fs unfolding heap_ok_def by (auto simp del: fun_upd_apply)
  moreover have "index_ok ?k bs" using ix hd hdr_at_cong [of ?k h] by (simp add: index_ok_def watch_ok_def del: fun_upd_apply)
  ultimately show ?thesis unfolding heap_good_def by blast
qed

lemma good_collect:
  assumes "heap_walk h bs" "S \<subseteq> set bs"
  shows "heap_good (gc_sweep (set_marks S h))"
proof -
  have "heap_walk (set_marks S h) bs" using assms(1) by (simp only: marks_walk)
  from gc_sweep_heap(1,2) [OF this] show ?thesis unfolding heap_good_def by blast
qed

lemma good_compact:
  assumes "heap_walk h bs" "CL_ALIGN dvd bump h" "sorted pins"
  shows "heap_good (gc_slide pins (set_marks S h))"
proof -
  have "heap_walk (set_marks S h) bs" "CL_ALIGN dvd bump (set_marks S h)" using assms(1,2) by (simp_all add: marks_walk)
  from gc_slide_heap(1,2) [OF this assms(3)] show ?thesis unfolding heap_good_def by blast
qed

lemma reach_good: "heap_reach h \<Longrightarrow> heap_good h"
  by (induction rule: heap_reach.induct) (blast intro: good_init good_alloc good_store good_collect good_compact)+

section \<open>Properties\<close>

text \<open>
  C7: the sweep of any heap whose blocks can be walked leaves a well-formed heap: the allocated
  blocks are exactly the marked ones, each with its mark cleared and every other word untouched;
  the rest of the span is free blocks, runs of dead blocks merged as far as the size field
  allows; the block-start index names the covering block of every page again.
\<close>

theorem sweep_refines:
  assumes "heap_walk h bs"
  defines "ss \<equiv> sweep_spec (blocks (arena h) bs)"
  shows "heap_ok (gc_sweep h) (map seg_off ss) (rev (frees ss)) \<and> index_ok (gc_sweep h) (map seg_off ss)
    \<and> set (map seg_off ss) - set (frees ss) = {b \<in> set bs. CL_HDR_MARKED (arena h b)}
    \<and> (\<forall>b\<in>set bs. CL_HDR_MARKED (arena h b) \<longrightarrow> arena (gc_sweep h) b = CL_HDR_CLR_MARK (arena h b)
           \<and> (\<forall>x. b < x \<and> x < b + hsize (arena h b) \<longrightarrow> arena (gc_sweep h) x = arena h x))"
  using gc_sweep_heap [OF assms(1)] unfolding ss_def by blast

definition example_heap :: cl_heap where
  "example_heap = (cl_mem_init (\<lambda>_. 0) 64 False True) \<lparr> arena := (\<lambda>_. 0)(8 := 16, 24 := 16, 40 := 0x01800010), bump := 56 \<rparr>"

lemma example_fields:
  "arena example_heap = (\<lambda>_. 0)(8 := 16, 24 := 16, 40 := 0x01800010)" "bump example_heap = 56" "arena_size example_heap = 64"
  "gc_hdr_page example_heap = Some [GC_HDR_NONE]"
  by (simp_all add: example_heap_def cl_mem_init_def gc_hdr_index_init_def gc_hdr_index_release_def gc_hdr_bump_reset_def gc_hdr_index_clear_def GC_HDR_PAGE_def Let_def)

lemma example_words: "hsize 16 = 16" "hsize 0x01800010 = 16" "\<not> CL_HDR_MARKED 16" "CL_HDR_MARKED 0x01800010"
  by (simp_all add: hsize_mod) (simp_all add: CL_HDR_MARKED_def CL_HDR_MARK_BIT_def)

lemma example_walk: "heap_walk example_heap [8, 24, 40]"
  by (simp add: heap_walk_def example_fields example_words CL_ALIGN_def GC_HDR_PAGE_def)

theorem sweep_refines_witness:
  "heap_ok (gc_sweep example_heap) [8, 40] [8] \<and> arena (gc_sweep example_heap) 44 = 0"
  using sweep_refines [OF example_walk] by (simp add: example_fields example_words max_block_def)

text \<open>
  C10: every heap reachable from a fresh one by allocations, stores into allocated blocks and
  collections is well formed: the headers tile the span below the front, the free list is a list
  of distinct blocks of it, the count of allocated bytes is exact and the index is right.
\<close>

theorem heap_invariant:
  assumes "heap_reach h"
  shows "\<exists>bs fs. heap_ok h bs fs \<and> index_ok h bs"
  using reach_good [OF assms] by (simp add: heap_good_def)

theorem heap_invariant_witness: "\<exists>bs fs. heap_ok (cl_mem_init (\<lambda>_. 0) 4096 False True) bs fs \<and> index_ok (cl_mem_init (\<lambda>_. 0) 4096 False True) bs"
  by (rule heap_invariant [OF heap_reach.init]) (simp_all add: CL_ALIGN_def GC_HDR_PAGE_def)

text \<open>
  C6: an allocation that fits the size limit either returns a fresh aligned block of at least the
  requested size, with its header written and its body zero, no word of an allocated block
  changed and the heap well formed again; or it asks for a collection, and then neither the
  front nor one of the first blocks of the free list is large enough.  The walk of the free list
  always ends.
\<close>

theorem alloc_safe:
  assumes "heap_ok h bs fs" "unat r \<le> max_block - 15"
  shows "case cl_alloc type r h of
      Allocated off k \<Rightarrow> \<exists>sz bs' fs'. unat r \<le> sz \<and> CL_ALIGN dvd off \<and> placed type off sz h bs fs k bs' fs'
    | Collect k \<Rightarrow> (\<exists>n. k = h \<lparr> freelist_steps := n \<rparr>) \<and> arena_size h < bump h + block_size r
        \<and> (\<forall>f\<in>set (take CL_FREELIST_PROBE_LIMIT fs). unat (arena h f) < block_size r)
    | _ \<Rightarrow> False"
  by (rule alloc_correct [OF assms, of type]) auto

lemma example_swept: "heap_ok (gc_sweep example_heap) [8, 40] [8]" "index_ok (gc_sweep example_heap) [8, 40]"
  using gc_sweep_heap(1,2) [OF example_walk] by (simp_all add: example_fields example_words max_block_def)

theorem alloc_safe_witness:
  "case cl_alloc 1 24 (gc_sweep example_heap) of
      Allocated off k \<Rightarrow> \<exists>sz bs' fs'. unat (24 :: u32) \<le> sz \<and> CL_ALIGN dvd off \<and> placed 1 off sz (gc_sweep example_heap) [8, 40] [8] k bs' fs'
    | Collect k \<Rightarrow> (\<exists>n. k = gc_sweep example_heap \<lparr> freelist_steps := n \<rparr>)
        \<and> arena_size (gc_sweep example_heap) < bump (gc_sweep example_heap) + block_size 24
        \<and> (\<forall>f\<in>set (take CL_FREELIST_PROBE_LIMIT [8]). unat (arena (gc_sweep example_heap) f) < block_size 24)
    | _ \<Rightarrow> False"
  using alloc_safe [OF example_swept(1), of 24 1] by (simp add: max_block_def)

text \<open>
  A sequence of allocations that succeeds returns distinct blocks, none of them allocated
  before; no two allocated blocks share a byte afterwards, and the blocks allocated before have
  kept every word.
\<close>

theorem alloc_sequence_disjoint:
  assumes "heap_ok h bs fs" "\<forall>(type, r)\<in>set rs. unat r \<le> max_block - 15" "alloc_run rs h = Some (offs, k)"
  shows "distinct offs \<and> (set bs - set fs) \<inter> set offs = {}
    \<and> (\<forall>b\<in>(set bs - set fs) \<union> set offs. \<forall>c\<in>(set bs - set fs) \<union> set offs. b \<noteq> c \<longrightarrow> block_bytes k b \<inter> block_bytes k c = {})
    \<and> (\<forall>b\<in>set bs - set fs. \<forall>x\<in>block_bytes h b. arena k x = arena h x)"
proof -
  have i: "heap_inv h (set bs - set fs)" using assms(1) by (auto simp: heap_inv_def)
  have f: "\<forall>r\<in>set rs. unat (snd r) \<le> max_block - 15" using assms(2) by auto
  show ?thesis using heap.run_keeps [OF i f assms(3)] heap.run_apart [OF i f assms(3)] by blast
qed

definition small_heap :: cl_heap where
  "small_heap = cl_mem_init (\<lambda>_. 0) 64 True True"

lemma small_heap_fields:
  "arena small_heap = (\<lambda>_. 0)" "bump small_heap = 8" "arena_size small_heap = 64" "gc_hdr_bump_watch small_heap = 0xFFFFFFFF"
  by (simp_all add: small_heap_def cl_mem_init_def gc_hdr_index_init_def gc_hdr_index_release_def CL_ALIGN_def Let_def)

lemma small_heap_ok: "heap_ok small_heap [] []"
  by (simp add: heap_ok_def heap_walk_def small_heap_def cl_mem_init_def gc_hdr_index_init_def gc_hdr_index_release_def
      CL_ALIGN_def GC_HDR_PAGE_def Let_def)

lemma small_run: "map_option fst (alloc_run [(0, 12), (1, 20)] small_heap) = Some [8, 24]"
  by (simp add: cl_alloc_def gcb_cursor_cut_front_def finish_alloc_def align_up_def small_heap_fields CL_ALIGN_def
      CL_MIN_ALLOC_SIZE_def max_block_def Let_def)

text \<open>
  With the index, deciding whether an offset is the start of a block by walking from the
  page's entry, or from where the previous query stopped, gives the answer of the full walk, for
  every offset and every cursor an earlier query left.
\<close>

definition index_total :: "cl_heap \<Rightarrow> bool" where
  "index_total h \<longleftrightarrow> gc_hdr_page h \<noteq> None \<and> (\<forall>p. p * GC_HDR_PAGE < bump h \<longrightarrow> hdr_at h p \<noteq> None)"

lemma index_total_length:
  assumes "index_total h"
  obtains pages where "gc_hdr_page h = Some pages" "bump h \<le> length pages * GC_HDR_PAGE"
proof -
  obtain pages where p: "gc_hdr_page h = Some pages" using assms by (auto simp: index_total_def)
  have "hdr_at h (length pages) = None" by (simp add: hdr_at_def p)
  then have "\<not> length pages * GC_HDR_PAGE < bump h" using assms by (auto simp: index_total_def)
  then show thesis using that p by simp
qed

theorem block_start_exact:
  assumes "heap_walk h bs" "index_ok h bs" "index_total h" "cursor_ok h bs c"
  shows "fst (gc_hdr_is_block_start (the (gc_hdr_page h)) off c h) = (off \<in> set bs)
    \<and> cursor_ok h bs (snd (gc_hdr_is_block_start (the (gc_hdr_page h)) off c h))"
proof -
  obtain pages where p: "gc_hdr_page h = Some pages" "bump h \<le> length pages * GC_HDR_PAGE" by (rule index_total_length [OF assms(3)])
  show ?thesis using is_block_start_correct [OF assms(1,2) p assms(4)] p(1) by simp
qed

text \<open>
  C39: the tail that the front cut absorbs is added after the size was checked.  When exactly
  \<open>0x800000\<close> bytes are left, a request of more than \<open>0x7FFFF0\<close> bytes below the limit takes them
  all, and the size field of the header it writes is 0: every walk of the blocks ends there.
\<close>

theorem absorbed_tail_loses_size:
  assumes "bump h + 0x800000 = arena_size h" "0x7FFFF0 < unat r" "unat r \<le> 0x7FFFF8"
  shows "\<exists>k. cl_alloc type r h = Allocated (bump h) k \<and> bump k = arena_size h \<and> hsize (arena k (bump h)) = 0"
proof -
  have "unat (align_up r) = (unat r + 7) div 8 * 8" using assms by (intro align_up_exact) simp
  also have "(unat r + 7) div 8 = 0xFFFFF" using assms by linarith
  finally have sz: "unat (align_up r) = 0x7FFFF8" by simp
  have "CL_HDR_SIZE (CL_MAKE_HDR type 0x800000) = 0" by (simp add: hdr_size_make take_bit_eq_mask [symmetric] take_bit_eq_mod)
  then have z: "hsize (CL_MAKE_HDR type 0x800000) = 0" by (simp add: hsize_def)
  have "arena_size h - bump h = 0x800000" using assms(1) by simp
  then show ?thesis using assms(1) z by (simp add: cl_alloc_def sz gcb_cursor_cut_front_def finish_alloc_def CL_MIN_ALLOC_SIZE_def max_block_def Let_def)
qed

theorem absorbed_tail_loses_size_witness:
  "\<exists>k. cl_alloc 1 0x7FFFF8 (cl_mem_init (\<lambda>_. 0) 0x800008 True True) = Allocated 8 k \<and> bump k = 0x800008 \<and> hsize (arena k 8) = 0"
proof -
  have "bump (cl_mem_init (\<lambda>_. 0) 0x800008 True True) = 8" "arena_size (cl_mem_init (\<lambda>_. 0) 0x800008 True True) = 0x800008"
    by (simp_all add: cl_mem_init_def gc_hdr_index_init_def gc_hdr_index_release_def CL_ALIGN_def Let_def)
  then show ?thesis using absorbed_tail_loses_size [where h = "cl_mem_init (\<lambda>_. 0) 0x800008 True True" and r = "0x7FFFF8" and type = 1] by simp
qed

end
