(* ===== verification/Update.thy ===== *)
theory Update
  imports Compact_Slide Trace_Mark
begin

text \<open>
  The passes of a compaction around the tables and the slide (\<open>gc_compact.c\<close>): references in
  objects and in root slots are replaced by the new addresses, and \<open>cl_gc_compact\<close> puts the
  passes together.  Root slots outside the arena are given by their addresses, in the
  order in which the walks over threads and shared tables visit them; the registered slots may
  name one of these or each other again.  The rehashing of tables after the slide is outside
  the model, and so are literals in native code, which only the code generator for 68k embeds.
\<close>

section \<open>Fields of objects\<close>

fun gc_update_slot :: "nat list \<Rightarrow> gc_fwd \<Rightarrow> nat \<Rightarrow> slot \<Rightarrow> cl_heap \<times> (u64 \<Rightarrow> u32) \<Rightarrow> cl_heap \<times> (u64 \<Rightarrow> u32)" where
  "gc_update_slot pins f b (Field d) (h, ext) = (h \<lparr> arena := (arena h)(b + d := gc_forward pins f h (arena h (b + d))) \<rparr>, ext)"
| "gc_update_slot pins f b (Outer p) (h, ext) = (h, ext(p := gc_forward pins f h (ext p)))"

definition gc_update_children :: "nat list \<Rightarrow> gc_fwd \<Rightarrow> nat \<Rightarrow> cl_heap \<times> (u64 \<Rightarrow> u32) \<Rightarrow> cl_heap \<times> (u64 \<Rightarrow> u32)" where
  "gc_update_children pins f b s = fold (gc_update_slot pins f b) (obj_slots (words_of (arena (fst s)) b)) s"

lemma update_slot_frame: "bump (fst (gc_update_slot pins f b x s)) = bump (fst s)" "arena_size (fst (gc_update_slot pins f b x s)) = arena_size (fst s)"
  by (cases s; cases x; simp)+

lemma update_children_frame: "bump (fst (gc_update_children pins f b s)) = bump (fst s)" "arena_size (fst (gc_update_children pins f b s)) = arena_size (fst s)"
proof -
  have "bump (fst (fold (gc_update_slot pins f b) xs s)) = bump (fst s) \<and> arena_size (fst (fold (gc_update_slot pins f b) xs s)) = arena_size (fst s)" for xs
    by (induction xs arbitrary: s) (simp_all add: update_slot_frame)
  then show "bump (fst (gc_update_children pins f b s)) = bump (fst s)" "arena_size (fst (gc_update_children pins f b s)) = arena_size (fst s)"
    by (simp_all add: gc_update_children_def)
qed

function update_loop :: "nat list \<Rightarrow> gc_fwd \<Rightarrow> nat \<Rightarrow> cl_heap \<times> (u64 \<Rightarrow> u32) \<Rightarrow> cl_heap \<times> (u64 \<Rightarrow> u32)" where
  "update_loop pins f off s =
     (if off \<ge> bump (fst s) then s
      else let hdr = arena (fst s) off; sz = hsize hdr in
        if sz = 0 then s
        else update_loop pins f (off + sz) (if CL_HDR_MARKED hdr then gc_update_children pins f off s else s))"
  by pat_completeness auto
termination by (relation "measure (\<lambda>(pins, f, off, s). bump (fst s) - off)") (auto simp: update_children_frame)

declare update_loop.simps [simp del]

section \<open>Root slots\<close>

text \<open>
  The registered slots are sorted; a walk over the other roots flags the first copy of every
  address it visits; then each address is forwarded once, unless it is flagged.
\<close>

function alias_search :: "nat list \<Rightarrow> nat \<Rightarrow> nat \<Rightarrow> nat \<Rightarrow> nat option" where
  "alias_search buf slot lo hi =
     (if lo < hi then
        (let mid = (lo + hi) div 2 in
         if buf ! mid < slot then alias_search buf slot (mid + 1) hi
         else if buf ! mid > slot then alias_search buf slot lo mid
         else Some mid)
      else None)"
  by pat_completeness auto
termination by (relation "measure (\<lambda>(buf, slot, lo, hi). hi - lo)") auto

declare alias_search.simps [simp del]

fun first_copy :: "nat list \<Rightarrow> nat \<Rightarrow> nat" where
  "first_copy buf 0 = 0"
| "first_copy buf (Suc mid) = (if buf ! mid = buf ! Suc mid then first_copy buf mid else Suc mid)"

definition gc_alias_probe :: "nat list \<Rightarrow> nat \<Rightarrow> bool list \<Rightarrow> bool list" where
  "gc_alias_probe buf slot flags =
     (case alias_search buf slot 0 (length buf) of None \<Rightarrow> flags | Some mid \<Rightarrow> flags[first_copy buf mid := True])"

definition update_root :: "(u32 \<Rightarrow> u32) \<Rightarrow> nat \<Rightarrow> (nat \<Rightarrow> u32) \<Rightarrow> nat \<Rightarrow> u32" where
  "update_root fwd a m = m(a := fwd (m a))"

definition gc_update_registered_roots :: "bool \<Rightarrow> (u32 \<Rightarrow> u32) \<Rightarrow> nat list \<Rightarrow> nat list \<Rightarrow> (nat \<Rightarrow> u32) \<Rightarrow> nat \<Rightarrow> u32" where
  "gc_update_registered_roots got fwd walk registered m =
     (if \<not> got then fold (\<lambda>a m. if a \<in> set walk then m else update_root fwd a m) registered m
      else let buf = sort registered; n = length buf;
               flags = fold (gc_alias_probe buf) walk (replicate n False)
           in fold (\<lambda>i m. if i > 0 \<and> buf ! i = buf ! (i - 1) then m else if flags ! i then m else update_root fwd (buf ! i) m) [0..<n] m)"

definition gc_update_all_roots :: "bool \<Rightarrow> (u32 \<Rightarrow> u32) \<Rightarrow> nat list \<Rightarrow> nat list \<Rightarrow> nat list \<Rightarrow> (nat \<Rightarrow> u32) \<Rightarrow> nat \<Rightarrow> u32" where
  "gc_update_all_roots got fwd threads shared registered m =
     fold (update_root fwd) shared (gc_update_registered_roots got fwd (threads @ shared) registered (fold (update_root fwd) threads m))"

definition gc_update_all_references :: "nat list \<Rightarrow> gc_fwd \<Rightarrow> cl_heap \<times> (u64 \<Rightarrow> u32) \<Rightarrow> cl_heap \<times> (u64 \<Rightarrow> u32)" where
  "gc_update_all_references pins f s = update_loop pins f CL_ALIGN s"

section \<open>Compaction\<close>

text \<open>
  The memory of the root slots is \<open>m\<close>.  \<open>pin_oom\<close> says that the set of pinned objects is incomplete,
  \<open>fwd_ok\<close> that there is memory for the tables, \<open>root_buf\<close> that there is memory to sort the registered
  slots.  Without the first two nothing may move, and the marked heap is swept.
\<close>

definition gcb_compact_fallback :: "cl_heap \<Rightarrow> cl_heap" where
  "gcb_compact_fallback h = gc_sweep h"

record root_slots =
  thread_slots :: "nat list"
  shared_slots :: "nat list"
  registered_slots :: "nat list"

definition cl_gc_compact :: "(nat \<Rightarrow> bool) \<Rightarrow> bool \<Rightarrow> bool \<Rightarrow> bool \<Rightarrow> root_slots \<Rightarrow> u32 list \<Rightarrow> nat list \<Rightarrow>
    mark_state \<times> (u64 \<Rightarrow> u32) \<times> (nat \<Rightarrow> u32) \<Rightarrow> mark_state \<times> (u64 \<Rightarrow> u32) \<times> (nat \<Rightarrow> u32)" where
  "cl_gc_compact got pin_oom fwd_ok root_buf rs candidates jit_pinned = (\<lambda>(k, ext, m).
     (let k = gc_mark ext got (map m (thread_slots rs @ registered_slots rs @ shared_slots rs)) candidates k in
      if pin_oom \<or> \<not> fwd_ok then (k \<lparr> mheap := gcb_compact_fallback (mheap k) \<rparr>, ext, m)
      else let (pins, f) = gc_compute_forwarding jit_pinned (mheap k);
               m = gc_update_all_roots root_buf (gc_forward pins f (mheap k)) (thread_slots rs) (shared_slots rs) (registered_slots rs) m;
               (h, ext) = gc_update_all_references pins f (mheap k, ext)
           in (k \<lparr> mheap := gc_slide pins h \<rparr>, ext, m)))"

end
