(* ===== verification/Update_Roots.thy ===== *)
theory Update_Roots
  imports Update
begin

text \<open>
  Every root slot is forwarded once: the search in the sorted list of registered slots and the
  flags that the walk over the other slots leaves.
\<close>

section \<open>Every root slot is forwarded once\<close>

lemma alias_search_spec:
  assumes "sorted buf"
  shows "hi \<le> length buf \<Longrightarrow> case alias_search buf slot lo hi of
    None \<Rightarrow> \<forall>i. lo \<le> i \<and> i < hi \<longrightarrow> buf ! i \<noteq> slot | Some mid \<Rightarrow> mid < hi \<and> buf ! mid = slot"
  using assms
proof (induction buf slot lo hi rule: alias_search.induct)
  case (1 buf slot lo hi)
  let ?m = "(lo + hi) div 2"
  consider "\<not> lo < hi" | "lo < hi" "buf ! ?m < slot" | "lo < hi" "slot < buf ! ?m" | "lo < hi" "buf ! ?m = slot" by linarith
  then show ?case
  proof cases
    case 1
    then show ?thesis by (subst alias_search.simps) simp
  next
    case 2
    have e: "alias_search buf slot lo hi = alias_search buf slot (?m + 1) hi" using 2 by (subst alias_search.simps) (simp add: Let_def)
    have "buf ! i \<noteq> slot" if "i < ?m + 1" for i
    proof -
      have "buf ! i \<le> buf ! ?m" using that 2(1) "1.prems" by (intro sorted_nth_mono) auto
      then show ?thesis using 2(2) by simp
    qed
    then show ?thesis unfolding e using "1.IH"(1) [OF 2(1) refl 2(2) "1.prems"]
      by (auto split: option.splits) (metis not_less)
  next
    case 3
    have e: "alias_search buf slot lo hi = alias_search buf slot lo ?m" using 3 by (subst alias_search.simps) (simp add: Let_def)
    have "buf ! i \<noteq> slot" if "?m \<le> i" "i < hi" for i
    proof -
      have "buf ! ?m \<le> buf ! i" using that "1.prems" by (intro sorted_nth_mono) auto
      then show ?thesis using 3(2) by simp
    qed
    moreover have "?m \<le> length buf" "?m < hi" using 3(1) "1.prems" by auto
    ultimately show ?thesis unfolding e using "1.IH"(2) [OF 3(1) refl _ 3(2) _ "1.prems"(2)] 3
      by (auto split: option.splits) (metis not_less)+
  next
    case 4
    then have "?m < hi" "alias_search buf slot lo hi = Some ?m" by (auto, subst alias_search.simps) (simp add: Let_def)
    then show ?thesis using 4 by simp
  qed
qed

text \<open>The first copy of an address in the sorted list.\<close>

definition first_at :: "nat list \<Rightarrow> nat \<Rightarrow> bool" where
  "first_at buf i \<longleftrightarrow> i < length buf \<and> (i > 0 \<longrightarrow> buf ! i \<noteq> buf ! (i - 1))"

lemma first_at_new:
  assumes "sorted buf" "i < length buf"
  shows "first_at buf i \<longleftrightarrow> buf ! i \<notin> set (take i buf)"
proof
  assume f: "first_at buf i"
  show "buf ! i \<notin> set (take i buf)"
  proof
    assume "buf ! i \<in> set (take i buf)"
    then obtain j where j: "j < i" "buf ! j = buf ! i" using assms(2) by (auto simp: in_set_conv_nth)
    have "buf ! j \<le> buf ! (i - 1)" using j(1) assms by (intro sorted_nth_mono) auto
    moreover have "buf ! (i - 1) \<le> buf ! i" using assms by (intro sorted_nth_mono) auto
    ultimately have "buf ! (i - 1) = buf ! i" using j(2) by simp
    then show False using f j by (simp add: first_at_def)
  qed
next
  assume n: "buf ! i \<notin> set (take i buf)"
  have "buf ! (i - 1) \<in> set (take i buf)" if "i > 0" using that assms(2) by (auto simp: in_set_conv_nth intro: exI [of _ "i - 1"])
  then show "first_at buf i" using n assms(2) by (auto simp: first_at_def)
qed

lemma first_at_unique:
  assumes "sorted buf" "first_at buf i" "first_at buf j" "buf ! i = buf ! j"
  shows "i = j"
proof -
  have "\<not> a < b" if "first_at buf a" "first_at buf b" "buf ! a = buf ! b" for a b
  proof
    assume "a < b"
    then have "buf ! b \<in> set (take b buf)" using that by (auto simp: in_set_conv_nth first_at_def intro!: exI [of _ a])
    then show False using first_at_new [OF assms(1), of b] that(2) by (simp add: first_at_def)
  qed
  then show ?thesis using assms by (metis linorder_neqE_nat)
qed

lemma first_copy_spec: "mid < length buf \<Longrightarrow> first_at buf (first_copy buf mid) \<and> buf ! first_copy buf mid = buf ! mid"
  by (induction buf mid rule: first_copy.induct) (auto simp: first_at_def)

lemma alias_probe_spec:
  assumes s: "sorted buf" and n: "length fl = length buf" and i: "first_at buf i"
  shows "gc_alias_probe buf slot fl ! i \<longleftrightarrow> fl ! i \<or> buf ! i = slot" "length (gc_alias_probe buf slot fl) = length buf"
proof -
  have i': "i < length buf" using i by (simp add: first_at_def)
  note S = alias_search_spec [OF s order_refl, of 0 slot]
  show "gc_alias_probe buf slot fl ! i \<longleftrightarrow> fl ! i \<or> buf ! i = slot"
  proof (cases "alias_search buf slot 0 (length buf)")
    case None
    then show ?thesis using S i' by (simp add: gc_alias_probe_def)
  next
    case (Some mid)
    then have m: "mid < length buf" "buf ! mid = slot" using S by simp_all
    note F = first_copy_spec [OF m(1)]
    have "first_copy buf mid = i \<longleftrightarrow> buf ! i = slot" using first_at_unique [OF s _ i, of "first_copy buf mid"] F m(2) by auto
    then show ?thesis using Some n i' F by (auto simp: gc_alias_probe_def nth_list_update first_at_def)
  qed
  show "length (gc_alias_probe buf slot fl) = length buf" using n by (simp add: gc_alias_probe_def split: option.splits)
qed

lemma alias_flags:
  assumes "sorted buf" "first_at buf i"
  shows "length fl = length buf \<Longrightarrow> fold (gc_alias_probe buf) walk fl ! i \<longleftrightarrow> fl ! i \<or> buf ! i \<in> set walk"
  by (induction walk arbitrary: fl) (auto simp: alias_probe_spec [OF assms(1) _ assms(2)])

lemma registered_once:
  assumes "got \<or> distinct registered"
  shows "gc_update_registered_roots got fwd walk registered m = (\<lambda>a. if a \<in> set registered \<and> a \<notin> set walk then fwd (m a) else m a)"
proof (cases got)
  case False
  have "fold (\<lambda>a m. if a \<in> set walk then m else update_root fwd a m) rs m = (\<lambda>a. if a \<in> set rs \<and> a \<notin> set walk then fwd (m a) else m a)" if "distinct rs" for rs
    using that by (induction rs arbitrary: m) (auto simp: update_root_def fun_eq_iff)
  then show ?thesis using False assms by (simp add: gc_update_registered_roots_def)
next
  case True
  let ?buf = "sort registered"
  let ?fl = "fold (gc_alias_probe ?buf) walk (replicate (length ?buf) False)"
  let ?step = "\<lambda>i m. if i > 0 \<and> ?buf ! i = ?buf ! (i - 1) then m else if ?fl ! i then m else update_root fwd (?buf ! i) m"
  have "fold ?step [0..<n] m = (\<lambda>a. if a \<in> set (take n ?buf) \<and> a \<notin> set walk then fwd (m a) else m a)" if "n \<le> length ?buf" for n
    using that
  proof (induction n)
    case (Suc n)
    let ?m = "\<lambda>a. if a \<in> set (take n ?buf) \<and> a \<notin> set walk then fwd (m a) else m a"
    have t: "set (take (Suc n) ?buf) = insert (?buf ! n) (set (take n ?buf))" using Suc.prems by (simp add: take_Suc_conv_app_nth)
    have "fold ?step [0..<Suc n] m = ?step n ?m" using Suc by simp
    also have "\<dots> = (\<lambda>a. if a \<in> set (take (Suc n) ?buf) \<and> a \<notin> set walk then fwd (m a) else m a)"
    proof (cases "first_at ?buf n")
      case True
      have "?fl ! n \<longleftrightarrow> ?buf ! n \<in> set walk" using alias_flags [OF sorted_sort True, of "replicate (length ?buf) False" walk] Suc.prems by simp
      moreover have "\<not> (n > 0 \<and> ?buf ! n = ?buf ! (n - 1))" using True by (auto simp: first_at_def)
      moreover have "?buf ! n \<notin> set (take n ?buf)" using first_at_new [OF sorted_sort, of n registered] True Suc.prems by simp
      ultimately show ?thesis unfolding t by (auto simp: update_root_def fun_eq_iff)
    next
      case False
      then have "n > 0 \<and> ?buf ! n = ?buf ! (n - 1)" "?buf ! n \<in> set (take n ?buf)" using first_at_new [OF sorted_sort, of n registered] Suc.prems by (auto simp: first_at_def)
      then show ?thesis unfolding t by (simp add: insert_absorb)
    qed
    finally show ?case .
  qed simp
  from this [OF order_refl] show ?thesis using True by (simp add: gc_update_registered_roots_def Let_def)
qed

lemma walk_once: "distinct as \<Longrightarrow> fold (update_root fwd) as m = (\<lambda>a. if a \<in> set as then fwd (m a) else m a)"
  by (induction as arbitrary: m) (auto simp: update_root_def fun_eq_iff)

lemma roots_once:
  assumes "distinct (threads @ shared)" "got \<or> distinct registered"
  shows "gc_update_all_roots got fwd threads shared registered m =
    (\<lambda>a. if a \<in> set threads \<union> set shared \<union> set registered then fwd (m a) else m a)"
  unfolding gc_update_all_roots_def registered_once [OF assms(2)] using assms(1) by (auto simp: walk_once fun_eq_iff)

end
