(* ===== verification/Update_Fields.thy ===== *)
theory Update_Fields
  imports Update_Roots
begin

text \<open>
  Every reference field of a live object is forwarded once, and the fields of an object do not
  depend on the references that are replaced.
\<close>

section \<open>Every field is forwarded once\<close>

definition outer_slots :: "(nat \<Rightarrow> u32) \<Rightarrow> u64 list" where
  "outer_slots rd = concat (map (\<lambda>s. case s of Field d \<Rightarrow> [] | Outer p \<Rightarrow> [p]) (obj_slots rd))"

lemma outer_slots_iff: "p \<in> set (outer_slots rd) \<longleftrightarrow> Outer p \<in> set (obj_slots rd)"
  by (force simp: outer_slots_def split: slot.splits)

lemma field_run_fields [simp]: "distinct (field_run off n)" "Outer p \<notin> set (field_run off n)" "Field d \<in> set (field_run off n) \<longleftrightarrow> (\<exists>i<n. d = off + 4 * i)"
  by (auto simp: field_run_def distinct_map inj_on_def)

lemma outer_run_outers [simp]: "Field d \<notin> set (outer_run p n)"
  by (auto simp: outer_run_def)

lemma distinct_slots:
  assumes "distinct [s \<leftarrow> xs. case s of Field d \<Rightarrow> True | Outer p \<Rightarrow> False]" "distinct [s \<leftarrow> xs. case s of Field d \<Rightarrow> False | Outer p \<Rightarrow> True]"
  shows "distinct xs"
  using assms by (induction xs) (auto split: slot.splits if_splits)

lemma slots_fields_distinct: "distinct [s \<leftarrow> obj_slots rd. case s of Field d \<Rightarrow> True | Outer p \<Rightarrow> False]"
proof -
  let ?F = "filter (\<lambda>s. case s of Field d \<Rightarrow> True | Outer p \<Rightarrow> False)"
  have run: "?F (field_run off n) = field_run off n" for off n by (auto simp: field_run_def intro!: filter_True)
  have out: "?F (outer_run p n) = []" for p n by (auto simp: outer_run_def intro!: filter_False)
  have "distinct (?F (symbol_slots rd))" by (simp add: symbol_slots_def)
  moreover have "distinct (?F (closure_slots rd))" by (simp add: closure_slots_def run)
  moreover have "distinct (?F (bytecode_slots rd))" by (simp add: bytecode_slots_def out)
  moreover have "distinct (?F (vector_slots rd))" by (simp add: vector_slots_def run Let_def)
  moreover have "distinct (?F (hashtable_slots rd))" by (simp add: hashtable_slots_def run)
  moreover have "distinct (?F (struct_slots rd))" by (simp add: struct_slots_def run)
  ultimately show ?thesis unfolding obj_slots_def Let_def if_distrib [of "\<lambda>xs. distinct (?F xs)"] by (simp only: run field_run_fields) simp
qed

lemma obj_slots_distinct:
  assumes "distinct (outer_slots rd)"
  shows "distinct (obj_slots rd)"
proof (rule distinct_slots [OF slots_fields_distinct])
  have "map Outer (concat (map (\<lambda>s. case s of Field d \<Rightarrow> [] | Outer p \<Rightarrow> [p]) xs)) = [s \<leftarrow> xs. case s of Field d \<Rightarrow> False | Outer p \<Rightarrow> True]" for xs
    by (induction xs) (auto split: slot.splits)
  from this [of "obj_slots rd"] have "map Outer (outer_slots rd) = [s \<leftarrow> obj_slots rd. case s of Field d \<Rightarrow> False | Outer p \<Rightarrow> True]"
    by (simp add: outer_slots_def)
  then show "distinct [s \<leftarrow> obj_slots rd. case s of Field d \<Rightarrow> False | Outer p \<Rightarrow> True]"
    using assms by (metis distinct_map inj_onI slot.inject(2))
qed

lemma forward_bump: "bump h' = bump h \<Longrightarrow> gc_forward pins f h' v = gc_forward pins f h v"
  by (simp add: gc_forward_def)

lemma update_slots_spec:
  assumes "distinct xs"
  shows "fold (gc_update_slot pins f b) xs (h, ext) =
    (h \<lparr> arena := (\<lambda>x. if \<exists>d. Field d \<in> set xs \<and> x = b + d then gc_forward pins f h (arena h x) else arena h x) \<rparr>,
     \<lambda>p. if Outer p \<in> set xs then gc_forward pins f h (ext p) else ext p)"
  using assms
proof (induction xs arbitrary: h ext)
  case (Cons s xs)
  show ?case
  proof (cases s)
    case (Field d)
    let ?h = "h \<lparr> arena := (arena h)(b + d := gc_forward pins f h (arena h (b + d))) \<rparr>"
    have fw: "gc_forward pins f ?h = gc_forward pins f h" by (simp add: fun_eq_iff gc_forward_def)
    have ar: "(\<lambda>x. if \<exists>d. Field d \<in> set xs \<and> x = b + d then gc_forward pins f h (arena ?h x) else arena ?h x)
        = (\<lambda>x. if \<exists>d. Field d \<in> set (s # xs) \<and> x = b + d then gc_forward pins f h (arena h x) else arena h x)"
    proof
      fix x
      show "(if \<exists>d. Field d \<in> set xs \<and> x = b + d then gc_forward pins f h (arena ?h x) else arena ?h x)
        = (if \<exists>d. Field d \<in> set (s # xs) \<and> x = b + d then gc_forward pins f h (arena h x) else arena h x)"
        using Cons.prems Field by (cases "x = b + d") auto
    qed
    have out: "(Outer p \<in> set (s # xs)) = (Outer p \<in> set xs)" for p using Field by simp
    have "fold (gc_update_slot pins f b) (s # xs) (h, ext) = fold (gc_update_slot pins f b) xs (?h, ext)" by (simp add: Field)
    also have "\<dots> = (?h \<lparr> arena := (\<lambda>x. if \<exists>d. Field d \<in> set (s # xs) \<and> x = b + d then gc_forward pins f h (arena h x) else arena h x) \<rparr>,
        \<lambda>p. if Outer p \<in> set xs then gc_forward pins f h (ext p) else ext p)"
      using Cons.IH [of ?h ext, unfolded fw ar] Cons.prems by simp
    finally show ?thesis unfolding out by simp
  next
    case (Outer p)
    let ?e = "ext(p := gc_forward pins f h (ext p))"
    have "fold (gc_update_slot pins f b) (s # xs) (h, ext) = fold (gc_update_slot pins f b) xs (h, ?e)" by (simp add: Outer)
    then show ?thesis using Cons Outer by (auto simp: fun_eq_iff)
  qed
qed simp

text \<open>The reference fields of the marked blocks, inside the arena and outside.\<close>

definition live_fields :: "(nat \<Rightarrow> u32) \<Rightarrow> nat list \<Rightarrow> nat set" where
  "live_fields m bs = {b + d | b d. b \<in> set bs \<and> CL_HDR_MARKED (m b) \<and> Field d \<in> set (obj_slots (words_of m b))}"

definition live_outers :: "(nat \<Rightarrow> u32) \<Rightarrow> nat list \<Rightarrow> u64 list" where
  "live_outers m bs = concat (map (\<lambda>b. outer_slots (words_of m b)) (filter (\<lambda>b. CL_HDR_MARKED (m b)) bs))"

lemma live_same:
  assumes "\<And>x. a \<le> x \<Longrightarrow> m' x = m x" "\<forall>b\<in>set bs. a \<le> b"
  shows "live_fields m' bs = live_fields m bs" "live_outers m' bs = live_outers m bs"
proof -
  have w: "words_of m' b = words_of m b \<and> m' b = m b" if "b \<in> set bs" for b using assms that by (auto simp: fun_eq_iff)
  show "live_fields m' bs = live_fields m bs" unfolding live_fields_def using w by (auto cong: conj_cong)
  have "filter (\<lambda>b. CL_HDR_MARKED (m' b)) bs = filter (\<lambda>b. CL_HDR_MARKED (m b)) bs" using w by (intro filter_cong) auto
  then show "live_outers m' bs = live_outers m bs" unfolding live_outers_def using w by (auto intro!: arg_cong [where f = concat] map_cong)
qed

lemma update_loop_spec:
  "chain (arena h) off bs (bump h) \<Longrightarrow> \<forall>b\<in>set bs. CL_HDR_MARKED (arena h b) \<longrightarrow> obj_ok (words_of (arena h) b) \<Longrightarrow> distinct (live_outers (arena h) bs) \<Longrightarrow>
    update_loop pins f off (h, ext) =
      (h \<lparr> arena := (\<lambda>x. if x \<in> live_fields (arena h) bs then gc_forward pins f h (arena h x) else arena h x) \<rparr>,
       \<lambda>p. if p \<in> set (live_outers (arena h) bs) then gc_forward pins f h (ext p) else ext p)"
proof (induction bs arbitrary: off h ext)
  case Nil
  then show ?case by (subst update_loop.simps) (simp add: live_fields_def live_outers_def)
next
  case (Cons b bs)
  let ?sz = "hsize (arena h off)"
  have c: "b = off" "8 \<le> ?sz" "chain (arena h) (off + ?sz) bs (bump h)" using Cons.prems(1) by simp_all
  have lt: "off < bump h" using chain_le [OF c(3)] c(2) by simp
  have after: "\<forall>d\<in>set bs. off + ?sz \<le> d" using chain_ge [OF c(3)] by simp
  show ?case
  proof (cases "CL_HDR_MARKED (arena h off)")
    case False
    then have e: "update_loop pins f off (h, ext) = update_loop pins f (off + ?sz) (h, ext)" using lt c(2) by (subst update_loop.simps) (simp add: Let_def)
    have "live_fields (arena h) (b # bs) = live_fields (arena h) bs" "live_outers (arena h) (b # bs) = live_outers (arena h) bs"
      using False by (auto simp: live_fields_def live_outers_def c(1))
    then show ?thesis unfolding e using Cons.IH [OF c(3)] Cons.prems(2,3) by simp
  next
    case True
    let ?ss = "obj_slots (words_of (arena h) off)"
    have lo: "live_outers (arena h) (b # bs) = outer_slots (words_of (arena h) off) @ live_outers (arena h) bs" using True by (simp add: live_outers_def c(1))
    have ss: "distinct ?ss" using Cons.prems(3) lo by (intro obj_slots_distinct) simp
    let ?h = "h \<lparr> arena := (\<lambda>x. if \<exists>d. Field d \<in> set ?ss \<and> x = off + d then gc_forward pins f h (arena h x) else arena h x) \<rparr>"
    let ?e = "\<lambda>p. if Outer p \<in> set ?ss then gc_forward pins f h (ext p) else ext p"
    have e: "update_loop pins f off (h, ext) = update_loop pins f (off + ?sz) (?h, ?e)"
      using lt c(2) True by (subst update_loop.simps) (simp add: Let_def gc_update_children_def update_slots_spec [OF ss])
    have inside: "d + 4 \<le> ?sz" if "Field d \<in> set ?ss" for d using Cons.prems(2) True c(1) that by (auto simp: obj_ok_def)
    have same: "arena ?h x = arena h x" if "off + ?sz \<le> x" for x using inside that by fastforce
    have L: "live_fields (arena ?h) bs = live_fields (arena h) bs" "live_outers (arena ?h) bs = live_outers (arena h) bs"
      by (rule live_same(1) [of "off + ?sz"], erule same, rule after) (rule live_same(2) [of "off + ?sz"], erule same, rule after)
    have ch: "chain (arena ?h) (off + ?sz) bs (bump ?h)" using chain_cong [of "off + ?sz" "arena ?h" "arena h" bs] same c(3) by simp
    have ok: "\<forall>b\<in>set bs. CL_HDR_MARKED (arena ?h b) \<longrightarrow> obj_ok (words_of (arena ?h) b)"
    proof
      fix d assume d: "d \<in> set bs"
      have le: "off + ?sz \<le> d + x" for x using after d by (simp add: trans_le_add1)
      have "words_of (arena ?h) d = words_of (arena h) d" by (rule ext) (rule same [OF le])
      moreover have "arena ?h d = arena h d" using same [OF le [of 0]] by simp
      ultimately show "CL_HDR_MARKED (arena ?h d) \<longrightarrow> obj_ok (words_of (arena ?h) d)" using Cons.prems(2) d by simp
    qed
    have do: "distinct (live_outers (arena ?h) bs)" unfolding L(2) using Cons.prems(3) lo by simp
    have fw: "gc_forward pins f ?h = gc_forward pins f h" by (simp add: fun_eq_iff gc_forward_def)
    have IH: "update_loop pins f (off + ?sz) (?h, ?e) =
        (?h \<lparr> arena := (\<lambda>x. if x \<in> live_fields (arena h) bs then gc_forward pins f h (arena ?h x) else arena ?h x) \<rparr>,
         \<lambda>p. if p \<in> set (live_outers (arena h) bs) then gc_forward pins f h (?e p) else ?e p)"
      using Cons.IH [OF ch ok do, of ?e] unfolding L fw .
    have lf: "x \<in> live_fields (arena h) (b # bs) \<longleftrightarrow> (\<exists>d. Field d \<in> set ?ss \<and> x = off + d) \<or> x \<in> live_fields (arena h) bs" for x
      using True by (auto simp: live_fields_def c(1))
    have apart: "\<not> (\<exists>d. Field d \<in> set ?ss \<and> x = off + d)" if "x \<in> live_fields (arena h) bs" for x
      using that inside after by (fastforce simp: live_fields_def)
    have out: "Outer p \<in> set ?ss \<longleftrightarrow> p \<in> set (outer_slots (words_of (arena h) off))" for p by (simp add: outer_slots_iff)
    have apart2: "Outer p \<notin> set ?ss" if "p \<in> set (live_outers (arena h) bs)" for p using Cons.prems(3) that unfolding lo out by auto
    have "(\<lambda>x. if x \<in> live_fields (arena h) bs then gc_forward pins f h (arena ?h x) else arena ?h x) =
        (\<lambda>x. if x \<in> live_fields (arena h) (b # bs) then gc_forward pins f h (arena h x) else arena h x)"
      using lf apart by (auto simp: fun_eq_iff)
    moreover have "(\<lambda>p. if p \<in> set (live_outers (arena h) bs) then gc_forward pins f h (?e p) else ?e p) =
        (\<lambda>p. if p \<in> set (live_outers (arena h) (b # bs)) then gc_forward pins f h (ext p) else ext p)"
      unfolding lo using out apart2 by (auto simp: fun_eq_iff)
    ultimately show ?thesis unfolding e IH by simp
  qed
qed

end
