(* ===== verification/Compact_Laws.thy ===== *)
theory Compact_Laws
  imports Compact_Slide
begin

text \<open>
  Properties of compaction: the population count, the agreement of the lookup with the slide, and
  the well-formedness of the heap afterwards.
\<close>

lemma layout_spec:
  assumes "(b, w, n) \<in> set (layout pins c bs)"
  shows "(b, w) \<in> set bs" "b \<in> set pins \<Longrightarrow> n = b"
  using assms by (induction pins c bs rule: layout.induct) (auto simp: target_def)

lemma layout_total: "(b, w) \<in> set bs \<Longrightarrow> \<exists>n. (b, w, n) \<in> set (layout pins c bs)"
  by (induction pins c bs rule: layout.induct) auto

lemma layout_fst: "map fst (layout pins c bs) = map fst bs"
  by (induction pins c bs rule: layout.induct) auto

lemma layout_functional: "distinct (map fst bs) \<Longrightarrow> (b, w, n) \<in> set (layout pins c bs) \<Longrightarrow> (b, w', n') \<in> set (layout pins c bs) \<Longrightarrow> n = n'"
  using eq_key_imp_eq_value [of "layout pins c bs" b "(w, n)" "(w', n')"] by (simp add: layout_fst)

lemma layout_down:
  "chain m a bs e \<Longrightarrow> c \<le> a \<Longrightarrow> (b, w, n) \<in> set (layout pins c (marked_blocks m bs)) \<Longrightarrow> c \<le> n \<and> n \<le> b \<and> n + hsize w \<le> e"
proof (induction bs arbitrary: a c)
  case (Cons d bs)
  have ch: "d = a" "chain m (a + hsize (m a)) bs e" using Cons.prems(1) by simp_all
  have le: "a + hsize (m a) \<le> e" using chain_le [OF ch(2)] .
  have t: "c \<le> target pins c a" "target pins c a \<le> a" using Cons.prems(2) by (simp_all add: target_def)
  show ?case
  proof (cases "CL_HDR_MARKED (m a)")
    case True
    then consider "b = a" "w = m a" "n = target pins c a" | "(b, w, n) \<in> set (layout pins (target pins c a + hsize (m a)) (marked_blocks m bs))"
      using Cons.prems(3) ch(1) by auto
    then show ?thesis
    proof cases
      case 2
      then show ?thesis using Cons.IH [OF ch(2) _ 2] t by simp
    qed (use t le in simp)
  next
    case False
    then show ?thesis using Cons.IH [OF ch(2), of c] Cons.prems(2,3) ch(1) by simp
  qed
qed simp

text \<open>The lookup names the new place of every live block, and of every granule inside it.\<close>

lemma forward_layout:
  assumes walk: "heap_walk h bs" and al: "CL_ALIGN dvd bump h" and fw: "gc_compute_forwarding jit_pinned h = (pins, f)"
    and b: "b \<in> set bs" "CL_HDR_MARKED (arena h b)"
  obtains n where "(b, arena h b, n) \<in> set (layout pins CL_ALIGN (marked_blocks (arena h) bs))"
    "pins = sort jit_pinned" "n \<le> b" "n < 2 ^ 32"
    "\<forall>d. 8 dvd d \<and> d < hsize (arena h b) \<longrightarrow> gc_forward pins f h (of_nat (b + d)) = of_nat (n + d)"
proof -
  obtain f' where F: "gc_compute_forwarding jit_pinned h = (sort jit_pinned, f')" "fwd_full (sort jit_pinned) (bump h) f'"
    "\<forall>g. bit_at (gc_fwd_bits f') g \<longleftrightarrow> (\<exists>(b, w)\<in>set (marked_blocks (arena h) bs). b \<le> 8 * g \<and> 8 * g < b + hsize w)"
    "\<forall>(b, w, n)\<in>set (layout (sort jit_pinned) CL_ALIGN (marked_blocks (arena h) bs)).
       \<forall>x. 8 dvd x \<and> b \<le> x \<and> x < b + hsize w \<longrightarrow> Fcur (sort jit_pinned) (gc_fwd_bits f') (gc_fwd_gap f') x = n + (x - b)"
    by (rule compute_forwarding_full [OF walk al, of jit_pinned])
  have p: "pins = sort jit_pinned" "f = f'" using F(1) fw by simp_all
  have W: "chain (arena h) CL_ALIGN bs (bump h)" "8 dvd b" "bump h < 2 ^ 32" using walk b(1) by (auto simp: heap_walk_def CL_ALIGN_def GC_HDR_PAGE_def)
  have bb: "8 \<le> b" "b + hsize (arena h b) \<le> bump h" using chain_ge [OF W(1) b(1)] by (auto simp: CL_ALIGN_def)
  have lv: "(b, arena h b) \<in> set (marked_blocks (arena h) bs)" using b by auto
  obtain n where n: "(b, arena h b, n) \<in> set (layout pins CL_ALIGN (marked_blocks (arena h) bs))" using layout_total [OF lv] by blast
  have le: "n \<le> b" "n + hsize (arena h b) \<le> bump h" using layout_down [OF W(1) _ n] by simp_all
  have fwd: "gc_forward pins f h (of_nat (b + d)) = of_nat (n + d)" if d: "8 dvd d" "d < hsize (arena h b)" for d
  proof -
    have x: "8 dvd b + d" "0 < b + d" "b + d < bump h" using W(2) d bb by simp_all
    have "bit_at (gc_fwd_bits f) ((b + d) div 8)" unfolding p(2) F(3) [rule_format] by (rule bexI [OF _ lv]) (use x(1) d in simp)
    moreover have "Fcur pins (gc_fwd_bits f) (gc_fwd_gap f) (b + d) = n + d" using F(4) n x d unfolding p by fastforce
    ultimately show ?thesis using forward_live [OF _ _ x W(3), of pins f] F(2) p by simp
  qed
  show thesis by (rule that [OF n p(1) le(1)]) (use le bb W(3) fwd in auto)
qed

text \<open>Without pins there are no holes.\<close>

lemma slide_spec_dense: "frees (map piece_seg (slide_spec [] c bs)) = []"
proof (induction "[] :: nat list" c bs rule: slide_spec.induct)
  case (2 c b w bs)
  then show ?case by (simp add: target_def holes.simps [of c 0])
qed simp

lemma slide_dense:
  assumes "heap_walk h bs" "CL_ALIGN dvd bump h"
  shows "free_list (gc_slide [] h) = 0 \<and> bump (gc_slide [] h) = CL_ALIGN + total_allocated (gc_slide [] h)"
proof -
  let ?cs = "map seg_off (map piece_seg (slide_spec [] CL_ALIGN (marked_blocks (arena h) bs)))"
  have ok: "heap_ok (gc_slide [] h) ?cs []" using gc_slide_heap(1) [OF assms, of "[]"] slide_spec_dense by simp
  then have c: "chain (arena (gc_slide [] h)) CL_ALIGN ?cs (bump (gc_slide [] h))" by (simp add: heap_ok_def heap_walk_def)
  have "total_allocated (gc_slide [] h) = bump (gc_slide [] h) - CL_ALIGN" using ok chain_sum [OF c] by (simp add: heap_ok_def)
  moreover have "free_list (gc_slide [] h) = 0" using ok by (simp add: heap_ok_def)
  ultimately show ?thesis using chain_le [OF c] by simp
qed

section \<open>Properties\<close>

text \<open>
  The shift-and-mask population count used on processors without the instruction returns the
  number of bits that are set.
\<close>

theorem popcount_exact: "unat (gc_popcount32 x) = card {n. bit x n}"
  by (rule popcount32_exact)

text \<open>
  C8: compaction of a heap whose blocks can be walked.  The address that the forwarding tables
  give for a live block, before anything has moved, is the address to which the slide moves it:
  there the slid heap has its header with the mark cleared and every other word unchanged.  The
  lookup is exact for the granules inside the block too, the block does not move up, and a
  pinned block stays where it is.
\<close>

theorem forwarding_agrees_with_slide:
  assumes "heap_walk h bs" "CL_ALIGN dvd bump h" "gc_compute_forwarding jit_pinned h = (pins, f)" "b \<in> set bs" "CL_HDR_MARKED (arena h b)"
  shows "\<exists>n\<le>b. (\<forall>d. CL_ALIGN dvd d \<and> d < hsize (arena h b) \<longrightarrow> gc_forward pins f h (of_nat (b + d)) = of_nat (n + d))
    \<and> arena (gc_slide pins h) n = CL_HDR_CLR_MARK (arena h b)
    \<and> (\<forall>d. 0 < d \<and> d < hsize (arena h b) \<longrightarrow> arena (gc_slide pins h) (n + d) = arena h (b + d))
    \<and> (b \<in> set jit_pinned \<longrightarrow> n = b)"
proof -
  obtain n where n: "(b, arena h b, n) \<in> set (layout pins CL_ALIGN (marked_blocks (arena h) bs))" "pins = sort jit_pinned" "n \<le> b"
    "\<forall>d. 8 dvd d \<and> d < hsize (arena h b) \<longrightarrow> gc_forward pins f h (of_nat (b + d)) = of_nat (n + d)"
    by (rule forward_layout [OF assms])
  have "sorted pins" by (simp add: n(2))
  from bspec [OF gc_slide_heap(5) [OF assms(1,2) this] n(1)] have "arena (gc_slide pins h) n = CL_HDR_CLR_MARK (arena h b)"
    "\<forall>d. 0 < d \<and> d < hsize (arena h b) \<longrightarrow> arena (gc_slide pins h) (n + d) = arena h (b + d)" by auto
  moreover have "b \<in> set jit_pinned \<longrightarrow> n = b" using layout_spec(2) [OF n(1)] n(2) by simp
  ultimately show ?thesis using n(3,4) by (auto simp: CL_ALIGN_def)
qed

text \<open>
  C9: the slid heap is well formed: its headers tile the span below the new front, which has not
  grown; the allocated blocks are exactly the forwarded live ones; the holes below pinned blocks are on the
  free list; the count of allocated bytes and the block-start index are right.
\<close>

theorem slide_heap_ok:
  assumes "heap_walk h bs" "CL_ALIGN dvd bump h" "gc_compute_forwarding jit_pinned h = (pins, f)"
  shows "\<exists>cs fs. heap_ok (gc_slide pins h) cs fs \<and> index_ok (gc_slide pins h) cs \<and> bump (gc_slide pins h) \<le> bump h
    \<and> set cs - set fs = (\<lambda>b. unat (gc_forward pins f h (of_nat b))) ` {b \<in> set bs. CL_HDR_MARKED (arena h b)}
    \<and> (jit_pinned = [] \<longrightarrow> free_list (gc_slide pins h) = 0 \<and> bump (gc_slide pins h) = CL_ALIGN + total_allocated (gc_slide pins h))"
proof -
  let ?L = "layout pins CL_ALIGN (marked_blocks (arena h) bs)"
  let ?ss = "map piece_seg (slide_spec pins CL_ALIGN (marked_blocks (arena h) bs))"
  have p: "sorted pins" using assms(3) by (auto simp: gc_compute_forwarding_def Let_def split: prod.splits)
  note S = gc_slide_heap [OF assms(1,2) p]
  have "distinct bs" using assms(1) chain_sorted by (auto simp: heap_walk_def)
  then have dist: "distinct (map fst (marked_blocks (arena h) bs))" by (simp add: filter_map comp_def)
  have fw: "unat (gc_forward pins f h (of_nat b)) = n" if "(b, w, n) \<in> set ?L" for b w n
  proof -
    have b: "b \<in> set bs" "CL_HDR_MARKED (arena h b)" "w = arena h b" using layout_spec(1) [OF that] by auto
    obtain n' where n: "(b, arena h b, n') \<in> set ?L" "n' < 2 ^ 32"
      "\<forall>d. 8 dvd d \<and> d < hsize (arena h b) \<longrightarrow> gc_forward pins f h (of_nat (b + d)) = of_nat (n' + d)"
      by (rule forward_layout [OF assms b(1,2)])
    have "8 \<le> hsize (arena h b)" using chain_ge b(1) assms(1) by (auto simp: heap_walk_def)
    then have "unat (gc_forward pins f h (of_nat b)) = n'" using n(2) n(3) [THEN spec, of 0] by (simp add: unat_of_nat)
    moreover have "n' = n" using layout_functional [OF dist that n(1)] by simp
    ultimately show ?thesis by simp
  qed
  have "(\<lambda>(b, w, n). n) ` set ?L = (\<lambda>b. unat (gc_forward pins f h (of_nat b))) ` {b \<in> set bs. CL_HDR_MARKED (arena h b)}"
  proof -
    have "(\<lambda>(b, w, n). n) ` set ?L = (\<lambda>b. unat (gc_forward pins f h (of_nat b))) ` (fst ` set ?L)" unfolding image_image using fw by (intro image_cong) auto
    moreover have "fst ` set ?L = fst ` set (marked_blocks (arena h) bs)"
      using arg_cong [OF layout_fst [of pins CL_ALIGN "marked_blocks (arena h) bs"], of set] by (simp only: set_map)
    moreover have "fst ` set (marked_blocks (arena h) bs) = {b \<in> set bs. CL_HDR_MARKED (arena h b)}" by force
    ultimately show ?thesis by simp
  qed
  then have "set (map seg_off ?ss) - set (rev (frees ?ss)) = (\<lambda>b. unat (gc_forward pins f h (of_nat b))) ` {b \<in> set bs. CL_HDR_MARKED (arena h b)}"
    using S(4) by simp
  moreover have "jit_pinned = [] \<longrightarrow> pins = []" using assms(3) by (auto simp: gc_compute_forwarding_def Let_def split: prod.splits)
  ultimately show ?thesis using S(1,2,6) slide_dense [OF assms(1,2)] by blast
qed

definition sparse_heap :: cl_heap where
  "sparse_heap = (cl_mem_init (\<lambda>_. 0) 64 False True) \<lparr> arena := (\<lambda>_. 0)(8 := 16, 24 := 0x00800010, 40 := 0x01800010), bump := 56 \<rparr>"

lemma sparse_fields:
  "arena sparse_heap = (\<lambda>_. 0)(8 := 16, 24 := 0x00800010, 40 := 0x01800010)" "bump sparse_heap = 56" "arena_size sparse_heap = 64"
  by (simp_all add: sparse_heap_def cl_mem_init_def gc_hdr_index_init_def gc_hdr_index_release_def gc_hdr_bump_reset_def Let_def)

lemma sparse_words: "hsize 16 = 16" "hsize 0x00800010 = 16" "hsize 0x01800010 = 16" "CL_HDR_MARKED 0x00800010" "CL_HDR_MARKED 0x01800010"
  by (simp_all add: hsize_mod) (simp_all add: CL_HDR_MARKED_def CL_HDR_MARK_BIT_def)

lemma sparse_walk: "heap_walk sparse_heap [8, 24, 40]" "CL_ALIGN dvd bump sparse_heap"
  by (simp_all add: heap_walk_def sparse_fields sparse_words CL_ALIGN_def GC_HDR_PAGE_def)

lemma sparse_forwarding: "gc_compute_forwarding p sparse_heap = (sort p, snd (gc_compute_forwarding p sparse_heap))"
  by (simp add: gc_compute_forwarding_def Let_def split: prod.splits)

theorem forwarding_agrees_with_slide_witness:
  "\<exists>n\<le>40. arena (gc_slide [40] sparse_heap) n = CL_HDR_CLR_MARK 0x01800010 \<and> n = 40"
  using forwarding_agrees_with_slide [OF sparse_walk sparse_forwarding, of 40 "[40]"] by (simp add: sparse_fields sparse_words)

theorem slide_heap_ok_witness:
  "free_list (gc_slide [] sparse_heap) = 0 \<and> bump (gc_slide [] sparse_heap) = CL_ALIGN + total_allocated (gc_slide [] sparse_heap)"
  using slide_heap_ok [OF sparse_walk sparse_forwarding, of "[]"] by auto

end
