(* ===== verification/Update_Graph.thy ===== *)
theory Update_Graph
  imports Update_Fields Compact_Laws
begin

unbundle bit_operations_syntax

text \<open>
  The object graph under a renaming of its blocks: the update of references on a marked heap, and
  what is reachable afterwards.
\<close>

section \<open>Compaction keeps the object graph\<close>

text \<open>The word that stands for the same value after blocks have moved.\<close>

definition rename_ref :: "cl_heap \<Rightarrow> (nat \<Rightarrow> nat) \<Rightarrow> u32 \<Rightarrow> u32" where
  "rename_ref h new v = (if is_ref h v then of_nat (new (unat v)) else v)"

text \<open>Words with the low bits of neither a fixnum nor a reference are characters or the unbound marker.\<close>

definition tagged :: "u32 \<Rightarrow> bool" where
  "tagged v \<longleftrightarrow> (v AND CL_TAG_MASK_LO2 = 2 \<longrightarrow> CL_CHAR_P v \<or> v = CL_UNBOUND)"

lemma low_bits: "v AND 3 = (0 :: u32) \<or> v AND 3 = 1 \<or> v AND 3 = 2 \<or> v AND 3 = 3"
proof -
  have e: "v AND 3 = take_bit 2 v" by (simp add: take_bit_eq_mask mask_eq_exp_minus_1)
  have "unat (take_bit 2 v) < 4" unfolding unsigned_take_bit_eq by (simp add: take_bit_eq_mod)
  then have "unat (take_bit 2 v) \<in> {0, 1, 2, 3}" by auto
  then show ?thesis unfolding e by (auto simp: word_unat_eq_iff)
qed

lemma forward_other:
  assumes t: "tagged v" and n: "\<not> is_ref h v" and b: "bump h \<le> arena_size h"
  shows "gc_forward pins f h v = v"
proof -
  consider "CL_FIXNUM_P v" | "v AND 3 = 2" | "v AND 3 = 0"
  proof -
    have "v AND 1 = (v AND 3) AND 1" by (rule bit_eqI) (auto simp: bit_simps)
    then have "CL_FIXNUM_P v" if "v AND 3 = 1 \<or> v AND 3 = 3" using that by (auto simp: CL_FIXNUM_P_def)
    then show thesis using that low_bits [of v] by blast
  qed
  then show ?thesis
  proof cases
    case 3
    then have "v = CL_NIL \<or> bump h \<le> unat v" using n b by (auto simp: is_ref_def CL_TAG_MASK_LO2_def)
    then show ?thesis by (auto simp: gc_forward_def)
  qed (use t in \<open>auto simp: gc_forward_def tagged_def CL_TAG_MASK_LO2_def\<close>)
qed

lemma layout_inj:
  "chain m a bs e \<Longrightarrow> c \<le> a \<Longrightarrow> (b, w, n) \<in> set (layout pins c (marked_blocks m bs)) \<Longrightarrow> (b', w', n) \<in> set (layout pins c (marked_blocks m bs)) \<Longrightarrow> b = b'"
proof (induction bs arbitrary: a c)
  case (Cons d bs)
  have ch: "d = a" "8 \<le> hsize (m a)" "chain m (a + hsize (m a)) bs e" using Cons.prems(1) by simp_all
  let ?t = "target pins c a"
  have t: "?t \<le> a" using Cons.prems(2) by (simp add: target_def)
  show ?case
  proof (cases "CL_HDR_MARKED (m a)")
    case True
    let ?L = "layout pins (?t + hsize (m a)) (marked_blocks m bs)"
    have up: "?t < n" if "(b, w, n) \<in> set ?L" for b w n using layout_down [OF ch(3) _ that] t ch(2) by simp
    have m: "(b, w, n) = (a, m a, ?t) \<or> (b, w, n) \<in> set ?L" "(b', w', n) = (a, m a, ?t) \<or> (b', w', n) \<in> set ?L" using Cons.prems(3,4) True ch(1) by auto
    show ?thesis
    proof (cases "n = ?t")
      case True
      then show ?thesis using m up [of b w n] up [of b' w' n] by auto
    next
      case False
      then show ?thesis using m Cons.IH [OF ch(3), of "?t + hsize (m a)"] t by auto
    qed
  next
    case False
    then show ?thesis using Cons.IH [OF ch(3), of c] Cons.prems(2-4) ch(1) by simp
  qed
qed simp

lemma slots_forward:
  assumes hdr: "rd' 0 = rd 0" and ok: "obj_ok rd"
    and body: "\<And>d. 0 < d \<Longrightarrow> d < hsize (rd 0) \<Longrightarrow> rd' d = (if Field d \<in> set (obj_slots rd) then F (rd d) else rd d)"
    and F: "\<And>d. Field d \<in> set (obj_slots rd) \<Longrightarrow> (F (rd d) = CL_NIL \<longleftrightarrow> rd d = CL_NIL) \<and> (F (rd d) = CL_UNBOUND \<longleftrightarrow> rd d = CL_UNBOUND)"
  shows "obj_slots rd' = obj_slots rd"
proof -
  let ?t = "CL_HDR_TYPE (rd 0)"
  have fx: "fixed_part ?t \<le> hsize (rd 0)" using ok by (simp add: obj_ok_def)
  have plain: "rd' d = rd d" if "0 < d" "d < fixed_part ?t" "Field d \<notin> set (obj_slots rd)" for d using body [of d] that fx by auto
  have nil: "rd' d = CL_NIL \<longleftrightarrow> rd d = CL_NIL" and unb: "rd' d = CL_UNBOUND \<longleftrightarrow> rd d = CL_UNBOUND" if "0 < d" "d < fixed_part ?t" for d
    using body [of d] F [of d] that fx by auto
  have 1: "?t = TYPE_SYMBOL \<Longrightarrow> symbol_slots rd' = symbol_slots rd"
    using unb [of 8] unb [of 12] by (simp add: symbol_slots_def fixed_part_def)
  have 2: "?t = TYPE_BYTECODE \<Longrightarrow> bytecode_slots rd' = bytecode_slots rd"
  proof -
    assume t: "?t = TYPE_BYTECODE"
    then have "obj_slots rd = bytecode_slots rd" by (simp add: obj_slots_def type_tags)
    then have "Field d \<in> set (obj_slots rd) \<longleftrightarrow> d = 36 \<or> d = 124" for d by (simp add: bytecode_slots_def)
    then show ?thesis using plain [of 16] plain [of 20] plain [of 28] plain [of 48] plain [of 52] plain [of 40] t
      by (simp add: bytecode_slots_def fixed_part_def pointer_at_def half_at_def byte_at_def type_tags)
  qed
  have 3: "?t = TYPE_VECTOR \<Longrightarrow> vector_slots rd' = vector_slots rd"
  proof -
    assume t: "?t = TYPE_VECTOR"
    then have "obj_slots rd = vector_slots rd" by (simp add: obj_slots_def type_tags)
    then have "Field 4 \<notin> set (obj_slots rd)" "Field 12 \<notin> set (obj_slots rd)" by (auto simp: vector_slots_def Let_def)
    then show ?thesis using plain [of 4] plain [of 12] t by (simp add: vector_slots_def fixed_part_def byte_at_def type_tags Let_def)
  qed
  have 4: "?t = TYPE_HASHTABLE \<Longrightarrow> hashtable_slots rd' = hashtable_slots rd"
  proof -
    assume t: "?t = TYPE_HASHTABLE"
    then have "obj_slots rd = hashtable_slots rd" by (simp add: obj_slots_def type_tags)
    then have "Field 12 \<notin> set (obj_slots rd)" by (auto simp: hashtable_slots_def)
    then show ?thesis using plain [of 12] nil [of 20] t by (simp add: hashtable_slots_def fixed_part_def type_tags)
  qed
  have 5: "?t = TYPE_STRUCT \<Longrightarrow> struct_slots rd' = struct_slots rd"
  proof -
    assume t: "?t = TYPE_STRUCT"
    then have "obj_slots rd = struct_slots rd" by (simp add: obj_slots_def type_tags)
    then have "Field 8 \<notin> set (obj_slots rd)" by (auto simp: struct_slots_def)
    then show ?thesis using plain [of 8] t by (simp add: struct_slots_def fixed_part_def type_tags)
  qed
  have 6: "closure_slots rd' = closure_slots rd" by (simp add: closure_slots_def hdr)
  show ?thesis unfolding obj_slots_def Let_def hdr 6 by (simp only: 1 2 3 4 5 cong: if_cong)
qed

text \<open>What the update of references does to a walkable heap whose live objects are well formed.\<close>

definition live_ok :: "(nat \<Rightarrow> u32) \<Rightarrow> nat list \<Rightarrow> bool" where
  "live_ok m bs \<longleftrightarrow> (\<forall>b\<in>set bs. CL_HDR_MARKED (m b) \<longrightarrow> obj_ok (words_of m b)) \<and> distinct (live_outers m bs)"

lemma live_field_inside:
  assumes "chain (arena h) a bs e" "live_ok (arena h) bs" "c \<in> set bs" "d < hsize (arena h c)"
  shows "c + d \<in> live_fields (arena h) bs \<longleftrightarrow> CL_HDR_MARKED (arena h c) \<and> Field d \<in> set (obj_slots (words_of (arena h) c))"
proof
  assume "c + d \<in> live_fields (arena h) bs"
  then obtain b e where b: "c + d = b + e" "b \<in> set bs" "CL_HDR_MARKED (arena h b)" "Field e \<in> set (obj_slots (words_of (arena h) b))"
    by (auto simp: live_fields_def)
  then have "e + 4 \<le> hsize (arena h b)" using assms(2) by (auto simp: live_ok_def obj_ok_def)
  then have "b = c" using chain_disjoint [OF assms(1) b(2) assms(3)] chain_disjoint [OF assms(1) assms(3) b(2)] assms(4) b(1)
    by (cases b c rule: linorder_cases) auto
  then show "CL_HDR_MARKED (arena h c) \<and> Field d \<in> set (obj_slots (words_of (arena h) c))" using b by simp
qed (use assms(3) in \<open>auto simp: live_fields_def\<close>)

lemma update_references:
  assumes walk: "heap_walk h bs" and ok: "live_ok (arena h) bs" and u: "gc_update_all_references pins f (h, ext) = (h', ext')"
  shows "heap_walk h' bs" "arena_size h' = arena_size h" "bump h' = bump h" "\<And>b. b \<in> set bs \<Longrightarrow> arena h' b = arena h b"
    "\<And>b d. b \<in> set bs \<Longrightarrow> CL_HDR_MARKED (arena h b) \<Longrightarrow> d < hsize (arena h b) \<Longrightarrow>
       arena h' (b + d) = (if Field d \<in> set (obj_slots (words_of (arena h) b)) then gc_forward pins f h (arena h (b + d)) else arena h (b + d))"
    "\<And>b p. b \<in> set bs \<Longrightarrow> CL_HDR_MARKED (arena h b) \<Longrightarrow> Outer p \<in> set (obj_slots (words_of (arena h) b)) \<Longrightarrow> ext' p = gc_forward pins f h (ext p)"
proof -
  have c: "chain (arena h) CL_ALIGN bs (bump h)" using walk by (simp add: heap_walk_def)
  have u: "h' = h \<lparr> arena := (\<lambda>x. if x \<in> live_fields (arena h) bs then gc_forward pins f h (arena h x) else arena h x) \<rparr>"
    "ext' = (\<lambda>p. if p \<in> set (live_outers (arena h) bs) then gc_forward pins f h (ext p) else ext p)"
    using update_loop_spec [OF c, of pins f ext] ok u by (simp_all add: live_ok_def gc_update_all_references_def)
  show f: "arena_size h' = arena_size h" "bump h' = bump h" by (simp_all add: u)
  show head: "arena h' b = arena h b" if "b \<in> set bs" for b
  proof -
    have "obj_ok (words_of (arena h) b)" if "CL_HDR_MARKED (arena h b)" using ok that \<open>b \<in> set bs\<close> by (simp add: live_ok_def)
    then have "\<not> (CL_HDR_MARKED (arena h b) \<and> Field 0 \<in> set (obj_slots (words_of (arena h) b)))" by (auto simp: obj_ok_def)
    moreover have "0 < hsize (arena h b)" using chain_ge [OF c that] by simp
    ultimately show ?thesis using live_field_inside [OF c ok that, of 0] by (auto simp: u)
  qed
  show "heap_walk h' bs" using walk chain_heads [of bs "arena h'" "arena h"] head by (simp add: heap_walk_def f)
  show "arena h' (b + d) = (if Field d \<in> set (obj_slots (words_of (arena h) b)) then gc_forward pins f h (arena h (b + d)) else arena h (b + d))"
    if "b \<in> set bs" "CL_HDR_MARKED (arena h b)" "d < hsize (arena h b)" for b d
    using live_field_inside [OF c ok that(1,3)] that(2) by (simp add: u)
  show "ext' p = gc_forward pins f h (ext p)" if "b \<in> set bs" "CL_HDR_MARKED (arena h b)" "Outer p \<in> set (obj_slots (words_of (arena h) b))" for b p
  proof -
    have "p \<in> set (live_outers (arena h) bs)" using that by (auto simp: live_outers_def outer_slots_iff)
    then show ?thesis by (simp add: u)
  qed
qed

text \<open>The same objects at other places, with the references between them renamed.\<close>

definition moved_graph :: "(u64 \<Rightarrow> u32) \<Rightarrow> cl_heap \<Rightarrow> (u64 \<Rightarrow> u32) \<Rightarrow> cl_heap \<Rightarrow> (nat \<Rightarrow> nat) \<Rightarrow> nat set \<Rightarrow> bool" where
  "moved_graph ext h ext' h' new R \<longleftrightarrow> inj_on new R \<and> (\<forall>b\<in>R. arena h' (new b) = arena h b
     \<and> obj_slots (words_of (arena h') (new b)) = obj_slots (words_of (arena h) b)
     \<and> (\<forall>d. d < hsize (arena h b) \<and> Field d \<notin> set (obj_slots (words_of (arena h) b)) \<longrightarrow> arena h' (new b + d) = arena h (b + d))
     \<and> (\<forall>s\<in>set (obj_slots (words_of (arena h) b)). slot_value ext' (arena h') (new b) s = rename_ref h new (slot_value ext (arena h) b s)))"

text \<open>The new place of a block can stand in a word that refers to it.\<close>

definition addressable :: "cl_heap \<Rightarrow> nat \<Rightarrow> bool" where
  "addressable h n \<longleftrightarrow> 8 dvd n \<and> 8 \<le> n \<and> n < arena_size h \<and> n < 2 ^ 32"

lemma addressable_ref:
  assumes "addressable h n"
  shows "is_ref h (of_nat n)" "unat (of_nat n :: u32) = n" "of_nat n \<noteq> CL_NIL" "of_nat n \<noteq> CL_UNBOUND"
proof -
  show u: "unat (of_nat n :: u32) = n" using assms by (simp add: addressable_def unat_of_nat)
  have a: "(of_nat n :: u32) AND 3 = 0"
  proof -
    have e: "(of_nat n :: u32) AND 3 = take_bit 2 (of_nat n)" by (simp add: take_bit_eq_mask mask_eq_exp_minus_1)
    have "unat (take_bit 2 (of_nat n :: u32)) = n mod 4" unfolding unsigned_take_bit_eq u by (simp add: take_bit_eq_mod)
    also have "\<dots> = 0" using assms by (auto simp: addressable_def elim!: dvdE)
    finally show ?thesis unfolding e by (simp add: word_unat_eq_iff)
  qed
  show "of_nat n \<noteq> CL_NIL" using assms u by (auto simp: addressable_def CL_NIL_def)
  then show "is_ref h (of_nat n)" using a u assms by (simp add: is_ref_def addressable_def CL_TAG_MASK_LO2_def)
  show "of_nat n \<noteq> CL_UNBOUND" using a by (auto simp: CL_UNBOUND_def)
qed

lemma rename_is_ref:
  assumes "arena_size h' = arena_size h" "\<And>b. b \<in> R \<Longrightarrow> addressable h (new b)" "is_ref h v \<Longrightarrow> unat v \<in> R"
  shows "is_ref h' (rename_ref h new v) \<longleftrightarrow> is_ref h v" "is_ref h v \<Longrightarrow> unat (rename_ref h new v) = new (unat v)"
  using assms addressable_ref [of h "new (unat v)"] by (auto simp: rename_ref_def is_ref_def)

lemma moved_reachable:
  assumes g: "moved_graph ext h ext' h' new R" and R: "R = {b. reachable ext h V b}" and sz: "arena_size h' = arena_size h"
    and new: "\<And>b. b \<in> R \<Longrightarrow> addressable h (new b)"
  shows "{b. reachable ext' h' (rename_ref h new ` V) b} = new ` R"
proof -
  have top: "is_ref h v \<Longrightarrow> unat v \<in> R" if "v \<in> V" for v using reachable.root [OF that] by (simp add: R)
  note N = rename_is_ref [of h' h R new, OF sz new]
  have refs': "refs ext' h' (new b) = new ` refs ext h b" if "b \<in> R" for b
  proof -
    let ?s = "obj_slots (words_of (arena h) b)" and ?v = "slot_value ext (arena h) b"
    have G: "obj_slots (words_of (arena h') (new b)) = ?s" "\<And>s. s \<in> set ?s \<Longrightarrow> slot_value ext' (arena h') (new b) s = rename_ref h new (?v s)"
      using g that by (auto simp: moved_graph_def)
    have slot: "is_ref h (?v s) \<Longrightarrow> unat (?v s) \<in> R" if "s \<in> set ?s" for s
      using reachable.field [of ext h V b "unat (?v s)"] that \<open>b \<in> R\<close> by (auto simp: R refs_def)
    have "refs ext' h' (new b) = {unat (rename_ref h new (?v s)) | s. s \<in> set ?s \<and> is_ref h' (rename_ref h new (?v s))}"
      unfolding refs_def G(1) using G(2) by (auto; metis)
    also have "\<dots> = {new (unat (?v s)) | s. s \<in> set ?s \<and> is_ref h (?v s)}"
      using N [OF _ slot] by (auto; metis)
    also have "\<dots> = new ` refs ext h b" by (auto simp: refs_def)
    finally show ?thesis .
  qed
  show ?thesis
  proof (intro equalityI subsetI)
    fix c assume "c \<in> {b. reachable ext' h' (rename_ref h new ` V) b}"
    then have "reachable ext' h' (rename_ref h new ` V) c" by simp
    then show "c \<in> new ` R"
    proof induction
      case (root w)
      then obtain v where v: "v \<in> V" "w = rename_ref h new v" by blast
      then show ?case using N [OF _ top [OF v(1)]] top [OF v(1)] root by auto
    next
      case (field b c)
      then obtain b0 where b: "b0 \<in> R" "b = new b0" by blast
      then have "c \<in> new ` refs ext h b0" using field.hyps(2) refs' by simp
      then show ?case using b(1) reachable.field [of ext h V b0] by (auto simp: R)
    qed
  next
    fix c assume "c \<in> new ` R"
    then obtain b where b: "reachable ext h V b" "c = new b" by (auto simp: R)
    from b(1) have "reachable ext' h' (rename_ref h new ` V) (new b)"
    proof induction
      case (root v)
      note n = N [OF _ top [OF root(1)]]
      then show ?case using reachable.root [of "rename_ref h new v" "rename_ref h new ` V" h' ext'] root by simp
    next
      case (field b c)
      then have "new c \<in> refs ext' h' (new b)" using refs' [of b] by (simp add: R)
      then show ?case using reachable.field [OF field.IH] by blast
    qed
    then show "c \<in> {b. reachable ext' h' (rename_ref h new ` V) b}" using b(2) by simp
  qed
qed

end
