(* ===== verification/Update_Move.thy ===== *)
theory Update_Move
  imports Update_Graph
begin

unbundle bit_operations_syntax

text \<open>
  The new places of live blocks, and each object after update and slide.
\<close>

lemma slide_size: "arena_size (gc_slide pins h) = arena_size h"
  using slide_loop_size [of pins "bump h" CL_ALIGN "(\<lparr> cur = CL_ALIGN, pin_i = 0 \<rparr>, CL_ALIGN, 0, h \<lparr> free_list := 0 \<rparr>)"]
  by (auto simp: gc_slide_def Let_def split: prod.splits)

text \<open>The arrays outside the arena that the objects of a set name, in the order of the blocks.\<close>

definition outers_of :: "cl_heap \<Rightarrow> nat set \<Rightarrow> nat list \<Rightarrow> u64 list" where
  "outers_of h R bs = concat (map (\<lambda>b. outer_slots (words_of (arena h) b)) (filter (\<lambda>b. b \<in> R) bs))"

text \<open>Words that may stand in a slot of a live object: references lead to live blocks.\<close>

definition proper :: "cl_heap \<Rightarrow> nat set \<Rightarrow> u32 \<Rightarrow> bool" where
  "proper h R v \<longleftrightarrow> tagged v \<and> (is_ref h v \<longrightarrow> unat v \<in> R)"

lemma marks_live:
  assumes "heap_walk h bs" "R \<subseteq> set bs" "\<forall>b\<in>set bs. \<not> CL_HDR_MARKED (arena h b)" "\<forall>b\<in>R. obj_ok (words_of (arena h) b)" "distinct (outers_of h R bs)"
  shows "live_ok (arena (set_marks R h)) bs"
proof -
  let ?m = "arena (set_marks R h)"
  have M: "CL_HDR_MARKED (?m b) \<longleftrightarrow> b \<in> R" if "b \<in> set bs" for b using marks_marked assms(3) that by blast
  have S: "obj_slots (words_of ?m b) = obj_slots (words_of (arena h) b)" if "b \<in> R" for b using marks_slots(1) [OF assms(1,2)] that assms(2,4) by blast
  have "obj_ok (words_of ?m b)" if "b \<in> R" for b using assms(4) that S [OF that] by (simp add: obj_ok_def marks_word)
  moreover have "live_outers ?m bs = outers_of h R bs"
  proof -
    have "filter (\<lambda>b. CL_HDR_MARKED (?m b)) bs = filter (\<lambda>b. b \<in> R) bs" using M by (intro filter_cong) auto
    then show ?thesis unfolding live_outers_def outers_of_def using S by (auto simp: outer_slots_def intro!: arg_cong [where f = concat] map_cong)
  qed
  ultimately show ?thesis using M assms(5) by (simp add: live_ok_def)
qed

text \<open>The new places of the blocks in a set.\<close>

definition placed :: "cl_heap \<Rightarrow> nat set \<Rightarrow> nat list \<Rightarrow> nat list \<Rightarrow> (nat \<Rightarrow> nat) \<Rightarrow> bool" where
  "placed h R bs pins new \<longleftrightarrow> inj_on new R
     \<and> (\<lambda>(b, w, n). n) ` set (layout pins CL_ALIGN (marked_blocks (arena (set_marks R h)) bs)) = new ` R
     \<and> (\<forall>b\<in>R. (b, arena (set_marks R h) b, new b) \<in> set (layout pins CL_ALIGN (marked_blocks (arena (set_marks R h)) bs))
          \<and> addressable h (new b) \<and> new b \<le> b \<and> (b \<in> set pins \<longrightarrow> new b = b))"

lemma compact_places:
  assumes walk: "heap_walk h bs" and al: "CL_ALIGN dvd bump h" and un: "\<forall>b\<in>set bs. \<not> CL_HDR_MARKED (arena h b)"
    and R: "R \<subseteq> set bs" and fw: "gc_compute_forwarding jit_pinned (set_marks R h) = (pins, f)"
  defines "F \<equiv> gc_forward pins f (set_marks R h)"
  obtains new where "placed h R bs pins new" "\<And>b. b \<in> R \<Longrightarrow> F (of_nat b) = of_nat (new b)"
proof -
  let ?h = "set_marks R h" and ?L = "layout pins CL_ALIGN (marked_blocks (arena (set_marks R h)) bs)"
  let ?new = "\<lambda>b. unat (F (of_nat b))"
  have W: "heap_walk ?h bs" "CL_ALIGN dvd bump ?h" using walk al by (simp_all add: marks_walk)
  have c: "chain (arena ?h) CL_ALIGN bs (bump h)" using W(1) by (simp add: heap_walk_def)
  have M: "CL_HDR_MARKED (arena ?h b) \<longleftrightarrow> b \<in> R" if "b \<in> set bs" for b using marks_marked un that by blast
  have pins: "pins = sort jit_pinned" using fw by (auto simp: gc_compute_forwarding_def Let_def split: prod.splits)
  have L: "(b, arena ?h b, ?new b) \<in> set ?L \<and> ?new b \<le> b \<and> ?new b + hsize (arena ?h b) \<le> bump h \<and> F (of_nat b) = of_nat (?new b)" if "b \<in> R" for b
  proof -
    have b: "b \<in> set bs" "CL_HDR_MARKED (arena ?h b)" using that R M by auto
    obtain n where n: "(b, arena ?h b, n) \<in> set ?L" "n \<le> b" "n < 2 ^ 32"
      "\<forall>d. 8 dvd d \<and> d < hsize (arena ?h b) \<longrightarrow> F (of_nat (b + d)) = of_nat (n + d)"
      unfolding F_def by (rule forward_layout [OF W fw b])
    have "8 \<le> hsize (arena ?h b)" using chain_ge [OF c b(1)] by simp
    then have e: "F (of_nat b) = of_nat n" using n(4) [rule_format, of 0] by simp
    then have "?new b = n" using n(3) by (simp add: unat_of_nat)
    then show ?thesis using n e layout_down [OF c order_refl n(1)] by simp
  qed
  have "distinct bs" using chain_sorted [OF c] by simp
  then have dist: "distinct (map fst (marked_blocks (arena ?h) bs))" by (simp add: filter_map comp_def)
  have im: "(\<lambda>(b, w, n). n) ` set ?L = ?new ` R"
  proof (intro equalityI subsetI)
    fix n assume "n \<in> (\<lambda>(b, w, n). n) ` set ?L"
    then obtain b w where b: "(b, w, n) \<in> set ?L" by auto
    then have "b \<in> R" using layout_spec(1) [OF b] M by auto
    then show "n \<in> ?new ` R" using layout_functional [OF dist b, of "arena ?h b" "?new b"] L by blast
  qed (use L in force)
  have "addressable h (?new b)" if "b \<in> R" for b
  proof -
    have srt: "sorted pins" using pins by simp
    have "?new b \<in> (\<lambda>(b, w, n). n) ` set ?L" using im that by blast
    also have "\<dots> \<subseteq> set (map seg_off (map piece_seg (slide_spec pins CL_ALIGN (marked_blocks (arena ?h) bs))))"
      using gc_slide_heap(4) [OF W srt] by blast
    finally have "CL_ALIGN dvd ?new b" using gc_slide_heap(1) [OF W srt] unfolding heap_ok_def heap_walk_def by blast
    moreover have "8 \<le> ?new b" using layout_down [OF c order_refl] L [OF that] by (auto simp: CL_ALIGN_def)
    moreover have "8 \<le> hsize (arena ?h b)" using chain_ge [OF c] R that by blast
    ultimately show ?thesis using L [OF that] walk by (auto simp: addressable_def heap_walk_def CL_ALIGN_def GC_HDR_PAGE_def)
  qed
  moreover have "inj_on ?new R"
  proof (rule inj_onI)
    fix b d assume b: "b \<in> R" "d \<in> R" and e: "?new b = ?new d"
    have "(b, arena ?h b, ?new b) \<in> set ?L" "(d, arena ?h d, ?new b) \<in> set ?L" using L [OF b(1)] L [OF b(2)] unfolding e by blast+
    then show "b = d" by (rule layout_inj [OF c order_refl])
  qed
  moreover have "?new b = b" if "b \<in> R" "b \<in> set pins" for b using layout_spec(2) L that by blast
  moreover have "b \<in> R \<Longrightarrow> (b, arena ?h b, ?new b) \<in> set ?L" "b \<in> R \<Longrightarrow> ?new b \<le> b" "b \<in> R \<Longrightarrow> F (of_nat b) = of_nat (?new b)" for b using L by blast+
  ultimately have "placed h R bs pins ?new" unfolding placed_def using im by blast
  then show thesis by (rule that) (use L in blast)
qed

lemma forward_renames:
  assumes "heap_walk h bs" "proper h R v" "\<And>b. b \<in> R \<Longrightarrow> gc_forward pins f (set_marks R h) (of_nat b) = of_nat (new b)"
  shows "gc_forward pins f (set_marks R h) v = rename_ref h new v"
proof (cases "is_ref h v")
  case True
  then show ?thesis using assms(2) assms(3) [of "unat v"] by (simp add: proper_def rename_ref_def)
next
  case False
  then have "\<not> is_ref (set_marks R h) v" by (simp add: is_ref_def)
  then show ?thesis using forward_other [of v "set_marks R h" pins f] assms(1,2) False by (simp add: proper_def rename_ref_def heap_walk_def)
qed

lemma rename_special:
  assumes "proper h R v" "\<And>b. b \<in> R \<Longrightarrow> addressable h (new b)"
  shows "(rename_ref h new v = CL_NIL \<longleftrightarrow> v = CL_NIL) \<and> (rename_ref h new v = CL_UNBOUND \<longleftrightarrow> v = CL_UNBOUND)"
  using assms addressable_ref(3,4) [of h "new (unat v)"] addressable_ref(1) [of h "unat v"]
  by (auto simp: proper_def rename_ref_def is_ref_def CL_UNBOUND_def CL_TAG_MASK_LO2_def)

text \<open>One object, after the update and the slide.\<close>

lemma moved_object:
  assumes ok: "obj_ok rd" and hd: "rd' 0 = rd 0"
    and body: "\<And>d. 0 < d \<Longrightarrow> d < hsize (rd 0) \<Longrightarrow> rd' d = (if Field d \<in> set (obj_slots rd) then F (rd d) else rd d)"
    and F: "\<And>d. Field d \<in> set (obj_slots rd) \<Longrightarrow> (F (rd d) = CL_NIL \<longleftrightarrow> rd d = CL_NIL) \<and> (F (rd d) = CL_UNBOUND \<longleftrightarrow> rd d = CL_UNBOUND)"
  shows "obj_slots rd' = obj_slots rd" "\<And>d. d < hsize (rd 0) \<Longrightarrow> Field d \<notin> set (obj_slots rd) \<Longrightarrow> rd' d = rd d"
    "\<And>d. Field d \<in> set (obj_slots rd) \<Longrightarrow> rd' d = F (rd d)"
proof -
  show "obj_slots rd' = obj_slots rd" by (rule slots_forward [OF hd ok body F])
  show "rd' d = rd d" if "d < hsize (rd 0)" "Field d \<notin> set (obj_slots rd)" for d using body [of d] that hd by (cases "d = 0") auto
  show "rd' d = F (rd d)" if "Field d \<in> set (obj_slots rd)" for d
  proof -
    have "0 < d \<and> d + 4 \<le> hsize (rd 0)" using ok that unfolding obj_ok_def by blast
    then show ?thesis using body [of d] that by simp
  qed
qed

lemma compact_move:
  assumes walk: "heap_walk h bs" and al: "CL_ALIGN dvd bump h" and un: "\<forall>b\<in>set bs. \<not> CL_HDR_MARKED (arena h b)"
    and R: "R \<subseteq> set bs" and ok: "\<forall>b\<in>R. obj_ok (words_of (arena h) b)" and own: "distinct (outers_of h R bs)"
    and slots: "\<And>b s. b \<in> R \<Longrightarrow> s \<in> set (obj_slots (words_of (arena h) b)) \<Longrightarrow> proper h R (slot_value ext (arena h) b s)"
    and pl: "placed h R bs pins new" and F: "\<And>b. b \<in> R \<Longrightarrow> gc_forward pins f (set_marks R h) (of_nat b) = of_nat (new b)" and pins: "sorted pins"
    and u: "gc_update_all_references pins f (set_marks R h, ext) = (h2, ext2)"
  shows "moved_graph ext h ext2 (gc_slide pins h2) new R"
    "\<exists>cs fs. heap_ok (gc_slide pins h2) cs fs \<and> index_ok (gc_slide pins h2) cs \<and> set cs - set fs = new ` R" "arena_size (gc_slide pins h2) = arena_size h"
proof -
  let ?h = "set_marks R h" and ?k = "gc_slide pins h2"
  let ?L = "layout pins CL_ALIGN (marked_blocks (arena (set_marks R h)) bs)"
  have W: "heap_walk ?h bs" "CL_ALIGN dvd bump ?h" using walk al by (simp_all add: marks_walk)
  have M: "CL_HDR_MARKED (arena ?h b) \<longleftrightarrow> b \<in> R" if "b \<in> set bs" for b using marks_marked un that by blast
  note U = update_references [OF W(1) marks_live [OF walk R un ok own] u]
  have same: "marked_blocks (arena h2) bs = marked_blocks (arena ?h) bs" using U(4) by (auto intro!: filter_cong map_cong)
  have al2: "CL_ALIGN dvd bump h2" using W(2) U(3) by simp
  note S = gc_slide_heap [OF U(1) al2 pins, unfolded same]
  show "arena_size ?k = arena_size h" using U(2) by (simp add: slide_size)
  let ?ss = "map piece_seg (slide_spec pins CL_ALIGN (marked_blocks (arena ?h) bs))"
  have "set (map seg_off ?ss) - set (rev (frees ?ss)) = new ` R" unfolding set_rev S(4) using pl unfolding placed_def by (rule conjunct1 [OF conjunct2])
  then show "\<exists>cs fs. heap_ok ?k cs fs \<and> index_ok ?k cs \<and> set cs - set fs = new ` R" using S(1,2) by blast
  have obj: "arena ?k (new b) = arena h b \<and> obj_slots (words_of (arena ?k) (new b)) = obj_slots (words_of (arena h) b)
     \<and> (\<forall>d. d < hsize (arena h b) \<and> Field d \<notin> set (obj_slots (words_of (arena h) b)) \<longrightarrow> arena ?k (new b + d) = arena h (b + d))
     \<and> (\<forall>s\<in>set (obj_slots (words_of (arena h) b)). slot_value ext2 (arena ?k) (new b) s = rename_ref h new (slot_value ext (arena h) b s))"
    if b: "b \<in> R" for b
  proof -
    let ?rd = "words_of (arena h) b" and ?rd' = "words_of (arena ?k) (new b)"
    have bs: "b \<in> set bs" "CL_HDR_MARKED (arena ?h b)" "obj_ok ?rd" using b R M ok by auto
    have "(b, arena ?h b, new b) \<in> set ?L" using pl b by (simp add: placed_def)
    from bspec [OF S(5) this] have k: "arena ?k (new b) = CL_HDR_CLR_MARK (arena h2 b)"
      "\<And>d. 0 < d \<Longrightarrow> d < hsize (arena h2 b) \<Longrightarrow> arena ?k (new b + d) = arena h2 (b + d)" by auto
    have ms: "obj_slots (words_of (arena ?h) b) = obj_slots ?rd" by (rule marks_slots(1) [OF walk R bs(1,3)])
    have hs: "hsize (arena ?h b) = hsize (arena h b)" by (rule marks_word(3))
    have hd: "?rd' 0 = ?rd 0" using k(1) U(4) [OF bs(1)] clear_set_mark un b bs(1) by (simp add: set_marks_def)
    have body: "?rd' d = (if Field d \<in> set (obj_slots ?rd) then rename_ref h new (?rd d) else ?rd d)" if d0: "0 < d" "d < hsize (?rd 0)" for d
    proof -
      have d: "0 < d" "d < hsize (arena h b)" using d0 by simp_all
      have "arena ?k (new b + d) = arena h2 (b + d)" using k(2) [OF d(1)] d(2) U(4) [OF bs(1)] hs by simp
      also have "\<dots> = (if Field d \<in> set (obj_slots ?rd) then gc_forward pins f ?h (?rd d) else ?rd d)"
        using U(5) [OF bs(1,2), of d] d marks_body [OF walk R bs(1) d] unfolding ms hs by simp
      finally show ?thesis using forward_renames [OF walk slots [OF b, of "Field d"] F] by simp
    qed
    have sp: "(rename_ref h new (?rd d) = CL_NIL \<longleftrightarrow> ?rd d = CL_NIL) \<and> (rename_ref h new (?rd d) = CL_UNBOUND \<longleftrightarrow> ?rd d = CL_UNBOUND)"
      if "Field d \<in> set (obj_slots ?rd)" for d
      using rename_special [of h R "?rd d" new] slots [OF b that] pl by (simp add: placed_def)
    note O = moved_object [of ?rd ?rd' "rename_ref h new", OF bs(3) hd body sp]
    have "slot_value ext2 (arena ?k) (new b) s = rename_ref h new (slot_value ext (arena h) b s)" if s: "s \<in> set (obj_slots ?rd)" for s
    proof (cases s)
      case (Field d)
      then show ?thesis using O(3) s by simp
    next
      case (Outer p)
      then have "ext2 p = gc_forward pins f ?h (ext p)" using U(6) [OF bs(1,2), of p] s ms by simp
      then show ?thesis using forward_renames [OF walk slots [OF b s] F] Outer by simp
    qed
    then show ?thesis using O(1,2) hd by simp
  qed
  show "moved_graph ext h ext2 ?k new R" using obj pl by (simp add: moved_graph_def placed_def)
qed

end
