(* ===== verification/Trace_Laws.thy ===== *)
theory Trace_Laws
  imports Trace_Mark
begin

text \<open>
  Properties of marking and of a collection that sweeps.
\<close>

lemma collection_keeps:
  fixes got
  assumes "traceable ext (mheap k) (set roots \<union> set cands) bs" "gc_mark_stack k = []"
  defines "h' \<equiv> mheap (cl_gc_stopped ext got roots cands k)"
  shows "\<exists>cs fs. heap_ok h' cs fs \<and> index_ok h' cs \<and> set cs - set fs = {b. reachable ext (mheap k) (set roots \<union> set cands) b}
    \<and> (\<forall>b. reachable ext (mheap k) (set roots \<union> set cands) b \<longrightarrow> (\<forall>d < hsize (arena (mheap k) b). arena h' (b + d) = arena (mheap k) (b + d)))"
proof -
  let ?h = "mheap k" and ?R = "{b. reachable ext (mheap k) (set roots \<union> set cands) b}"
  have W: "heap_walk ?h bs" "?R \<subseteq> set bs" "\<forall>b\<in>set bs. \<not> CL_HDR_MARKED (arena ?h b)" using assms(1) by (auto simp: traceable_def)
  have h': "h' = gc_sweep (set_marks ?R ?h)" using gc_mark_reachable(1) [OF assms(1,2)] by (simp add: h'_def cl_gc_stopped_def Let_def)
  have "heap_walk (set_marks ?R ?h) bs" using W(1) by (simp only: marks_walk)
  note S = gc_sweep_heap [OF this]
  have R: "{b \<in> set bs. CL_HDR_MARKED (arena (set_marks ?R ?h) b)} = ?R" using W(2,3) marks_marked [of ?h _ ?R] by blast
  have keep: "arena h' (b + d) = arena ?h (b + d)" if "b \<in> ?R" "d < hsize (arena ?h b)" for b d
  proof -
    have b: "b \<in> set bs" "CL_HDR_MARKED (arena (set_marks ?R ?h) b)" using that(1) R by blast+
    have e: "arena h' b = CL_HDR_CLR_MARK (arena (set_marks ?R ?h) b)" "\<forall>x. b < x \<and> x < b + hsize (arena ?h b) \<longrightarrow> arena h' x = arena (set_marks ?R ?h) x"
      using S(5) b by (simp_all add: h' marks_word)
    show ?thesis
    proof (cases "d = 0")
      case True
      have "arena (set_marks ?R ?h) b = CL_HDR_SET_MARK (arena ?h b)" using that(1) by (simp add: set_marks_def)
      then show ?thesis using e(1) True clear_set_mark W(3) b(1) by simp
    next
      case False
      then show ?thesis using e(2) that(2) marks_body [OF W(1,2) b(1), of d] by simp
    qed
  qed
  let ?ss = "sweep_spec (blocks (arena (set_marks ?R ?h)) bs)"
  have "set (map seg_off ?ss) - set (rev (frees ?ss)) = ?R" using S(4) R by simp
  then show ?thesis using S(1,2) keep unfolding h' by blast
qed

section \<open>Properties\<close>

text \<open>
  C2: the trace ends, whatever the capacity of the mark stack and however often it cannot grow, and
  then exactly the objects reachable from the roots and the candidates are marked; nothing
  else in the heap has changed.
\<close>

theorem mark_exact:
  assumes "traceable ext (mheap k) (set roots \<union> set cands) bs" "gc_mark_stack k = []"
  shows "mheap (gc_mark ext got roots cands k) = set_marks {b. reachable ext (mheap k) (set roots \<union> set cands) b} (mheap k)
    \<and> gc_mark_stack (gc_mark ext got roots cands k) = [] \<and> \<not> gc_mark_overflow (gc_mark ext got roots cands k)"
  using gc_mark_reachable [OF assms] by simp

text \<open>
  C3: a collection keeps every word of every reachable object, frees every other block, and leaves
  a well-formed heap.
\<close>

theorem collection_exact:
  fixes got
  assumes "traceable ext (mheap k) (set roots \<union> set cands) bs" "gc_mark_stack k = []"
  defines "h' \<equiv> mheap (cl_gc_stopped ext got roots cands k)"
  shows "\<exists>cs fs. heap_ok h' cs fs \<and> index_ok h' cs \<and> set cs - set fs = {b. reachable ext (mheap k) (set roots \<union> set cands) b}
    \<and> (\<forall>b. reachable ext (mheap k) (set roots \<union> set cands) b \<longrightarrow> (\<forall>d < hsize (arena (mheap k) b). arena h' (b + d) = arena (mheap k) (b + d)))"
  unfolding h'_def by (rule collection_keeps [OF assms(1,2)])

definition linked_heap :: cl_heap where
  "linked_heap = (cl_mem_init (\<lambda>_. 0) 64 False True) \<lparr> arena := (\<lambda>_. 0)(8 := 16, 12 := 40, 24 := 16, 40 := 16, 44 := 3), bump := 56 \<rparr>"

definition linked_state :: mark_state where
  "linked_state = \<lparr> mheap = linked_heap, gc_mark_stack = [], gc_mark_stack_cap = 0, gc_mark_overflow = False, gc_mark_grow_failed = False,
     gc_mark_stack_grows = 0, gc_mark_rescan_passes = 0 \<rparr>"

lemma linked_fields:
  "arena linked_heap = (\<lambda>_. 0)(8 := 16, 12 := 40, 24 := 16, 40 := 16, 44 := 3)" "bump linked_heap = 56" "arena_size linked_heap = 64"
  by (simp_all add: linked_heap_def cl_mem_init_def gc_hdr_index_init_def gc_hdr_index_release_def gc_hdr_bump_reset_def Let_def)

lemma linked_words: "hsize 16 = 16" "\<not> CL_HDR_MARKED 16" "CL_HDR_TYPE 16 = 0"
  by (simp add: hsize_mod) (simp_all add: CL_HDR_MARKED_def CL_HDR_MARK_BIT_def CL_HDR_TYPE_def)

lemma linked_slots: "obj_slots (words_of (arena linked_heap) 8) = [Field 4, Field 8]" "obj_slots (words_of (arena linked_heap) 40) = [Field 4, Field 8]"
  by (simp_all add: obj_slots_def linked_fields linked_words type_tags)

lemma linked_refs: "refs ext linked_heap 8 = {40}" "refs ext linked_heap 40 = {}"
proof -
  have r: "refs ext h b = set (map unat (filter (is_ref h) (map (slot_value ext (arena h) b) (obj_slots (words_of (arena h) b)))))" for h b by (auto simp: refs_def)
  show "refs ext linked_heap 8 = {40}" "refs ext linked_heap 40 = {}"
    unfolding r linked_slots by (simp_all add: is_ref_def linked_fields CL_TAG_MASK_LO2_def CL_NIL_def)
qed

lemma linked_reachable: "reachable ext linked_heap {8} b \<longleftrightarrow> b \<in> {8, 40}"
proof
  show "b \<in> {8, 40}" if "reachable ext linked_heap {8} b" using that by induction (auto simp: linked_refs)
  have 8: "reachable ext linked_heap {8} 8"
    using reachable.root [of 8 "{8}" linked_heap ext] by (simp add: is_ref_def linked_fields CL_TAG_MASK_LO2_def CL_NIL_def)
  then have "reachable ext linked_heap {8} 40" by (rule reachable.field) (simp add: linked_refs)
  then show "reachable ext linked_heap {8} b" if "b \<in> {8, 40}" using 8 that by auto
qed

lemma linked_set: "{b. reachable ext linked_heap {8} b} = {8, 40}"
  using linked_reachable by blast

lemma linked_ok: "obj_ok (words_of (arena linked_heap) 8)" "obj_ok (words_of (arena linked_heap) 40)"
  unfolding obj_ok_def linked_slots by (auto simp: linked_fields linked_words fixed_part_def type_tags)

lemma linked_traceable: "traceable ext (mheap linked_state) (set [8] \<union> set []) [8, 24, 40]"
proof -
  have "heap_walk linked_heap [8, 24, 40]" by (simp add: heap_walk_def linked_fields linked_words CL_ALIGN_def GC_HDR_PAGE_def)
  moreover have "\<forall>b\<in>set [8, 24, 40]. \<not> CL_HDR_MARKED (arena linked_heap b)" by (simp add: linked_fields linked_words)
  ultimately show ?thesis using linked_ok by (auto simp: traceable_def linked_state_def linked_reachable)
qed

theorem mark_exact_witness:
  "mheap (gc_mark (\<lambda>_. 0) (\<lambda>_. False) [8] [] linked_state) = set_marks {8, 40} linked_heap"
  using mark_exact [OF linked_traceable, of "\<lambda>_. 0" "\<lambda>_. False"] by (simp add: linked_state_def linked_set)

theorem collection_exact_witness:
  "\<exists>cs fs. heap_ok (mheap (cl_gc_stopped (\<lambda>_. 0) (\<lambda>_. False) [8] [] linked_state)) cs fs \<and> set cs - set fs = {8, 40}"
  using collection_exact [OF linked_traceable, of "\<lambda>_. 0" "\<lambda>_. False"] by (fastforce simp: linked_state_def linked_set)

end
