(* ===== verification/Update_Laws.thy ===== *)
theory Update_Laws
  imports Update_Move Trace_Laws
begin

unbundle bit_operations_syntax

text \<open>
  Compaction as a whole, and its properties.
\<close>

abbreviation all_slots :: "root_slots \<Rightarrow> nat list" where
  "all_slots rs \<equiv> thread_slots rs @ registered_slots rs @ shared_slots rs"

text \<open>
  A heap that can be compacted: it can be traced, its front is aligned, the words in slots and
  roots are well tagged, and no array outside the arena belongs to two reachable objects.
\<close>

definition compactable :: "(u64 \<Rightarrow> u32) \<Rightarrow> cl_heap \<Rightarrow> u32 set \<Rightarrow> nat list \<Rightarrow> bool" where
  "compactable ext h V bs \<longleftrightarrow> traceable ext h V bs \<and> CL_ALIGN dvd bump h \<and> (\<forall>v\<in>V. tagged v)
     \<and> distinct (outers_of h {b. reachable ext h V b} bs)
     \<and> (\<forall>b. reachable ext h V b \<longrightarrow> (\<forall>s\<in>set (obj_slots (words_of (arena h) b)). tagged (slot_value ext (arena h) b s)))"

text \<open>What a compaction keeps: \<open>new\<close> names the new places.\<close>

definition compacted :: "(u64 \<Rightarrow> u32) \<Rightarrow> cl_heap \<Rightarrow> (nat \<Rightarrow> u32) \<Rightarrow> (u64 \<Rightarrow> u32) \<Rightarrow> cl_heap \<Rightarrow> (nat \<Rightarrow> u32) \<Rightarrow> nat set \<Rightarrow> u32 set \<Rightarrow> (nat \<Rightarrow> nat) \<Rightarrow> bool" where
  "compacted ext h m ext' h' m' slots cands new \<longleftrightarrow>
     (let R = {b. reachable ext h (m ` slots \<union> cands) b} in
      moved_graph ext h ext' h' new R
      \<and> (\<forall>a. m' a = (if a \<in> slots then rename_ref h new (m a) else m a)) \<and> (\<forall>v\<in>cands. rename_ref h new v = v)
      \<and> {b. reachable ext' h' (m' ` slots \<union> cands) b} = new ` R
      \<and> (\<exists>cs fs. heap_ok h' cs fs \<and> index_ok h' cs \<and> set cs - set fs = new ` R))"

lemma compact_graph:
  fixes got
  assumes c: "compactable ext (mheap k) (m ` set (all_slots rs) \<union> set cands) bs" and st: "gc_mark_stack k = []"
    and d: "distinct (thread_slots rs @ shared_slots rs)" "root_buf \<or> distinct (registered_slots rs)"
    and pinned: "\<forall>v\<in>set cands. is_ref (mheap k) v \<longrightarrow> unat v \<in> set jit_pinned"
    and run: "cl_gc_compact got False True root_buf rs cands jit_pinned (k, ext, m) = (k', ext', m')"
  shows "\<exists>new. compacted ext (mheap k) m ext' (mheap k') m' (set (all_slots rs)) (set cands) new
    \<and> (\<forall>b. reachable ext (mheap k) (m ` set (all_slots rs) \<union> set cands) b \<longrightarrow> new b \<le> b \<and> (b \<in> set jit_pinned \<longrightarrow> new b = b))"
proof -
  let ?h = "mheap k" and ?A = "set (all_slots rs)"
  let ?V = "m ` ?A \<union> set cands"
  let ?R = "{b. reachable ext ?h ?V b}"
  have V: "set (map m (all_slots rs)) \<union> set cands = ?V" by (simp only: set_map)
  have t: "traceable ext ?h ?V bs" and al: "CL_ALIGN dvd bump ?h" and own: "distinct (outers_of ?h ?R bs)" using c by (simp_all add: compactable_def)
  have W: "heap_walk ?h bs" "\<forall>b\<in>set bs. \<not> CL_HDR_MARKED (arena ?h b)" "?R \<subseteq> set bs" "\<forall>b\<in>?R. obj_ok (words_of (arena ?h) b)" using t by (auto simp: traceable_def)
  have marked: "mheap (gc_mark ext got (map m (all_slots rs)) cands k) = set_marks ?R ?h"
    using gc_mark_reachable(1) [of ext k "map m (all_slots rs)" cands bs got] t st unfolding V by blast
  obtain pins f where fw: "gc_compute_forwarding jit_pinned (set_marks ?R ?h) = (pins, f)" by fastforce
  let ?F = "gc_forward pins f (set_marks ?R ?h)"
  obtain h2 ext2 where u: "gc_update_all_references pins f (set_marks ?R ?h, ext) = (h2, ext2)" by fastforce
  have res: "mheap k' = gc_slide pins h2" "ext' = ext2" "m' = gc_update_all_roots root_buf ?F (thread_slots rs) (shared_slots rs) (registered_slots rs) m"
    using run unfolding cl_gc_compact_def Let_def prod.case marked fw u not_True_eq_False simp_thms if_False by auto
  have pins: "pins = sort jit_pinned" using fw by (auto simp: gc_compute_forwarding_def Let_def split: prod.splits)
  obtain new where N: "placed ?h ?R bs pins new" "\<And>b. b \<in> ?R \<Longrightarrow> ?F (of_nat b) = of_nat (new b)"
    by (rule compact_places [OF W(1) al W(2,3) fw]) (rule that)
  have root: "proper ?h ?R v" if "v \<in> ?V" for v using c that reachable.root [OF that] by (auto simp: proper_def compactable_def)
  have slot: "proper ?h ?R (slot_value ext (arena ?h) b s)" if "b \<in> ?R" "s \<in> set (obj_slots (words_of (arena ?h) b))" for b s
    using c that reachable.field [of ext ?h ?V b "unat (slot_value ext (arena ?h) b s)"] by (auto simp: proper_def compactable_def refs_def)
  have srt: "sorted pins" by (simp add: pins)
  note C = compact_move [OF W(1) al W(2-4) own slot N srt u, folded res]
  have new: "addressable ?h (new b)" "new b \<le> b \<and> (b \<in> set jit_pinned \<longrightarrow> new b = b)" if "b \<in> ?R" for b using N(1) that pins by (auto simp: placed_def)
  have m': "m' a = (if a \<in> ?A then rename_ref ?h new (m a) else m a)" for a
    using forward_renames [OF W(1) root N(2)] unfolding res(3) roots_once [OF d] by auto
  have cands: "rename_ref ?h new v = v" if "v \<in> set cands" for v
    using pinned that new(2) [of "unat v"] root [of v] by (auto simp: rename_ref_def proper_def)
  have "m' ` ?A \<union> set cands = rename_ref ?h new ` ?V" using m' cands by (auto simp: image_Un image_image intro!: image_eqI)
  then have "{b. reachable ext' (mheap k') (m' ` ?A \<union> set cands) b} = new ` ?R" using moved_reachable [OF C(1) refl C(3) new(1)] by simp
  then have "compacted ext ?h m ext' (mheap k') m' ?A (set cands) new" using C(1,2) m' cands unfolding compacted_def Let_def by blast
  then show ?thesis using new(2) by blast
qed

section \<open>Properties\<close>

text \<open>
  C1: compaction keeps the object graph.  Each reachable object is found at one new place, not above
  its old one and at the old one when it is pinned, with its header, its fields that hold no reference
  and the same list of slots; each slot, in the arena, outside it or among the roots, holds the
  word it held before with the reference renamed; what is reachable afterwards is exactly the
  moved objects, and the heap is well formed with no other allocated block.
\<close>

theorem compaction_preserves_graph:
  fixes got
  assumes "compactable ext (mheap k) (m ` set (all_slots rs) \<union> set cands) bs" "gc_mark_stack k = []"
    and "distinct (thread_slots rs @ shared_slots rs)" "root_buf \<or> distinct (registered_slots rs)"
    and "\<forall>v\<in>set cands. is_ref (mheap k) v \<longrightarrow> unat v \<in> set jit_pinned"
  shows "case cl_gc_compact got False True root_buf rs cands jit_pinned (k, ext, m) of (k', ext', m') \<Rightarrow>
    \<exists>new. compacted ext (mheap k) m ext' (mheap k') m' (set (all_slots rs)) (set cands) new
      \<and> (\<forall>b. reachable ext (mheap k) (m ` set (all_slots rs) \<union> set cands) b \<longrightarrow> new b \<le> b \<and> (b \<in> set jit_pinned \<longrightarrow> new b = b))"
  using compact_graph [OF assms] by (auto split: prod.split)

text \<open>
  C40: when the set of pinned objects is incomplete or there is no memory for the tables, nothing moves:
  no root slot and no array outside changes, every word of a reachable object stays, and
  the rest is freed.
\<close>

theorem fallback_moves_nothing:
  fixes got
  assumes "traceable ext (mheap k) (m ` set (all_slots rs) \<union> set cands) bs" "gc_mark_stack k = []" "pin_oom \<or> \<not> fwd_ok"
  shows "case cl_gc_compact got pin_oom fwd_ok root_buf rs cands jit_pinned (k, ext, m) of (k', ext', m') \<Rightarrow>
    ext' = ext \<and> m' = m \<and> (\<exists>cs fs. heap_ok (mheap k') cs fs \<and> index_ok (mheap k') cs
      \<and> set cs - set fs = {b. reachable ext (mheap k) (m ` set (all_slots rs) \<union> set cands) b}
      \<and> (\<forall>b. reachable ext (mheap k) (m ` set (all_slots rs) \<union> set cands) b \<longrightarrow>
            (\<forall>d < hsize (arena (mheap k) b). arena (mheap k') (b + d) = arena (mheap k) (b + d))))"
proof -
  let ?V = "m ` set (all_slots rs) \<union> set cands"
  have V: "set (map m (all_slots rs)) \<union> set cands = ?V" by (simp only: set_map)
  have e: "cl_gc_compact got pin_oom fwd_ok root_buf rs cands jit_pinned (k, ext, m) = (cl_gc_stopped ext got (map m (all_slots rs)) cands k, ext, m)"
    using assms(3) unfolding cl_gc_compact_def cl_gc_stopped_def gcb_compact_fallback_def Let_def by simp
  show ?thesis unfolding e prod.case using collection_keeps [of ext k "map m (all_slots rs)" cands bs got, unfolded V, OF assms(1,2)] by blast
qed

text \<open>
  The update of roots forwards every root slot exactly once, though registered slots may repeat and
  may name slots that the walks over threads and shared tables visit too; without memory to
  sort them, this holds when no registered slot repeats.
\<close>

theorem roots_forwarded_once:
  assumes "distinct (threads @ shared)" "root_buf \<or> distinct registered"
  shows "gc_update_all_roots root_buf fwd threads shared registered m =
    (\<lambda>a. if a \<in> set threads \<union> set shared \<union> set registered then fwd (m a) else m a)"
  by (rule roots_once [OF assms])

lemma linked_compactable: "compactable (\<lambda>_. 0) (mheap linked_state) ((\<lambda>_. 8) ` set (all_slots \<lparr> thread_slots = [0], shared_slots = [1], registered_slots = [1, 1] \<rparr>) \<union> set []) [8, 24, 40]"
proof -
  have t: "traceable (\<lambda>_. 0) linked_heap {8} [8, 24, 40]" using linked_traceable [of "\<lambda>_. 0"] by (simp add: linked_state_def)
  have o: "outers_of linked_heap {8, 40} [8, 24, 40] = []" by (simp add: outers_of_def outer_slots_def linked_slots)
  have g: "tagged 8" "tagged 40" "tagged 0" "tagged 3" by (simp_all add: tagged_def CL_TAG_MASK_LO2_def)
  have sl: "\<forall>s\<in>set (obj_slots (words_of (arena linked_heap) b)). tagged (slot_value (\<lambda>_. 0) (arena linked_heap) b s)" if "b = 8 \<or> b = 40" for b
    using that g by (elim disjE) (simp only: linked_slots, simp add: linked_fields)+
  have "CL_ALIGN dvd bump linked_heap" by (simp add: linked_fields CL_ALIGN_def)
  then have "compactable (\<lambda>_. 0) linked_heap {8} [8, 24, 40]"
    unfolding compactable_def linked_set linked_reachable using t o g sl by simp
  then show ?thesis by (simp add: linked_state_def)
qed

theorem compaction_preserves_graph_witness:
  "case cl_gc_compact (\<lambda>_. False) False True True \<lparr> thread_slots = [0], shared_slots = [1], registered_slots = [1, 1] \<rparr> [] [] (linked_state, \<lambda>_. 0, \<lambda>_. 8) of (k', ext', m') \<Rightarrow>
    \<exists>new. compacted (\<lambda>_. 0) linked_heap (\<lambda>_. 8) ext' (mheap k') m' {0, 1} {} new \<and> new 8 \<le> 8"
proof -
  let ?rs = "\<lparr> thread_slots = [0], shared_slots = [1], registered_slots = [1, 1] \<rparr>"
  obtain k' ext' m' where run: "cl_gc_compact (\<lambda>_. False) False True True ?rs [] [] (linked_state, \<lambda>_. 0, \<lambda>_. 8) = (k', ext', m')"
    by (metis surj_pair)
  have s: "gc_mark_stack linked_state = []" "distinct (thread_slots ?rs @ shared_slots ?rs)" "True \<or> distinct (registered_slots ?rs)"
    "\<forall>v\<in>set []. is_ref (mheap linked_state) v \<longrightarrow> unat v \<in> set []" by (simp_all add: linked_state_def)
  have V: "(\<lambda>_. 8 :: u32) ` set (all_slots ?rs) \<union> set [] = {8}" "set (all_slots ?rs) = {0, 1}" "(\<lambda>_. 8 :: u32) ` {0, 1 :: nat} \<union> set [] = {8}" by auto
  have hs: "mheap linked_state = linked_heap" by (simp add: linked_state_def)
  note G = compaction_preserves_graph [OF linked_compactable s, of "\<lambda>_. False", unfolded run prod.case V hs]
  then obtain new where N: "compacted (\<lambda>_. 0) linked_heap (\<lambda>_. 8) ext' (mheap k') m' {0, 1} (set []) new"
    "\<forall>b. reachable (\<lambda>_. 0) linked_heap {8} b \<longrightarrow> new b \<le> b \<and> (b \<in> set [] \<longrightarrow> new b = b)" by blast
  then have "new 8 \<le> 8" using linked_reachable [of "\<lambda>_. 0" 8] by blast
  then show ?thesis using N(1) unfolding run prod.case by auto
qed

theorem fallback_moves_nothing_witness:
  "case cl_gc_compact (\<lambda>_. False) True True True \<lparr> thread_slots = [0], shared_slots = [], registered_slots = [] \<rparr> [] [] (linked_state, \<lambda>_. 0, \<lambda>_. 8) of (k', ext', m') \<Rightarrow>
    m' = (\<lambda>_. 8) \<and> arena (mheap k') 44 = 3"
proof -
  have t: "traceable (\<lambda>_. 0) (mheap linked_state) ((\<lambda>_. 8) ` set (all_slots \<lparr> thread_slots = [0], shared_slots = [], registered_slots = [] \<rparr>) \<union> set []) [8, 24, 40]"
    using linked_traceable [of "\<lambda>_. 0"] by simp
  have s: "gc_mark_stack linked_state = []" by (simp add: linked_state_def)
  have 40: "reachable (\<lambda>_. 0) linked_heap {8} 40" "hsize (arena linked_heap 40) = 16" "arena linked_heap (40 + 4) = 3"
    by (simp_all add: linked_reachable linked_fields linked_words)
  obtain k' ext' m' where run: "cl_gc_compact (\<lambda>_. False) True True True \<lparr> thread_slots = [0], shared_slots = [], registered_slots = [] \<rparr> [] [] (linked_state, \<lambda>_. 0, \<lambda>_. 8) = (k', ext', m')"
    by (metis surj_pair)
  have V: "(\<lambda>_. 8 :: u32) ` set (all_slots \<lparr> thread_slots = [0], shared_slots = [], registered_slots = [] \<rparr>) \<union> set [] = {8}" by simp
  have hs: "mheap linked_state = linked_heap" by (simp add: linked_state_def)
  note F = fallback_moves_nothing [OF t s disjI1 [OF TrueI], of "\<lambda>_. False" True True "[]", unfolded V hs run prod.case]
  have keep: "\<forall>d < hsize (arena linked_heap 40). arena (mheap k') (40 + d) = arena linked_heap (40 + d)" using F 40(1) by (elim conjE exE) blast
  have "arena (mheap k') (40 + 4) = arena linked_heap (40 + 4)" using keep [rule_format, of 4] 40(2) by simp
  then show ?thesis using F 40(3) unfolding run prod.case by simp
qed

end
