(* ===== verification/Keys.thy ===== *)
theory Keys
  imports Ratio_Arith
begin

unbundle bit_operations_syntax

text \<open>
  Keys of hash tables (\<open>builtins_hashtable.c\<close>): objects as seen by hashing and comparison, the four
  hash functions and the four comparisons.  An object carries its word, which is its address unless
  it is an immediate, and what the code reads of it: a vector its flags and active elements, a
  packed vector its active elements.  Sharing is visible in equal words; cycles are not modelled.
\<close>

section \<open>Objects\<close>

datatype lobj =
    immediate_p: Immediate u32
  | bignum_p: Bignum_At u32 (bignum_of: cl_bignum)
  | ratio_p: Ratio_At u32 (numerator_of: cl_val) (denominator_of: cl_val)
  | complex_p: Complex_At u32 (realpart_of: lobj) (imagpart_of: lobj)
  | single_float_p: Single_At u32 (single_bits: u32)
  | double_float_p: Double_At u32 (double_bits: u64)
  | string_p: String_At u32 "u8 list"
  | wide_string_p: Wide_String_At u32 "u32 list"
  | vector_p: Vector_At u32 nat "lobj list"
  | bit_vector_p: Bit_Vector_At u32 (bits_of: "bool list")
  | byte_vector_p: Byte_Vector_At u32 (bytes_of: "int list")
  | cons_p: Cons_At u32 (cl_car: lobj) (cl_cdr: lobj)
  | object_p: Object_At u32 u8

fun obj_word :: "lobj \<Rightarrow> u32" where
  "obj_word (Immediate w) = w" | "obj_word (Bignum_At w _) = w" | "obj_word (Ratio_At w _ _) = w" | "obj_word (Complex_At w _ _) = w"
| "obj_word (Single_At w _) = w" | "obj_word (Double_At w _) = w" | "obj_word (String_At w _) = w" | "obj_word (Wide_String_At w _) = w"
| "obj_word (Vector_At w _ _) = w" | "obj_word (Bit_Vector_At w _) = w" | "obj_word (Byte_Vector_At w _) = w" | "obj_word (Cons_At w _ _) = w"
| "obj_word (Object_At w _) = w"

definition CL_HT_TEST_EQ :: u32 where "CL_HT_TEST_EQ = 0"
definition CL_HT_TEST_EQL :: u32 where "CL_HT_TEST_EQL = 1"
definition CL_HT_TEST_EQUAL :: u32 where "CL_HT_TEST_EQUAL = 2"
definition CL_HT_TEST_EQUALP :: u32 where "CL_HT_TEST_EQUALP = 3"

lemmas ht_tests = CL_HT_TEST_EQ_def CL_HT_TEST_EQL_def CL_HT_TEST_EQUAL_def CL_HT_TEST_EQUALP_def

definition CL_VEC_FLAG_STRING :: nat where "CL_VEC_FLAG_STRING = 0x10"

fun CL_STRING_VECTOR_P :: "lobj \<Rightarrow> bool" where
  "CL_STRING_VECTOR_P (Vector_At _ flags _) = (flags AND CL_VEC_FLAG_STRING \<noteq> 0)"
| "CL_STRING_VECTOR_P _ = False"

definition CL_ANY_STRING_P :: "lobj \<Rightarrow> bool" where
  "CL_ANY_STRING_P obj \<longleftrightarrow> string_p obj \<or> wide_string_p obj"

definition stringish :: "lobj \<Rightarrow> bool" where
  "stringish obj \<longleftrightarrow> CL_ANY_STRING_P obj \<or> CL_STRING_VECTOR_P obj"

text \<open>\<open>cl_string_length\<close> and \<open>cl_string_char_at\<close>: the code points of a string.\<close>

fun char_code :: "lobj \<Rightarrow> u32" where
  "char_code (Immediate w) = (if CL_CHAR_P w then drop_bit 8 w else 0)"
| "char_code _ = 0"

fun string_codes :: "lobj \<Rightarrow> u32 list" where
  "string_codes (String_At _ s) = map ucast s"
| "string_codes (Wide_String_At _ s) = s"
| "string_codes (Vector_At _ _ xs) = map char_code xs"
| "string_codes _ = []"

section \<open>Hashing\<close>

definition fold_case :: "u32 \<Rightarrow> u32" where
  "fold_case ch = (if 65 \<le> ch \<and> ch \<le> 90 then ch + 32 else ch)"

definition fold_case8 :: "u8 \<Rightarrow> u8" where
  "fold_case8 ch = (if 65 \<le> ch \<and> ch \<le> 90 then ch + 32 else ch)"

definition cl_hash_string :: "u8 list \<Rightarrow> u32" where
  "cl_hash_string str = foldl (\<lambda>hash ch. hash_step hash (ucast ch)) 0 str"

definition hash_string_ci :: "u8 list \<Rightarrow> u32" where
  "hash_string_ci str = foldl (\<lambda>hash ch. hash_step hash (ucast (fold_case8 ch))) 0 str"

definition hash_string_content :: "u32 list \<Rightarrow> bool \<Rightarrow> u32" where
  "hash_string_content s ci = foldl (\<lambda>hash ch. hash_step hash (ucast (ucast (if ci then fold_case ch else ch) :: u8))) 0 s"

definition hash_bit_vector_content :: "bool list \<Rightarrow> u32" where
  "hash_bit_vector_content bs = foldl (\<lambda>hash b. hash_step hash (if b then 1 else 0)) (of_nat (length bs) * 2654435761) bs"

definition hash_mix :: "u32 \<Rightarrow> u32" where
  "hash_mix h = (let h = h XOR drop_bit 16 h; h = h * 0x45d9f3b in h XOR drop_bit 16 h)"

text \<open>The elements of a packed vector are read as fixnums.\<close>

fun equalp_xarr :: "lobj \<Rightarrow> lobj list" where
  "equalp_xarr (Bit_Vector_At _ bs) = map (\<lambda>b. Immediate (CL_MAKE_FIXNUM (if b then 1 else 0))) bs"
| "equalp_xarr (Byte_Vector_At _ xs) = map (\<lambda>x. Immediate (CL_MAKE_FIXNUM x)) xs"
| "equalp_xarr (Vector_At _ _ xs) = xs"
| "equalp_xarr _ = []"

definition is_equalp_xarr :: "lobj \<Rightarrow> bool" where
  "is_equalp_xarr x \<longleftrightarrow> vector_p x \<or> bit_vector_p x \<or> byte_vector_p x"

text \<open>The cast to \<open>char\<close> keeps the low byte; where \<open>char\<close> is signed its sign is extended.\<close>

definition hash_char_ci :: "u32 \<Rightarrow> u32" where
  "hash_char_ci obj = CL_MAKE_CHAR (scast (fold_case8 (ucast (drop_bit 8 obj))))"

definition hash_immediate :: "u32 \<Rightarrow> u32 \<Rightarrow> u32" where
  "hash_immediate obj test =
     (if test = CL_HT_TEST_EQ \<or> test = CL_HT_TEST_EQL then hash_mix obj
      else if obj = CL_NIL then 0
      else if CL_FIXNUM_P obj then hash_mix obj
      else if CL_CHAR_P obj then (if test = CL_HT_TEST_EQUALP then hash_char_ci obj else obj)
      else hash_mix obj)"

text \<open>An array under \<open>EQUALP\<close>: the length, and the first element.\<close>

definition hash_array :: "nat \<Rightarrow> u32 option \<Rightarrow> u32" where
  "hash_array len first = (let h = of_nat len * 31 + 2 in case first of None \<Rightarrow> h | Some e \<Rightarrow> h * 31 + e)"

fun hash_obj :: "lobj \<Rightarrow> u32 \<Rightarrow> u32" where
  "hash_obj (Immediate w) test = hash_immediate w test"
| "hash_obj (Bignum_At w bn) test = (if test = CL_HT_TEST_EQ then hash_mix w else cl_bignum_hash bn)"
| "hash_obj (Ratio_At w n d) test = (if test = CL_HT_TEST_EQ then hash_mix w else projr (cl_ratio_hash (Ratio n d)))"
| "hash_obj (Complex_At w re im) test = (if test = CL_HT_TEST_EQ then hash_mix w else hash_obj re test * 31 + hash_obj im test)"
| "hash_obj (Single_At w u) test = (if test = CL_HT_TEST_EQ then hash_mix w else u * 2654435761)"
| "hash_obj (Double_At w u) test = (if test = CL_HT_TEST_EQ then hash_mix w else (ucast u XOR ucast (drop_bit 32 u)) * 2654435761)"
| "hash_obj (String_At w s) test =
     (if test = CL_HT_TEST_EQ \<or> test = CL_HT_TEST_EQL then hash_mix w
      else if test = CL_HT_TEST_EQUALP then hash_string_ci s else cl_hash_string s)"
| "hash_obj (Wide_String_At w s) test =
     (if test = CL_HT_TEST_EQ \<or> test = CL_HT_TEST_EQL then hash_mix w else hash_string_content s (test = CL_HT_TEST_EQUALP))"
| "hash_obj (Vector_At w flags xs) test =
     (if test = CL_HT_TEST_EQ \<or> test = CL_HT_TEST_EQL then hash_mix w
      else if CL_STRING_VECTOR_P (Vector_At w flags xs) then hash_string_content (map char_code xs) (test = CL_HT_TEST_EQUALP)
      else if test = CL_HT_TEST_EQUALP then hash_array (length xs) (case xs of [] \<Rightarrow> None | x # _ \<Rightarrow> Some (hash_obj x test))
      else hash_mix w)"
| "hash_obj (Bit_Vector_At w bs) test =
     (if test = CL_HT_TEST_EQ \<or> test = CL_HT_TEST_EQL then hash_mix w
      else if test = CL_HT_TEST_EQUALP
        then hash_array (length bs) (case bs of [] \<Rightarrow> None | b # _ \<Rightarrow> Some (hash_immediate (CL_MAKE_FIXNUM (if b then 1 else 0)) test))
      else hash_bit_vector_content bs)"
| "hash_obj (Byte_Vector_At w xs) test =
     (if test = CL_HT_TEST_EQUALP
        then hash_array (length xs) (case xs of [] \<Rightarrow> None | x # _ \<Rightarrow> Some (hash_immediate (CL_MAKE_FIXNUM x) test))
      else hash_mix w)"
| "hash_obj (Cons_At w car cdr) test =
     (if test = CL_HT_TEST_EQ \<or> test = CL_HT_TEST_EQL then hash_mix w else hash_obj car test * 31 + 1)"
| "hash_obj (Object_At w type) test = hash_mix w"

section \<open>Comparison\<close>

text \<open>The C operator \<open>==\<close> on the bits of IEEE numbers: zeros are equal, and NaN equals nothing.\<close>

definition single_eq :: "u32 \<Rightarrow> u32 \<Rightarrow> bool" where
  "single_eq a b \<longleftrightarrow> \<not> (0x7F800000 < a AND 0x7FFFFFFF) \<and> \<not> (0x7F800000 < b AND 0x7FFFFFFF)
     \<and> (a = b \<or> (a AND 0x7FFFFFFF = 0 \<and> b AND 0x7FFFFFFF = 0))"

definition double_eq :: "u64 \<Rightarrow> u64 \<Rightarrow> bool" where
  "double_eq a b \<longleftrightarrow> \<not> (0x7FF0000000000000 < a AND 0x7FFFFFFFFFFFFFFF) \<and> \<not> (0x7FF0000000000000 < b AND 0x7FFFFFFFFFFFFFFF)
     \<and> (a = b \<or> (a AND 0x7FFFFFFFFFFFFFFF = 0 \<and> b AND 0x7FFFFFFFFFFFFFFF = 0))"

text \<open>A measure that counts the fixnums read from packed vectors.\<close>

fun weight :: "lobj \<Rightarrow> nat" where
  "weight (Complex_At _ a b) = 1 + weight a + weight b"
| "weight (Vector_At _ _ xs) = 1 + sum_list (map (\<lambda>x. 1 + weight x) xs)"
| "weight (Bit_Vector_At _ bs) = 1 + 2 * length bs"
| "weight (Byte_Vector_At _ xs) = 1 + 2 * length xs"
| "weight (Cons_At _ a b) = 1 + weight a + weight b"
| "weight _ = 1"

definition xarr_weight :: "lobj list \<Rightarrow> nat" where
  "xarr_weight xs = sum_list (map (\<lambda>x. 1 + weight x) xs)"

lemma xarr_weight_simps [simp]: "xarr_weight [] = 0" "xarr_weight (x # xs) = 1 + weight x + xarr_weight xs"
  by (simp_all add: xarr_weight_def)

lemma weight_parts:
  "is_equalp_xarr a \<Longrightarrow> xarr_weight (equalp_xarr a) < weight a"
  "complex_p a \<Longrightarrow> weight (realpart_of a) < weight a \<and> weight (imagpart_of a) < weight a"
  "cons_p a \<Longrightarrow> weight (cl_car a) < weight a \<and> weight (cl_cdr a) < weight a"
  by (cases a; simp add: xarr_weight_def comp_def sum_list_triv is_equalp_xarr_def)+

definition chars_equal :: "u32 \<Rightarrow> u32 \<Rightarrow> u32 \<Rightarrow> bool" where
  "chars_equal a b test \<longleftrightarrow> (if test = CL_HT_TEST_EQUALP then fold_case (drop_bit 8 a) = fold_case (drop_bit 8 b) else a = b)"

definition strings_equal :: "lobj \<Rightarrow> lobj \<Rightarrow> u32 \<Rightarrow> bool" where
  "strings_equal a b test \<longleftrightarrow>
     (if test = CL_HT_TEST_EQUALP then map fold_case (string_codes a) = map fold_case (string_codes b)
      else string_codes a = string_codes b)"

definition char_p :: "lobj \<Rightarrow> bool" where
  "char_p a \<longleftrightarrow> immediate_p a \<and> CL_CHAR_P (obj_word a)"

function keys_equal :: "lobj \<Rightarrow> lobj \<Rightarrow> u32 \<Rightarrow> bool" and keys_equal_elts :: "lobj list \<Rightarrow> lobj list \<Rightarrow> u32 \<Rightarrow> bool" where
  "keys_equal a b test =
     (if test = CL_HT_TEST_EQ then obj_word a = obj_word b
      else if obj_word a = obj_word b then True
      else if test \<noteq> CL_HT_TEST_EQL \<and> char_p a \<and> char_p b then chars_equal (obj_word a) (obj_word b) test
      else if bignum_p a \<and> bignum_p b then cl_bignum_equal (Bignum (bignum_of a)) (Bignum (bignum_of b))
      else if ratio_p a \<and> ratio_p b
        then projr (cl_ratio_equal (Ratio (numerator_of a) (denominator_of a)) (Ratio (numerator_of b) (denominator_of b)))
      else if complex_p a \<and> complex_p b
        then keys_equal (realpart_of a) (realpart_of b) test \<and> keys_equal (imagpart_of a) (imagpart_of b) test
      else if single_float_p a \<and> single_float_p b then single_eq (single_bits a) (single_bits b)
      else if double_float_p a \<and> double_float_p b then double_eq (double_bits a) (double_bits b)
      else if test = CL_HT_TEST_EQL then False
      else if stringish a \<and> stringish b then strings_equal a b test
      else if cons_p a \<and> cons_p b
        then keys_equal (cl_car a) (cl_car b) test \<and> keys_equal (cl_cdr a) (cl_cdr b) test
      else if bit_vector_p a \<and> bit_vector_p b then bits_of a = bits_of b
      else if test = CL_HT_TEST_EQUALP \<and> byte_vector_p a \<and> byte_vector_p b then bytes_of a = bytes_of b
      else if test = CL_HT_TEST_EQUALP \<and> is_equalp_xarr a \<and> is_equalp_xarr b
        then keys_equal_elts (equalp_xarr a) (equalp_xarr b) test
      else False)"
| "keys_equal_elts [] [] test = True"
| "keys_equal_elts (x # xs) (y # ys) test = (keys_equal x y test \<and> keys_equal_elts xs ys test)"
| "keys_equal_elts [] (y # ys) test = False"
| "keys_equal_elts (x # xs) [] test = False"
  by pat_completeness auto
termination by (relation "measure (\<lambda>p. case p of Inl (a, b, t) \<Rightarrow> weight a | Inr (xs, ys, t) \<Rightarrow> xarr_weight xs)") (auto simp: weight_parts)

declare keys_equal.simps [simp del]

section \<open>Keys that move\<close>

text \<open>Whether the hash of a key depends on addresses (\<open>gc_key_addr_sensitive\<close> of \<open>gc_compact.c\<close>).\<close>

fun gc_key_addr_sensitive :: "lobj \<Rightarrow> u32 \<Rightarrow> bool" where
  "gc_key_addr_sensitive (Immediate w) test = False"
| "gc_key_addr_sensitive (Bignum_At w bn) test = (test = CL_HT_TEST_EQ)"
| "gc_key_addr_sensitive (Ratio_At w n d) test = (test = CL_HT_TEST_EQ)"
| "gc_key_addr_sensitive (Single_At w u) test = (test = CL_HT_TEST_EQ)"
| "gc_key_addr_sensitive (Double_At w u) test = (test = CL_HT_TEST_EQ)"
| "gc_key_addr_sensitive (Complex_At w re im) test = (test = CL_HT_TEST_EQ)"
| "gc_key_addr_sensitive (String_At w s) test = (test = CL_HT_TEST_EQ \<or> test = CL_HT_TEST_EQL)"
| "gc_key_addr_sensitive (Wide_String_At w s) test = (test = CL_HT_TEST_EQ \<or> test = CL_HT_TEST_EQL)"
| "gc_key_addr_sensitive (Bit_Vector_At w bs) test = (test = CL_HT_TEST_EQ \<or> test = CL_HT_TEST_EQL)"
| "gc_key_addr_sensitive (Cons_At w car cdr) test =
     (test = CL_HT_TEST_EQ \<or> test = CL_HT_TEST_EQL \<or> gc_key_addr_sensitive car test)"
| "gc_key_addr_sensitive (Byte_Vector_At w xs) test = True"
| "gc_key_addr_sensitive (Vector_At w flags xs) test = True"
| "gc_key_addr_sensitive (Object_At w type) test = True"

end
