(* ===== verification/Keys_Canon.thy ===== *)
theory Keys_Canon
  imports Keys
begin

unbundle bit_operations_syntax

text \<open>
  Comparison of keys is equality of a canonical form, and equal keys share a bucket.
\<close>

section \<open>Well-formed keys\<close>

definition real_key :: "lobj \<Rightarrow> bool" where
  "real_key a \<longleftrightarrow> immediate_p a \<or> bignum_p a \<or> ratio_p a \<or> single_float_p a \<or> double_float_p a"

text \<open>
  \<open>M\<close> says what is in memory at an address.  Immediates are not addresses, ratios are in lowest terms, the parts of a complex are real,
  and the elements of byte vectors are those that eight or sixteen bits can hold.
\<close>

fun wf_key :: "(u32 \<Rightarrow> lobj) \<Rightarrow> lobj \<Rightarrow> bool" where
  "wf_key M (Immediate w) = (\<not> CL_HEAP_P w)"
| "wf_key M (Ratio_At w n d) = (CL_HEAP_P w \<and> M w = Ratio_At w n d \<and> wf_rat (Ratio n d))"
| "wf_key M (Complex_At w a b) = (CL_HEAP_P w \<and> M w = Complex_At w a b \<and> wf_key M a \<and> wf_key M b \<and> real_key a \<and> real_key b)"
| "wf_key M (Vector_At w fl xs) = (CL_HEAP_P w \<and> M w = Vector_At w fl xs \<and> (\<forall>x\<in>set xs. wf_key M x))"
| "wf_key M (Byte_Vector_At w xs) = (CL_HEAP_P w \<and> M w = Byte_Vector_At w xs \<and> (\<forall>x\<in>set xs. - 32768 \<le> x \<and> x \<le> 65535))"
| "wf_key M (Cons_At w a b) = (CL_HEAP_P w \<and> M w = Cons_At w a b \<and> wf_key M a \<and> wf_key M b)"
| "wf_key M obj = (CL_HEAP_P (obj_word obj) \<and> M (obj_word obj) = obj)"

lemma wf_key_same: "wf_key M a \<Longrightarrow> wf_key M b \<Longrightarrow> obj_word a = obj_word b \<Longrightarrow> a = b"
  by (cases a; cases b) auto

text \<open>No character vector occurs in the key: under \<open>EQUALP\<close> these break the contract.\<close>

fun plain_key :: "lobj \<Rightarrow> bool" where
  "plain_key (Vector_At w fl xs) = (\<not> CL_STRING_VECTOR_P (Vector_At w fl xs) \<and> (\<forall>x\<in>set xs. plain_key x))"
| "plain_key (Cons_At w a b) = (plain_key a \<and> plain_key b)"
| "plain_key (Complex_At w a b) = (plain_key a \<and> plain_key b)"
| "plain_key obj = True"

definition good_key :: "(u32 \<Rightarrow> lobj) \<Rightarrow> u32 \<Rightarrow> lobj \<Rightarrow> bool" where
  "good_key M test k \<longleftrightarrow> wf_key M k \<and> (test = CL_HT_TEST_EQUALP \<longrightarrow> plain_key k)"

section \<open>Canonical forms\<close>

datatype ckey =
    CWord u32 | CChar u32 | CBignum cl_bignum | CRatio cl_val cl_val | CSingle u32 | CDouble u64 | CNaN u32 u32 | CDouble_NaN u32 u64
  | CComplex ckey ckey | CString "u32 list" | CCons ckey ckey | CBits "bool list" | CArray "ckey list"

definition csingle :: "u32 \<Rightarrow> u32 \<Rightarrow> ckey" where
  "csingle w u = (if 0x7F800000 < u AND 0x7FFFFFFF then CNaN w u else CSingle (if u AND 0x7FFFFFFF = 0 then 0 else u))"

definition cdouble :: "u32 \<Rightarrow> u64 \<Rightarrow> ckey" where
  "cdouble w u = (if 0x7FF0000000000000 < u AND 0x7FFFFFFFFFFFFFFF then CDouble_NaN w u else CDouble (if u AND 0x7FFFFFFFFFFFFFFF = 0 then 0 else u))"

fun canon :: "u32 \<Rightarrow> lobj \<Rightarrow> ckey" where
  "canon t (Immediate w) = (if t = CL_HT_TEST_EQUALP \<and> CL_CHAR_P w then CChar (fold_case (drop_bit 8 w)) else CWord w)"
| "canon t (Bignum_At w bn) = (if t = CL_HT_TEST_EQ then CWord w else CBignum bn)"
| "canon t (Ratio_At w n d) = (if t = CL_HT_TEST_EQ then CWord w else CRatio n d)"
| "canon t (Complex_At w a b) = (if t = CL_HT_TEST_EQ then CWord w else CComplex (canon t a) (canon t b))"
| "canon t (Single_At w u) = (if t = CL_HT_TEST_EQ then CWord w else csingle w u)"
| "canon t (Double_At w u) = (if t = CL_HT_TEST_EQ then CWord w else cdouble w u)"
| "canon t (String_At w s) = (if t = CL_HT_TEST_EQ \<or> t = CL_HT_TEST_EQL then CWord w
     else CString (if t = CL_HT_TEST_EQUALP then map (\<lambda>c. fold_case (ucast c)) s else map ucast s))"
| "canon t (Wide_String_At w s) = (if t = CL_HT_TEST_EQ \<or> t = CL_HT_TEST_EQL then CWord w
     else CString (if t = CL_HT_TEST_EQUALP then map fold_case s else s))"
| "canon t (Vector_At w fl xs) = (if t = CL_HT_TEST_EQ \<or> t = CL_HT_TEST_EQL then CWord w
     else if CL_STRING_VECTOR_P (Vector_At w fl xs) then CString (if t = CL_HT_TEST_EQUALP then map (\<lambda>x. fold_case (char_code x)) xs else map char_code xs)
     else if t = CL_HT_TEST_EQUALP then CArray (map (canon t) xs) else CWord w)"
| "canon t (Bit_Vector_At w bs) = (if t = CL_HT_TEST_EQ \<or> t = CL_HT_TEST_EQL then CWord w
     else if t = CL_HT_TEST_EQUALP then CArray (map (\<lambda>b. CWord (CL_MAKE_FIXNUM (if b then 1 else 0))) bs) else CBits bs)"
| "canon t (Byte_Vector_At w xs) = (if t = CL_HT_TEST_EQUALP then CArray (map (\<lambda>x. CWord (CL_MAKE_FIXNUM x)) xs) else CWord w)"
| "canon t (Cons_At w a b) = (if t = CL_HT_TEST_EQ \<or> t = CL_HT_TEST_EQL then CWord w else CCons (canon t a) (canon t b))"
| "canon t (Object_At w ty) = CWord w"

lemma fixnum_word: "CL_FIXNUM_P (CL_MAKE_FIXNUM n)" "\<not> CL_CHAR_P (CL_MAKE_FIXNUM n)" "\<not> CL_HEAP_P (CL_MAKE_FIXNUM n)"
proof -
  have b: "bit (CL_MAKE_FIXNUM n) 0" by (simp add: CL_MAKE_FIXNUM_def bit_simps)
  have "bit (CL_MAKE_FIXNUM n AND 1) 0" using b by (simp add: bit_simps)
  then show "CL_FIXNUM_P (CL_MAKE_FIXNUM n)" unfolding CL_FIXNUM_P_def by (metis bit_0_eq bot_apply bot_bool_def)
  have "bit (CL_MAKE_FIXNUM n AND 0xFF) 0" "\<not> bit (0x0A :: u32) 0" using b by (simp_all add: bit_simps)
  then show "\<not> CL_CHAR_P (CL_MAKE_FIXNUM n)" unfolding CL_CHAR_P_def by metis
  have "bit (CL_MAKE_FIXNUM n AND 3) 0" using b by (simp add: bit_simps)
  then show "\<not> CL_HEAP_P (CL_MAKE_FIXNUM n)" unfolding CL_HEAP_P_def by (metis bit_0_eq bot_apply bot_bool_def)
qed

lemma heap_not_char: "CL_HEAP_P w \<Longrightarrow> \<not> CL_CHAR_P w"
proof
  assume h: "CL_HEAP_P w" and c: "CL_CHAR_P w"
  have "w AND 3 = (w AND 0xFF) AND 3" by (simp add: and.assoc)
  then show False using h c by (simp add: CL_HEAP_P_def CL_CHAR_P_def)
qed

lemma single_canon: "wf_key M (Single_At w u) \<Longrightarrow> wf_key M (Single_At w' v) \<Longrightarrow>
    (w = w' \<or> single_eq u v) \<longleftrightarrow> csingle w u = csingle w' v"
  by (auto simp: single_eq_def csingle_def)

lemma double_canon: "wf_key M (Double_At w u) \<Longrightarrow> wf_key M (Double_At w' v) \<Longrightarrow>
    (w = w' \<or> double_eq u v) \<longleftrightarrow> cdouble w u = cdouble w' v"
  by (auto simp: double_eq_def cdouble_def)

lemma ratio_canon: "wf_rat (Ratio n d) \<Longrightarrow> wf_rat (Ratio n' d') \<Longrightarrow> projr (cl_ratio_equal (Ratio n d) (Ratio n' d')) \<longleftrightarrow> n = n' \<and> d = d'"
  using ratio_equal_correct [of "Ratio n d" "Ratio n' d'"] by simp

section \<open>Comparison is equality of canonical forms\<close>

lemma stringish_simps [simp]:
  "stringish (String_At w s)" "stringish (Wide_String_At w v)" "stringish (Vector_At w fl xs) = CL_STRING_VECTOR_P (Vector_At w fl xs)"
  "\<not> stringish (Immediate w)" "\<not> stringish (Bignum_At w bn)" "\<not> stringish (Ratio_At w n d)" "\<not> stringish (Complex_At w a b)"
  "\<not> stringish (Single_At w u)" "\<not> stringish (Double_At w du)" "\<not> stringish (Bit_Vector_At w bs)" "\<not> stringish (Byte_Vector_At w ys)"
  "\<not> stringish (Cons_At w a b)" "\<not> stringish (Object_At w ty)"
  by (simp_all add: stringish_def CL_ANY_STRING_P_def)

lemma good_parts:
  "good_key M t (Complex_At w a b) \<Longrightarrow> good_key M t a \<and> good_key M t b"
  "good_key M t (Cons_At w a b) \<Longrightarrow> good_key M t a \<and> good_key M t b"
  "good_key M t a \<Longrightarrow> is_equalp_xarr a \<Longrightarrow> t = CL_HT_TEST_EQUALP \<Longrightarrow> x \<in> set (equalp_xarr a) \<Longrightarrow> good_key M t x"
  by (auto simp: good_key_def) (cases a; auto simp: is_equalp_xarr_def fixnum_word)+

lemma canon_array: "good_key M t a \<Longrightarrow> is_equalp_xarr a \<Longrightarrow> t = CL_HT_TEST_EQUALP \<Longrightarrow> canon t a = CArray (map (canon t) (equalp_xarr a))"
  by (cases a) (auto simp: good_key_def is_equalp_xarr_def ht_tests fixnum_word)

lemma canon_string: "stringish a \<Longrightarrow> t \<noteq> CL_HT_TEST_EQ \<Longrightarrow> t \<noteq> CL_HT_TEST_EQL \<Longrightarrow>
    canon t a = CString (if t = CL_HT_TEST_EQUALP then map fold_case (string_codes a) else string_codes a)"
  by (cases a) (auto simp: stringish_def CL_ANY_STRING_P_def comp_def)

lemma string_vector: "CL_STRING_VECTOR_P a \<Longrightarrow> vector_p a"
  by (cases a) auto

lemma canon_word:
  "t \<noteq> CL_HT_TEST_EQ \<Longrightarrow> canon t a = CWord w \<Longrightarrow> w = obj_word a"
  by (cases a) (auto simp: csingle_def cdouble_def split: if_splits)

lemma canon_kind:
  assumes "t \<noteq> CL_HT_TEST_EQ"
  shows "canon t a = CChar u \<Longrightarrow> char_p a \<and> t = CL_HT_TEST_EQUALP" "canon t a = CBignum bn \<Longrightarrow> bignum_p a" "canon t a = CRatio n d \<Longrightarrow> ratio_p a"
    "canon t a = CComplex x y \<Longrightarrow> complex_p a" "canon t a = CSingle u \<Longrightarrow> single_float_p a" "canon t a = CDouble v \<Longrightarrow> double_float_p a"
    "canon t a = CString s \<Longrightarrow> stringish a \<and> t \<noteq> CL_HT_TEST_EQL" "canon t a = CCons x y \<Longrightarrow> cons_p a \<and> t \<noteq> CL_HT_TEST_EQL"
    "canon t a = CBits bs \<Longrightarrow> bit_vector_p a \<and> t \<noteq> CL_HT_TEST_EQL" "canon t a = CArray xs \<Longrightarrow> is_equalp_xarr a \<and> t = CL_HT_TEST_EQUALP"
    "canon t a = CNaN u u' \<Longrightarrow> single_float_p a" "canon t a = CDouble_NaN u v \<Longrightarrow> double_float_p a"
  using assms by (cases a; auto simp: csingle_def cdouble_def char_p_def stringish_def CL_ANY_STRING_P_def is_equalp_xarr_def ht_tests split: if_splits)+

lemma byte_canon:
  assumes "\<forall>x\<in>set xs \<union> set ys. - 32768 \<le> x \<and> x \<le> 65535"
  shows "map (\<lambda>x. CWord (CL_MAKE_FIXNUM x)) xs = map (\<lambda>x. CWord (CL_MAKE_FIXNUM x)) ys \<longleftrightarrow> xs = ys"
proof -
  have v: "CL_FIXNUM_VAL (CL_MAKE_FIXNUM x) = x" if "x \<in> set xs \<union> set ys" for x
  proof -
    have "- 32768 \<le> x \<and> x \<le> 65535" using assms that by blast
    then show ?thesis by (intro fixnum_val_make) (simp_all add: CL_FIXNUM_MIN_def CL_FIXNUM_MAX_def)
  qed
  have "inj_on (\<lambda>x. CWord (CL_MAKE_FIXNUM x)) (set xs \<union> set ys)"
  proof (rule inj_onI)
    fix x y assume xy: "x \<in> set xs \<union> set ys" "y \<in> set xs \<union> set ys" "CWord (CL_MAKE_FIXNUM x) = CWord (CL_MAKE_FIXNUM y)"
    then have "CL_FIXNUM_VAL (CL_MAKE_FIXNUM x) = CL_FIXNUM_VAL (CL_MAKE_FIXNUM y)" by simp
    then show "x = y" unfolding v [OF xy(1)] v [OF xy(2)] .
  qed
  then show ?thesis by (rule inj_on_map_eq_map)
qed

lemma bits_canon: "map (\<lambda>b. CWord (CL_MAKE_FIXNUM (if b then 1 else 0))) bs = map (\<lambda>b. CWord (CL_MAKE_FIXNUM (if b then 1 else 0))) bs' \<longleftrightarrow> bs = bs'"
proof -
  have "CL_MAKE_FIXNUM 1 \<noteq> CL_MAKE_FIXNUM 0" by (simp add: CL_MAKE_FIXNUM_def)
  then have "inj (\<lambda>b. CWord (CL_MAKE_FIXNUM (if b then 1 else 0)))" by (intro injI) (simp split: if_splits)
  then show ?thesis by (rule inj_map_eq_map)
qed

lemma keys_equal_canon:
  "good_key M t a \<Longrightarrow> good_key M t b \<Longrightarrow> keys_equal a b t \<longleftrightarrow> canon t a = canon t b"
  "(\<And>x. x \<in> set xs \<union> set ys \<Longrightarrow> good_key M t x) \<Longrightarrow> keys_equal_elts xs ys t \<longleftrightarrow> map (canon t) xs = map (canon t) ys"
proof (induction a b t and xs ys t rule: keys_equal_keys_equal_elts.induct)
  case (1 a b t)
  have wf: "wf_key M a" "wf_key M b" using 1(6,7) by (simp_all add: good_key_def)
  have same: "obj_word a = obj_word b \<Longrightarrow> a = b" by (rule wf_key_same [OF wf])
  consider "t = CL_HT_TEST_EQ" | "t \<noteq> CL_HT_TEST_EQ" "obj_word a = obj_word b" | "t \<noteq> CL_HT_TEST_EQ" "obj_word a \<noteq> obj_word b" by blast
  then show ?case
  proof cases
    case 1
    have "canon CL_HT_TEST_EQ x = CWord (obj_word x)" for x by (cases x) (auto simp: ht_tests)
    then show ?thesis using 1 by (subst keys_equal.simps) simp
  next
    case 2
    then show ?thesis using same by (subst keys_equal.simps) simp
  next
    case n: 3
    have cx: "keys_equal (realpart_of a) (realpart_of b) t \<longleftrightarrow> canon t (realpart_of a) = canon t (realpart_of b)"
      "keys_equal (imagpart_of a) (imagpart_of b) t \<longleftrightarrow> canon t (imagpart_of a) = canon t (imagpart_of b)" if cc: "complex_p a" "complex_p b"
    proof -
      obtain w x y w' x' y' where ab: "a = Complex_At w x y" "b = Complex_At w' x' y'" using cc by (cases a; cases b) auto
      show "keys_equal (realpart_of a) (realpart_of b) t \<longleftrightarrow> canon t (realpart_of a) = canon t (realpart_of b)"
        "keys_equal (imagpart_of a) (imagpart_of b) t \<longleftrightarrow> canon t (imagpart_of a) = canon t (imagpart_of b)"
        using 1(1,2) good_parts(1) [OF 1(6) [unfolded ab]] good_parts(1) [OF 1(7) [unfolded ab]] n unfolding ab by (simp_all add: char_p_def)
    qed
    have cn: "keys_equal (cl_car a) (cl_car b) t \<longleftrightarrow> canon t (cl_car a) = canon t (cl_car b)"
      "keys_equal (cl_cdr a) (cl_cdr b) t \<longleftrightarrow> canon t (cl_cdr a) = canon t (cl_cdr b)" if cc: "cons_p a" "cons_p b" "t \<noteq> CL_HT_TEST_EQL"
    proof -
      obtain w x y w' x' y' where ab: "a = Cons_At w x y" "b = Cons_At w' x' y'" using cc(1,2) by (cases a; cases b) auto
      show "keys_equal (cl_car a) (cl_car b) t \<longleftrightarrow> canon t (cl_car a) = canon t (cl_car b)"
        "keys_equal (cl_cdr a) (cl_cdr b) t \<longleftrightarrow> canon t (cl_cdr a) = canon t (cl_cdr b)"
        using 1(3,4) good_parts(2) [OF 1(6) [unfolded ab]] good_parts(2) [OF 1(7) [unfolded ab]] n cc(3) unfolding ab by (simp_all add: char_p_def stringish_def CL_ANY_STRING_P_def)
    qed
    have ar: "keys_equal_elts (equalp_xarr a) (equalp_xarr b) t \<longleftrightarrow> canon t a = canon t b"
      if "is_equalp_xarr a" "is_equalp_xarr b" "t = CL_HT_TEST_EQUALP" "\<not> (stringish a \<and> stringish b)" "\<not> (bit_vector_p a \<and> bit_vector_p b)" "\<not> (byte_vector_p a \<and> byte_vector_p b)"
    proof -
      have "x \<in> set (equalp_xarr a) \<union> set (equalp_xarr b) \<Longrightarrow> good_key M t x" for x using good_parts(3) that(1-3) 1(6,7) by blast
      moreover have "\<not> bignum_p a" "\<not> ratio_p a" "\<not> complex_p a" "\<not> single_float_p a" "\<not> double_float_p a" "\<not> char_p a" "\<not> cons_p a"
        using that(1) by (cases a; simp add: is_equalp_xarr_def char_p_def)+
      ultimately have "keys_equal_elts (equalp_xarr a) (equalp_xarr b) t \<longleftrightarrow> map (canon t) (equalp_xarr a) = map (canon t) (equalp_xarr b)"
        using 1(5) n that by (simp add: ht_tests)
      then show ?thesis using canon_array [OF 1(6) that(1,3)] canon_array [OF 1(7) that(2,3)] by simp
    qed
    let ?pairs = "(t \<noteq> CL_HT_TEST_EQL \<and> char_p a \<and> char_p b) \<or> (bignum_p a \<and> bignum_p b) \<or> (ratio_p a \<and> ratio_p b) \<or> (complex_p a \<and> complex_p b)
      \<or> (single_float_p a \<and> single_float_p b) \<or> (double_float_p a \<and> double_float_p b)"
    let ?more = "(stringish a \<and> stringish b) \<or> (cons_p a \<and> cons_p b) \<or> (bit_vector_p a \<and> bit_vector_p b) \<or> (t = CL_HT_TEST_EQUALP \<and> is_equalp_xarr a \<and> is_equalp_xarr b)"
    consider ?pairs | "\<not> ?pairs" "t \<noteq> CL_HT_TEST_EQL" ?more | "\<not> ?pairs" "t = CL_HT_TEST_EQL \<or> \<not> ?more" by blast
    then show ?thesis
    proof cases
      case 1
      then consider "t \<noteq> CL_HT_TEST_EQL" "char_p a" "char_p b" | "bignum_p a" "bignum_p b" | "ratio_p a" "ratio_p b" | "complex_p a" "complex_p b"
        | "single_float_p a" "single_float_p b" | "double_float_p a" "double_float_p b" by blast
      then show ?thesis
      proof cases
        case 1
        then show ?thesis using n by (subst keys_equal.simps) (cases a; cases b; simp add: char_p_def chars_equal_def)
      next
        case 2
        then obtain w x w' y where ab: "a = Bignum_At w x" "b = Bignum_At w' y" by (cases a; cases b) auto
        then show ?thesis using n by (subst keys_equal.simps) (simp add: char_p_def bignum_equal_iff del: cl_bignum_equal.simps)
      next
        case 3
        then obtain w x y w' x' y' where ab: "a = Ratio_At w x y" "b = Ratio_At w' x' y'" by (cases a; cases b) auto
        have "wf_rat (Ratio x y)" "wf_rat (Ratio x' y')" using wf unfolding ab by (simp_all del: wf_rat.simps)
        then show ?thesis using n ratio_canon unfolding ab by (subst keys_equal.simps) (simp add: char_p_def del: cl_ratio_equal.simps)
      next
        case 4
        then show ?thesis using n cx [OF 4] by (subst keys_equal.simps) (cases a; cases b; simp add: char_p_def)
      next
        case 5
        then obtain w x w' y where ab: "a = Single_At w x" "b = Single_At w' y" by (cases a; cases b) auto
        then show ?thesis using n single_canon [OF wf [unfolded ab]] unfolding ab by (subst keys_equal.simps) (simp add: char_p_def)
      next
        case 6
        then obtain w x w' y where ab: "a = Double_At w x" "b = Double_At w' y" by (cases a; cases b) auto
        then show ?thesis using n double_canon [OF wf [unfolded ab]] unfolding ab by (subst keys_equal.simps) (simp add: char_p_def)
      qed
    next
      case 2
      have q: "\<not> (char_p a \<and> char_p b)" "\<not> (bignum_p a \<and> bignum_p b)" "\<not> (ratio_p a \<and> ratio_p b)" "\<not> (complex_p a \<and> complex_p b)"
        "\<not> (single_float_p a \<and> single_float_p b)" "\<not> (double_float_p a \<and> double_float_p b)" using 2(1,2) by blast+
      show ?thesis
      proof (cases "stringish a \<and> stringish b")
        case True
        then have "keys_equal a b t \<longleftrightarrow> strings_equal a b t" using q n 2(2) by (subst keys_equal.simps) auto
        then show ?thesis using canon_string [of a t] canon_string [of b t] True n 2(2) by (auto simp: strings_equal_def)
      next
        case ns: False
        consider "cons_p a" "cons_p b" | "bit_vector_p a" "bit_vector_p b" | "t = CL_HT_TEST_EQUALP" "byte_vector_p a" "byte_vector_p b"
          | "t = CL_HT_TEST_EQUALP" "is_equalp_xarr a" "is_equalp_xarr b" "\<not> (bit_vector_p a \<and> bit_vector_p b)" "\<not> (byte_vector_p a \<and> byte_vector_p b)" using 2(3) ns by blast
        then show ?thesis
        proof cases
          case 1
          then show ?thesis using n ns q cn [OF 1 \<open>t \<noteq> CL_HT_TEST_EQL\<close>] \<open>t \<noteq> CL_HT_TEST_EQL\<close> by (subst keys_equal.simps) (cases a; cases b; simp add: char_p_def stringish_def CL_ANY_STRING_P_def)
        next
          case 2
          then obtain w x w' y where ab: "a = Bit_Vector_At w x" "b = Bit_Vector_At w' y" by (cases a; cases b) auto
          then show ?thesis using n ns \<open>t \<noteq> CL_HT_TEST_EQL\<close> bits_canon unfolding ab by (subst keys_equal.simps) (simp add: char_p_def)
        next
          case 3
          then obtain w x w' y where ab: "a = Byte_Vector_At w x" "b = Byte_Vector_At w' y" by (cases a; cases b) auto
          then show ?thesis using n ns \<open>t \<noteq> CL_HT_TEST_EQL\<close> 3(1) byte_canon [of x y] wf unfolding ab by (subst keys_equal.simps) (auto simp: char_p_def)
        next
          case 4
          then have "\<not> cons_p a" by (cases a) (auto simp: is_equalp_xarr_def)
          then have "keys_equal a b t \<longleftrightarrow> keys_equal_elts (equalp_xarr a) (equalp_xarr b) t"
            using n ns q 2(2) 4 by (subst keys_equal.simps) auto
          then show ?thesis using ar [OF 4(2,3,1) ns 4(4,5)] by simp
        qed
      qed
    next
      case 3
      have q: "\<not> (t \<noteq> CL_HT_TEST_EQL \<and> char_p a \<and> char_p b)" "\<not> (bignum_p a \<and> bignum_p b)" "\<not> (ratio_p a \<and> ratio_p b)" "\<not> (complex_p a \<and> complex_p b)"
        "\<not> (single_float_p a \<and> single_float_p b)" "\<not> (double_float_p a \<and> double_float_p b)" using 3(1) by blast+
      have "\<not> keys_equal a b t"
      proof (cases "t = CL_HT_TEST_EQL")
        case True
        then show ?thesis using n q by (subst keys_equal.simps) (simp only: if_True if_False simp_thms)
      next
        case False
        then have r: "\<not> (stringish a \<and> stringish b)" "\<not> (cons_p a \<and> cons_p b)" "\<not> (bit_vector_p a \<and> bit_vector_p b)"
          "\<not> (t = CL_HT_TEST_EQUALP \<and> is_equalp_xarr a \<and> is_equalp_xarr b)" using 3(2) by blast+
        then have "\<not> (t = CL_HT_TEST_EQUALP \<and> byte_vector_p a \<and> byte_vector_p b)" by (auto simp: is_equalp_xarr_def)
        then show ?thesis using n q r False by (subst keys_equal.simps) (simp only: if_True if_False simp_thms)
      qed
      moreover have "canon t a \<noteq> canon t b"
      proof
        assume e: "canon t a = canon t b"
        have ne: "t = CL_HT_TEST_EQUALP \<Longrightarrow> t \<noteq> CL_HT_TEST_EQL" by (simp add: ht_tests)
        note ka = canon_kind [OF n(1), of a] and kb = canon_kind [OF n(1), of b]
        show False
        proof (cases "canon t b")
          case (CWord w)
          then show False using canon_word [OF n(1)] e n(2) by metis
        next
          case CChar
          then show False using 3 ka(1) [unfolded e, OF CChar] kb(1) [OF CChar] ne by blast
        next
          case CBignum
          then show False using 3 ka(2) [unfolded e, OF CBignum] kb(2) [OF CBignum] by blast
        next
          case CRatio
          then show False using 3 ka(3) [unfolded e, OF CRatio] kb(3) [OF CRatio] by blast
        next
          case CComplex
          then show False using 3 ka(4) [unfolded e, OF CComplex] kb(4) [OF CComplex] by blast
        next
          case CSingle
          then show False using 3 ka(5) [unfolded e, OF CSingle] kb(5) [OF CSingle] by blast
        next
          case CDouble
          then show False using 3 ka(6) [unfolded e, OF CDouble] kb(6) [OF CDouble] by blast
        next
          case CString
          then show False using 3 ka(7) [unfolded e, OF CString] kb(7) [OF CString] by blast
        next
          case CCons
          then show False using 3 ka(8) [unfolded e, OF CCons] kb(8) [OF CCons] by blast
        next
          case CBits
          then show False using 3 ka(9) [unfolded e, OF CBits] kb(9) [OF CBits] by blast
        next
          case CNaN
          then show False using 3 ka(11) [unfolded e, OF CNaN] kb(11) [OF CNaN] by blast
        next
          case CDouble_NaN
          then show False using 3 ka(12) [unfolded e, OF CDouble_NaN] kb(12) [OF CDouble_NaN] by blast
        next
          case CArray
          then show False using 3 ka(10) [unfolded e, OF CArray] kb(10) [OF CArray] ne by blast
        qed
      qed
      ultimately show ?thesis by simp
    qed
  qed
qed auto

end
