(* ===== verification/Keys_Hash.thy ===== *)
theory Keys_Hash
  imports Keys_Canon
begin

unbundle bit_operations_syntax

text \<open>
  Equal keys have equal hashes, as far as bucket indices use them: the low 31 bits of a key's hash are
  a function of its canonical form.
\<close>

section \<open>Equal keys share a bucket\<close>

text \<open>The hash of a canonical form: the low 31 bits are those of the key.\<close>

fun chash :: "u32 \<Rightarrow> ckey \<Rightarrow> u32" where
  "chash t (CWord w) = hash_immediate w t"
| "chash t (CChar c) = CL_MAKE_CHAR (scast (fold_case8 (ucast c)))"
| "chash t (CBignum bn) = cl_bignum_hash bn"
| "chash t (CRatio n d) = projr (cl_ratio_hash (Ratio n d))"
| "chash t (CSingle u) = u * 2654435761"
| "chash t (CDouble u) = (ucast u XOR ucast (drop_bit 32 u)) * 2654435761"
| "chash t (CNaN w u) = u * 2654435761"
| "chash t (CDouble_NaN w u) = (ucast u XOR ucast (drop_bit 32 u)) * 2654435761"
| "chash t (CComplex a b) = chash t a * 31 + chash t b"
| "chash t (CString s) = foldl (\<lambda>hash ch. hash_step hash (ucast (ucast ch :: u8))) 0 s"
| "chash t (CCons a b) = chash t a * 31 + 1"
| "chash t (CBits bs) = hash_bit_vector_content bs"
| "chash t (CArray cs) = hash_array (length cs) (case cs of [] \<Rightarrow> None | c # _ \<Rightarrow> Some (chash t c))"

lemma byte_less: "unat (c :: u8) < 256"
  using unsigned_less [of c] by simp

lemma unat_byte: "unat (ucast (c :: u8) :: u32) = unat c"
  using byte_less [of c] by (simp add: unsigned_ucast_eq unsigned_take_bit_eq take_bit_nat_eq_self)

lemma low_byte_add: "(ucast (a + b :: u32) :: u8) = ucast a + ucast b"
  by (simp add: word_unat_eq_iff unsigned_ucast_eq unat_word_ariths unsigned_take_bit_eq take_bit_eq_mod mod_simps mod_mod_cancel)

lemma byte_low: "(ucast (ucast (c :: u8) :: u32) :: u8) = c"
  using byte_less [of c] by (simp only: word_unat_eq_iff unsigned_ucast_eq unsigned_take_bit_eq unat_byte) (simp add: take_bit_nat_eq_self unat_byte [unfolded unsigned_ucast_eq unsigned_take_bit_eq])

lemma fold_byte: "fold_case (ucast (c :: u8)) = ucast (fold_case8 c)"
proof (cases "65 \<le> c \<and> c \<le> 90")
  case True
  then have "65 \<le> unat c" "unat c \<le> 90" by (simp_all add: word_le_nat_alt)
  then show ?thesis using True by (simp add: fold_case_def fold_case8_def word_le_nat_alt word_unat_eq_iff unat_byte unat_word_ariths)
next
  case False
  then have "\<not> (65 \<le> (ucast c :: u32) \<and> (ucast c :: u32) \<le> 90)" by (simp add: word_le_nat_alt unat_byte)
  then show ?thesis using False unfolding fold_case_def fold_case8_def if_not_P by (simp only: if_False)
qed

lemma fold_low: "fold_case8 (ucast (fold_case c)) = fold_case8 (ucast c)"
proof (cases "65 \<le> c \<and> c \<le> 90")
  case True
  then have "65 \<le> unat c" "unat c \<le> 90" by (simp_all add: word_le_nat_alt)
  then have u: "unat (ucast c :: u8) = unat c" by (simp add: unsigned_ucast_eq unsigned_take_bit_eq take_bit_eq_mod)
  then have "unat (ucast c + 32 :: u8) = unat c + 32" using \<open>unat c \<le> 90\<close> by (simp add: unat_word_ariths)
  then show ?thesis using True u \<open>65 \<le> unat c\<close> by (simp add: fold_case_def fold_case8_def low_byte_add word_le_nat_alt)
qed (simp only: fold_case_def if_False)

lemma heap_hash: "CL_HEAP_P w \<Longrightarrow> hash_immediate w t = hash_mix w"
proof -
  assume h: "CL_HEAP_P w"
  have "\<not> CL_FIXNUM_P w"
  proof
    assume "CL_FIXNUM_P w"
    moreover have "w AND 1 = (w AND 3) AND 1" by (simp add: and.assoc)
    ultimately show False using h by (simp add: CL_FIXNUM_P_def CL_HEAP_P_def)
  qed
  then show ?thesis using h heap_not_char [OF h] by (simp add: hash_immediate_def CL_HEAP_P_def)
qed

lemma low_cong:
  assumes "take_bit 31 (a :: u32) = take_bit 31 a'" "take_bit 31 b = take_bit 31 b'"
  shows "take_bit 31 (a * 31 + b) = take_bit 31 (a' * 31 + b')"
proof -
  have m: "(p mod 4294967296 + q) mod 2147483648 = (p + q) mod (2147483648 :: nat)" for p q
    by (rule mod_add_cong) (simp_all add: mod_mod_cancel)
  have t: "take_bit 31 (x * 31 + y) = take_bit 31 (take_bit 31 x * 31 + take_bit 31 (y :: u32))" for x y
    by (simp add: word_unat_eq_iff unsigned_take_bit_eq unat_word_ariths take_bit_eq_mod mod_mod_cancel m)
      (rule mod_add_cong [OF mod_mult_left_eq [symmetric] mod_mod_trivial [symmetric]])
  show ?thesis unfolding t [of a] t [of a'] assms ..
qed


lemma string_hash:
  "foldl (\<lambda>h ch. hash_step h (ucast (ucast (ucast ch :: u32) :: u8))) 0 s = cl_hash_string s"
  "foldl (\<lambda>h ch. hash_step h (ucast (ucast (fold_case (ucast ch)) :: u8))) 0 s = hash_string_ci s"
  by (simp_all only: byte_low fold_byte cl_hash_string_def hash_string_ci_def)

lemma foldl_map': "foldl f a (map g xs) = foldl (\<lambda>h x. f h (g x)) a xs"
  by (induction xs arbitrary: a) auto

lemma low_mult: "take_bit 31 (x * c :: u32) = take_bit 31 (take_bit 31 x * c)"
  by (simp add: word_unat_eq_iff unsigned_take_bit_eq unat_word_ariths take_bit_eq_mod mod_mod_cancel) (simp add: mod_mult_left_eq)

lemma zero_hash: "take_bit 31 u = 0 \<Longrightarrow> take_bit 31 (u * 2654435761 :: u32) = 0"
  using low_mult [of u 2654435761] by simp

lemma single_zero: "u AND 0x7FFFFFFF = 0 \<Longrightarrow> take_bit 31 (u :: u32) = 0"
  by (simp add: take_bit_eq_mask mask_eq_exp_minus_1)

lemma double_zero:
  assumes "u AND 0x7FFFFFFFFFFFFFFF = (0 :: u64)"
  shows "take_bit 31 ((ucast u :: u32) XOR ucast (drop_bit 32 u)) = 0"
proof -
  have "take_bit 63 u = 0" using assms by (simp add: take_bit_eq_mask mask_eq_exp_minus_1)
  then have z: "\<not> bit u n" if "n < 63" for n using that by (metis bit_0_eq bit_take_bit_iff bot_apply bot_bool_def)
  show ?thesis by (rule bit_eqI) (auto simp: bit_simps z)
qed

lemma char_not_fixnum: "CL_CHAR_P w \<Longrightarrow> \<not> CL_FIXNUM_P w \<and> w \<noteq> 0"
proof -
  assume c: "CL_CHAR_P w"
  have "w AND 1 = (w AND 0xFF) AND 1" by (simp add: and.assoc)
  then show ?thesis using c by (auto simp: CL_CHAR_P_def CL_FIXNUM_P_def)
qed

lemma array_low:
  "take_bit 31 e = take_bit 31 e' \<Longrightarrow> take_bit 31 (hash_array n (Some e)) = take_bit 31 (hash_array n (Some e'))"
  unfolding hash_array_def Let_def option.case by (rule low_cong [OF refl])

lemma hash_canon: "good_key M t a \<Longrightarrow> take_bit 31 (hash_obj a t) = take_bit 31 (chash t (canon t a))"
proof (induction a)
  case (Immediate w)
  then show ?case by (auto simp: good_key_def hash_immediate_def hash_char_ci_def fold_low ht_tests CL_NIL_def dest: char_not_fixnum)
next
  case (Complex_At w a b)
  then show ?case using good_parts(1) [OF Complex_At(3)] by (auto simp: good_key_def heap_hash intro: low_cong)
next
  case (Cons_At w a b)
  then show ?case using good_parts(2) [OF Cons_At(3)] by (auto simp: good_key_def heap_hash intro: low_cong)
next
  case (Single_At w u)
  then show ?case by (auto simp: good_key_def heap_hash csingle_def zero_hash single_zero)
next
  case (Double_At w u)
  then show ?case by (auto simp: good_key_def heap_hash cdouble_def intro: zero_hash double_zero)
next
  case (String_At w s)
  then show ?case by (simp add: good_key_def heap_hash string_hash foldl_map')
next
  case (Wide_String_At w s)
  then show ?case by (simp add: good_key_def heap_hash hash_string_content_def foldl_map')
next
  case (Vector_At w fl xs)
  show ?case
  proof (cases "t = CL_HT_TEST_EQUALP")
    case True
    show ?thesis
    proof (cases xs)
      case (Cons x ys)
      have "good_key M t x" using good_parts(3) [OF Vector_At(2), of x] True Cons by (simp add: is_equalp_xarr_def)
      then have e: "take_bit 31 (hash_obj x t) = take_bit 31 (chash t (canon t x))" using Vector_At(1) Cons by simp
      have "\<not> CL_STRING_VECTOR_P (Vector_At w fl xs)" using Vector_At(2) True by (simp add: good_key_def)
      then have h: "hash_obj (Vector_At w fl xs) t = hash_array (length xs) (Some (hash_obj x t))"
        "chash t (canon t (Vector_At w fl xs)) = hash_array (length xs) (Some (chash t (canon t x)))" using True Cons by (simp_all add: ht_tests)
      show ?thesis unfolding h by (rule array_low [OF e])
    qed (use Vector_At(2) True in \<open>simp add: good_key_def ht_tests\<close>)
  next
    case False
    then show ?thesis using Vector_At(2) by (simp add: good_key_def heap_hash hash_string_content_def foldl_map')
  qed
next
  case (Bit_Vector_At w bs)
  then show ?case by (auto simp: good_key_def heap_hash split: list.splits)
next
  case (Byte_Vector_At w xs)
  then show ?case by (auto simp: good_key_def heap_hash split: list.splits)
qed (auto simp: good_key_def heap_hash)

end
