(* ===== verification/Keys_Move.thy ===== *)
theory Keys_Move
  imports Keys_Hash
begin

unbundle bit_operations_syntax

text \<open>
  Keys when the collector moves objects: every address \<open>w\<close> becomes \<open>g w\<close>.
  Comparison is not affected, and neither is the hash of a key that
  \<open>gc_key_addr_sensitive\<close> does not report.
\<close>

section \<open>Moved objects\<close>

fun relocate :: "(u32 \<Rightarrow> u32) \<Rightarrow> lobj \<Rightarrow> lobj" where
  "relocate g (Immediate w) = Immediate w"
| "relocate g (Bignum_At w bn) = Bignum_At (g w) bn"
| "relocate g (Ratio_At w n d) = Ratio_At (g w) n d"
| "relocate g (Complex_At w a b) = Complex_At (g w) (relocate g a) (relocate g b)"
| "relocate g (Single_At w u) = Single_At (g w) u"
| "relocate g (Double_At w u) = Double_At (g w) u"
| "relocate g (String_At w s) = String_At (g w) s"
| "relocate g (Wide_String_At w s) = Wide_String_At (g w) s"
| "relocate g (Vector_At w fl xs) = Vector_At (g w) fl (map (relocate g) xs)"
| "relocate g (Bit_Vector_At w bs) = Bit_Vector_At (g w) bs"
| "relocate g (Byte_Vector_At w xs) = Byte_Vector_At (g w) xs"
| "relocate g (Cons_At w a b) = Cons_At (g w) (relocate g a) (relocate g b)"
| "relocate g (Object_At w ty) = Object_At (g w) ty"

text \<open>The moves of a collection: addresses stay addresses and different ones stay different.\<close>

definition heap_moves :: "(u32 \<Rightarrow> u32) \<Rightarrow> (u32 \<Rightarrow> lobj) \<Rightarrow> (u32 \<Rightarrow> lobj) \<Rightarrow> bool" where
  "heap_moves g M M' \<longleftrightarrow> inj g \<and> (\<forall>w. \<not> CL_HEAP_P w \<longrightarrow> g w = w) \<and> (\<forall>w. CL_HEAP_P w \<longrightarrow> CL_HEAP_P (g w) \<and> M' (g w) = relocate g (M w))"

lemma moves_parts:
  assumes "heap_moves g M M'"
  shows "inj g" "CL_HEAP_P w \<Longrightarrow> CL_HEAP_P (g w)" "CL_HEAP_P w \<Longrightarrow> M' (g w) = relocate g (M w)" "\<not> CL_HEAP_P w \<Longrightarrow> g w = w"
  using assms by (simp_all add: heap_moves_def)

lemma relocate_kind [simp]: "CL_STRING_VECTOR_P (relocate g a) = CL_STRING_VECTOR_P a" "real_key (relocate g a) = real_key a"
  "char_code (relocate g a) = char_code a"
  by (cases a; simp add: real_key_def)+

lemma moved_good: "heap_moves g M M' \<Longrightarrow> good_key M t k \<Longrightarrow> good_key M' t (relocate g k)"
proof -
  assume m: "heap_moves g M M'"
  have wf: "wf_key M k \<Longrightarrow> wf_key M' (relocate g k)"
  proof (induction k)
    case (Ratio_At w n d)
    then show ?case using moves_parts(2,3) [OF m, of w] by (simp del: wf_rat.simps)
  qed (auto simp: moves_parts(2,3) [OF m])
  have plain: "plain_key k \<Longrightarrow> plain_key (relocate g k)"
    by (induction k) auto
  assume "good_key M t k"
  then show ?thesis using wf plain by (simp add: good_key_def)
qed

section \<open>Comparison after a move\<close>

fun relocate_ckey :: "(u32 \<Rightarrow> u32) \<Rightarrow> ckey \<Rightarrow> ckey" where
  "relocate_ckey g (CWord w) = CWord (g w)"
| "relocate_ckey g (CNaN w u) = CNaN (g w) u"
| "relocate_ckey g (CDouble_NaN w u) = CDouble_NaN (g w) u"
| "relocate_ckey g (CComplex a b) = CComplex (relocate_ckey g a) (relocate_ckey g b)"
| "relocate_ckey g (CCons a b) = CCons (relocate_ckey g a) (relocate_ckey g b)"
| "relocate_ckey g (CArray cs) = CArray (map (relocate_ckey g) cs)"
| "relocate_ckey g c = c"

lemma relocate_ckey_eq: "inj g \<Longrightarrow> relocate_ckey g a = relocate_ckey g b \<longleftrightarrow> a = b"
proof (induction a arbitrary: b)
  case (CArray cs)
  then show ?case
  proof (cases b)
    case (CArray ds)
    have "inj_on (relocate_ckey g) (set cs \<union> set ds)" if "map (relocate_ckey g) cs = map (relocate_ckey g) ds"
    proof (rule inj_onI)
      fix x y assume xy: "x \<in> set cs \<union> set ds" "y \<in> set cs \<union> set ds" "relocate_ckey g x = relocate_ckey g y"
      have img: "relocate_ckey g ` set cs = relocate_ckey g ` set ds" using that by (metis list.set_map)
      obtain z where z: "z \<in> set cs" "relocate_ckey g z = relocate_ckey g x"
      proof (cases "x \<in> set cs")
        case False
        then have "relocate_ckey g x \<in> relocate_ckey g ` set cs" using xy(1) img by blast
        then show ?thesis using that by (metis imageE)
      qed simp
      show "x = y" using CArray.IH [OF z(1) CArray.prems] z(2) xy(3) by metis
    qed
    then show ?thesis using CArray by (auto dest: map_inj_on)
  qed auto
next
  case (CWord w) then show ?case by (cases b) (auto dest: injD)
next
  case (CNaN w u) then show ?case by (cases b) (auto dest: injD)
next
  case (CDouble_NaN w u) then show ?case by (cases b) (auto dest: injD)
next
  case (CComplex c d) then show ?case by (cases b) auto
next
  case (CCons c d) then show ?case by (cases b) auto
next
  case (CChar u) then show ?case by (cases b) auto
next
  case (CBignum bn) then show ?case by (cases b) auto
next
  case (CRatio n d) then show ?case by (cases b) auto
next
  case (CSingle u) then show ?case by (cases b) auto
next
  case (CDouble u) then show ?case by (cases b) auto
next
  case (CString s) then show ?case by (cases b) auto
next
  case (CBits bs) then show ?case by (cases b) auto
qed

lemma canon_relocate: "heap_moves g M M' \<Longrightarrow> good_key M t k \<Longrightarrow> canon t (relocate g k) = relocate_ckey g (canon t k)"
proof (induction k)
  case (Immediate w)
  then show ?case by (simp add: good_key_def moves_parts(4))
next
  case (Complex_At w a b)
  then show ?case using good_parts(1) [OF Complex_At(4)] by simp
next
  case (Cons_At w a b)
  then show ?case using good_parts(2) [OF Cons_At(4)] by simp
next
  case (Vector_At w fl xs)
  have "\<forall>x\<in>set xs. good_key M t x" if "t = CL_HT_TEST_EQUALP" using good_parts(3) [OF Vector_At(3) _ that] by (simp add: is_equalp_xarr_def)
  then show ?case using Vector_At by auto
qed (auto simp: csingle_def cdouble_def moves_parts(4) fixnum_word)

lemma keys_equal_relocate:
  assumes "heap_moves g M M'" "good_key M t a" "good_key M t b"
  shows "keys_equal (relocate g a) (relocate g b) t = keys_equal a b t"
  using keys_equal_canon(1) [OF assms(2,3)] keys_equal_canon(1) [OF moved_good moved_good, OF assms(1,2) assms(1,3)]
    canon_relocate [OF assms(1)] relocate_ckey_eq moves_parts(1) [OF assms(1)] assms by simp

section \<open>Hashes after a move\<close>

lemma real_hash: "real_key a \<Longrightarrow> t \<noteq> CL_HT_TEST_EQ \<Longrightarrow> hash_obj (relocate g a) t = hash_obj a t"
  by (cases a) (simp_all add: real_key_def)

lemma stable_hash:
  assumes "heap_moves g M M'" "good_key M t k" "\<not> gc_key_addr_sensitive k t"
  shows "hash_obj (relocate g k) t = hash_obj k t"
  using assms(2,3)
proof (induction k)
  case (Complex_At w a b)
  then show ?case using real_hash by (simp add: good_key_def)
next
  case (Cons_At w a b)
  then show ?case using good_parts(2) [OF Cons_At(3)] by simp
qed auto

end
