(* ===== verification/Hashtab.thy ===== *)
theory Hashtab
  imports Keys_Move
begin

unbundle bit_operations_syntax

text \<open>
  Hash tables (\<open>builtins_hashtable.c\<close>, \<open>cl_make_hashtable\<close> of \<open>mem.c\<close>): creation, lookup, insertion with and without other threads,
  removal, growth, and the rehash after a compaction (\<open>gc_compact.c\<close>).  A bucket is the list of
  its entries; the buckets are in the table itself until it first grows, then in a vector.
\<close>

section \<open>Tables\<close>

type_synonym bucket_chain = "(lobj \<times> lobj) list"

record CL_Hashtable =
  ht_test :: u32
  ht_count :: u32
  bucket_count :: u32
  ht_flags :: u32
  bucket_vec :: "bucket_chain list option"
  inline_buckets :: "bucket_chain list"

definition CL_HT_MAX_BUCKETS :: u32 where "CL_HT_MAX_BUCKETS = push_bit 20 1"
definition CL_MAX_HT_BUCKETS :: u32 where "CL_MAX_HT_BUCKETS = push_bit 20 1"
definition CL_HT_FLAG_SYNC :: u32 where "CL_HT_FLAG_SYNC = 1"
definition CL_HT_DEFAULT_BUCKETS :: u32 where "CL_HT_DEFAULT_BUCKETS = 16"

definition ht_get_buckets :: "CL_Hashtable \<Rightarrow> bucket_chain list" where
  "ht_get_buckets ht = (case bucket_vec ht of Some v \<Rightarrow> v | None \<Rightarrow> inline_buckets ht)"

definition set_buckets :: "bucket_chain list \<Rightarrow> CL_Hashtable \<Rightarrow> CL_Hashtable" where
  "set_buckets bs ht = (case bucket_vec ht of Some _ \<Rightarrow> ht \<lparr> bucket_vec := Some bs \<rparr> | None \<Rightarrow> ht \<lparr> inline_buckets := bs \<rparr>)"

text \<open>The number of buckets is a power of two, so the mask takes the remainder.\<close>

definition bucket_index :: "lobj \<Rightarrow> u32 \<Rightarrow> u32 \<Rightarrow> nat" where
  "bucket_index key test n = unat (hash_obj key test AND (n - 1))"

function pow2_loop :: "nat \<Rightarrow> nat \<Rightarrow> nat" where
  "pow2_loop p n = (if 0 < p \<and> p < n then pow2_loop (p * 2) n else p)"
  by pat_completeness auto
termination by (relation "measure (\<lambda>(p, n). n - p)") auto

declare pow2_loop.simps [simp del]

definition cl_make_hashtable :: "u32 \<Rightarrow> u32 \<Rightarrow> CL_Hashtable res" where
  "cl_make_hashtable n test =
     (if n > CL_MAX_HT_BUCKETS then Inl Storage_Error
      else let p = pow2_loop 1 (unat (if n < 2 then 2 else n)) in
        Inr \<lparr> ht_test = test, ht_count = 0, bucket_count = of_nat p, ht_flags = 0, bucket_vec = None, inline_buckets = replicate p [] \<rparr>)"

text \<open>
  The pairs of arguments of \<open>make-hash-table\<close>: a test is given by the name of a symbol or of a
  function, or it is something else (\<open>None\<close>).
\<close>

datatype ht_arg = Test_Arg "string option" | Size_Arg lobj | Other_Arg

fun test_by_name :: "string \<Rightarrow> string option \<Rightarrow> u32 res" where
  "test_by_name who (Some name) =
     (if name = ''EQ'' then Inr CL_HT_TEST_EQ else if name = ''EQL'' then Inr CL_HT_TEST_EQL
      else if name = ''EQUAL'' then Inr CL_HT_TEST_EQUAL else if name = ''EQUALP'' then Inr CL_HT_TEST_EQUALP
      else Inl (Args_Error who))"
| "test_by_name who None = Inl (Args_Error who)"

fun size_hint :: "lobj \<Rightarrow> u32 res" where
  "size_hint (Immediate w) =
     (if \<not> CL_FIXNUM_P w then Inl (Type_Error ''MAKE-HASH-TABLE'')
      else if CL_FIXNUM_VAL w < 0 then Inl (Type_Error ''MAKE-HASH-TABLE'')
      else let requested = word_of_int (CL_FIXNUM_VAL w);
               requested = (if requested < 1 then 1 else requested);
               requested = (if requested > CL_HT_MAX_BUCKETS then CL_HT_MAX_BUCKETS else requested);
               sz = (requested * 4 + 2) div 3
           in Inr (if sz > CL_HT_MAX_BUCKETS then CL_HT_MAX_BUCKETS else sz))"
| "size_hint _ = Inl (Type_Error ''MAKE-HASH-TABLE'')"

fun ht_args :: "ht_arg list \<Rightarrow> u32 \<Rightarrow> u32 \<Rightarrow> (u32 \<times> u32) res" where
  "ht_args [] test sz = Inr (test, sz)"
| "ht_args (Test_Arg name # as) test sz = bindr (test_by_name ''MAKE-HASH-TABLE'' name) (\<lambda>test. ht_args as test sz)"
| "ht_args (Size_Arg n # as) test sz = bindr (size_hint n) (\<lambda>sz. ht_args as test sz)"
| "ht_args (Other_Arg # as) test sz = ht_args as test sz"

definition bi_make_hash_table :: "ht_arg list \<Rightarrow> CL_Hashtable res" where
  "bi_make_hash_table args = bindr (ht_args args CL_HT_TEST_EQL CL_HT_DEFAULT_BUCKETS) (\<lambda>(test, sz). cl_make_hashtable sz test)"

definition bi_make_sync_hash_table :: "string option \<Rightarrow> CL_Hashtable res" where
  "bi_make_sync_hash_table name =
     bindr (test_by_name ''%MAKE-SYNC-HASH-TABLE'' name) (\<lambda>test. bindr (cl_make_hashtable CL_HT_DEFAULT_BUCKETS test)
       (\<lambda>ht. Inr (ht \<lparr> ht_flags := ht_flags ht OR CL_HT_FLAG_SYNC \<rparr>)))"

section \<open>Chains\<close>

text \<open>The loops over a chain, for the condition that a key is the one looked for.\<close>

fun chain_find :: "('k \<Rightarrow> bool) \<Rightarrow> ('k \<times> 'v) list \<Rightarrow> 'v option" where
  "chain_find p [] = None"
| "chain_find p ((k, v) # c) = (if p k then Some v else chain_find p c)"

fun chain_set :: "('k \<Rightarrow> bool) \<Rightarrow> 'v \<Rightarrow> ('k \<times> 'v) list \<Rightarrow> ('k \<times> 'v) list option" where
  "chain_set p value [] = None"
| "chain_set p value ((k, v) # c) = (if p k then Some ((k, value) # c) else map_option (Cons (k, v)) (chain_set p value c))"

fun chain_remove :: "('k \<Rightarrow> bool) \<Rightarrow> ('k \<times> 'v) list \<Rightarrow> ('k \<times> 'v) list option" where
  "chain_remove p [] = None"
| "chain_remove p ((k, v) # c) = (if p k then Some c else map_option (Cons (k, v)) (chain_remove p c))"

text \<open>An entry is put before those of its bucket.\<close>

definition relink :: "('k \<Rightarrow> nat) \<Rightarrow> 'k \<times> 'v \<Rightarrow> ('k \<times> 'v) list list \<Rightarrow> ('k \<times> 'v) list list" where
  "relink idx entry bs = bs[idx (fst entry) := entry # bs ! idx (fst entry)]"

section \<open>Lookup and growth\<close>

definition require_hash_table :: "CL_Hashtable option \<Rightarrow> string \<Rightarrow> CL_Hashtable res" where
  "require_hash_table obj who = (case obj of Some ht \<Rightarrow> Inr ht | None \<Rightarrow> Inl (Type_Error who))"

text \<open>The value, and whether the key was found.\<close>

definition bi_gethash :: "lobj \<Rightarrow> CL_Hashtable option \<Rightarrow> lobj \<Rightarrow> (lobj \<times> bool) res" where
  "bi_gethash key obj default_val =
     bindr (require_hash_table obj ''GETHASH'') (\<lambda>ht.
       let chain = ht_get_buckets ht ! bucket_index key (ht_test ht) (bucket_count ht) in
       Inr (case chain_find (\<lambda>k. keys_equal k key (ht_test ht)) chain of Some v \<Rightarrow> (v, True) | None \<Rightarrow> (default_val, False)))"

definition ht_rehash_into :: "u32 \<Rightarrow> CL_Hashtable \<Rightarrow> CL_Hashtable" where
  "ht_rehash_into new_count ht =
     (let new = fold (relink (\<lambda>key. bucket_index key (ht_test ht) new_count))
                  (concat (take (unat (bucket_count ht)) (ht_get_buckets ht))) (replicate (unat new_count) [])
      in ht \<lparr> bucket_vec := Some new, bucket_count := new_count \<rparr>)"

section \<open>Collections\<close>

text \<open>After a compaction the entries are collected, last one first, and put into their new buckets.\<close>

definition gc_rehash_table :: "CL_Hashtable \<Rightarrow> CL_Hashtable" where
  "gc_rehash_table ht =
     (let n = unat (bucket_count ht); bs = ht_get_buckets ht; entries = concat (take n bs) in
      if \<not> list_ex (\<lambda>(k, v). gc_key_addr_sensitive k (ht_test ht)) entries then ht
      else set_buckets (fold (relink (\<lambda>key. bucket_index key (ht_test ht) (bucket_count ht))) (rev entries)
             (replicate n [] @ drop n bs)) ht)"

definition move_table :: "(u32 \<Rightarrow> u32) \<Rightarrow> CL_Hashtable \<Rightarrow> CL_Hashtable" where
  "move_table g ht = ht \<lparr> bucket_vec := map_option (map (map (map_prod (relocate g) (relocate g)))) (bucket_vec ht),
     inline_buckets := map (map (map_prod (relocate g) (relocate g))) (inline_buckets ht) \<rparr>"

text \<open>
  An allocation may run a collection, \<open>Some g\<close> for one with the moves \<open>g\<close>: then the objects held in
  registered variables are the moved ones, and the tables have been rehashed.
\<close>

type_synonym collection = "(u32 \<Rightarrow> u32) option"

definition collect_table :: "collection \<Rightarrow> CL_Hashtable \<Rightarrow> CL_Hashtable" where
  "collect_table gc ht = (case gc of None \<Rightarrow> ht | Some g \<Rightarrow> gc_rehash_table (move_table g ht))"

definition collect_obj :: "collection \<Rightarrow> lobj \<Rightarrow> lobj" where
  "collect_obj gc obj = (case gc of None \<Rightarrow> obj | Some g \<Rightarrow> relocate g obj)"

section \<open>Insertion\<close>

text \<open>\<open>got\<close> says whether the larger vector could be allocated; \<open>value\<close> is held across that.\<close>

definition ht_maybe_rehash :: "collection \<Rightarrow> bool \<Rightarrow> CL_Hashtable \<Rightarrow> lobj \<Rightarrow> CL_Hashtable \<times> lobj" where
  "ht_maybe_rehash gc got ht value =
     (let old_count = bucket_count ht; new_count = old_count * 2 in
      if ht_count ht \<le> (old_count * 3) div 4 then (ht, value)
      else if new_count > CL_HT_MAX_BUCKETS then (ht, value)
      else let ht = collect_table gc ht; value = collect_obj gc value in
        if \<not> got then (ht, value) else (ht_rehash_into new_count ht, value))"

text \<open>Overwrite the value of a key that is present.\<close>

definition ht_overwrite :: "lobj \<Rightarrow> lobj \<Rightarrow> CL_Hashtable \<Rightarrow> CL_Hashtable option" where
  "ht_overwrite key value ht =
     (let bs = ht_get_buckets ht; i = bucket_index key (ht_test ht) (bucket_count ht) in
      map_option (\<lambda>c. set_buckets (bs[i := c]) ht) (chain_set (\<lambda>k. keys_equal k key (ht_test ht)) value (bs ! i)))"

text \<open>Put a new entry first in its bucket.\<close>

definition ht_insert :: "lobj \<Rightarrow> lobj \<Rightarrow> CL_Hashtable \<Rightarrow> CL_Hashtable" where
  "ht_insert key value ht =
     set_buckets (relink (\<lambda>key. bucket_index key (ht_test ht) (bucket_count ht)) (key, value) (ht_get_buckets ht)) ht
       \<lparr> ht_count := ht_count ht + 1 \<rparr>"

text \<open>
  Insertion into a synchronized table: the larger vector is allocated for the table as it is before the lock is
  taken (\<open>ht0\<close>), and used only if the table (\<open>ht\<close>) has not grown until then.
\<close>

definition bi_setf_gethash_sync :: "bool \<Rightarrow> CL_Hashtable \<Rightarrow> CL_Hashtable \<Rightarrow> lobj \<Rightarrow> lobj \<Rightarrow> CL_Hashtable" where
  "bi_setf_gethash_sync got ht0 ht key value =
     (let n = bucket_count ht0;
          pre_vec = (if ht_count ht0 + 1 > (n * 3) div 4 \<and> n * 2 \<le> CL_HT_MAX_BUCKETS \<and> got then Some (n * 2) else None) in
      case ht_overwrite key value ht of
        Some ht \<Rightarrow> ht
      | None \<Rightarrow> let ht = ht_insert key value ht in
          case pre_vec of
            None \<Rightarrow> ht
          | Some len \<Rightarrow> if ht_count ht > (bucket_count ht * 3) div 4 \<and> len = bucket_count ht * 2 then ht_rehash_into len ht else ht)"

text \<open>
  \<open>gc0\<close> and \<open>gc1\<close> are the collections run by the allocations of the two cells of a new entry, \<open>gc2\<close> by that of a
  larger vector; \<open>before1\<close> and \<open>before2\<close> are what collections and other threads do to the table, the key and the
  value until the larger vector is chosen and until the lock is taken.
\<close>

definition bi_setf_gethash :: "collection \<Rightarrow> collection \<Rightarrow> collection \<Rightarrow> bool \<Rightarrow> bool \<Rightarrow> (CL_Hashtable \<times> lobj \<times> lobj \<Rightarrow> CL_Hashtable \<times> lobj \<times> lobj)
    \<Rightarrow> (CL_Hashtable \<times> lobj \<times> lobj \<Rightarrow> CL_Hashtable \<times> lobj \<times> lobj) \<Rightarrow> lobj \<Rightarrow> CL_Hashtable option \<Rightarrow> lobj \<Rightarrow> (CL_Hashtable \<times> lobj) res" where
  "bi_setf_gethash gc0 gc1 gc2 got multithread before1 before2 key obj value =
     bindr (require_hash_table obj ''(SETF GETHASH)'') (\<lambda>ht.
       if ht_flags ht AND CL_HT_FLAG_SYNC \<noteq> 0 \<and> multithread
         then let (ht0, key, value) = before1 (ht, key, value); (ht, key, value) = before2 (ht0, key, value)
              in Inr (bi_setf_gethash_sync got ht0 ht key value, value)
       else case ht_overwrite key value ht of
           Some ht \<Rightarrow> Inr (ht, value)
         | None \<Rightarrow> let ht = collect_table gc0 ht; key = collect_obj gc0 key; value = collect_obj gc0 value;
                       ht = collect_table gc1 ht; key = collect_obj gc1 key; value = collect_obj gc1 value
                   in Inr (ht_maybe_rehash gc2 got (ht_insert key value ht) value))"

section \<open>Removal and inspection\<close>

definition bi_remhash :: "lobj \<Rightarrow> CL_Hashtable option \<Rightarrow> (CL_Hashtable \<times> bool) res" where
  "bi_remhash key obj =
     bindr (require_hash_table obj ''REMHASH'') (\<lambda>ht.
       let bs = ht_get_buckets ht; i = bucket_index key (ht_test ht) (bucket_count ht) in
       Inr (case chain_remove (\<lambda>k. keys_equal k key (ht_test ht)) (bs ! i) of
           Some c \<Rightarrow> (set_buckets (bs[i := c]) ht \<lparr> ht_count := ht_count ht - 1 \<rparr>, True)
         | None \<Rightarrow> (ht, False)))"

definition bi_clrhash :: "CL_Hashtable option \<Rightarrow> CL_Hashtable res" where
  "bi_clrhash obj =
     bindr (require_hash_table obj ''CLRHASH'') (\<lambda>ht.
       Inr (set_buckets (replicate (unat (bucket_count ht)) [] @ drop (unat (bucket_count ht)) (ht_get_buckets ht)) ht \<lparr> ht_count := 0 \<rparr>))"

definition bi_hash_table_count :: "CL_Hashtable option \<Rightarrow> CL_Obj res" where
  "bi_hash_table_count obj = bindr (require_hash_table obj ''HASH-TABLE-COUNT'') (\<lambda>ht. Inr (CL_MAKE_FIXNUM (uint (ht_count ht))))"

definition bi_hash_table_size :: "CL_Hashtable option \<Rightarrow> CL_Obj res" where
  "bi_hash_table_size obj = bindr (require_hash_table obj ''HASH-TABLE-SIZE'') (\<lambda>ht. Inr (CL_MAKE_FIXNUM (sint (bucket_count ht))))"

definition bi_hash_table_pairs :: "CL_Hashtable option \<Rightarrow> bucket_chain res" where
  "bi_hash_table_pairs obj =
     bindr (require_hash_table obj ''%HASH-TABLE-PAIRS'') (\<lambda>ht. Inr (rev (concat (take (unat (bucket_count ht)) (ht_get_buckets ht)))))"

text \<open>The comparison of two tables, \<open>same\<close> when they are one object.\<close>

definition cl_hashtable_equalp :: "bool \<Rightarrow> CL_Hashtable \<Rightarrow> CL_Hashtable \<Rightarrow> (lobj \<Rightarrow> lobj \<Rightarrow> bool) \<Rightarrow> bool" where
  "cl_hashtable_equalp same a b val_eq =
     (if same then True
      else if ht_test a \<noteq> ht_test b then False
      else if ht_count a \<noteq> ht_count b then False
      else list_all (\<lambda>(k, v).
             case chain_find (\<lambda>k'. keys_equal k' k (ht_test b)) (ht_get_buckets b ! bucket_index k (ht_test b) (bucket_count b)) of
               Some v' \<Rightarrow> val_eq v v' | None \<Rightarrow> False)
           (concat (take (unat (bucket_count a)) (ht_get_buckets a))))"

definition bi_sxhash :: "lobj \<Rightarrow> CL_Obj" where
  "bi_sxhash obj = CL_MAKE_FIXNUM (uint (hash_obj obj CL_HT_TEST_EQUAL AND 0x3FFFFFFF))"

text \<open>\<open>call\<close> is what the function does to the rest of the state; it leaves the table as it is.\<close>

definition bi_maphash :: "(lobj \<Rightarrow> lobj \<Rightarrow> 's \<Rightarrow> 's) \<Rightarrow> CL_Hashtable option \<Rightarrow> 's \<Rightarrow> 's res" where
  "bi_maphash call obj s =
     bindr (require_hash_table obj ''MAPHASH'') (\<lambda>ht.
       Inr (fold (\<lambda>(k, v). call k v) (concat (take (unat (bucket_count ht)) (ht_get_buckets ht))) s))"

definition bi_hash_table_test :: "CL_Hashtable option \<Rightarrow> string res" where
  "bi_hash_table_test obj =
     bindr (require_hash_table obj ''HASH-TABLE-TEST'') (\<lambda>ht.
       Inr (if ht_test ht = CL_HT_TEST_EQ then ''EQ'' else if ht_test ht = CL_HT_TEST_EQL then ''EQL''
            else if ht_test ht = CL_HT_TEST_EQUAL then ''EQUAL'' else if ht_test ht = CL_HT_TEST_EQUALP then ''EQUALP''
            else ''EQL''))"

end
