(* ===== verification/Buckets.thy ===== *)
theory Buckets
  imports Hashtab
begin

unbundle bit_operations_syntax

text \<open>
  What a table relies on: comparison of good keys is equality of a representative, and equal
  keys have equal bucket indices.
\<close>

section \<open>Buckets under a key contract\<close>

definition buckets_ok :: "('k \<Rightarrow> bool) \<Rightarrow> ('k \<Rightarrow> 'c) \<Rightarrow> ('k \<Rightarrow> nat) \<Rightarrow> ('k \<times> 'v) list list \<Rightarrow> bool" where
  "buckets_ok good rep idx bs \<longleftrightarrow>
     (\<forall>i<length bs. distinct (map (\<lambda>(k, v). rep k) (bs ! i)) \<and> (\<forall>(k, v)\<in>set (bs ! i). good k \<and> idx k = i))"

definition bucket_map :: "('k \<Rightarrow> 'c) \<Rightarrow> ('k \<times> 'v) list list \<Rightarrow> ('c \<rightharpoonup> 'v) \<Rightarrow> bool" where
  "bucket_map rep bs m \<longleftrightarrow> (\<forall>c v. m c = Some v \<longleftrightarrow> (\<exists>i<length bs. \<exists>k. (k, v) \<in> set (bs ! i) \<and> rep k = c))"

lemma chain_set_split:
  "chain_set p w c = Some c' \<Longrightarrow> \<exists>xs k v ys. c = xs @ (k, v) # ys \<and> p k \<and> c' = xs @ (k, w) # ys"
  "chain_set p w c = None \<Longrightarrow> (k, v) \<in> set c \<Longrightarrow> \<not> p k"
proof (induction c arbitrary: c')
  case (Cons e c)
  obtain k' v' where e: "e = (k', v')" by (cases e)
  { case 1
    then show ?case
    proof (cases "p k'")
      case True
      then show ?thesis using 1 e by (intro exI [of _ "[]"]) auto
    next
      case False
      then obtain d where "chain_set p w c = Some d" "c' = (k', v') # d" using 1 e by auto
      then show ?thesis using Cons.IH(1) e by (metis append_Cons)
    qed
  next
    case 2
    then show ?case using Cons.IH(2) e by (auto split: if_splits)
  }
qed simp_all

lemma chain_remove_split:
  "chain_remove p c = Some c' \<Longrightarrow> \<exists>xs k v ys. c = xs @ (k, v) # ys \<and> p k \<and> c' = xs @ ys"
  "chain_remove p c = None \<Longrightarrow> (k, v) \<in> set c \<Longrightarrow> \<not> p k"
proof (induction c arbitrary: c')
  case (Cons e c)
  obtain k' v' where e: "e = (k', v')" by (cases e)
  { case 1
    then show ?case
    proof (cases "p k'")
      case True
      then show ?thesis using 1 e by (intro exI [of _ "[]"]) auto
    next
      case False
      then obtain d where "chain_remove p c = Some d" "c' = (k', v') # d" using 1 e by auto
      then show ?thesis using Cons.IH(1) e by (metis append_Cons)
    qed
  next
    case 2
    then show ?case using Cons.IH(2) e by (auto split: if_splits)
  }
qed simp_all

abbreviation chain_reps :: "('k \<Rightarrow> 'c) \<Rightarrow> ('k \<times> 'v) list \<Rightarrow> 'c list" where
  "chain_reps rep c \<equiv> map (\<lambda>(k, v). rep k) c"

locale key_contract =
  fixes good :: "'k \<Rightarrow> bool" and eq :: "'k \<Rightarrow> 'k \<Rightarrow> bool" and rep :: "'k \<Rightarrow> 'c" and idx :: "'k \<Rightarrow> nat" and n :: nat
  assumes eq_rep: "good a \<Longrightarrow> good b \<Longrightarrow> eq a b \<longleftrightarrow> rep a = rep b"
    and idx_rep: "good a \<Longrightarrow> good b \<Longrightarrow> rep a = rep b \<Longrightarrow> idx a = idx b"
    and idx_less: "good a \<Longrightarrow> idx a < n"
begin

lemma chain_at:
  assumes ok: "buckets_ok good rep idx bs" and m: "bucket_map rep bs m" and len: "length bs = n" and k: "good key"
  shows "m (rep key) = map_of (map (\<lambda>(k, v). (rep k, v)) (bs ! idx key)) (rep key)"
proof -
  let ?c = "map (\<lambda>(k, v). (rep k, v)) (bs ! idx key)"
  have i: "idx key < length bs" using idx_less [OF k] len by simp
  have d: "distinct (map fst ?c)" using ok i by (simp add: buckets_ok_def comp_def case_prod_unfold)
  have "m (rep key) = Some v \<longleftrightarrow> map_of ?c (rep key) = Some v" for v
  proof -
    have "m (rep key) = Some v \<longleftrightarrow> (\<exists>j<length bs. \<exists>k. (k, v) \<in> set (bs ! j) \<and> rep k = rep key)" using m by (simp add: bucket_map_def)
    also have "\<dots> \<longleftrightarrow> (\<exists>k. (k, v) \<in> set (bs ! idx key) \<and> rep k = rep key)"
    proof
      assume "\<exists>j<length bs. \<exists>k. (k, v) \<in> set (bs ! j) \<and> rep k = rep key"
      then obtain j k' where j: "j < length bs" "(k', v) \<in> set (bs ! j)" "rep k' = rep key" by blast
      have "good k' \<and> idx k' = j" using ok j unfolding buckets_ok_def by blast
      then show "\<exists>k. (k, v) \<in> set (bs ! idx key) \<and> rep k = rep key" using idx_rep [OF _ k j(3)] j by auto
    qed (use i in blast)
    also have "\<dots> \<longleftrightarrow> map_of ?c (rep key) = Some v" unfolding map_of_eq_Some_iff [OF d] by force
    finally show ?thesis .
  qed
  then show ?thesis by (metis not_None_eq)
qed

lemma find_rep: "\<forall>(k, v)\<in>set c. good k \<Longrightarrow> good key \<Longrightarrow> chain_find (\<lambda>k. eq k key) c = map_of (map (\<lambda>(k, v). (rep k, v)) c) (rep key)"
  by (induction c) (auto simp: eq_rep)

lemma find_correct:
  assumes "buckets_ok good rep idx bs" "bucket_map rep bs m" "length bs = n" "good key"
  shows "chain_find (\<lambda>k. eq k key) (bs ! idx key) = m (rep key)"
proof -
  have "\<forall>(k, v)\<in>set (bs ! idx key). good k" using assms(1,3) idx_less [OF assms(4)] by (auto simp: buckets_ok_def)
  then show ?thesis using find_rep assms(4) chain_at [OF assms] by simp
qed

text \<open>A new chain for one bucket.\<close>

lemma bucket_entry: "bucket_map rep bs m \<Longrightarrow> i < length bs \<Longrightarrow> (k, v) \<in> set (bs ! i) \<Longrightarrow> m (rep k) = Some v"
  unfolding bucket_map_def by blast

lemma replace_chain:
  assumes ok: "buckets_ok good rep idx bs" and m: "bucket_map rep bs m" and i: "i < length bs"
    and c: "distinct (chain_reps rep c)" "\<forall>(k, v)\<in>set c. good k \<and> idx k = i"
    and new: "\<And>k v. (k, v) \<in> set c \<Longrightarrow> m' (rep k) = Some v"
    and gone: "\<And>r. r \<in> set (chain_reps rep (bs ! i)) \<Longrightarrow> r \<notin> set (chain_reps rep c) \<Longrightarrow> m' r = None"
    and kept: "\<And>r. r \<notin> set (chain_reps rep (bs ! i)) \<Longrightarrow> r \<notin> set (chain_reps rep c) \<Longrightarrow> m' r = m r"
  shows "buckets_ok good rep idx (bs[i := c])" "bucket_map rep (bs[i := c]) m'"
proof -
  show "buckets_ok good rep idx (bs[i := c])" using ok c i by (auto simp: buckets_ok_def nth_list_update)
  have info: "good k \<and> idx k = j" if "j < length bs" "(k, v) \<in> set (bs ! j)" for j k v using ok that unfolding buckets_ok_def by blast
  have cross: "rep k \<notin> set (chain_reps rep (bs ! i)) \<and> rep k \<notin> set (chain_reps rep c)" if j: "j < length bs" "j \<noteq> i" "(k, v) \<in> set (bs ! j)" for j k v
  proof -
    have "rep k' \<noteq> rep k" if "(k', v') \<in> set (bs ! i) \<or> (k', v') \<in> set c" for k' v'
    proof
      assume "rep k' = rep k"
      moreover have "good k' \<and> idx k' = i" using that info [OF i] c(2) by blast
      ultimately show False using idx_rep [of k' k] info [OF j(1,3)] j(2) by simp
    qed
    then show ?thesis by (auto; metis)
  qed
  show "bucket_map rep (bs[i := c]) m'" unfolding bucket_map_def
  proof (intro allI iffI)
    fix r v assume r: "m' r = Some v"
    show "\<exists>j<length (bs[i := c]). \<exists>k. (k, v) \<in> set (bs[i := c] ! j) \<and> rep k = r"
    proof (cases "r \<in> set (chain_reps rep c)")
      case True
      then obtain k v' where k: "(k, v') \<in> set c" "rep k = r" by auto
      then have "v' = v" using new r by fastforce
      then show ?thesis using k i by (intro exI [of _ i]) auto
    next
      case False
      then have o: "r \<notin> set (chain_reps rep (bs ! i))" using gone r by fastforce
      have "m r = Some v" using kept [OF o False] r by simp
      then obtain j k where j: "j < length bs" "(k, v) \<in> set (bs ! j)" "rep k = r" "j \<noteq> i" using m o unfolding bucket_map_def by force
      then show ?thesis by (intro exI [of _ j]) auto
    qed
  next
    fix r v assume "\<exists>j<length (bs[i := c]). \<exists>k. (k, v) \<in> set (bs[i := c] ! j) \<and> rep k = r"
    then obtain j k where j: "j < length bs" "(k, v) \<in> set (bs[i := c] ! j)" "rep k = r" by auto
    show "m' r = Some v"
    proof (cases "j = i")
      case True
      then show ?thesis using new j i by auto
    next
      case False
      then have k: "(k, v) \<in> set (bs ! j)" using j(2) by simp
      then have "r \<notin> set (chain_reps rep (bs ! i))" "r \<notin> set (chain_reps rep c)" using cross [OF j(1) False k] j(3) by blast+
      from kept [OF this] show ?thesis using bucket_entry [OF m j(1) k] j(3) by simp
    qed
  qed
qed

text \<open>A bucket during a search.\<close>

lemma bucket_facts:
  assumes ok: "buckets_ok good rep idx bs" "bucket_map rep bs m" "length bs = n" "good key"
  shows "idx key < length bs" "distinct (chain_reps rep (bs ! idx key))" "\<forall>(k, v)\<in>set (bs ! idx key). good k \<and> idx k = idx key"
    "\<And>k v. (k, v) \<in> set (bs ! idx key) \<Longrightarrow> eq k key \<longleftrightarrow> rep k = rep key"
    "(\<And>k v. (k, v) \<in> set (bs ! idx key) \<Longrightarrow> rep k \<noteq> rep key) \<Longrightarrow> m (rep key) = None"
proof -
  show i: "idx key < length bs" using idx_less ok(3,4) by simp
  show "distinct (chain_reps rep (bs ! idx key))" and g: "\<forall>(k, v)\<in>set (bs ! idx key). good k \<and> idx k = idx key" using ok(1) i by (auto simp: buckets_ok_def)
  show "eq k key \<longleftrightarrow> rep k = rep key" if "(k, v) \<in> set (bs ! idx key)" for k v using eq_rep ok(4) g that by blast
  show "m (rep key) = None" if "\<And>k v. (k, v) \<in> set (bs ! idx key) \<Longrightarrow> rep k \<noteq> rep key"
    unfolding chain_at [OF ok] map_of_eq_None_iff using that by fastforce
qed

lemma overwrite_correct:
  assumes ok: "buckets_ok good rep idx bs" "bucket_map rep bs m" "length bs = n" "good key"
    and c: "chain_set (\<lambda>k. eq k key) w (bs ! idx key) = Some c"
  shows "buckets_ok good rep idx (bs[idx key := c])" "bucket_map rep (bs[idx key := c]) (m(rep key \<mapsto> w))" "m (rep key) \<noteq> None"
proof -
  let ?i = "idx key"
  note B = bucket_facts [OF ok]
  obtain xs k v ys where s: "bs ! ?i = xs @ (k, v) # ys" "eq k key" "c = xs @ (k, w) # ys" using chain_set_split(1) [OF c] by blast
  have r: "rep k = rep key" using B(4) s by auto
  have ch: "distinct (chain_reps rep c)" "\<forall>(k, v)\<in>set c. good k \<and> idx k = ?i" using B(2,3) s by auto
  have other: "rep k' \<noteq> rep key \<and> m (rep k') = Some v'" if "(k', v') \<in> set xs \<or> (k', v') \<in> set ys" for k' v'
  proof
    show "m (rep k') = Some v'" using that s(1) by (intro bucket_entry [OF ok(2) B(1)]) auto
    show "rep k' \<noteq> rep key" using that B(2) r unfolding s(1) by (auto simp: image_iff)
  qed
  have reps: "set (chain_reps rep c) = set (chain_reps rep (bs ! ?i))" "rep key \<in> set (chain_reps rep (bs ! ?i))" using s r by auto
  have new: "(m(rep key \<mapsto> w)) (rep k') = Some v'" if kc: "(k', v') \<in> set c" for k' v'
  proof -
    consider "k' = k" "v' = w" | "(k', v') \<in> set xs \<or> (k', v') \<in> set ys" using kc s(3) by auto
    then show ?thesis using r other by cases auto
  qed
  show "buckets_ok good rep idx (bs[?i := c])" "bucket_map rep (bs[?i := c]) (m(rep key \<mapsto> w))"
  proof -
    have gone: "(m(rep key \<mapsto> w)) q = None" if "q \<in> set (chain_reps rep (bs ! ?i))" "q \<notin> set (chain_reps rep c)" for q using that reps(1) by blast
    have kept: "(m(rep key \<mapsto> w)) q = m q" if "q \<notin> set (chain_reps rep (bs ! ?i))" for q using that reps(2) by (metis fun_upd_other)
    show "buckets_ok good rep idx (bs[?i := c])" "bucket_map rep (bs[?i := c]) (m(rep key \<mapsto> w))"
      by (rule replace_chain [OF ok(1,2) B(1) ch new gone kept], assumption+)+
  qed
  show "m (rep key) \<noteq> None" using bucket_entry [OF ok(2) B(1), of k v] s(1) r by auto
qed

lemma prepend_correct:
  assumes ok: "buckets_ok good rep idx bs" "bucket_map rep bs m" "length bs = n" "good key" and fresh: "m (rep key) = None"
  shows "buckets_ok good rep idx (relink idx (key, w) bs)" "bucket_map rep (relink idx (key, w) bs) (m(rep key \<mapsto> w))"
proof -
  let ?i = "idx key" and ?c = "(key, w) # bs ! idx key"
  note B = bucket_facts [OF ok]
  have out: "rep key \<notin> set (chain_reps rep (bs ! ?i))" using bucket_entry [OF ok(2) B(1)] fresh by fastforce
  have ch: "distinct (chain_reps rep ?c)" "\<forall>(k, v)\<in>set ?c. good k \<and> idx k = ?i" using B(2,3) out ok(4) by auto
  have new: "(m(rep key \<mapsto> w)) (rep k) = Some v" if kc: "(k, v) \<in> set ?c" for k v
  proof -
    consider "k = key" "v = w" | "(k, v) \<in> set (bs ! ?i)" using kc by auto
    then show ?thesis
    proof cases
      case 2
      then have "rep k \<noteq> rep key" using out by force
      then show ?thesis using bucket_entry [OF ok(2) B(1) 2] by simp
    qed simp
  qed
  have gone: "(m(rep key \<mapsto> w)) q = None" if "q \<in> set (chain_reps rep (bs ! ?i))" "q \<notin> set (chain_reps rep ?c)" for q using that by auto
  have kept: "(m(rep key \<mapsto> w)) q = m q" if "q \<notin> set (chain_reps rep ?c)" for q using that by auto
  show "buckets_ok good rep idx (relink idx (key, w) bs)" "bucket_map rep (relink idx (key, w) bs) (m(rep key \<mapsto> w))"
    unfolding relink_def fst_conv by (rule replace_chain [OF ok(1,2) B(1) ch new gone kept], assumption+)+
qed

lemma absent:
  assumes ok: "buckets_ok good rep idx bs" "bucket_map rep bs m" "length bs = n" "good key"
  shows "chain_set (\<lambda>k. eq k key) w (bs ! idx key) = None \<Longrightarrow> m (rep key) = None"
    "chain_remove (\<lambda>k. eq k key) (bs ! idx key) = None \<Longrightarrow> m (rep key) = None"
proof -
  note B = bucket_facts [OF ok]
  show "m (rep key) = None" if "chain_set (\<lambda>k. eq k key) w (bs ! idx key) = None" using chain_set_split(2) [OF that] B(4,5) by blast
  show "m (rep key) = None" if "chain_remove (\<lambda>k. eq k key) (bs ! idx key) = None" using chain_remove_split(2) [OF that] B(4,5) by blast
qed

lemma remove_correct:
  assumes ok: "buckets_ok good rep idx bs" "bucket_map rep bs m" "length bs = n" "good key"
    and c: "chain_remove (\<lambda>k. eq k key) (bs ! idx key) = Some c"
  shows "buckets_ok good rep idx (bs[idx key := c])" "bucket_map rep (bs[idx key := c]) (m(rep key := None))" "m (rep key) \<noteq> None"
proof -
  let ?i = "idx key"
  note B = bucket_facts [OF ok]
  obtain xs k v ys where s: "bs ! ?i = xs @ (k, v) # ys" "eq k key" "c = xs @ ys" using chain_remove_split(1) [OF c] by blast
  have r: "rep k = rep key" using B(4) s by auto
  have ch: "distinct (chain_reps rep c)" "\<forall>(k, v)\<in>set c. good k \<and> idx k = ?i" using B(2,3) s by auto
  have new: "(m(rep key := None)) (rep k') = Some v'" if kc: "(k', v') \<in> set c" for k' v'
  proof -
    have "m (rep k') = Some v'" using kc s(1,3) by (intro bucket_entry [OF ok(2) B(1)]) auto
    moreover have "rep k' \<noteq> rep key" using kc s(3) B(2) r unfolding s(1) by (auto simp: image_iff)
    ultimately show ?thesis by simp
  qed
  have gone: "(m(rep key := None)) q = None" if "q \<in> set (chain_reps rep (bs ! ?i))" "q \<notin> set (chain_reps rep c)" for q
    using that r s(1,3) by auto
  have kept: "(m(rep key := None)) q = m q" if "q \<notin> set (chain_reps rep (bs ! ?i))" for q using that s(1) r by auto
  show "buckets_ok good rep idx (bs[?i := c])" "bucket_map rep (bs[?i := c]) (m(rep key := None))"
    by (rule replace_chain [OF ok(1,2) B(1) ch new gone kept], assumption+)+
  show "m (rep key) \<noteq> None" using bucket_entry [OF ok(2) B(1), of k v] s(1) r by auto
qed

text \<open>Entries with different keys, put into empty buckets.\<close>

lemma empty_buckets: "buckets_ok good rep idx (replicate n [])" "bucket_map rep (replicate n []) Map.empty"
  by (simp_all add: buckets_ok_def bucket_map_def)

lemma relink_all:
  assumes "buckets_ok good rep idx bs" "bucket_map rep bs m" "length bs = n" "\<forall>(k, v)\<in>set es. good k \<and> m (rep k) = None" "distinct (chain_reps rep es)"
  shows "buckets_ok good rep idx (fold (relink idx) es bs) \<and> bucket_map rep (fold (relink idx) es bs) (m ++ map_of (map (\<lambda>(k, v). (rep k, v)) es))
    \<and> length (fold (relink idx) es bs) = n"
  using assms
proof (induction es arbitrary: bs m)
  case (Cons e es)
  obtain k v where e: "e = (k, v)" by (cases e)
  have g: "good k" "m (rep k) = None" using Cons.prems(4) e by auto
  note P = prepend_correct [OF Cons.prems(1-3) g, of v]
  have rest: "\<forall>(k', v')\<in>set es. good k' \<and> (m(rep k \<mapsto> v)) (rep k') = None" using Cons.prems(4,5) e by force
  let ?f = "map_of (map (\<lambda>(k, v). (rep k, v)) es)"
  have none: "?f (rep k) = None" using Cons.prems(5) e by (force simp: map_of_eq_None_iff)
  have "m(rep k \<mapsto> v) ++ ?f = m ++ map_of (map (\<lambda>(k, v). (rep k, v)) ((k, v) # es))"
  proof
    fix r
    show "(m(rep k \<mapsto> v) ++ ?f) r = (m ++ map_of (map (\<lambda>(k, v). (rep k, v)) ((k, v) # es))) r"
      using none by (cases "r = rep k"; cases "?f r") (simp_all add: map_add_def)
  qed
  then have eq: "m ++ map_of (map (\<lambda>(k, v). (rep k, v)) ((k, v) # es)) = m(rep k \<mapsto> v) ++ ?f" ..
  have len: "length (relink idx (k, v) bs) = n" using Cons.prems(3) by (simp add: relink_def)
  have d: "distinct (chain_reps rep es)" using Cons.prems(5) by simp
  show ?case unfolding e eq fold_Cons comp_apply by (rule Cons.IH [OF P len rest d])
qed (simp_all add: empty_map_add)

end

section \<open>Entries\<close>

text \<open>All entries of the buckets in one list, in the order in which the code walks over them.\<close>

abbreviation rep_entries :: "('k \<Rightarrow> 'c) \<Rightarrow> ('k \<times> 'v) list \<Rightarrow> ('c \<times> 'v) list" where
  "rep_entries rep es \<equiv> map (\<lambda>(k, v). (rep k, v)) es"

lemma rep_entries_fst: "map fst (rep_entries rep es) = chain_reps rep es"
  by (simp add: comp_def case_prod_unfold)

lemma in_concat_nth: "x \<in> set (concat bs) \<longleftrightarrow> (\<exists>i<length bs. x \<in> set (bs ! i))"
  by (metis in_set_conv_nth set_concat UN_iff)

lemma distinct_concat_index:
  assumes "\<forall>i<length bs. distinct (map f (bs ! i)) \<and> (\<forall>e\<in>set (bs ! i). h e = i + b)"
    and "\<And>e e'. e \<in> set (concat bs) \<Longrightarrow> e' \<in> set (concat bs) \<Longrightarrow> f e = f e' \<Longrightarrow> h e = h e'"
  shows "distinct (map f (concat bs))"
  using assms
proof (induction bs arbitrary: b)
  case (Cons c bs)
  have c: "distinct (map f c)" "\<forall>e\<in>set c. h e = b" using Cons.prems(1) by (auto dest: spec [of _ 0])
  have rest: "\<forall>i<length bs. distinct (map f (bs ! i)) \<and> (\<forall>e\<in>set (bs ! i). h e = i + Suc b)" using Cons.prems(1) by force
  have "h e > b" if "e \<in> set (concat bs)" for e
  proof -
    have "\<exists>i<length bs. e \<in> set (bs ! i)" using that unfolding in_concat_nth .
    then show ?thesis using rest by force
  qed
  then have "f e \<noteq> f e'" if "e \<in> set c" "e' \<in> set (concat bs)" for e e' using Cons.prems(2) [of e e'] c(2) that by fastforce
  then have "f ` set c \<inter> f ` set (concat bs) = {}" by blast
  moreover have "distinct (map f (concat bs))" using Cons.prems(2) by (intro Cons.IH [OF rest]) auto
  ultimately show ?case using c(1) by simp
next
  case Nil
  show ?case by simp
qed

lemma map_of_rename: "inj f \<Longrightarrow> map_of (map (\<lambda>(k, v). (f k, h v)) es) (f c) = map_option h (map_of es c)"
  by (induction es) (auto simp: inj_eq)

lemma map_of_rev: "distinct (map fst es) \<Longrightarrow> map_of (rev es) = map_of es"
  by (rule map_of_inject_set [THEN iffD2]) (simp_all add: rev_map [symmetric])

context key_contract
begin

lemma entries_good: "buckets_ok good rep idx bs \<Longrightarrow> (k, v) \<in> set (concat bs) \<Longrightarrow> good k"
  unfolding buckets_ok_def in_concat_nth by blast

lemma entries_distinct:
  assumes ok: "buckets_ok good rep idx bs"
  shows "distinct (chain_reps rep (concat bs))"
proof (rule distinct_concat_index [where h = "\<lambda>(k, v). idx k" and b = 0])
  show "\<forall>i<length bs. distinct (chain_reps rep (bs ! i)) \<and> (\<forall>e\<in>set (bs ! i). (case e of (k, v) \<Rightarrow> idx k) = i + 0)"
    using ok by (auto simp: buckets_ok_def)
next
  fix e e' assume e: "e \<in> set (concat bs)" "e' \<in> set (concat bs)" "(case e of (k, v) \<Rightarrow> rep k) = (case e' of (k, v) \<Rightarrow> rep k)"
  obtain k v k' v' where kv: "e = (k, v)" "e' = (k', v')" by (cases e; cases e')
  show "(case e of (k, v) \<Rightarrow> idx k) = (case e' of (k, v) \<Rightarrow> idx k)"
    using idx_rep [of k k'] entries_good [OF ok] e unfolding kv by simp
qed

lemma entries_map:
  assumes ok: "buckets_ok good rep idx bs"
  shows "bucket_map rep bs (map_of (rep_entries rep (concat bs)))"
proof -
  have d: "distinct (map fst (rep_entries rep (concat bs)))" unfolding rep_entries_fst by (rule entries_distinct [OF ok])
  have "(c, v) \<in> set (rep_entries rep (concat bs)) \<longleftrightarrow> (\<exists>k. (k, v) \<in> set (concat bs) \<and> rep k = c)" for c v by force
  then have "(c, v) \<in> set (rep_entries rep (concat bs)) \<longleftrightarrow> (\<exists>i<length bs. \<exists>k. (k, v) \<in> set (bs ! i) \<and> rep k = c)" for c v
    unfolding in_concat_nth by blast
  then show ?thesis unfolding bucket_map_def map_of_eq_Some_iff [OF d] by blast
qed

lemma entries_unique: "bucket_map rep bs m \<Longrightarrow> bucket_map rep bs m' \<Longrightarrow> m = m'"
  unfolding bucket_map_def by (intro ext) (metis not_Some_eq)

lemma relink_entries:
  assumes es: "\<forall>(k, v)\<in>set es. good k" "distinct (chain_reps rep es)"
  shows "buckets_ok good rep idx (fold (relink idx) es (replicate n []))" "bucket_map rep (fold (relink idx) es (replicate n [])) (map_of (rep_entries rep es))"
    "length (fold (relink idx) es (replicate n [])) = n"
  using relink_all [OF empty_buckets _ _ es(2)] es(1) by auto

end

lemma length_replace: "i < length bs \<Longrightarrow> length (concat (bs[i := c])) + length (bs ! i) = length (concat bs) + length c"
proof (induction bs arbitrary: i)
  case (Cons b bs)
  then show ?case by (cases i) auto
qed simp

lemma chain_lengths:
  "chain_set p w c = Some c' \<Longrightarrow> length c' = length c" "chain_remove p c = Some c' \<Longrightarrow> Suc (length c') = length c"
  using chain_set_split(1) [of p w c c'] chain_remove_split(1) [of p c c'] by auto

lemma length_relink: "idx (fst e) < length bs \<Longrightarrow> length (concat (relink idx e bs)) = Suc (length (concat bs))"
  using length_replace [of "idx (fst e)" bs "e # bs ! idx (fst e)"] by (simp add: relink_def)

lemma length_relink_all:
  "\<forall>e\<in>set es. idx (fst e) < length bs \<Longrightarrow> length (concat (fold (relink idx) es bs)) = length (concat bs) + length es"
proof (induction es arbitrary: bs)
  case (Cons e es)
  have "length (relink idx e bs) = length bs" by (simp add: relink_def)
  then show ?case using Cons.IH [of "relink idx e bs"] Cons.prems length_relink [of idx e bs] by simp
qed simp

end
