(* ===== verification/Hashtab_Laws.thy ===== *)
theory Hashtab_Laws
  imports Buckets
begin

unbundle bit_operations_syntax

text \<open>
  Hash tables as finite maps: what lookup finds after each operation, in a table whose
  buckets, bucket count and entry count agree.
\<close>

section \<open>Bucket indices\<close>

lemma bucket_index_low: "k < 32 \<Longrightarrow> bucket_index key t (2 ^ k) = unat (take_bit k (hash_obj key t))"
  by (simp add: bucket_index_def take_bit_eq_mask mask_eq_exp_minus_1)

lemma bucket_index_less: "k < 32 \<Longrightarrow> bucket_index key t (2 ^ k) < 2 ^ k"
  unfolding bucket_index_low by (simp add: unsigned_take_bit_eq)

lemma low31_bits: "take_bit 31 a = take_bit 31 (b :: u32) \<Longrightarrow> k < 32 \<Longrightarrow> take_bit k a = take_bit k b"
proof -
  assume e: "take_bit 31 a = take_bit 31 b" and k: "k < 32"
  then have "take_bit k (take_bit 31 a) = take_bit k (take_bit 31 b)" by simp
  then show ?thesis using k by (simp add: min_absorb1)
qed

lemma good_index: "good_key M t a \<Longrightarrow> good_key M t b \<Longrightarrow> canon t a = canon t b \<Longrightarrow> k < 32 \<Longrightarrow>
    bucket_index a t (2 ^ k) = bucket_index b t (2 ^ k)"
  using low31_bits [of "hash_obj a t" "hash_obj b t" k] hash_canon [of M t a] hash_canon [of M t b] by (simp add: bucket_index_low)

interpretation table: key_contract "good_key M t" "\<lambda>a b. keys_equal a b t" "canon t" "\<lambda>key. bucket_index key t (2 ^ (k mod 32))" "2 ^ (k mod 32)"
  for M t k
proof unfold_locales
  show "good_key M t a \<Longrightarrow> good_key M t b \<Longrightarrow> keys_equal a b t \<longleftrightarrow> canon t a = canon t b" for a b by (rule keys_equal_canon(1))
  show "good_key M t a \<Longrightarrow> good_key M t b \<Longrightarrow> canon t a = canon t b \<Longrightarrow>
      bucket_index a t (2 ^ (k mod 32)) = bucket_index b t (2 ^ (k mod 32))" for a b by (rule good_index) simp_all
  show "good_key M t a \<Longrightarrow> bucket_index a t (2 ^ (k mod 32)) < 2 ^ (k mod 32)" for a by (rule bucket_index_less) simp
qed

section \<open>Consistent tables\<close>

abbreviation table_index :: "CL_Hashtable \<Rightarrow> lobj \<Rightarrow> nat" where
  "table_index ht \<equiv> \<lambda>key. bucket_index key (ht_test ht) (bucket_count ht)"

definition ht_ok :: "(u32 \<Rightarrow> lobj) \<Rightarrow> CL_Hashtable \<Rightarrow> bool" where
  "ht_ok M ht \<longleftrightarrow>
     (\<exists>k. 1 \<le> k \<and> k \<le> 20 \<and> bucket_count ht = 2 ^ k \<and> length (ht_get_buckets ht) = 2 ^ k)
     \<and> buckets_ok (good_key M (ht_test ht)) (canon (ht_test ht)) (table_index ht) (ht_get_buckets ht)
     \<and> unat (ht_count ht) = length (concat (ht_get_buckets ht))"

definition ht_rep :: "(u32 \<Rightarrow> lobj) \<Rightarrow> CL_Hashtable \<Rightarrow> (ckey \<rightharpoonup> lobj) \<Rightarrow> bool" where
  "ht_rep M ht m \<longleftrightarrow> ht_ok M ht \<and> bucket_map (canon (ht_test ht)) (ht_get_buckets ht) m"

text \<open>What lookup finds.\<close>

definition ht_lookup :: "CL_Hashtable \<Rightarrow> lobj \<Rightarrow> lobj option" where
  "ht_lookup ht key = (case bi_gethash key (Some ht) (Immediate CL_NIL) of Inr (v, True) \<Rightarrow> Some v | _ \<Rightarrow> None)"

lemma ht_lookup_chain: "ht_lookup ht key = chain_find (\<lambda>k. keys_equal k key (ht_test ht)) (ht_get_buckets ht ! table_index ht key)"
  by (simp add: ht_lookup_def bi_gethash_def require_hash_table_def Let_def split: option.splits)

lemma set_buckets_simps [simp]:
  "ht_get_buckets (set_buckets bs ht) = bs" "ht_test (set_buckets bs ht) = ht_test ht" "ht_count (set_buckets bs ht) = ht_count ht"
  "bucket_count (set_buckets bs ht) = bucket_count ht" "ht_flags (set_buckets bs ht) = ht_flags ht"
  "ht_get_buckets (ht \<lparr> ht_count := c \<rparr>) = ht_get_buckets ht"
  by (simp_all add: set_buckets_def ht_get_buckets_def split: option.splits)

lemma unat_power: "k \<le> 20 \<Longrightarrow> unat ((2 :: u32) ^ k) = 2 ^ k"
proof -
  assume "k \<le> 20"
  then have "(2 :: nat) ^ k \<le> 2 ^ 20" by (intro power_increasing) simp_all
  then have "(2 :: nat) ^ k < 2 ^ LENGTH(32)" by simp
  then have "take_bit LENGTH(32) ((2 :: nat) ^ k) = 2 ^ k" by (rule take_bit_nat_eq_self)
  then have "unat (of_nat (2 ^ k) :: u32) = 2 ^ k" unfolding unsigned_of_nat by simp
  then show ?thesis by simp
qed

lemma ht_okD:
  assumes "ht_ok M ht"
  obtains k where "1 \<le> k" "k \<le> 20" "k < 32" "bucket_count ht = 2 ^ (k mod 32)" "length (ht_get_buckets ht) = 2 ^ (k mod 32)" "k mod 32 = k"
    "buckets_ok (good_key M (ht_test ht)) (canon (ht_test ht)) (\<lambda>key. bucket_index key (ht_test ht) (2 ^ (k mod 32))) (ht_get_buckets ht)"
    "unat (ht_count ht) = length (concat (ht_get_buckets ht))" "unat (bucket_count ht) = 2 ^ k" "take (unat (bucket_count ht)) (ht_get_buckets ht) = ht_get_buckets ht"
proof -
  obtain k where k: "1 \<le> k" "k \<le> 20" "bucket_count ht = 2 ^ k" "length (ht_get_buckets ht) = 2 ^ k" using assms unfolding ht_ok_def by blast
  then have "k mod 32 = k" "k < 32" by simp_all
  then show thesis using that [of k] k assms unat_power [OF k(2)] by (simp add: ht_ok_def)
qed

lemma ht_rep_exists: "ht_ok M ht \<Longrightarrow> \<exists>m. ht_rep M ht m"
  by (metis ht_okD ht_rep_def table.entries_map)

lemma ht_lookup_rep: "ht_rep M ht m \<Longrightarrow> good_key M (ht_test ht) key \<Longrightarrow> ht_lookup ht key = m (canon (ht_test ht) key)"
proof -
  assume r: "ht_rep M ht m" and g: "good_key M (ht_test ht) key"
  then obtain k where k: "bucket_count ht = 2 ^ (k mod 32)" "length (ht_get_buckets ht) = 2 ^ (k mod 32)"
    "buckets_ok (good_key M (ht_test ht)) (canon (ht_test ht)) (\<lambda>key. bucket_index key (ht_test ht) (2 ^ (k mod 32))) (ht_get_buckets ht)"
    unfolding ht_rep_def by (metis ht_okD)
  show ?thesis using table.find_correct [OF k(3) _ k(2) g] r unfolding ht_lookup_chain k(1) ht_rep_def by blast
qed

section \<open>Overwriting, inserting and removing\<close>

lemma overwrite_rep:
  assumes r: "ht_rep M ht m" and g: "good_key M (ht_test ht) key"
  shows "ht_overwrite key v ht = Some ht' \<Longrightarrow> ht_rep M ht' (m(canon (ht_test ht) key \<mapsto> v)) \<and> ht_test ht' = ht_test ht \<and> m (canon (ht_test ht) key) \<noteq> None
      \<and> ht_count ht' = ht_count ht"
    "ht_overwrite key v ht = None \<Longrightarrow> m (canon (ht_test ht) key) = None"
proof -
  have ok: "ht_ok M ht" and m: "bucket_map (canon (ht_test ht)) (ht_get_buckets ht) m" using r by (simp_all add: ht_rep_def)
  obtain k where k: "1 \<le> k" "k \<le> 20" "k < 32" "bucket_count ht = 2 ^ (k mod 32)" "length (ht_get_buckets ht) = 2 ^ (k mod 32)" "k mod 32 = k"
    "buckets_ok (good_key M (ht_test ht)) (canon (ht_test ht)) (\<lambda>key. bucket_index key (ht_test ht) (2 ^ (k mod 32))) (ht_get_buckets ht)"
    "unat (ht_count ht) = length (concat (ht_get_buckets ht))" by (rule ht_okD [OF ok])
  let ?i = "table_index ht key" and ?bs = "ht_get_buckets ht"
  { assume "ht_overwrite key v ht = Some ht'"
    then obtain c where c: "chain_set (\<lambda>k. keys_equal k key (ht_test ht)) v (?bs ! ?i) = Some c" "ht' = set_buckets (?bs[?i := c]) ht"
      by (auto simp: ht_overwrite_def Let_def)
    have i: "?i < length ?bs" unfolding k(4,5) by (rule bucket_index_less) simp
    have "length (concat (?bs[?i := c])) = length (concat ?bs)" using length_replace [OF i, of c] chain_lengths(1) [OF c(1)] by simp
    then show "ht_rep M ht' (m(canon (ht_test ht) key \<mapsto> v)) \<and> ht_test ht' = ht_test ht \<and> m (canon (ht_test ht) key) \<noteq> None \<and> ht_count ht' = ht_count ht"
      using table.overwrite_correct [OF k(7) m k(5) g c(1) [unfolded k(4)]] k unfolding ht_rep_def ht_ok_def c(2) by auto
  next
    assume "ht_overwrite key v ht = None"
    then have "chain_set (\<lambda>k. keys_equal k key (ht_test ht)) v (?bs ! ?i) = None" by (simp add: ht_overwrite_def Let_def)
    then show "m (canon (ht_test ht) key) = None" using table.absent(1) [OF k(7) m k(5) g] unfolding k(4) by blast }
qed

lemma insert_rep:
  assumes r: "ht_rep M ht m" and g: "good_key M (ht_test ht) key" and fresh: "m (canon (ht_test ht) key) = None" and room: "ht_count ht \<noteq> - 1"
  shows "ht_rep M (ht_insert key v ht) (m(canon (ht_test ht) key \<mapsto> v))"
proof -
  have ok: "ht_ok M ht" and m: "bucket_map (canon (ht_test ht)) (ht_get_buckets ht) m" using r by (simp_all add: ht_rep_def)
  obtain k where k: "1 \<le> k" "k \<le> 20" "k < 32" "bucket_count ht = 2 ^ (k mod 32)" "length (ht_get_buckets ht) = 2 ^ (k mod 32)" "k mod 32 = k"
    "buckets_ok (good_key M (ht_test ht)) (canon (ht_test ht)) (\<lambda>key. bucket_index key (ht_test ht) (2 ^ (k mod 32))) (ht_get_buckets ht)"
    "unat (ht_count ht) = length (concat (ht_get_buckets ht))" by (rule ht_okD [OF ok])
  let ?bs = "ht_get_buckets ht"
  have i: "table_index ht key < length ?bs" unfolding k(4,5) by (rule bucket_index_less) simp
  have "unat (ht_count ht + 1) = Suc (unat (ht_count ht))" using room by (metis add.commute eq_neg_iff_add_eq_0 unatSuc)
  moreover have "length (relink idx e ?bs) = length ?bs" for idx e by (simp add: relink_def)
  ultimately show ?thesis
    using table.prepend_correct [OF k(7) m k(5) g fresh, of v] k length_relink [of "table_index ht" "(key, v)" ?bs] i
    unfolding ht_rep_def ht_ok_def ht_insert_def by auto
qed

lemma remove_rep:
  assumes r: "ht_rep M ht m" and g: "good_key M (ht_test ht) key" and b: "bi_remhash key (Some ht) = Inr (ht', found)"
  shows "ht_rep M ht' (m(canon (ht_test ht) key := None))" "ht_test ht' = ht_test ht" "found \<longleftrightarrow> m (canon (ht_test ht) key) \<noteq> None"
proof -
  have ok: "ht_ok M ht" and m: "bucket_map (canon (ht_test ht)) (ht_get_buckets ht) m" using r by (simp_all add: ht_rep_def)
  obtain k where k: "1 \<le> k" "k \<le> 20" "k < 32" "bucket_count ht = 2 ^ (k mod 32)" "length (ht_get_buckets ht) = 2 ^ (k mod 32)" "k mod 32 = k"
    "buckets_ok (good_key M (ht_test ht)) (canon (ht_test ht)) (\<lambda>key. bucket_index key (ht_test ht) (2 ^ (k mod 32))) (ht_get_buckets ht)"
    "unat (ht_count ht) = length (concat (ht_get_buckets ht))" by (rule ht_okD [OF ok])
  let ?i = "table_index ht key" and ?bs = "ht_get_buckets ht" and ?c = "canon (ht_test ht) key"
  have "ht_rep M ht' (m(?c := None)) \<and> ht_test ht' = ht_test ht \<and> (found \<longleftrightarrow> m ?c \<noteq> None)"
  proof (cases "chain_remove (\<lambda>k. keys_equal k key (ht_test ht)) (?bs ! ?i)")
    case None
    then have "m ?c = None" using table.absent(2) [OF k(7) m k(5) g] unfolding k(4) by blast
    moreover have "ht' = ht" "\<not> found" using b None by (simp_all add: bi_remhash_def require_hash_table_def Let_def)
    ultimately show ?thesis using r by (simp add: fun_upd_idem)
  next
    case (Some c)
    have h: "ht' = set_buckets (?bs[?i := c]) ht \<lparr> ht_count := ht_count ht - 1 \<rparr>" "found"
      using b Some by (simp_all add: bi_remhash_def require_hash_table_def Let_def)
    have i: "?i < length ?bs" unfolding k(4,5) by (rule bucket_index_less) simp
    have "Suc (length (concat (?bs[?i := c]))) = length (concat ?bs)" using length_replace [OF i, of c] chain_lengths(2) [OF Some] by simp
    moreover from this have "ht_count ht \<noteq> 0" using k(8) by (metis nat.distinct(1) unsigned_0)
    then have "Suc (unat (ht_count ht - 1)) = unat (ht_count ht)" by (simp add: unat_minus_one unat_gt_0)
    ultimately have n: "unat (ht_count ht - 1) = length (concat (?bs[?i := c]))" using k(8) by linarith
    have tt: "ht_test ht' = ht_test ht" "ht_get_buckets ht' = ?bs[?i := c]" "ht_count ht' = ht_count ht - 1" "bucket_count ht' = 2 ^ k"
      using h(1) k(4,6) by simp_all
    note R = table.remove_correct [OF k(7) m k(5) g Some [unfolded k(4)], folded k(4)]
    have "\<exists>j. 1 \<le> j \<and> j \<le> 20 \<and> bucket_count ht' = 2 ^ j \<and> length (ht_get_buckets ht') = 2 ^ j" unfolding tt using k by auto
    then have "ht_rep M ht' (m(?c := None))" using R(1,2) n k(4,6) unfolding ht_rep_def ht_ok_def tt by simp
    then show ?thesis using R(3) h(2) tt(1) by blast
  qed
  then show "ht_rep M ht' (m(?c := None))" "ht_test ht' = ht_test ht" "found \<longleftrightarrow> m ?c \<noteq> None" by blast+
qed

section \<open>Growth\<close>

lemma rehash_rep:
  assumes r: "ht_rep M ht m" and n: "bucket_count ht * 2 \<le> CL_HT_MAX_BUCKETS"
  shows "ht_rep M (ht_rehash_into (bucket_count ht * 2) ht) m"
proof -
  have ok: "ht_ok M ht" and m: "bucket_map (canon (ht_test ht)) (ht_get_buckets ht) m" using r by (simp_all add: ht_rep_def)
  obtain k where k: "1 \<le> k" "k \<le> 20" "k < 32" "bucket_count ht = 2 ^ (k mod 32)" "length (ht_get_buckets ht) = 2 ^ (k mod 32)" "k mod 32 = k"
    "buckets_ok (good_key M (ht_test ht)) (canon (ht_test ht)) (\<lambda>key. bucket_index key (ht_test ht) (2 ^ (k mod 32))) (ht_get_buckets ht)"
    "unat (ht_count ht) = length (concat (ht_get_buckets ht))" "unat (bucket_count ht) = 2 ^ k" "take (unat (bucket_count ht)) (ht_get_buckets ht) = ht_get_buckets ht"
    by (rule ht_okD [OF ok])
  let ?bs = "ht_get_buckets ht" and ?t = "ht_test ht"
  have dbl: "bucket_count ht * 2 = 2 ^ Suc k" using k(4,6) by simp
  have "k \<noteq> 20"
  proof
    assume "k = 20"
    then show False using n k(4) by (simp add: CL_HT_MAX_BUCKETS_def)
  qed
  then have j: "Suc k \<le> 20" "Suc k mod 32 = Suc k" using k(2) by simp_all
  have idx: "bucket_count ht * 2 = 2 ^ (Suc k mod 32)" "unat (bucket_count ht * 2) = 2 ^ (Suc k mod 32)" using dbl j unat_power [OF j(1)] by simp_all
  have es: "\<forall>(k, v)\<in>set (concat ?bs). good_key M ?t k" "distinct (chain_reps (canon ?t) (concat ?bs))"
    using table.entries_good [OF k(7)] table.entries_distinct [OF k(7)] by blast+
  have same: "map_of (rep_entries (canon ?t) (concat ?bs)) = m" by (rule table.entries_unique [OF table.entries_map [OF k(7)] m])
  let ?new = "fold (relink (\<lambda>key. bucket_index key ?t (2 ^ (Suc k mod 32)))) (concat ?bs) (replicate (2 ^ (Suc k mod 32)) [])"
  have new: "ht_rehash_into (bucket_count ht * 2) ht = ht \<lparr> bucket_vec := Some ?new, bucket_count := 2 ^ (Suc k mod 32) \<rparr>"
    unfolding ht_rehash_into_def Let_def k(10) unfolding idx(2) unfolding idx(1) ..
  have len: "length (concat ?new) = length (concat ?bs)"
    by (subst length_relink_all) (auto intro!: bucket_index_less)
  have gb: "ht_get_buckets (ht \<lparr> bucket_vec := Some x, bucket_count := y \<rparr>) = x" for x y by (simp add: ht_get_buckets_def)
  show ?thesis using table.relink_entries [OF es, where k = "Suc k"] len k(8) j unfolding same new ht_rep_def ht_ok_def gb by (auto intro!: exI [of _ "Suc k"])
qed

end
