(* ===== verification/Hashtab_Move.thy ===== *)
theory Hashtab_Move
  imports Hashtab_Laws
begin

unbundle bit_operations_syntax

text \<open>Hash tables after a collection has moved their keys and values.\<close>

definition move_entry :: "(u32 \<Rightarrow> u32) \<Rightarrow> lobj \<times> lobj \<Rightarrow> lobj \<times> lobj" where
  "move_entry g = map_prod (relocate g) (relocate g)"

lemma move_table_simps [simp]:
  "ht_test (move_table g ht) = ht_test ht" "ht_count (move_table g ht) = ht_count ht" "bucket_count (move_table g ht) = bucket_count ht"
  "ht_get_buckets (move_table g ht) = map (map (move_entry g)) (ht_get_buckets ht)"
  by (simp_all add: move_table_def ht_get_buckets_def move_entry_def split: option.splits)

lemma move_entry_fst [simp]: "fst (move_entry g e) = relocate g (fst e)"
  by (simp add: move_entry_def)

lemma moved_entries:
  assumes mv: "heap_moves g M M'" and good: "\<forall>(k, v)\<in>set es. good_key M t k"
  shows "rep_entries (canon t) (map (move_entry g) es) = map (\<lambda>(c, v). (relocate_ckey g c, relocate g v)) (rep_entries (canon t) es)"
    "chain_reps (canon t) (map (move_entry g) es) = map (relocate_ckey g) (chain_reps (canon t) es)"
    "\<forall>(k, v)\<in>set (map (move_entry g) es). good_key M' t k"
proof -
  have e: "canon t (relocate g k) = relocate_ckey g (canon t k) \<and> good_key M' t (relocate g k)" if "(k, v) \<in> set es" for k v
    using good that canon_relocate [OF mv] moved_good [OF mv] by blast
  show "rep_entries (canon t) (map (move_entry g) es) = map (\<lambda>(c, v). (relocate_ckey g c, relocate g v)) (rep_entries (canon t) es)"
    "chain_reps (canon t) (map (move_entry g) es) = map (relocate_ckey g) (chain_reps (canon t) es)"
    "\<forall>(k, v)\<in>set (map (move_entry g) es). good_key M' t k"
    using e by (auto simp: move_entry_def)
qed

lemma moves_inj: "heap_moves g M M' \<Longrightarrow> inj (relocate_ckey g)"
  by (rule injI) (simp only: relocate_ckey_eq moves_parts(1))

lemma distinct_rename: "inj f \<Longrightarrow> distinct xs \<Longrightarrow> distinct (map f xs)"
  by (simp add: distinct_map inj_on_def inj_def)

lemma moved_lookup:
  assumes mv: "heap_moves g M M'" and good: "\<forall>(k, v)\<in>set es. good_key M t k"
  shows "map_of (rep_entries (canon t) (map (move_entry g) es)) (relocate_ckey g c) = map_option (relocate g) (map_of (rep_entries (canon t) es) c)"
  unfolding moved_entries(1) [OF assms] by (rule map_of_rename [OF moves_inj [OF mv]])

text \<open>After the rehash, every key is where lookup looks for it.\<close>

lemma gc_rehash_rep:
  assumes r: "ht_rep M ht m" and mv: "heap_moves g M M'"
  shows "\<exists>m'. ht_rep M' (gc_rehash_table (move_table g ht)) m' \<and> (\<forall>c. m' (relocate_ckey g c) = map_option (relocate g) (m c))"
proof -
  have ok: "ht_ok M ht" and m: "bucket_map (canon (ht_test ht)) (ht_get_buckets ht) m" using r by (simp_all add: ht_rep_def)
  obtain k where k: "1 \<le> k" "k \<le> 20" "k < 32" "bucket_count ht = 2 ^ (k mod 32)" "length (ht_get_buckets ht) = 2 ^ (k mod 32)" "k mod 32 = k"
    "buckets_ok (good_key M (ht_test ht)) (canon (ht_test ht)) (\<lambda>key. bucket_index key (ht_test ht) (2 ^ (k mod 32))) (ht_get_buckets ht)"
    "unat (ht_count ht) = length (concat (ht_get_buckets ht))" "unat (bucket_count ht) = 2 ^ k" "take (unat (bucket_count ht)) (ht_get_buckets ht) = ht_get_buckets ht"
    by (rule ht_okD [OF ok])
  let ?t = "ht_test ht" and ?es = "concat (ht_get_buckets ht)" and ?es' = "map (move_entry g) (concat (ht_get_buckets ht))"
    and ?bs' = "map (map (move_entry g)) (ht_get_buckets ht)" and ?idx = "\<lambda>key. bucket_index key (ht_test ht) (2 ^ (k mod 32))"
  have good: "\<forall>(k, v)\<in>set ?es. good_key M ?t k" and dist: "distinct (chain_reps (canon ?t) ?es)"
    using table.entries_good [OF k(7)] table.entries_distinct [OF k(7)] by blast+
  have same: "map_of (rep_entries (canon ?t) ?es) = m" by (rule table.entries_unique [OF table.entries_map [OF k(7)] m])
  note E = moved_entries [OF mv good]
  note inj = moves_inj [OF mv]
  have dist': "distinct (chain_reps (canon ?t) ?es')" unfolding E(2) by (rule distinct_rename [OF inj dist])
  let ?m' = "map_of (rep_entries (canon ?t) ?es')"
  have look: "?m' (relocate_ckey g c) = map_option (relocate g) (m c)" for c using moved_lookup [OF mv good] unfolding same .
  have cc: "concat ?bs' = ?es'" by (simp add: map_concat)
  have tk: "take (unat (bucket_count ht)) ?bs' = ?bs'" using k(5,6,9) by simp
  have "ht_rep M' (gc_rehash_table (move_table g ht)) ?m'"
  proof (cases "list_ex (\<lambda>(k, v). gc_key_addr_sensitive k ?t) ?es'")
    case False
    have stable: "?idx (relocate g k') = ?idx k'" if "(k', v) \<in> set ?es" for k' v
    proof -
      have "move_entry g (k', v) \<in> set ?es'" using that by force
      then have "\<not> gc_key_addr_sensitive (relocate g k') ?t" using False by (force simp: list_ex_iff move_entry_def)
      moreover have "gc_key_addr_sensitive (relocate g a) ?t = gc_key_addr_sensitive a ?t" for a by (induction a) simp_all
      moreover have "good_key M ?t k'" using good that by blast
      ultimately show ?thesis using stable_hash [OF mv, of ?t k'] by (simp add: bucket_index_def)
    qed
    have "buckets_ok (good_key M' ?t) (canon ?t) ?idx ?bs'"
      unfolding buckets_ok_def
    proof (intro allI impI conjI)
      fix i assume i: "i < length ?bs'"
      then have sub: "set (ht_get_buckets ht ! i) \<subseteq> set ?es" by force
      have gi: "\<forall>(k, v)\<in>set (ht_get_buckets ht ! i). good_key M ?t k" using good sub by blast
      have d: "distinct (chain_reps (canon ?t) (ht_get_buckets ht ! i))" and p: "\<forall>(k, v)\<in>set (ht_get_buckets ht ! i). ?idx k = i"
        using k(7) i by (auto simp: buckets_ok_def)
      have at: "?bs' ! i = map (move_entry g) (ht_get_buckets ht ! i)" using i by simp
      show "distinct (chain_reps (canon ?t) (?bs' ! i))" unfolding at moved_entries(2) [OF mv gi] by (rule distinct_rename [OF inj d])
      show "\<forall>(k, v)\<in>set (?bs' ! i). good_key M' ?t k \<and> ?idx k = i" unfolding at
        using moved_entries(3) [OF mv gi] p stable sub by (fastforce simp: move_entry_def)
    qed
    then have ok': "buckets_ok (good_key M' ?t) (canon ?t) ?idx ?bs'" "bucket_map (canon ?t) ?bs' ?m'" using table.entries_map unfolding cc [symmetric] by blast+
    have "gc_rehash_table (move_table g ht) = move_table g ht"
      unfolding gc_rehash_table_def Let_def move_table_simps tk cc using False by simp
    then show ?thesis using ok' k(1-6,8) unfolding ht_rep_def ht_ok_def by (auto simp: cc)
  next
    case True
    let ?new = "fold (relink ?idx) (rev ?es') (replicate (2 ^ (k mod 32)) [])"
    have rv: "\<forall>(k, v)\<in>set (rev ?es'). good_key M' ?t k" "distinct (chain_reps (canon ?t) (rev ?es'))" using E(3) dist' by (simp_all add: rev_map [symmetric])
    note R = table.relink_entries [OF rv, of k]
    have dr: "drop (unat (bucket_count ht)) ?bs' = []" using k(5,6,9) by simp
    have t: "gc_rehash_table (move_table g ht) = set_buckets ?new (move_table g ht)"
      unfolding gc_rehash_table_def Let_def move_table_simps tk cc dr append_Nil2 using True k(4,6,9) by simp
    have "rep_entries (canon ?t) (rev ?es') = rev (rep_entries (canon ?t) ?es')" by (simp only: rev_map)
    then have mm: "map_of (rep_entries (canon ?t) (rev ?es')) = ?m'" using map_of_rev [of "rep_entries (canon ?t) ?es'"] dist' unfolding rep_entries_fst by presburger
    have len: "length (concat ?new) = length ?es" by (subst length_relink_all) (auto intro!: bucket_index_less)
    have "\<exists>j. 1 \<le> j \<and> j \<le> 20 \<and> bucket_count ht = 2 ^ j \<and> length ?new = 2 ^ j" using k(1,2,4,6) R(3) by auto
    then show ?thesis using R(1,2) len k(4,8) unfolding t mm ht_rep_def ht_ok_def set_buckets_simps move_table_simps by simp
  qed
  then show ?thesis using look by blast
qed

section \<open>Collections during an allocation\<close>

fun collected :: "collection \<Rightarrow> (u32 \<Rightarrow> lobj) \<Rightarrow> (u32 \<Rightarrow> lobj) \<Rightarrow> bool" where
  "collected None M M' = (M' = M)"
| "collected (Some g) M M' = heap_moves g M M'"

definition collect_ckey :: "collection \<Rightarrow> ckey \<Rightarrow> ckey" where
  "collect_ckey gc c = (case gc of None \<Rightarrow> c | Some g \<Rightarrow> relocate_ckey g c)"

lemma collect_rep:
  assumes "ht_rep M ht m" "collected gc M M'"
  shows "\<exists>m'. ht_rep M' (collect_table gc ht) m' \<and> (\<forall>c. m' (collect_ckey gc c) = map_option (collect_obj gc) (m c))"
proof (cases gc)
  case None
  have "map_option (collect_obj None) x = x" for x by (cases x) (simp_all add: collect_obj_def)
  then show ?thesis using assms None by (auto simp: collect_table_def collect_ckey_def intro!: exI [of _ m])
next
  case (Some g)
  have "collect_obj (Some g) = relocate g" by (simp add: fun_eq_iff collect_obj_def)
  then show ?thesis using gc_rehash_rep [OF assms(1)] assms(2) Some by (simp add: collect_table_def collect_ckey_def)
qed

lemma collect_key:
  assumes "collected gc M M'" "good_key M t k"
  shows "good_key M' t (collect_obj gc k)" "canon t (collect_obj gc k) = collect_ckey gc (canon t k)"
  using assms moved_good canon_relocate by (cases gc; fastforce simp: collect_obj_def collect_ckey_def)+

lemma collect_ckey_eq: "collected gc M M' \<Longrightarrow> collect_ckey gc a = collect_ckey gc b \<longleftrightarrow> a = b"
  by (cases gc) (auto simp: collect_ckey_def relocate_ckey_eq moves_parts(1))

lemma gc_rehash_same [simp]: "ht_test (gc_rehash_table ht) = ht_test ht" "ht_count (gc_rehash_table ht) = ht_count ht"
  "bucket_count (gc_rehash_table ht) = bucket_count ht"
  by (simp_all add: gc_rehash_table_def Let_def)

lemma collect_table_same [simp]: "ht_test (collect_table gc ht) = ht_test ht" "ht_count (collect_table gc ht) = ht_count ht"
  "bucket_count (collect_table gc ht) = bucket_count ht"
  by (simp_all add: collect_table_def split: option.splits)

section \<open>From maps to lookups\<close>

lemma lookup_update:
  assumes r: "ht_rep M ht m" and r': "ht_rep M ht' (m(canon (ht_test ht) key \<mapsto> w))" and t: "ht_test ht' = ht_test ht"
    and g: "good_key M (ht_test ht) key" and k: "good_key M (ht_test ht) k"
  shows "ht_lookup ht' k = (if keys_equal key k (ht_test ht) then Some w else ht_lookup ht k)"
proof -
  have "ht_lookup ht' k = (m(canon (ht_test ht) key \<mapsto> w)) (canon (ht_test ht) k)" using ht_lookup_rep [OF r'] k t by simp
  then show ?thesis using ht_lookup_rep [OF r k] keys_equal_canon(1) [OF g k] by auto
qed

lemma collect_keys_equal:
  assumes "collected gc M M'" "good_key M t a" "good_key M t b"
  shows "keys_equal (collect_obj gc a) (collect_obj gc b) t = keys_equal a b t"
  using assms keys_equal_relocate by (cases gc) (simp_all add: collect_obj_def)

lemma insert_same [simp]: "ht_test (ht_insert key v ht) = ht_test ht" "ht_test (ht_rehash_into n ht) = ht_test ht"
  "bucket_count (ht_insert key v ht) = bucket_count ht" "ht_count (ht_insert key v ht) = ht_count ht + 1"
  "ht_count (ht_rehash_into n ht) = ht_count ht" "bucket_count (ht_rehash_into n ht) = n"
  by (simp_all add: ht_insert_def ht_rehash_into_def Let_def)

lemma rehash_lookup:
  assumes ok: "ht_ok M ht" and n: "bucket_count ht * 2 \<le> CL_HT_MAX_BUCKETS"
  shows "ht_ok M (ht_rehash_into (bucket_count ht * 2) ht)"
    "good_key M (ht_test ht) k \<Longrightarrow> ht_lookup (ht_rehash_into (bucket_count ht * 2) ht) k = ht_lookup ht k"
proof -
  obtain m where r: "ht_rep M ht m" using ht_rep_exists [OF ok] by blast
  note R = rehash_rep [OF r n]
  show "ht_ok M (ht_rehash_into (bucket_count ht * 2) ht)" using R by (simp add: ht_rep_def)
  show "ht_lookup (ht_rehash_into (bucket_count ht * 2) ht) k = ht_lookup ht k" if "good_key M (ht_test ht) k"
    using ht_lookup_rep [OF R] ht_lookup_rep [OF r] that by simp
qed

lemma collect_lookup:
  assumes ok: "ht_ok M ht" and gc: "collected gc M M'"
  shows "ht_ok M' (collect_table gc ht)"
    "good_key M (ht_test ht) k \<Longrightarrow> ht_lookup (collect_table gc ht) (collect_obj gc k) = map_option (collect_obj gc) (ht_lookup ht k)"
proof -
  obtain m where r: "ht_rep M ht m" using ht_rep_exists [OF ok] by blast
  obtain m' where r': "ht_rep M' (collect_table gc ht) m'" and m': "\<And>c. m' (collect_ckey gc c) = map_option (collect_obj gc) (m c)"
    using collect_rep [OF r gc] by blast
  show "ht_ok M' (collect_table gc ht)" using r' by (simp add: ht_rep_def)
  show "ht_lookup (collect_table gc ht) (collect_obj gc k) = map_option (collect_obj gc) (ht_lookup ht k)" if "good_key M (ht_test ht) k"
    using ht_lookup_rep [OF r', of "collect_obj gc k"] ht_lookup_rep [OF r that] collect_key [OF gc that] m' by simp
qed

text \<open>Two collections in a row.\<close>

lemma collect_twice:
  assumes ok: "ht_ok M ht" and gcs: "collected gc0 M M0" "collected gc1 M0 M1"
  shows "ht_ok M1 (collect_table gc1 (collect_table gc0 ht))"
    "good_key M (ht_test ht) k \<Longrightarrow> good_key M1 (ht_test ht) (collect_obj gc1 (collect_obj gc0 k))"
    "good_key M (ht_test ht) k \<Longrightarrow> ht_lookup (collect_table gc1 (collect_table gc0 ht)) (collect_obj gc1 (collect_obj gc0 k))
      = map_option (collect_obj gc1 \<circ> collect_obj gc0) (ht_lookup ht k)"
    "good_key M (ht_test ht) k \<Longrightarrow> good_key M (ht_test ht) k' \<Longrightarrow>
      keys_equal (collect_obj gc1 (collect_obj gc0 k)) (collect_obj gc1 (collect_obj gc0 k')) (ht_test ht) = keys_equal k k' (ht_test ht)"
proof -
  note C0 = collect_lookup [OF ok gcs(1)] and K0 = collect_key(1) [OF gcs(1)]
  note C1 = collect_lookup [OF C0(1) gcs(2)] and K1 = collect_key(1) [OF gcs(2)]
  show "ht_ok M1 (collect_table gc1 (collect_table gc0 ht))" by (rule C1(1))
  show "good_key M1 (ht_test ht) (collect_obj gc1 (collect_obj gc0 k))" if "good_key M (ht_test ht) k" for k
    by (rule K1 [OF K0 [OF that]])
  show "ht_lookup (collect_table gc1 (collect_table gc0 ht)) (collect_obj gc1 (collect_obj gc0 k))
      = map_option (collect_obj gc1 \<circ> collect_obj gc0) (ht_lookup ht k)" if k: "good_key M (ht_test ht) k"
    using C1(2) [of "collect_obj gc0 k"] C0(2) [OF k] K0 [OF k] by (simp add: option.map_comp)
  show "keys_equal (collect_obj gc1 (collect_obj gc0 k)) (collect_obj gc1 (collect_obj gc0 k')) (ht_test ht) = keys_equal k k' (ht_test ht)"
    if "good_key M (ht_test ht) k" "good_key M (ht_test ht) k'"
    using collect_keys_equal [OF gcs(2) K0 K0] collect_keys_equal [OF gcs(1)] that by simp
qed

lemma insert_lookup:
  assumes ok: "ht_ok M ht" "good_key M (ht_test ht) key" and fresh: "ht_lookup ht key = None" and room: "ht_count ht \<noteq> - 1"
  shows "ht_ok M (ht_insert key v ht)"
    "good_key M (ht_test ht) k \<Longrightarrow> ht_lookup (ht_insert key v ht) k = (if keys_equal key k (ht_test ht) then Some v else ht_lookup ht k)"
proof -
  obtain m where r: "ht_rep M ht m" using ht_rep_exists [OF ok(1)] by blast
  have R: "ht_rep M (ht_insert key v ht) (m(canon (ht_test ht) key \<mapsto> v))" using insert_rep [OF r ok(2) _ room] fresh ht_lookup_rep [OF r ok(2)] by simp
  show "ht_ok M (ht_insert key v ht)" using R by (simp add: ht_rep_def)
  show "ht_lookup (ht_insert key v ht) k = (if keys_equal key k (ht_test ht) then Some v else ht_lookup ht k)" if "good_key M (ht_test ht) k"
    by (rule lookup_update [OF r R insert_same(1) ok(2) that])
qed

lemma overwrite_lookup:
  assumes ok: "ht_ok M ht" "good_key M (ht_test ht) key"
  shows "ht_overwrite key v ht = Some ht' \<Longrightarrow> ht_ok M ht' \<and> ht_test ht' = ht_test ht \<and> ht_count ht' = ht_count ht
      \<and> (\<forall>k. good_key M (ht_test ht) k \<longrightarrow> ht_lookup ht' k = (if keys_equal key k (ht_test ht) then Some v else ht_lookup ht k))"
    "ht_overwrite key v ht = None \<Longrightarrow> ht_lookup ht key = None"
proof -
  obtain m where r: "ht_rep M ht m" using ht_rep_exists [OF ok(1)] by blast
  show "ht_lookup ht key = None" if "ht_overwrite key v ht = None" using overwrite_rep(2) [OF r ok(2) that] ht_lookup_rep [OF r ok(2)] by simp
  show "ht_ok M ht' \<and> ht_test ht' = ht_test ht \<and> ht_count ht' = ht_count ht
      \<and> (\<forall>k. good_key M (ht_test ht) k \<longrightarrow> ht_lookup ht' k = (if keys_equal key k (ht_test ht) then Some v else ht_lookup ht k))"
    if "ht_overwrite key v ht = Some ht'"
    using overwrite_rep(1) [OF r ok(2) that] lookup_update [OF r _ _ ok(2)] by (auto simp: ht_rep_def)
qed

lemma maybe_rehash_lookup:
  assumes ok: "ht_ok M ht" and gc: "collected gc M M2"
  shows "\<exists>ht' mv M'. ht_maybe_rehash gc got ht v = (ht', mv v) \<and> (M', mv) \<in> {(M, id), (M2, collect_obj gc)} \<and> ht_ok M' ht'
    \<and> ht_test ht' = ht_test ht \<and> (\<forall>k. good_key M (ht_test ht) k \<longrightarrow> ht_lookup ht' (mv k) = map_option mv (ht_lookup ht k))"
proof -
  let ?n = "bucket_count ht * 2"
  note C = collect_lookup [OF ok gc]
  consider "ht_maybe_rehash gc got ht v = (ht, v)" | "ht_maybe_rehash gc got ht v = (collect_table gc ht, collect_obj gc v)"
    | "ht_maybe_rehash gc got ht v = (ht_rehash_into ?n (collect_table gc ht), collect_obj gc v)" "?n \<le> CL_HT_MAX_BUCKETS"
    unfolding ht_maybe_rehash_def Let_def by (meson linorder_not_less)
  then show ?thesis
  proof cases
    case 1
    then show ?thesis using ok by (intro exI [of _ ht] exI [of _ id] exI [of _ M]) (simp add: option.map_id)
  next
    case 2
    then show ?thesis using C by (intro exI [of _ "collect_table gc ht"] exI [of _ "collect_obj gc"] exI [of _ M2]) simp
  next
    case 3
    note R = rehash_lookup [OF C(1)]
    have "ht_lookup (ht_rehash_into ?n (collect_table gc ht)) (collect_obj gc k) = map_option (collect_obj gc) (ht_lookup ht k)" if "good_key M (ht_test ht) k" for k
      using R(2) [of "collect_obj gc k"] C(2) [OF that] collect_key(1) [OF gc that] 3(2) by simp
    then show ?thesis using R(1) 3
      by (intro exI [of _ "ht_rehash_into ?n (collect_table gc ht)"] exI [of _ "collect_obj gc"] exI [of _ M2]) simp
  qed
qed

end
