(* ===== verification/Hashtab_Props.thy ===== *)
theory Hashtab_Props
  imports Hashtab_Move
begin

unbundle bit_operations_syntax

text \<open>Properties of hash tables: keys, creation, insertion, removal, collections, comparison and iteration.\<close>

section \<open>Sample tables\<close>

definition sample_key :: lobj where "sample_key = Cons_At 0x100 (Immediate 3) (Immediate 0)"
definition sample_value :: lobj where "sample_value = Immediate 7"

text \<open>A memory with one cons, and the same memory after it has been moved.\<close>

definition sample_memory :: "u32 \<Rightarrow> lobj" where "sample_memory w = (if w = 0x100 then sample_key else Immediate 0)"
definition sample_move :: "u32 \<Rightarrow> u32" where "sample_move w = (if w = 0x100 then 0x200 else if w = 0x200 then 0x100 else w)"
definition moved_memory :: "u32 \<Rightarrow> lobj" where "moved_memory w = (if w = 0x200 then relocate sample_move sample_key else Immediate 0)"

definition sample_table :: CL_Hashtable where
  "sample_table = \<lparr> ht_test = CL_HT_TEST_EQ, ht_count = 0, bucket_count = 16, ht_flags = 0, bucket_vec = None, inline_buckets = replicate 16 [] \<rparr>"

definition filled_table :: CL_Hashtable where "filled_table = ht_insert sample_key sample_value sample_table"

text \<open>A character vector with a fill pointer, and a general vector with the same character.\<close>

definition fill_vector :: lobj where "fill_vector = Vector_At 0x100 0x10 [Immediate (CL_MAKE_CHAR 97)]"
definition char_vector :: lobj where "char_vector = Vector_At 0x200 0 [Immediate (CL_MAKE_CHAR 97)]"

section \<open>Insertion\<close>

lemma setf_gethash_single:
  assumes "ht_flags ht AND CL_HT_FLAG_SYNC = 0 \<or> \<not> mt"
  shows "bi_setf_gethash gc0 gc1 gc2 got mt b1 b2 key (Some ht) value = (case ht_overwrite key value ht of Some ht \<Rightarrow> Inr (ht, value)
    | None \<Rightarrow> Inr (ht_maybe_rehash gc2 got
        (ht_insert (collect_obj gc1 (collect_obj gc0 key)) (collect_obj gc1 (collect_obj gc0 value)) (collect_table gc1 (collect_table gc0 ht)))
        (collect_obj gc1 (collect_obj gc0 value))))"
  using assms by (auto simp: bi_setf_gethash_def require_hash_table_def Let_def split: option.split)

text \<open>
  C4: a new value for a key is found under every equal key afterwards and all other lookups are
  unchanged, when each of the three allocations of the insertion runs a collection that moves everything,
  and when the table grows or cannot grow.  The table stays consistent.
\<close>

theorem setf_gethash_exact:
  assumes ok: "ht_ok M ht" "good_key M (ht_test ht) key" and room: "ht_count ht \<noteq> - 1"
    and gcs: "collected gc0 M M0" "collected gc1 M0 M1" "collected gc2 M1 M2" and single: "ht_flags ht AND CL_HT_FLAG_SYNC = 0 \<or> \<not> mt"
  shows "\<exists>ht' mv M'. bi_setf_gethash gc0 gc1 gc2 got mt b1 b2 key (Some ht) value = Inr (ht', mv value)
    \<and> (M', mv) \<in> {(M, id), (M1, collect_obj gc1 \<circ> collect_obj gc0), (M2, collect_obj gc2 \<circ> collect_obj gc1 \<circ> collect_obj gc0)}
    \<and> ht_ok M' ht' \<and> ht_test ht' = ht_test ht
    \<and> (\<forall>k. good_key M (ht_test ht) k \<longrightarrow>
          ht_lookup ht' (mv k) = (if keys_equal key k (ht_test ht) then Some (mv value) else map_option mv (ht_lookup ht k)))"
proof (cases "ht_overwrite key value ht")
  case (Some ht')
  then show ?thesis unfolding setf_gethash_single [OF single] using overwrite_lookup(1) [OF ok Some]
    by (intro exI [of _ ht'] exI [of _ id] exI [of _ M]) (simp add: option.map_id)
next
  case None
  let ?t = "ht_test ht" and ?mv = "collect_obj gc1 \<circ> collect_obj gc0" and ?ht1 = "collect_table gc1 (collect_table gc0 ht)"
  let ?key = "collect_obj gc1 (collect_obj gc0 key)" and ?v = "collect_obj gc1 (collect_obj gc0 value)"
  note C = collect_twice [OF ok(1) gcs(1,2)]
  have fresh: "ht_lookup ?ht1 ?key = None" using C(3) [OF ok(2)] overwrite_lookup(2) [OF ok None] by simp
  note I = insert_lookup [OF C(1) _ fresh, where v = ?v]
  have I1: "ht_ok M1 (ht_insert ?key ?v ?ht1)" using I(1) C(2) [OF ok(2)] room by simp
  have I2: "ht_lookup (ht_insert ?key ?v ?ht1) (?mv k) = (if keys_equal key k ?t then Some ?v else map_option ?mv (ht_lookup ht k))"
    if k: "good_key M ?t k" for k
    using I(2) [where k = "?mv k"] C(2) [OF ok(2)] C(2) [OF k] room C(3) [OF k] C(4) [OF ok(2) k] by simp
  obtain ht' mv M' where m: "ht_maybe_rehash gc2 got (ht_insert ?key ?v ?ht1) ?v = (ht', mv ?v)" "(M', mv) \<in> {(M1, id), (M2, collect_obj gc2)}"
    "ht_ok M' ht'" "ht_test ht' = ?t" "\<And>k. good_key M1 ?t k \<Longrightarrow> ht_lookup ht' (mv k) = map_option mv (ht_lookup (ht_insert ?key ?v ?ht1) k)"
    using maybe_rehash_lookup [OF I1 gcs(3), of got ?v] by auto
  have "ht_lookup ht' ((mv \<circ> ?mv) k) = (if keys_equal key k ?t then Some (mv ?v) else map_option (mv \<circ> ?mv) (ht_lookup ht k))"
    if k: "good_key M ?t k" for k using m(5) [OF C(2) [OF k]] I2 [OF k] by (simp add: option.map_comp)
  then show ?thesis unfolding setf_gethash_single [OF single] None option.case m(1)
    using m(2-4) by (intro exI [of _ ht'] exI [of _ "mv \<circ> ?mv"] exI [of _ M']) (auto simp: fun_eq_iff)
qed

text \<open>
  C12: an insertion into a synchronized table has the same effect on the table it finds when it holds the lock,
  whatever the table was when the larger vector was chosen.
\<close>

theorem setf_gethash_sync_exact:
  assumes ok: "ht_ok M ht" "good_key M (ht_test ht) key" and room: "ht_count ht \<noteq> - 1"
  shows "ht_ok M (bi_setf_gethash_sync got ht0 ht key value) \<and> (\<forall>k. good_key M (ht_test ht) k \<longrightarrow>
    ht_lookup (bi_setf_gethash_sync got ht0 ht key value) k = (if keys_equal key k (ht_test ht) then Some value else ht_lookup ht k))"
proof (cases "ht_overwrite key value ht")
  case (Some ht')
  then show ?thesis using overwrite_lookup(1) [OF ok Some] by (simp add: bi_setf_gethash_sync_def Let_def)
next
  case None
  let ?ht1 = "ht_insert key value ht" and ?n = "bucket_count ht * 2"
  note I = insert_lookup [OF ok overwrite_lookup(2) [OF ok None] room, where v = "value"]
  have "bi_setf_gethash_sync got ht0 ht key value = ?ht1
      \<or> (bi_setf_gethash_sync got ht0 ht key value = ht_rehash_into ?n ?ht1 \<and> ?n \<le> CL_HT_MAX_BUCKETS)"
    unfolding bi_setf_gethash_sync_def Let_def None option.case by (simp split: option.split)
  then consider "bi_setf_gethash_sync got ht0 ht key value = ?ht1"
    | "bi_setf_gethash_sync got ht0 ht key value = ht_rehash_into ?n ?ht1" "?n \<le> CL_HT_MAX_BUCKETS" by blast
  then show ?thesis
  proof cases
    case 2
    then show ?thesis using I rehash_lookup [OF I(1)] by simp
  qed (use I in \<open>simp\<close>)
qed

lemma clear_ok:
  assumes ok: "ht_ok M ht" and c: "bi_clrhash (Some ht) = Inr ht'"
  shows "ht_ok M ht' \<and> ht_lookup ht' k = None"
proof -
  obtain j where j: "1 \<le> j" "j \<le> 20" "j < 32" "bucket_count ht = 2 ^ (j mod 32)" "length (ht_get_buckets ht) = 2 ^ (j mod 32)" "j mod 32 = j"
    "unat (bucket_count ht) = 2 ^ j" using ht_okD [OF ok] by metis
  have h: "ht' = set_buckets (replicate (2 ^ j) []) ht \<lparr> ht_count := 0 \<rparr>"
    using c j(5-7) by (simp add: bi_clrhash_def require_hash_table_def Let_def)
  have "bucket_index k (ht_test ht) (2 ^ j) < 2 ^ j" using bucket_index_less j(3) by blast
  then show ?thesis using j(1-6) unfolding h ht_lookup_chain ht_ok_def by (auto simp: buckets_ok_def)
qed

text \<open>
  C14: a removed key is not found any more, the others are, and the answer says whether it was there;
  clearing a table leaves no key and all its buckets.
\<close>

theorem remhash_clrhash_exact:
  assumes ok: "ht_ok M ht" "good_key M (ht_test ht) key"
  shows "(\<exists>ht'. bi_remhash key (Some ht) = Inr (ht', ht_lookup ht key \<noteq> None) \<and> ht_ok M ht'
        \<and> (\<forall>k. good_key M (ht_test ht) k \<longrightarrow> ht_lookup ht' k = (if keys_equal key k (ht_test ht) then None else ht_lookup ht k)))
    \<and> (\<exists>ht'. bi_clrhash (Some ht) = Inr ht' \<and> ht_ok M ht' \<and> bucket_count ht' = bucket_count ht \<and> (\<forall>k. ht_lookup ht' k = None))"
proof
  let ?t = "ht_test ht"
  obtain m where r: "ht_rep M ht m" using ht_rep_exists [OF ok(1)] by blast
  obtain ht' found where b: "bi_remhash key (Some ht) = Inr (ht', found)"
    by (simp add: bi_remhash_def require_hash_table_def Let_def) (metis surj_pair)
  note R = remove_rep [OF r ok(2) b]
  have "ht_lookup ht' k = (if keys_equal key k ?t then None else ht_lookup ht k)" if k: "good_key M ?t k" for k
    using ht_lookup_rep [OF R(1)] ht_lookup_rep [OF r k] keys_equal_canon(1) [OF ok(2) k] R(2) k by simp
  moreover have "found = (ht_lookup ht key \<noteq> None)" using R(3) ht_lookup_rep [OF r ok(2)] by simp
  ultimately show "\<exists>ht'. bi_remhash key (Some ht) = Inr (ht', ht_lookup ht key \<noteq> None) \<and> ht_ok M ht'
        \<and> (\<forall>k. good_key M ?t k \<longrightarrow> ht_lookup ht' k = (if keys_equal key k ?t then None else ht_lookup ht k))"
    using b R(1) by (auto simp: ht_rep_def)
next
  obtain ht' where h: "bi_clrhash (Some ht) = Inr ht'" by (simp add: bi_clrhash_def require_hash_table_def)
  then have "bucket_count ht' = bucket_count ht" by (auto simp: bi_clrhash_def require_hash_table_def Let_def)
  then show "\<exists>ht'. bi_clrhash (Some ht) = Inr ht' \<and> ht_ok M ht' \<and> bucket_count ht' = bucket_count ht \<and> (\<forall>k. ht_lookup ht' k = None)"
    using h clear_ok [OF ok(1) h] by blast
qed

text \<open>
  C5: after a collection that moves keys and values, the rehashed table finds the moved value under
  the moved key, for every key, also where no entry was moved to another bucket.
\<close>

theorem rehash_keeps_entries:
  assumes ok: "ht_ok M ht" and mv: "heap_moves g M M'"
  shows "ht_ok M' (gc_rehash_table (move_table g ht)) \<and> ht_count (gc_rehash_table (move_table g ht)) = ht_count ht
    \<and> (\<forall>k. good_key M (ht_test ht) k \<longrightarrow> ht_lookup (gc_rehash_table (move_table g ht)) (relocate g k) = map_option (relocate g) (ht_lookup ht k))"
  using collect_lookup [OF ok, of "Some g"] mv by (simp add: collect_table_def collect_obj_def cong: map_option_cong)

text \<open>
  C11: comparison of well-formed keys is an equivalence, and equal keys have the same bucket in every table:
  under \<open>EQ\<close>, \<open>EQL\<close> and \<open>EQUAL\<close> for all of them, under \<open>EQUALP\<close> for those without character vectors
  (vectors with a fill pointer or adjustable that hold characters), for which both fail.
\<close>

theorem keys_contract:
  assumes "good_key M t a" "good_key M t b" "good_key M t c"
  shows "keys_equal a a t \<and> (keys_equal a b t \<longrightarrow> keys_equal b a t) \<and> (keys_equal a b t \<and> keys_equal b c t \<longrightarrow> keys_equal a c t)
    \<and> (keys_equal a b t \<longrightarrow> (\<forall>k<32. bucket_index a t (2 ^ k) = bucket_index b t (2 ^ k)))"
  using keys_equal_canon(1) assms good_index [OF assms(1,2)] by simp

lemma pow2_loop_bounds: "p = 2 ^ i \<Longrightarrow> p < 2 * n \<Longrightarrow> \<exists>k\<ge>i. pow2_loop p n = 2 ^ k \<and> n \<le> 2 ^ k \<and> 2 ^ k < 2 * n"
proof (induction p n arbitrary: i rule: pow2_loop.induct)
  case (1 p n)
  show ?case
  proof (cases "p < n")
    case True
    then have "\<exists>k\<ge>Suc i. pow2_loop (p * 2) n = 2 ^ k \<and> n \<le> 2 ^ k \<and> 2 ^ k < 2 * n" using 1 by (intro "1.IH") auto
    then show ?thesis using True 1(2) by (subst pow2_loop.simps) (auto intro: Suc_leD)
  next
    case False
    then show ?thesis using 1(2,3) by (subst pow2_loop.simps) auto
  qed
qed

lemma make_hashtable_ok:
  assumes "cl_make_hashtable n t = Inr ht"
  shows "ht_ok M ht \<and> ht_test ht = t \<and> ht_lookup ht key = None"
proof -
  let ?n = "unat (if n < 2 then 2 else n)"
  have n: "n \<le> CL_MAX_HT_BUCKETS" using assms by (auto simp: cl_make_hashtable_def split: if_splits)
  then have b: "2 \<le> ?n" "?n \<le> 2 ^ 20" by (auto simp: word_le_nat_alt word_less_nat_alt CL_MAX_HT_BUCKETS_def)
  obtain k where k: "pow2_loop 1 ?n = 2 ^ k" "?n \<le> 2 ^ k" "2 ^ k < 2 * ?n" using pow2_loop_bounds [of 1 0 ?n] b(1) by auto
  have "(2 :: nat) ^ k < 2 ^ 21" using k(3) b(2) by simp
  then have k20: "k \<le> 20" using power_less_imp_less_exp [of "2 :: nat" k 21] by simp
  have k1: "1 \<le> k" using k(2) b(1) by (cases k) auto
  have h: "ht = \<lparr> ht_test = t, ht_count = 0, bucket_count = 2 ^ k, ht_flags = 0, bucket_vec = None, inline_buckets = replicate (2 ^ k) [] \<rparr>"
    using assms n k(1) by (simp add: cl_make_hashtable_def Let_def split: if_splits)
  have "bucket_index key t (2 ^ k) < 2 ^ k" using k20 by (intro bucket_index_less) simp
  then show ?thesis using k1 k20 unfolding h ht_lookup_chain ht_ok_def by (auto simp: ht_get_buckets_def buckets_ok_def)
qed

lemma size_hint_bound: "size_hint n = Inr sz \<Longrightarrow> sz \<le> CL_MAX_HT_BUCKETS"
  by (cases n) (auto simp: Let_def CL_MAX_HT_BUCKETS_def CL_HT_MAX_BUCKETS_def split: if_splits)

lemma ht_args_bound: "sz \<le> CL_MAX_HT_BUCKETS \<Longrightarrow> ht_args as t sz = Inr (t', sz') \<Longrightarrow> sz' \<le> CL_MAX_HT_BUCKETS"
  by (induction as t sz rule: ht_args.induct) (auto simp: bindr_def size_hint_bound split: sum.splits)

lemma ht_args_errors: "ht_args as t sz \<noteq> Inl Storage_Error"
proof -
  have "size_hint n \<noteq> Inl Storage_Error" for n by (cases n) (simp_all add: Let_def)
  moreover have "test_by_name who n \<noteq> Inl Storage_Error" for who n by (cases n) simp_all
  ultimately show ?thesis by (induction as t sz rule: ht_args.induct) (auto simp: bindr_def split: sum.splits)
qed

text \<open>
  C16: a new table is empty and consistent, with two to \<open>2 ^ 20\<close> buckets whatever the arguments; every
  index into the buckets of a consistent table is in bounds, for any key.
\<close>

theorem make_hash_table_bounds:
  "(bi_make_hash_table args = Inr ht \<longrightarrow> ht_ok M ht \<and> (\<forall>key. ht_lookup ht key = None))
    \<and> bi_make_hash_table args \<noteq> Inl Storage_Error
    \<and> (ht_ok M tbl \<longrightarrow> bucket_index key (ht_test tbl) (bucket_count tbl) < length (ht_get_buckets tbl))"
proof (intro conjI impI)
  have d: "CL_HT_DEFAULT_BUCKETS \<le> CL_MAX_HT_BUCKETS" by (simp add: CL_HT_DEFAULT_BUCKETS_def CL_MAX_HT_BUCKETS_def)
  show "bi_make_hash_table args \<noteq> Inl Storage_Error"
  proof (cases "ht_args args CL_HT_TEST_EQL CL_HT_DEFAULT_BUCKETS")
    case (Inl e)
    then show ?thesis using ht_args_errors by (auto simp: bi_make_hash_table_def)
  next
    case (Inr r)
    obtain t sz where r: "r = (t, sz)" by (cases r)
    then have "sz \<le> CL_MAX_HT_BUCKETS" using ht_args_bound [OF d] Inr by simp
    then show ?thesis using Inr r by (simp add: bi_make_hash_table_def cl_make_hashtable_def Let_def not_less)
  qed
  show "ht_ok M ht" "\<forall>key. ht_lookup ht key = None" if "bi_make_hash_table args = Inr ht"
    using that make_hashtable_ok by (auto simp: bi_make_hash_table_def bindr_eq_Inr)
  show "bucket_index key (ht_test tbl) (bucket_count tbl) < length (ht_get_buckets tbl)" if ok: "ht_ok M tbl"
    using ht_okD [OF ok] bucket_index_less by metis
qed

section \<open>Whole tables\<close>

lemma pairs_entries:
  assumes ok: "ht_ok M ht"
  shows "concat (take (unat (bucket_count ht)) (ht_get_buckets ht)) = concat (ht_get_buckets ht)"
    "distinct (chain_reps (canon (ht_test ht)) (concat (ht_get_buckets ht)))" "\<forall>(k, v)\<in>set (concat (ht_get_buckets ht)). good_key M (ht_test ht) k"
    "ht_rep M ht (map_of (rep_entries (canon (ht_test ht)) (concat (ht_get_buckets ht))))"
    "unat (ht_count ht) = length (concat (ht_get_buckets ht))"
proof -
  obtain k where k: "buckets_ok (good_key M (ht_test ht)) (canon (ht_test ht)) (\<lambda>key. bucket_index key (ht_test ht) (2 ^ (k mod 32))) (ht_get_buckets ht)"
    "take (unat (bucket_count ht)) (ht_get_buckets ht) = ht_get_buckets ht" "unat (ht_count ht) = length (concat (ht_get_buckets ht))" by (metis ht_okD [OF ok])
  show "distinct (chain_reps (canon (ht_test ht)) (concat (ht_get_buckets ht)))" by (rule table.entries_distinct [OF k(1)])
  show "\<forall>(k, v)\<in>set (concat (ht_get_buckets ht)). good_key M (ht_test ht) k" using table.entries_good [OF k(1)] by blast
  show "ht_rep M ht (map_of (rep_entries (canon (ht_test ht)) (concat (ht_get_buckets ht))))" using table.entries_map [OF k(1)] ok by (simp add: ht_rep_def)
qed (use ok in \<open>auto elim: ht_okD\<close>)

lemma entry_lookup:
  assumes ok: "ht_ok M ht" and k: "good_key M (ht_test ht) k"
  shows "ht_lookup ht k = Some v \<longleftrightarrow> (\<exists>k'. (k', v) \<in> set (concat (ht_get_buckets ht)) \<and> keys_equal k' k (ht_test ht))"
proof -
  note P = pairs_entries [OF ok]
  have d: "distinct (map fst (rep_entries (canon (ht_test ht)) (concat (ht_get_buckets ht))))" unfolding rep_entries_fst by (rule P(2))
  have "ht_lookup ht k = Some v \<longleftrightarrow> (canon (ht_test ht) k, v) \<in> set (rep_entries (canon (ht_test ht)) (concat (ht_get_buckets ht)))"
    unfolding ht_lookup_rep [OF P(4) k] map_of_eq_Some_iff [OF d] ..
  also have "\<dots> \<longleftrightarrow> (\<exists>k'. (k', v) \<in> set (concat (ht_get_buckets ht)) \<and> canon (ht_test ht) k' = canon (ht_test ht) k)" by force
  also have "\<dots> \<longleftrightarrow> (\<exists>k'. (k', v) \<in> set (concat (ht_get_buckets ht)) \<and> keys_equal k' k (ht_test ht))"
    using P(3) keys_equal_canon(1) [OF _ k] by blast
  finally show ?thesis .
qed

lemma distinct_sorted_neq: "distinct xs \<longleftrightarrow> sorted_wrt (\<noteq>) xs"
  by (induction xs) auto

text \<open>
  C15: the list of the entries has one entry for each key, as many as the count says, and exactly
  those that lookup finds; \<open>maphash\<close> calls the function on them in the opposite order.
\<close>

theorem iteration_exact:
  assumes ok: "ht_ok M ht"
  shows "\<exists>ps. bi_hash_table_pairs (Some ht) = Inr ps \<and> length ps = unat (ht_count ht)
    \<and> sorted_wrt (\<lambda>e e'. \<not> keys_equal (fst e) (fst e') (ht_test ht)) ps
    \<and> (\<forall>k v. good_key M (ht_test ht) k \<longrightarrow> ht_lookup ht k = Some v \<longleftrightarrow> (\<exists>k'. (k', v) \<in> set ps \<and> keys_equal k' k (ht_test ht)))
    \<and> bi_maphash call (Some ht) s = Inr (foldr (\<lambda>(k, v). call k v) ps s)"
proof -
  let ?es = "concat (ht_get_buckets ht)" and ?t = "ht_test ht"
  note P = pairs_entries [OF ok]
  have "sorted_wrt (\<noteq>) (chain_reps (canon ?t) (rev ?es))" using P(2) by (simp only: distinct_sorted_neq [symmetric] rev_map [symmetric] distinct_rev)
  then have "sorted_wrt (\<lambda>e e'. (case e of (k, v) \<Rightarrow> canon ?t k) \<noteq> (case e' of (k, v) \<Rightarrow> canon ?t k)) (rev ?es)" unfolding sorted_wrt_map .
  then have "sorted_wrt (\<lambda>e e'. \<not> keys_equal (fst e) (fst e') ?t) (rev ?es)"
  proof (rule sorted_wrt_mono_rel [rotated])
    fix e e' assume e: "e \<in> set (rev ?es)" "e' \<in> set (rev ?es)" and ne: "(case e of (k, v) \<Rightarrow> canon ?t k) \<noteq> (case e' of (k, v) \<Rightarrow> canon ?t k)"
    obtain k v k' v' where kv: "e = (k, v)" "e' = (k', v')" by (cases e; cases e')
    have "good_key M ?t k" "good_key M ?t k'" using P(3) e unfolding kv by auto
    then show "\<not> keys_equal (fst e) (fst e') ?t" using ne keys_equal_canon(1) unfolding kv by simp
  qed
  then show ?thesis
    using entry_lookup [OF ok] P(5) by (simp add: bi_hash_table_pairs_def bi_maphash_def require_hash_table_def P(1) foldr_conv_fold)
qed

lemma table_domain:
  assumes ok: "ht_ok M ht"
  defines "m \<equiv> map_of (rep_entries (canon (ht_test ht)) (concat (ht_get_buckets ht)))"
  shows "finite (dom m)" "card (dom m) = unat (ht_count ht)" "c \<in> dom m \<longleftrightarrow> (\<exists>k. good_key M (ht_test ht) k \<and> ht_lookup ht k \<noteq> None \<and> canon (ht_test ht) k = c)"
proof -
  note P = pairs_entries [OF ok]
  have d: "dom m = set (chain_reps (canon (ht_test ht)) (concat (ht_get_buckets ht)))" unfolding m_def dom_map_of_conv_image_fst by force
  show "finite (dom m)" unfolding d by simp
  show "card (dom m) = unat (ht_count ht)" unfolding d distinct_card [OF P(2)] P(5) by simp
  have l: "ht_lookup ht k = m (canon (ht_test ht) k)" if "good_key M (ht_test ht) k" for k unfolding m_def by (rule ht_lookup_rep [OF P(4) that])
  show "c \<in> dom m \<longleftrightarrow> (\<exists>k. good_key M (ht_test ht) k \<and> ht_lookup ht k \<noteq> None \<and> canon (ht_test ht) k = c)"
  proof
    assume c: "c \<in> dom m"
    then obtain k v where "(k, v) \<in> set (concat (ht_get_buckets ht))" "canon (ht_test ht) k = c" unfolding d by force
    then show "\<exists>k. good_key M (ht_test ht) k \<and> ht_lookup ht k \<noteq> None \<and> canon (ht_test ht) k = c" using P(3) l c by fastforce
  qed (use l in \<open>auto simp: domIff\<close>)
qed

text \<open>
  C13: two tables are \<open>EQUALP\<close> exactly when they have the same test and lookup finds the same keys in
  both, with values that compare equal; the comparison itself walks over one of them only.
\<close>

theorem hashtable_equalp_exact:
  assumes ok: "ht_ok M a" "ht_ok M b"
  shows "cl_hashtable_equalp False a b val_eq \<longleftrightarrow>
    ht_test a = ht_test b \<and> (\<forall>k. good_key M (ht_test a) k \<longrightarrow> rel_option val_eq (ht_lookup a k) (ht_lookup b k))"
proof (cases "ht_test a = ht_test b")
  case t: True
  let ?t = "ht_test b" and ?es = "concat (ht_get_buckets a)"
  note D = table_domain [OF ok(1), unfolded t] and D' = table_domain [OF ok(2)] and P = pairs_entries [OF ok(1), unfolded t]
  let ?m = "map_of (rep_entries (canon ?t) (concat (ht_get_buckets a)))" and ?m' = "map_of (rep_entries (canon ?t) (concat (ht_get_buckets b)))"
  have cmp: "cl_hashtable_equalp False a b val_eq \<longleftrightarrow> ht_count a = ht_count b \<and> (\<forall>(k, v)\<in>set ?es. \<exists>v'. ht_lookup b k = Some v' \<and> val_eq v v')"
  proof -
    have "(case r of None \<Rightarrow> False | Some x \<Rightarrow> f x) \<longleftrightarrow> (\<exists>x. r = Some x \<and> f x)" for r :: "lobj option" and f by (cases r) auto
    then show ?thesis unfolding cl_hashtable_equalp_def P(1) ht_lookup_chain by (simp add: t list_all_iff case_prod_unfold)
  qed
  have same: "ht_lookup b k' = ht_lookup b k" if "good_key M ?t k" "good_key M ?t k'" "keys_equal k' k ?t" for k k'
    using that ht_lookup_rep [OF pairs_entries(4) [OF ok(2)]] keys_equal_canon(1) by metis
  have find: "ht_lookup a k = Some v \<longleftrightarrow> (\<exists>k'. (k', v) \<in> set ?es \<and> keys_equal k' k ?t)" if "good_key M ?t k" for k v
    using entry_lookup [OF ok(1)] that unfolding t by blast
  have refl: "keys_equal k k ?t" if "good_key M ?t k" for k using keys_equal_canon(1) that by blast
  show ?thesis unfolding cmp t simp_thms
  proof
    assume e: "ht_count a = ht_count b \<and> (\<forall>(k, v)\<in>set ?es. \<exists>v'. ht_lookup b k = Some v' \<and> val_eq v v')"
    have some: "\<exists>v'. ht_lookup b k = Some v' \<and> val_eq v v'" if k: "good_key M ?t k" and v: "ht_lookup a k = Some v" for k v
    proof -
      obtain k' where k': "(k', v) \<in> set ?es" "keys_equal k' k ?t" using find [OF k] v by blast
      then have "good_key M ?t k'" using P(3) by blast
      then have "ht_lookup b k' = ht_lookup b k" by (rule same [OF k _ k'(2)])
      moreover have "\<exists>v'. ht_lookup b k' = Some v' \<and> val_eq v v'" using e k'(1) by blast
      ultimately show ?thesis by simp
    qed
    then have "dom ?m \<subseteq> dom ?m'" using D(3) D'(3) by blast
    then have dom: "dom ?m = dom ?m'" using card_subset_eq [OF D'(1)] D(2) D'(2) e by simp
    have none: "ht_lookup b k = None" if k: "good_key M ?t k" and v: "ht_lookup a k = None" for k
    proof (rule ccontr)
      assume "ht_lookup b k \<noteq> None"
      then have "canon ?t k \<in> dom ?m" using dom D'(3) k by blast
      then obtain k' where k': "good_key M ?t k'" "ht_lookup a k' \<noteq> None" "canon ?t k' = canon ?t k" using D(3) by blast
      then show False using v k ht_lookup_rep [OF P(4)] by (metis t)
    qed
    show "\<forall>k. good_key M ?t k \<longrightarrow> rel_option val_eq (ht_lookup a k) (ht_lookup b k)"
    proof (intro allI impI)
      fix k assume k: "good_key M ?t k"
      show "rel_option val_eq (ht_lookup a k) (ht_lookup b k)"
        using some [OF k] none [OF k] by (cases "ht_lookup a k") auto
    qed
  next
    assume r: "\<forall>k. good_key M ?t k \<longrightarrow> rel_option val_eq (ht_lookup a k) (ht_lookup b k)"
    then have "ht_lookup a k \<noteq> None \<longleftrightarrow> ht_lookup b k \<noteq> None" if "good_key M ?t k" for k using that by (metis option.rel_distinct option.rel_sel)
    then have "dom ?m = dom ?m'" using D(3) D'(3) by blast
    then have "unat (ht_count a) = unat (ht_count b)" using D(2) D'(2) by metis
    moreover have "\<exists>v'. ht_lookup b k = Some v' \<and> val_eq v v'" if kv: "(k, v) \<in> set ?es" for k v
    proof -
      have k: "good_key M ?t k" using P(3) kv by blast
      then have "ht_lookup a k = Some v" using find kv refl by blast
      then have "rel_option val_eq (Some v) (ht_lookup b k)" using r k by metis
      then show ?thesis by (cases "ht_lookup b k") auto
    qed
    ultimately show "ht_count a = ht_count b \<and> (\<forall>(k, v)\<in>set ?es. \<exists>v'. ht_lookup b k = Some v' \<and> val_eq v v')" by (auto simp: word_unat_eq_iff)
  qed
qed (simp add: cl_hashtable_equalp_def)

lemma small_counts:
  assumes k: "1 \<le> k" "k \<le> 20"
  shows "(c :: u32) \<le> (2 ^ k * 3) div 4 \<longleftrightarrow> unat c \<le> (2 ^ k * 3) div 4"
proof -
  have "(2 :: nat) ^ k \<le> 2 ^ 20" using k(2) by (intro power_increasing) simp_all
  then have "unat (2 ^ k * 3 :: u32) = 2 ^ k * 3" using unat_power [OF k(2)] by (simp add: unat_word_ariths)
  then show ?thesis by (simp add: word_le_nat_alt unat_div)
qed

text \<open>
  Below the largest size, an insertion leaves at most three entries for four buckets.
\<close>

theorem load_factor_bounded:
  assumes ok: "ht_ok M ht" and single: "ht_flags ht AND CL_HT_FLAG_SYNC = 0 \<or> \<not> mt"
    and n: "bucket_count ht * 2 \<le> CL_HT_MAX_BUCKETS" and load: "ht_count ht \<le> (bucket_count ht * 3) div 4"
    and s: "bi_setf_gethash gc0 gc1 gc2 True mt b1 b2 key (Some ht) value = Inr (ht', v')"
  shows "ht_count ht' \<le> (bucket_count ht' * 3) div 4"
proof -
  obtain k where k: "1 \<le> k" "k \<le> 20" "bucket_count ht = 2 ^ k" using ok unfolding ht_ok_def by blast
  have "k \<noteq> 20"
  proof
    assume "k = 20"
    then show False using n k(3) by (simp add: CL_HT_MAX_BUCKETS_def)
  qed
  then have k': "1 \<le> Suc k" "Suc k \<le> 20" using k(2) by simp_all
  have c: "unat (ht_count ht) \<le> (2 ^ k * 3) div 4" using load small_counts [OF k(1,2)] k(3) by simp
  have two: "(2 :: nat) \<le> 2 ^ k" using power_increasing [OF k(1), of "2 :: nat"] by simp
  have c1: "unat (ht_count ht + 1) \<le> Suc (unat (ht_count ht))" by (cases "1 + ht_count ht = 0") (simp_all add: unatSuc add.commute)
  have "unat (ht_count ht + 1) \<le> (2 ^ Suc k * 3) div 4" using c1 c two by (simp add: div_le_mono)
  then have grown: "ht_count ht + 1 \<le> (2 ^ Suc k * 3) div 4" using small_counts [OF k'] by blast
  show ?thesis
  proof (cases "ht_overwrite key value ht")
    case (Some x)
    then have "ht' = x" "ht_count x = ht_count ht" "bucket_count x = bucket_count ht" using s unfolding setf_gethash_single [OF single] by (auto simp: ht_overwrite_def Let_def)
    then show ?thesis using load by simp
  next
    case None
    then show ?thesis using s n grown unfolding setf_gethash_single [OF single] by (auto simp: ht_maybe_rehash_def Let_def k(3) split: if_splits)
  qed
qed

section \<open>Character vectors under EQUALP\<close>

lemma keys_equal_refl: "keys_equal a a t"
  by (subst keys_equal.simps) simp

lemma keys_equal_elts_refl: "keys_equal_elts xs xs t"
  by (induction xs) (simp_all add: keys_equal_refl)

lemma chain_absent: "chain_find p c = None \<Longrightarrow> chain_set p w c = None"
  by (induction c) (auto split: if_splits)

lemma vectors_equalp:
  assumes "\<not> CL_STRING_VECTOR_P (Vector_At w' fl' xs)"
  shows "keys_equal (Vector_At w fl xs) (Vector_At w' fl' xs) CL_HT_TEST_EQUALP"
  using assms by (subst keys_equal.simps) (simp add: char_p_def is_equalp_xarr_def keys_equal_elts_refl ht_tests)

text \<open>For one character the hashes are its folded code and a number whose low eight bits are 9.\<close>

lemma char_code_make: "c < 0x1000000 \<Longrightarrow> char_code (Immediate (CL_MAKE_CHAR c)) = c"
proof -
  assume "c < 0x1000000"
  then have "unat c < 2 ^ 24" by (simp add: word_less_nat_alt)
  then have c: "take_bit 24 c = c" by (simp add: word_unat_eq_iff unsigned_take_bit_eq take_bit_nat_eq_self)
  have "drop_bit 8 (CL_MAKE_CHAR c) = take_bit 24 c"
  proof (rule bit_eqI)
    fix n
    have "bit (drop_bit 8 (CL_MAKE_CHAR c)) n \<longleftrightarrow> bit (push_bit 8 c) (8 + n) \<or> bit (0x0A :: u32) (8 + n)"
      by (simp only: CL_MAKE_CHAR_def bit_drop_bit_eq bit_or_iff comp_apply)
    then show "bit (drop_bit 8 (CL_MAKE_CHAR c)) n \<longleftrightarrow> bit (take_bit 24 c) n" by (auto simp only: bit_tag_char) (auto simp: bit_simps)
  qed
  then show ?thesis using c char_p_make by simp
qed

lemma make_char_low: "take_bit 8 (1023 + CL_MAKE_CHAR y) = 9"
proof -
  have "CL_MAKE_CHAR y = push_bit 8 y + 0x0A"
    unfolding CL_MAKE_CHAR_def
  proof (rule disjunctive_add [symmetric])
    fix n
    show "\<not> bit (push_bit 8 y) n \<or> \<not> bit (0x0A :: u32) n" unfolding bit_tag_char by (auto simp: bit_simps)
  qed
  then have e: "1023 + CL_MAKE_CHAR y = 1033 + 256 * y" by (simp add: push_bit_eq_mult)
  have u: "unat (take_bit 8 (1033 + 256 * y)) = 9"
    by (simp add: unsigned_take_bit_eq unat_word_ariths take_bit_eq_mod mod_mod_cancel) (subst mod_add_right_eq [symmetric], simp add: mod_mod_cancel)
  show ?thesis by (simp only: word_unat_eq_iff e u) simp
qed

lemma char_hashes:
  assumes c: "c < 0x1000000"
    and str: "CL_STRING_VECTOR_P (Vector_At w fl [Immediate (CL_MAKE_CHAR c)])" "\<not> CL_STRING_VECTOR_P (Vector_At w' fl' [Immediate (CL_MAKE_CHAR c)])"
  shows "hash_obj (Vector_At w fl [Immediate (CL_MAKE_CHAR c)]) CL_HT_TEST_EQUALP = take_bit 8 (fold_case c)"
    "take_bit 8 (hash_obj (Vector_At w' fl' [Immediate (CL_MAKE_CHAR c)]) CL_HT_TEST_EQUALP) = 9"
proof -
  have "hash_step 0 x = x" for x by (simp add: hash_step_def)
  moreover have "(ucast (ucast x :: u8) :: u32) = take_bit 8 x" for x :: u32
    by (rule bit_eqI) (auto simp: bit_simps)
  ultimately show "hash_obj (Vector_At w fl [Immediate (CL_MAKE_CHAR c)]) CL_HT_TEST_EQUALP = take_bit 8 (fold_case c)"
    using str(1) char_code_make [OF c] by (simp add: hash_string_content_def ht_tests del: char_code.simps)
  have "hash_immediate (CL_MAKE_CHAR c) CL_HT_TEST_EQUALP = hash_char_ci (CL_MAKE_CHAR c)"
    using char_not_fixnum [OF char_p_make, of c] char_p_make by (simp add: hash_immediate_def ht_tests CL_NIL_def)
  then show "take_bit 8 (hash_obj (Vector_At w' fl' [Immediate (CL_MAKE_CHAR c)]) CL_HT_TEST_EQUALP) = 9"
    using str(2) make_char_low by (simp add: hash_array_def hash_char_ci_def ht_tests)
qed

text \<open>
  C34: under \<open>EQUALP\<close> a character vector with a fill pointer equals the general vector with the same elements, but
  the one is hashed as a string and the other as an array.  In every consistent table with room, a value stored under
  the first is found under the second only where the two happen to share a bucket; for vectors of
  one character and at most 256 buckets, only if its code, folded to lower case, is 9 modulo the
  number of buckets.
\<close>

theorem string_vector_key_lost:
  fixes s v :: lobj
  assumes str: "s = Vector_At w fl xs" "CL_STRING_VECTOR_P s" and gen: "v = Vector_At w' fl' xs" "\<not> CL_STRING_VECTOR_P v"
    and ok: "ht_ok M ht" "ht_test ht = CL_HT_TEST_EQUALP" "ht_flags ht AND CL_HT_FLAG_SYNC = 0 \<or> \<not> mt"
    and fresh: "ht_lookup ht s = None" "ht_lookup ht v = None" and room: "ht_count ht + 1 \<le> (bucket_count ht * 3) div 4"
  shows "keys_equal s v CL_HT_TEST_EQUALP \<and> (\<exists>ht'. bi_setf_gethash None None None got mt b1 b2 s (Some ht) x = Inr (ht', x)
      \<and> ht_lookup ht' s = Some x
      \<and> ht_lookup ht' v = (if bucket_index s CL_HT_TEST_EQUALP (bucket_count ht) = bucket_index v CL_HT_TEST_EQUALP (bucket_count ht)
          then Some x else None)
      \<and> (\<forall>c. xs = [Immediate (CL_MAKE_CHAR c)] \<and> c < 0x1000000 \<and> bucket_count ht \<le> 256 \<longrightarrow>
            ht_lookup ht' v = Some x \<longleftrightarrow> unat (fold_case c) mod unat (bucket_count ht) = 9 mod unat (bucket_count ht)))"
proof -
  let ?t = CL_HT_TEST_EQUALP and ?ht = "ht_insert s x ht"
  obtain k where k: "k < 32" "bucket_count ht = 2 ^ k" "length (ht_get_buckets ht) = 2 ^ k" "unat (bucket_count ht) = 2 ^ k"
    using ht_okD [OF ok(1)] by metis
  have eq: "keys_equal s v ?t" using vectors_equalp gen(2) unfolding str(1) gen(1) by blast
  have i: "bucket_index key ?t (bucket_count ht) < length (ht_get_buckets ht)" for key unfolding k(2,3) by (rule bucket_index_less [OF k(1)])
  have over: "ht_overwrite s x ht = None"
    using fresh(1) chain_absent [of _ _ x] by (simp add: ht_overwrite_def ht_lookup_chain Let_def)
  have set: "bi_setf_gethash None None None got mt b1 b2 s (Some ht) x = Inr (?ht, x)"
    using room by (simp add: setf_gethash_single [OF ok(3)] over ht_maybe_rehash_def collect_obj_def collect_table_def)
  have look: "ht_lookup ?ht key = (if bucket_index key ?t (bucket_count ht) = bucket_index s ?t (bucket_count ht) \<and> keys_equal s key ?t then Some x else ht_lookup ht key)" for key
    using i [of s] by (auto simp: ht_lookup_chain ht_insert_def relink_def ok(2) nth_list_update)
  have ls: "ht_lookup ?ht s = Some x" and lv: "ht_lookup ?ht v = (if bucket_index s ?t (bucket_count ht) = bucket_index v ?t (bucket_count ht) then Some x else None)"
    unfolding look using keys_equal_refl eq fresh by auto
  have one: "bucket_index s ?t (bucket_count ht) = bucket_index v ?t (bucket_count ht)
      \<longleftrightarrow> unat (fold_case c) mod unat (bucket_count ht) = 9 mod unat (bucket_count ht)"
    if c: "xs = [Immediate (CL_MAKE_CHAR c)]" "c < 0x1000000" "bucket_count ht \<le> 256" for c
  proof -
    have "(2 :: nat) ^ k \<le> 2 ^ 8" using c(3) k(4) by (simp add: word_le_nat_alt)
    then have k8: "k \<le> 8" using power_le_imp_le_exp [of "2 :: nat" k 8] by simp
    then have low: "take_bit k a = take_bit k (take_bit 8 a)" for a :: u32 by (simp add: min_absorb1)
    note h = char_hashes [OF c(2) str(2) [unfolded str(1) c(1)] gen(2) [unfolded gen(1) c(1)], folded c(1), folded str(1) gen(1)]
    have "bucket_index s ?t (2 ^ k) = unat (take_bit k (fold_case c))" "bucket_index v ?t (2 ^ k) = unat (take_bit k (9 :: u32))"
      unfolding bucket_index_low [OF k(1)] h(1) low [of "hash_obj v ?t"] h(2) using k8 by (simp_all add: min_absorb1)
    then show ?thesis unfolding k(2) using k(4) by (simp add: k(2) unat_mod take_bit_eq_mod)
  qed
  show ?thesis using eq set ls lv one by auto
qed

section \<open>The properties at sample tables\<close>

lemma sample_facts:
  "ht_ok sample_memory sample_table" "good_key sample_memory CL_HT_TEST_EQ sample_key" "ht_lookup sample_table k = None"
  "ht_test sample_table = CL_HT_TEST_EQ" "ht_count sample_table = 0" "ht_flags sample_table = 0" "bucket_count sample_table = 16"
proof -
  have "cl_make_hashtable 16 CL_HT_TEST_EQ = Inr sample_table"
    by (simp add: cl_make_hashtable_def CL_MAX_HT_BUCKETS_def pow2_loop.simps sample_table_def)
  then show "ht_ok sample_memory sample_table" "ht_lookup sample_table k = None" using make_hashtable_ok by blast+
  show "good_key sample_memory CL_HT_TEST_EQ sample_key"
    by (simp add: good_key_def sample_key_def sample_memory_def CL_HEAP_P_def CL_NIL_def ht_tests)
qed (simp_all add: sample_table_def)

lemma filled_facts: "ht_ok sample_memory filled_table" "ht_lookup filled_table sample_key = Some sample_value"
  "ht_test filled_table = CL_HT_TEST_EQ" "ht_count filled_table = 1"
proof -
  have "good_key sample_memory (ht_test sample_table) sample_key" "ht_count sample_table \<noteq> - 1" using sample_facts(2,4,5) by simp_all
  note I = insert_lookup [OF sample_facts(1) this(1) sample_facts(3) this(2), where v = sample_value, folded filled_table_def]
  show "ht_ok sample_memory filled_table" "ht_lookup filled_table sample_key = Some sample_value"
    using I sample_facts(2,4) keys_equal_canon(1) by simp_all
qed (simp_all add: filled_table_def sample_facts)

lemma sample_moves: "heap_moves sample_move sample_memory moved_memory"
  unfolding heap_moves_def
proof (intro conjI allI impI)
  show "inj sample_move" by (rule injI) (auto simp: sample_move_def split: if_splits)
  show "sample_move w = w" if "\<not> CL_HEAP_P w" for w using that by (auto simp: sample_move_def CL_HEAP_P_def CL_NIL_def)
  show "CL_HEAP_P (sample_move w)" if "CL_HEAP_P w" for w using that by (auto simp: sample_move_def CL_HEAP_P_def CL_NIL_def)
  show "moved_memory (sample_move w) = relocate sample_move (sample_memory w)" for w
    by (auto simp: sample_move_def moved_memory_def sample_memory_def)
qed

lemma sample_moves_back: "heap_moves sample_move moved_memory sample_memory"
proof -
  have "relocate sample_move (relocate sample_move sample_key) = sample_key" by (simp add: sample_key_def sample_move_def)
  then show ?thesis using sample_moves by (auto simp: heap_moves_def sample_move_def sample_memory_def moved_memory_def)
qed

theorem setf_gethash_exact_witness:
  "\<exists>ht' mv M'. bi_setf_gethash (Some sample_move) None (Some sample_move) True False id id sample_key (Some sample_table) sample_value = Inr (ht', mv sample_value)
    \<and> ht_lookup ht' (mv sample_key) = Some (mv sample_value) \<and> ht_ok M' ht'"
proof -
  have "good_key sample_memory (ht_test sample_table) sample_key" "ht_count sample_table \<noteq> - 1" "collected (Some sample_move) sample_memory moved_memory"
    "collected None moved_memory moved_memory" "collected (Some sample_move) moved_memory sample_memory" "ht_flags sample_table AND CL_HT_FLAG_SYNC = 0 \<or> \<not> False"
    using sample_facts sample_moves sample_moves_back by simp_all
  from setf_gethash_exact [OF sample_facts(1) this] show ?thesis using sample_facts(2,4) keys_equal_canon(1) by metis
qed

theorem setf_gethash_sync_exact_witness:
  "ht_lookup (bi_setf_gethash_sync True filled_table sample_table sample_key sample_value) sample_key = Some sample_value"
proof -
  have "good_key sample_memory (ht_test sample_table) sample_key" "ht_count sample_table \<noteq> - 1" using sample_facts(2,4,5) by simp_all
  from setf_gethash_sync_exact [OF sample_facts(1) this] show ?thesis using sample_facts(2,4) keys_equal_canon(1) by metis
qed

theorem remhash_clrhash_exact_witness:
  "\<exists>ht'. bi_remhash sample_key (Some filled_table) = Inr (ht', True) \<and> ht_lookup ht' sample_key = None"
proof -
  have "good_key sample_memory (ht_test filled_table) sample_key" using sample_facts(2) filled_facts(3) by simp
  from remhash_clrhash_exact [OF filled_facts(1) this] show ?thesis using filled_facts(2,3) sample_facts(2) keys_equal_canon(1) by force
qed

theorem rehash_keeps_entries_witness:
  "ht_lookup (gc_rehash_table (move_table sample_move filled_table)) (relocate sample_move sample_key) = Some (relocate sample_move sample_value)"
  using rehash_keeps_entries [OF filled_facts(1) sample_moves] sample_facts(2) filled_facts(2,3) by simp

theorem string_vector_key_lost_witness:
  "\<exists>ht ht'. bi_make_hash_table [Test_Arg (Some ''EQUALP'')] = Inr ht
    \<and> bi_setf_gethash None None None True False id id fill_vector (Some ht) sample_value = Inr (ht', sample_value)
    \<and> ht_lookup ht' fill_vector = Some sample_value \<and> ht_lookup ht' char_vector = None"
proof -
  define ht where "ht = \<lparr> ht_test = CL_HT_TEST_EQUALP, ht_count = 0, bucket_count = 16, ht_flags = 0, bucket_vec = None, inline_buckets = replicate 16 [] \<rparr>"
  have make: "cl_make_hashtable 16 CL_HT_TEST_EQUALP = Inr ht"
    by (simp add: cl_make_hashtable_def CL_MAX_HT_BUCKETS_def pow2_loop.simps ht_def)
  have "CL_STRING_VECTOR_P fill_vector" "\<not> CL_STRING_VECTOR_P char_vector" by (simp_all add: fill_vector_def char_vector_def CL_VEC_FLAG_STRING_def)
  moreover have "ht_ok sample_memory ht" "ht_lookup ht key = None" for key using make_hashtable_ok [OF make] by blast+
  ultimately have "\<exists>ht'. bi_setf_gethash None None None True False id id fill_vector (Some ht) sample_value = Inr (ht', sample_value)
      \<and> ht_lookup ht' fill_vector = Some sample_value \<and> ht_lookup ht' char_vector = None"
    using string_vector_key_lost [OF fill_vector_def _ char_vector_def, of sample_memory ht False True id id sample_value]
    by (fastforce simp: ht_def fold_case_def)
  moreover have "bi_make_hash_table [Test_Arg (Some ''EQUALP'')] = Inr ht"
    using make by (simp add: bi_make_hash_table_def CL_HT_DEFAULT_BUCKETS_def)
  ultimately show ?thesis by blast
qed

theorem keys_contract_witness: "bucket_index (String_At 0x100 [97]) CL_HT_TEST_EQUAL (2 ^ 4) = bucket_index (Wide_String_At 0x200 [97]) CL_HT_TEST_EQUAL (2 ^ 4)"
proof -
  define M where "M w = (if w = 0x100 then String_At 0x100 [97] else Wide_String_At 0x200 [97])" for w :: u32
  have g: "good_key M CL_HT_TEST_EQUAL (String_At 0x100 [97])" "good_key M CL_HT_TEST_EQUAL (Wide_String_At 0x200 [97])"
    by (simp_all add: good_key_def M_def CL_HEAP_P_def CL_NIL_def ht_tests)
  have "keys_equal (String_At 0x100 [97]) (Wide_String_At 0x200 [97]) CL_HT_TEST_EQUAL"
    by (simp add: keys_equal.simps strings_equal_def char_p_def ht_tests)
  then have "\<forall>k<32. bucket_index (String_At 0x100 [97]) CL_HT_TEST_EQUAL (2 ^ k) = bucket_index (Wide_String_At 0x200 [97]) CL_HT_TEST_EQUAL (2 ^ k)"
    using keys_contract [OF g g(2)] by blast
  then show ?thesis by (rule allE [where x = 4]) simp
qed

theorem make_hash_table_bounds_witness:
  "\<exists>ht. bi_make_hash_table [] = Inr ht \<and> ht_lookup ht sample_key = None \<and> bucket_index sample_key CL_HT_TEST_EQ 16 < 16"
proof -
  define ht where "ht = projr (bi_make_hash_table [])"
  have "bi_make_hash_table [] = Inr ht"
    by (simp add: ht_def bi_make_hash_table_def cl_make_hashtable_def CL_HT_DEFAULT_BUCKETS_def CL_MAX_HT_BUCKETS_def pow2_loop.simps)
  moreover have "length (ht_get_buckets sample_table) = 16" by (simp add: sample_table_def ht_get_buckets_def)
  ultimately show ?thesis
    using make_hash_table_bounds [of "[]" ht sample_memory sample_table sample_key] sample_facts by simp
qed

theorem iteration_exact_witness: "\<exists>ps. bi_hash_table_pairs (Some filled_table) = Inr ps \<and> length ps = 1"
  using iteration_exact [OF filled_facts(1), of "\<lambda>k v s. s" "()"] filled_facts(4) by auto

theorem hashtable_equalp_exact_witness: "cl_hashtable_equalp False filled_table filled_table (=) \<and> \<not> cl_hashtable_equalp False filled_table sample_table (=)"
proof -
  have "\<not> rel_option (=) (ht_lookup filled_table sample_key) (ht_lookup sample_table sample_key)" using filled_facts(2) sample_facts(3) by simp
  then show ?thesis
    using hashtable_equalp_exact [OF filled_facts(1) filled_facts(1)] hashtable_equalp_exact [OF filled_facts(1) sample_facts(1)]
      sample_facts(2) filled_facts(3) by (auto simp: option.rel_eq)
qed

end
