(* ===== verification/Spec2Isabelle.thy ===== *)
theory Spec2Isabelle
  imports Builtins_Laws Bignum_IO Env_Macros Arena_Laws Update_Laws Hashtab_Props
begin

text \<open>
  A verification library for CL-Amiga, a Common Lisp system in C whose compiler, bytecode
  machine, collector and runtime library live under \<open>src/core\<close>.

  \<^bold>\<open>The program.\<close>  A Lisp object is a tagged 32-bit word (\<open>types.h\<close>): a 31-bit fixnum, a
  character, or the arena offset of a heap object with a header word.  Numbers form a tower:
  fixnums and bignums of 16-bit limbs (\<open>bignum.c\<close>), ratios of two integers (\<open>ratio.c\<close>),
  single and double floats (\<open>float.c\<close>), and complex numbers of two reals.  The entry points
  \<open>cl_arith_*\<close> of \<open>bignum.c\<close> dispatch on the kind of the operands; the builtins of
  \<open>builtins_arith.c\<close> check their arguments and call them.  The compiler keeps one
  \<open>CL_CompEnv\<close> per function being compiled (\<open>env.c\<close>), linked to that of the enclosing
  function, in which it binds and looks up variables, local functions, macros and
  symbol-macros, and records which variables of the enclosing functions a closure captures.
  Heap objects live in one arena (\<open>mem.c\<close>), allocated at its front or from a list of free
  blocks (\<open>gc_classic.c\<close>).  A collection marks what the roots reach (\<open>gc_trace.c\<close>), then it either sweeps the arena or slides the
  live objects together (\<open>gc_compact.c\<close>); an index of block starts (\<open>gc_jitscan.c\<close>) serves the
  conservative scan of native stacks, whose finds are pinned.  Hash tables
  (\<open>builtins_hashtable.c\<close>) chain entries in a power of two of buckets; a test hashes some
  keys by their address, so after a collection that moves objects the tables are rehashed.

  \<^bold>\<open>Theories.\<close>
  \<^item> \<open>Prelude\<close>: the result type (\<open>'a res\<close>, a sum with the errors on the left), its bind, word
    and list lemmas, the value of a list of limbs.
  \<^item> \<open>Object\<close>: the tag and header macros on words, and \<open>cl_val\<close>, a Lisp value with its numeric
    heap objects inline; other heap objects are opaque.
  \<^item> \<open>Limbs\<close>: comparison, sum, difference, product and single-limb quotient of magnitudes, with
    16- and 32-bit limbs and both platform variants of the small product.
  \<^item> \<open>Knuth\<close>: \<open>bignum_divmod\<close>, multi-limb division.
  \<^item> \<open>Bignum\<close>: integer objects, their allocation, normalisation, equality and hash; addition,
    multiplication, division, sign operations.
  \<^item> \<open>Integer_Ops\<close>: gcd, powers, integer square root, bit length, arithmetic shift.
  \<^item> \<open>Bitops\<close>: logical operations through two's-complement copies.
  \<^item> \<open>Bignum_IO\<close>: reading decimal literals and printing in any radix.
  \<^item> \<open>Ratio_Arith\<close>: \<open>ratio.c\<close>.
  \<^item> \<open>Numeric\<close>: the dispatching entry points and complex numbers.
  \<^item> \<open>Builtins_Arith\<close>: the builtins, with rounding, \<open>mod\<close> and \<open>rem\<close>; \<open>Builtins_Laws\<close>: functions of
    many arguments, order, byte fields.
  \<^item> \<open>Env\<close>: the compile-time environment, lookup and inlined local functions; \<open>Env_Capture\<close>:
    captured variables and the invariant; \<open>Env_Macros\<close>: macros and symbol-macros.
  \<^item> \<open>Arena\<close>: the heap, allocation, sweep, block-start index; \<open>Arena_Sweep\<close>: the sweep refines a
    function on lists of blocks; \<open>Arena_Alloc\<close>: allocation keeps the heap well formed;
    \<open>Arena_Laws\<close>: reachable heaps and the properties.
  \<^item> \<open>Compact\<close>: forwarding tables, lookup, slide; \<open>Compact_Tables\<close>, \<open>Compact_Forward\<close>: the tables and
    the lookup; \<open>Compact_Slide\<close>: the slide refines a function on lists of blocks; \<open>Compact_Laws\<close>:
    the properties.
  \<^item> \<open>Trace\<close>: the reference fields of each object type and the mark phase; \<open>Trace_Mark\<close>:
    reachability and the invariant of the trace; \<open>Trace_Laws\<close>: marking is exact, and so is a
    collection that sweeps.
  \<^item> \<open>Update\<close>: the update of fields and root slots, and compaction as a whole; \<open>Update_Roots\<close>,
    \<open>Update_Fields\<close>: each slot is forwarded once; \<open>Update_Graph\<close>, \<open>Update_Move\<close>: the object graph
    under a renaming; \<open>Update_Laws\<close>: the properties.
  \<^item> \<open>Keys\<close>: hashing and comparison of keys for the four tests; \<open>Keys_Canon\<close>, \<open>Keys_Hash\<close>: comparison
    is equality of a canonical form, of which the hash is a function; \<open>Keys_Move\<close>: keys when objects move.
  \<^item> \<open>Hashtab\<close>: tables and their operations; \<open>Buckets\<close>: chained buckets over any keys as finite
    maps; \<open>Hashtab_Laws\<close>, \<open>Hashtab_Move\<close>: what lookup finds after each step and after a collection;
    \<open>Hashtab_Props\<close>: the properties.

  \<^bold>\<open>Correspondence.\<close>  Definitions keep the names of the C functions.  The integer part of
  \<open>cl_arith_add\<close> is \<open>integer_add\<close>, and so for the other entry points, since \<open>ratio.c\<close> calls them
  back on integers; \<open>cl_arith_add\<close> itself is the dispatcher.  A loop of a C function is a
  function of its own where it needs an invariant.  \<open>cl_error\<close> is the left side of the result:
  a type error, a division by zero, exhausted storage, wrong arguments; \<open>Undefined\<close> marks an
  access the C language leaves undefined, \<open>Float_Path\<close> the call of a floating-point routine,
  named by its argument, and \<open>No_Return\<close> exhausted fuel.  \<open>int32_t\<close> values whose range is
  checked by the code are integers with the check written out; limbs, double limbs, tags and
  hashes are words.  A limb array with its length is a list.  The array entries of an
  environment below their count are lists; the chain of parents is a list of environments.
  The arena is a function from byte offsets to 32-bit words, \<open>cl_heap\<close> a record with the fields
  of \<open>CL_Heap\<close> the code uses and the index.  An allocation returns the block, or that the request
  is too large or a collection is due.  The alignment is that of 64-bit hosts.

  \<^bold>\<open>Interfaces.\<close>  \<open>limb_mul\<close> is what the two schoolbook products share; \<open>int_binop\<close> and
  \<open>comm_int_binop\<close> are the contract of a binary integer operation, \<open>rat_binop\<close> and
  \<open>comm_rat_binop\<close> of one on rationals, \<open>componentwise\<close> of one that works on the parts of a
  complex number; \<open>slot_lookup\<close> and \<open>bounded_lookup\<close> are what resolution of captured names
  needs of a lookup; \<open>block_allocator\<close> is what a sequence of allocations needs of one; \<open>key_contract\<close> is
  what chained buckets need of comparison and hash.  Each is interpreted on the model's operations, and the folds over
  arguments and the resolution of variables and of functions are proved once inside them.

  \<^bold>\<open>What is shown.\<close>  Every arithmetic routine returns the canonical object of the exact
  result, on every path through fixnums and bignums, or the storage error when the result
  does not fit; integers and rationals have one representation each, so equality and hash of
  objects agree with values.  Division by zero signals.  Rounding gives the quotient of its
  mode and the matching remainder, and \<open>mod\<close> and \<open>rem\<close> agree with it, except for the pairs
  (\<open>wrap_pair\<close>) whose fixnum quotient wraps, where the wrong values are stated.  Byte fields, logical
  operations and shifts act on the infinite two's complement.  Decimal print and read are
  inverse within the reader's 256 limbs.  For environments: lookup finds the innermost
  visible binding, an inlined body resolves its names where the function was defined,
  in an environment without inlined calls of its own,
  resolution of a captured variable leads to the slot that a search through the enclosing
  functions finds and keeps earlier captures, capacities and boxing flags stay consistent,
  and a nested function inherits the macros of its parent.  For the heap: in every heap
  reachable by allocations, stores, sweeps and slides the headers tile the span in use, the free
  list is a list of distinct blocks of it and the counters are exact; allocation returns fresh
  zeroed blocks and touches no other; marking ends with exactly the reachable objects
  marked, also when the mark stack cannot grow and objects are dropped and found again; the
  sweep keeps exactly the marked blocks; the slide
  moves each live block, word for word, to the address that the forwarding tables gave before
  the move, pinned blocks not at all, and leaves a well-formed heap; compaction as a whole keeps the graph of reachable objects: each
  slot, in objects, in arrays outside and among the roots, is forwarded exactly once, and what
  is reachable afterwards is the image of what was; without memory for it nothing moves; the block-start index
  answers like a walk of all headers.  For hash tables: comparison of keys is an equivalence
  that hashing respects, under \<open>EQUALP\<close> for keys without character vectors; a consistent table acts as a finite map under insertion, with
  collections at each of its allocations, removal, clearing and growth; a rehash after a move
  keeps every entry where lookup finds it; the insertion under the lock depends only on the
  table it finds there; the comparison of tables, which walks over one of them, is exact; new tables have
  \<open>2\<close> to \<open>2 ^ 20\<close> buckets.

  \<^bold>\<open>Flaws shown.\<close>  \<open>truncate\<close> of the least fixnum by -1 wraps, so \<open>floor\<close> and \<open>mod\<close> of that pair disagree; negation and absolute value
  lose limbs from 65536 on; a decimal literal above 4096 bits is read modulo \<open>2 ^ 4096\<close>;
  \<open>plusp\<close>, \<open>minusp\<close>, \<open>max\<close> and \<open>min\<close> read a complex number as a bignum; a function inlined inside
  an inlined body sees bindings of the outer call site; a closure in an inlined body sees
  hidden macros; macro expanders are given the outermost of two macros of one name, and
  symbol-macros that a local shadows; a block that absorbs the last bytes of the arena can
  have a size that does not fit its header; under \<open>EQUALP\<close> a character vector and a general vector that
  compare equal are hashed differently.

  \<^bold>\<open>Bounds and fuel.\<close>  \<open>CL_MAX_BIGNUM_LIMBS\<close> limits an integer; results of negation and absolute
  value are exact below 65536 limbs (\<open>copyable\<close>), and the theorems on ratios and complex
  numbers bound their operands by bit counts that keep every intermediate value below that.
  \<open>gcd_loop\<close> starts with one more step than the value of the divisor, \<open>expt_loop\<close> than the
  exponent, \<open>isqrt_correct\<close> than the candidate, \<open>print_loop\<close> than the bits of the number, and each
  is proved to return.  \<open>isqrt_newton\<close> has the limit of 1000 steps of the source.  Lookups and
  the walk over a band end by a measure, and so do all loops over the arena.  The walk of the
  free list has one step more than the bytes in use, which suffices for a well-formed list.
  Offsets are natural numbers: the arena with one page more fits 32 bits.  Keys of tables are
  trees whose words are their addresses (\<open>wf_key\<close>), without character vectors under \<open>EQUALP\<close>
  (\<open>plain_key\<close>); an insertion needs an entry count below \<open>2 ^ 32 - 1\<close>.

  \<^bold>\<open>Not modelled.\<close>  Floating-point arithmetic and the decoding functions of floats, which rest
  on the C compiler's IEEE operations; which addresses are root slots and which words of native
  stacks the conservative scan accepts (arguments of the mark phase and the compactor), the
  limit on the mark stack that tests set, finalizers and side tables of the collector, the
  walk over all tables that rehashes each, the choice between sweep and compaction, the chunks of
  threads and the generational and region-based collectors; the arithmetic theories work on
  values, not on the arena (the rooting of locals is not checked); the bytecode
  machine, the rest of the compiler, the peephole pass and the code generators; reader and
  printer beyond their bignum conversions; streams, packages, conditions,
  threads and the platform layer.  Of the inlining of local functions only the effect on the
  environment is modelled, not the scan that decides it, the emitted code or the bands of
  the block and tag tables.
\<close>

end
